(* ===== verification/Prelude.thy ===== *)
theory Prelude
  imports Main "HOL-Library.Sublist" "HOL-Library.Monad_Syntax"
begin

text \<open>
  What every component theory shares: results with an error side, folds that stop at the first
  error, the first position of an element of a list, the order of two elements of a list, and the
  collections of rewrite rules the component proofs use. Nothing here is about gonf itself.
\<close>

section \<open>Collections\<close>

text \<open>
  \<open>res_simps\<close> takes a result apart, \<open>frame_simps\<close> holds the facts that an operation leaves a
  part of its state alone, and \<open>inv_intros\<close> the preservation lemmas of the invariants.
\<close>

named_theorems res_simps
named_theorems frame_simps
named_theorems inv_intros

section \<open>Results: a Go call that returns a value or an error\<close>

type_synonym ('e, 'a) result = "'e + 'a"

fun bind_res :: "('e, 'a) result \<Rightarrow> ('a \<Rightarrow> ('e, 'b) result) \<Rightarrow> ('e, 'b) result" where
  "bind_res (Inl e) f = Inl e"
| "bind_res (Inr a) f = f a"

fun map_err :: "('e \<Rightarrow> 'f) \<Rightarrow> ('e, 'a) result \<Rightarrow> ('f, 'a) result" where
  "map_err g (Inl e) = Inl (g e)"
| "map_err g (Inr a) = Inr a"

definition is_ok :: "('e, 'a) result \<Rightarrow> bool" where
  "is_ok r \<longleftrightarrow> (case r of Inl _ \<Rightarrow> False | Inr _ \<Rightarrow> True)"

lemma is_ok_simps [simp]: "is_ok (Inr a)" "\<not> is_ok (Inl e)"
  by (simp_all add: is_ok_def)

lemma is_ok_iff: "is_ok r \<longleftrightarrow> (\<exists>a. r = Inr a)"
  by (cases r) simp_all

lemma bind_res_Inr_iff [res_simps]:
  "bind_res r f = Inr b \<longleftrightarrow> (\<exists>a. r = Inr a \<and> f a = Inr b)"
  by (cases r) simp_all

lemma bind_res_Inl_iff [res_simps]:
  "bind_res r f = Inl e \<longleftrightarrow> r = Inl e \<or> (\<exists>a. r = Inr a \<and> f a = Inl e)"
  by (cases r) simp_all

lemma map_err_Inr_iff [res_simps]: "map_err g r = Inr a \<longleftrightarrow> r = Inr a"
  by (cases r) simp_all

lemma bind_res_cong [fundef_cong]:
  "r = r' \<Longrightarrow> (\<And>a. r' = Inr a \<Longrightarrow> f a = g a) \<Longrightarrow> bind_res r f = bind_res r' g"
  by (cases r') simp_all

text \<open>A check that returns only an error: \<open>Inr ()\<close> is Go's \<open>nil\<close>.\<close>

type_synonym 'e check = "('e, unit) result"

definition guard_res :: "bool \<Rightarrow> 'e \<Rightarrow> 'e check" where
  "guard_res b e = (if b then Inr () else Inl e)"

lemma guard_res_Inr_iff [res_simps]: "guard_res b e = Inr u \<longleftrightarrow> b"
  by (simp add: guard_res_def)

lemma guard_res_Inl_iff [res_simps]: "guard_res b e = Inl e' \<longleftrightarrow> \<not> b \<and> e = e'"
  by (auto simp: guard_res_def)

text \<open>A loop that returns at the first failing element.\<close>

fun check_all :: "('a \<Rightarrow> 'e check) \<Rightarrow> 'a list \<Rightarrow> 'e check" where
  "check_all f [] = Inr ()"
| "check_all f (x # xs) = bind_res (f x) (\<lambda>_. check_all f xs)"

lemma check_all_Inr_iff [res_simps]:
  "check_all f xs = Inr u \<longleftrightarrow> (\<forall>x \<in> set xs. f x = Inr ())"
  by (induction xs) (auto simp: res_simps)

lemma check_all_InlD:
  "check_all f xs = Inl e \<Longrightarrow> \<exists>x \<in> set xs. f x = Inl e"
  by (induction xs) (auto simp: res_simps)

lemma check_all_append:
  "check_all f (xs @ ys) = bind_res (check_all f xs) (\<lambda>_. check_all f ys)"
proof (induction xs)
  case (Cons x xs)
  then show ?case by (cases "f x") simp_all
qed simp

lemma check_all_cong [fundef_cong]:
  "xs = ys \<Longrightarrow> (\<And>x. x \<in> set ys \<Longrightarrow> f x = g x) \<Longrightarrow> check_all f xs = check_all g ys"
proof -
  assume eq: "xs = ys" and fg: "\<And>x. x \<in> set ys \<Longrightarrow> f x = g x"
  have "check_all f ys = check_all g ys" using fg by (induction ys) simp_all
  with eq show ?thesis by simp
qed

text \<open>A loop with an accumulator that returns at the first failing element.\<close>

fun fold_res :: "('a \<Rightarrow> 's \<Rightarrow> ('e, 's) result) \<Rightarrow> 'a list \<Rightarrow> 's \<Rightarrow> ('e, 's) result" where
  "fold_res f [] s = Inr s"
| "fold_res f (x # xs) s = bind_res (f x s) (fold_res f xs)"

lemma fold_res_cong [fundef_cong]:
  "xs = ys \<Longrightarrow> s = t \<Longrightarrow> (\<And>x s. x \<in> set ys \<Longrightarrow> f x s = g x s) \<Longrightarrow>
     fold_res f xs s = fold_res g ys t"
proof -
  assume eq: "xs = ys" "s = t" and fg: "\<And>x s. x \<in> set ys \<Longrightarrow> f x s = g x s"
  have "fold_res f ys s = fold_res g ys s" for s
    using fg by (induction ys arbitrary: s) (auto intro: bind_res_cong)
  with eq show ?thesis by simp
qed

lemma fold_res_append:
  "fold_res f (xs @ ys) s = bind_res (fold_res f xs s) (fold_res f ys)"
proof (induction xs arbitrary: s)
  case (Cons x xs)
  then show ?case by (cases "f x s") simp_all
qed simp

lemma fold_res_invariant:
  assumes "fold_res f xs s = Inr t" and "P s"
    and "\<And>x s s'. x \<in> set xs \<Longrightarrow> P s \<Longrightarrow> f x s = Inr s' \<Longrightarrow> P s'"
  shows "P t"
  using assms
proof (induction xs arbitrary: s)
  case (Cons x xs)
  from Cons.prems(1) obtain s' where s': "f x s = Inr s'" and "fold_res f xs s' = Inr t"
    by (auto simp: res_simps)
  moreover have "P s'" using Cons.prems(2,3) s' by fastforce
  ultimately show ?case using Cons.IH [of s'] Cons.prems(3) by (metis list.set_intros(2))
qed simp

section \<open>Positions in a list\<close>

fun first_index :: "('a \<Rightarrow> bool) \<Rightarrow> 'a list \<Rightarrow> nat option" where
  "first_index p [] = None"
| "first_index p (x # xs) = (if p x then Some 0 else map_option Suc (first_index p xs))"

lemma first_index_None_iff: "first_index p xs = None \<longleftrightarrow> (\<forall>x \<in> set xs. \<not> p x)"
  by (induction xs) auto

lemma first_index_SomeD:
  "first_index p xs = Some i \<Longrightarrow> i < length xs \<and> p (xs ! i) \<and> (\<forall>j < i. \<not> p (xs ! j))"
proof (induction xs arbitrary: i)
  case (Cons x xs)
  then show ?case by (cases i) (auto split: if_splits simp: nth_Cons split: nat.splits)
qed simp

lemma first_index_Some_intro:
  "i < length xs \<Longrightarrow> p (xs ! i) \<Longrightarrow> (\<And>j. j < i \<Longrightarrow> \<not> p (xs ! j)) \<Longrightarrow> first_index p xs = Some i"
proof (induction xs arbitrary: i)
  case (Cons x xs)
  show ?case
  proof (cases i)
    case 0
    with Cons.prems show ?thesis by simp
  next
    case (Suc k)
    have "\<not> p x" using Cons.prems(3) [of 0] Suc by simp
    moreover have "first_index p xs = Some k"
      using Cons.prems(1,2) Suc Cons.prems(3) [of "Suc _"] by (intro Cons.IH) auto
    ultimately show ?thesis using Suc by simp
  qed
qed simp

lemma first_index_bound [dest]: "first_index p xs = Some i \<Longrightarrow> i < length xs"
  by (blast dest: first_index_SomeD)

lemma first_index_exists: "x \<in> set xs \<Longrightarrow> p x \<Longrightarrow> \<exists>i. first_index p xs = Some i"
  using first_index_None_iff [of p xs] by (cases "first_index p xs") auto

text \<open>\<open>before xs a b\<close>: some occurrence of \<open>a\<close> in \<open>xs\<close> stands before some occurrence of \<open>b\<close>.\<close>

definition before :: "'a list \<Rightarrow> 'a \<Rightarrow> 'a \<Rightarrow> bool" where
  "before xs a b \<longleftrightarrow> (\<exists>us vs ws. xs = us @ a # vs @ b # ws)"

lemma before_Nil [simp]: "\<not> before [] a b"
  by (simp add: before_def)

lemma before_setD: "before xs a b \<Longrightarrow> a \<in> set xs \<and> b \<in> set xs"
  by (auto simp: before_def)

lemma before_snocI: "a \<in> set xs \<Longrightarrow> before (xs @ [b]) a b"
  by (fastforce simp: before_def dest!: split_list)

lemma before_appendI1: "before xs a b \<Longrightarrow> before (xs @ ys) a b"
  by (fastforce simp: before_def)

lemma before_appendI2: "before ys a b \<Longrightarrow> before (xs @ ys) a b"
proof -
  assume "before ys a b"
  then obtain us vs ws where "ys = us @ a # vs @ b # ws" by (auto simp: before_def)
  then have "xs @ ys = (xs @ us) @ a # vs @ b # ws" by simp
  then show ?thesis unfolding before_def by blast
qed

lemma before_append_mem: "a \<in> set xs \<Longrightarrow> b \<in> set ys \<Longrightarrow> before (xs @ ys) a b"
proof -
  assume "a \<in> set xs" "b \<in> set ys"
  then obtain us vs us' vs' where "xs = us @ a # vs" "ys = us' @ b # vs'"
    by (meson split_list)
  then have "xs @ ys = us @ a # (vs @ us') @ b # vs'" by simp
  then show ?thesis unfolding before_def by blast
qed

lemma before_map: "before xs a b \<Longrightarrow> before (map f xs) (f a) (f b)"
  by (fastforce simp: before_def)

lemma before_antisym: "distinct xs \<Longrightarrow> before xs a b \<Longrightarrow> \<not> before xs b a"
proof
  assume d: "distinct xs" and "before xs a b" "before xs b a"
  then obtain us vs ws where ab: "xs = us @ a # vs @ b # ws" by (auto simp: before_def)
  from \<open>before xs b a\<close> obtain us' vs' ws' where ba: "xs = us' @ b # vs' @ a # ws'"
    by (auto simp: before_def)
  from d ab have "a \<notin> set us" "a \<notin> set (vs @ b # ws)" by auto
  moreover from d ba have "a \<notin> set (us' @ b # vs')" "a \<notin> set ws'" by auto
  moreover have "us @ a # (vs @ b # ws) = (us' @ b # vs') @ a # ws'" using ab ba by simp
  ultimately have "us = us' @ b # vs'" using append_Cons_eq_iff by metis
  with d ab show False by auto
qed

section \<open>Positions by key\<close>

text \<open>
  A Go map from a key to a growing slice of positions, filled in one pass; an absent key reads as
  the empty slice. \<open>index_from key i xs m\<close> enters the positions \<open>i, i+1, ...\<close> of \<open>xs\<close>.
\<close>

definition at_key :: "('k \<rightharpoonup> nat list) \<Rightarrow> 'k \<Rightarrow> nat list" where
  "at_key m k = (case m k of Some l \<Rightarrow> l | None \<Rightarrow> [])"

fun index_from ::
  "('a \<Rightarrow> 'k option) \<Rightarrow> nat \<Rightarrow> 'a list \<Rightarrow> ('k \<rightharpoonup> nat list) \<Rightarrow> ('k \<rightharpoonup> nat list)"
where
  "index_from key i [] m = m"
| "index_from key i (x # xs) m =
     index_from key (Suc i) xs
       (case key x of None \<Rightarrow> m | Some k \<Rightarrow> m(k \<mapsto> at_key m k @ [i]))"

lemma at_key_index_from:
  "at_key (index_from key i xs m) k =
     at_key m k @ filter (\<lambda>j. key (xs ! (j - i)) = Some k) [i..<i + length xs]"
proof (induction xs arbitrary: i m)
  case (Cons x xs)
  have shift: "filter (\<lambda>j. key ((x # xs) ! (j - i)) = Some k) [Suc i..<i + length (x # xs)]
      = filter (\<lambda>j. key (xs ! (j - Suc i)) = Some k) [Suc i..<Suc i + length xs]"
  proof (rule filter_cong)
    fix j assume "j \<in> set [Suc i..<Suc i + length xs]"
    then have "j - i = Suc (j - Suc i)" by auto
    then show "(key ((x # xs) ! (j - i)) = Some k) = (key (xs ! (j - Suc i)) = Some k)" by simp
  qed simp
  have "[i..<i + length (x # xs)] = i # [Suc i..<i + length (x # xs)]"
    using upt_conv_Cons [of i "i + length (x # xs)"] by simp
  then show ?case
    by (simp only: filter.simps index_from.simps Cons.IH shift)
      (auto simp: at_key_def split: option.splits)
qed (simp add: at_key_def)

lemma in_index_iff:
  "j \<in> set (at_key (index_from key 0 xs Map.empty) k) \<longleftrightarrow> j < length xs \<and> key (xs ! j) = Some k"
proof -
  have "at_key Map.empty k = []" by (simp add: at_key_def)
  then show ?thesis by (auto simp: at_key_index_from)
qed

lemma index_None_iff:
  "index_from key 0 xs Map.empty k = None \<longleftrightarrow> at_key (index_from key 0 xs Map.empty) k = []"
proof -
  have "\<forall>k. m k \<noteq> Some [] \<Longrightarrow> \<forall>k. index_from key i xs m k \<noteq> Some []" for i m
    by (induction xs arbitrary: i m) (auto split: option.splits)
  from this [of Map.empty 0] show ?thesis by (auto simp: at_key_def split: option.splits)
qed

section \<open>Maps and options\<close>

lemma map_of_zip_nth_Some:
  "map_of (zip xs [0..<length xs]) k = Some i \<Longrightarrow> i < length xs \<and> xs ! i = k"
  by (auto dest!: map_of_SomeD simp: set_zip)

lemma option_bind_Some_iff: "Option.bind m f = Some y \<longleftrightarrow> (\<exists>x. m = Some x \<and> f x = Some y)"
  by (cases m) auto

lemma count_list_le_length: "count_list xs x \<le> length xs"
  by (rule count_le_length)

end
