(* ===== verification/GoStrings.thy ===== *)
theory GoStrings
  imports Prelude
begin

text \<open>
  The functions of Go's \<open>strings\<close> and \<open>path\<close> packages that the modelled code calls, over byte
  strings: a Go \<open>string\<close> is a list of \<open>char\<close>, one per byte, so lengths and indices count bytes as
  they do in Go. \<open>-1\<close> results are \<open>None\<close>. \<open>to_lower\<close> folds the ASCII letters only; \<open>trim_space\<close>
  knows the UTF-8 encodings of every code point of \<open>unicode.IsSpace\<close>.
\<close>

section \<open>Named bytes\<close>

abbreviation NL :: char where "NL \<equiv> CHR 0x0A"
abbreviation CR :: char where "CR \<equiv> CHR 0x0D"
abbreviation TAB :: char where "TAB \<equiv> CHR 0x09"
abbreviation SP :: char where "SP \<equiv> CHR 0x20"
abbreviation SQ :: char where "SQ \<equiv> CHR 0x27"
abbreviation DQ :: char where "DQ \<equiv> CHR 0x22"
abbreviation BSL :: char where "BSL \<equiv> CHR 0x5C"
abbreviation BQ :: char where "BQ \<equiv> CHR 0x60"
abbreviation SLASH :: char where "SLASH \<equiv> CHR 0x2F"

section \<open>Prefixes, suffixes and searching\<close>

fun has_prefix :: "string \<Rightarrow> string \<Rightarrow> bool" where
  "has_prefix s [] = True"
| "has_prefix [] (p # ps) = False"
| "has_prefix (c # cs) (p # ps) = (c = p \<and> has_prefix cs ps)"

lemma has_prefix_iff: "has_prefix s p \<longleftrightarrow> (\<exists>t. s = p @ t)"
  by (induction s p rule: has_prefix.induct) auto

lemma has_prefix_append [simp]: "has_prefix (p @ t) p"
  by (simp add: has_prefix_iff)

lemma has_prefix_take: "has_prefix s p \<longleftrightarrow> take (length p) s = p"
  by (metis append_eq_conv_conj has_prefix_iff append_take_drop_id)

lemma has_prefix_refl [simp]: "has_prefix s s"
  by (simp add: has_prefix_iff)

lemma has_prefix_trans: "has_prefix s p \<Longrightarrow> has_prefix p q \<Longrightarrow> has_prefix s q"
  by (auto simp: has_prefix_iff)

definition has_suffix :: "string \<Rightarrow> string \<Rightarrow> bool" where
  "has_suffix s p = has_prefix (rev s) (rev p)"

lemma has_suffix_iff: "has_suffix s p \<longleftrightarrow> (\<exists>t. s = t @ p)"
  by (metis has_prefix_iff has_suffix_def rev_append rev_rev_ident)

definition trim_prefix :: "string \<Rightarrow> string \<Rightarrow> string" where
  "trim_prefix s p = (if has_prefix s p then drop (length p) s else s)"

definition trim_suffix :: "string \<Rightarrow> string \<Rightarrow> string" where
  "trim_suffix s p = (if has_suffix s p then take (length s - length p) s else s)"

lemma trim_suffix_append [simp]: "trim_suffix (s @ p) p = s"
  by (simp add: trim_suffix_def has_suffix_iff)

definition index_byte :: "string \<Rightarrow> char \<Rightarrow> nat option" where
  "index_byte s c = first_index ((=) c) s"

fun index_str :: "string \<Rightarrow> string \<Rightarrow> nat option" where
  "index_str [] p = (if p = [] then Some 0 else None)"
| "index_str (c # cs) p =
     (if has_prefix (c # cs) p then Some 0 else map_option Suc (index_str cs p))"

definition contains :: "string \<Rightarrow> string \<Rightarrow> bool" where
  "contains s p = (index_str s p \<noteq> None)"

lemma index_str_Some:
  "index_str s p = Some i \<Longrightarrow> s = take i s @ p @ drop (i + length p) s \<and> i + length p \<le> length s"
proof (induction s arbitrary: i)
  case (Cons c cs)
  show ?case
  proof (cases "has_prefix (c # cs) p")
    case True
    with Cons.prems obtain t where "i = 0" "c # cs = p @ t" by (auto simp: has_prefix_iff)
    then show ?thesis by (simp only: length_append) simp
  next
    case False
    with Cons.prems obtain j where "index_str cs p = Some j" "i = Suc j" by auto
    with Cons.IH show ?thesis by auto
  qed
qed (simp split: if_splits)

lemma index_str_None: "index_str s p = None \<Longrightarrow> \<not> (\<exists>u v. s = u @ p @ v)"
proof (induction s)
  case (Cons c cs)
  then have "\<not> has_prefix (c # cs) p" "index_str cs p = None" by (auto split: if_splits)
  with Cons.IH show ?case
    by (metis append_eq_Cons_conv has_prefix_append)
qed (simp split: if_splits)

lemma contains_iff: "contains s p \<longleftrightarrow> (\<exists>u v. s = u @ p @ v)"
proof
  assume "contains s p"
  then obtain i where "index_str s p = Some i" by (auto simp: contains_def)
  then show "\<exists>u v. s = u @ p @ v" using index_str_Some by blast
next
  assume "\<exists>u v. s = u @ p @ v"
  with index_str_None [of s p] show "contains s p" unfolding contains_def by blast
qed

lemma has_prefix_contains: "has_prefix s p \<Longrightarrow> contains s p"
  by (auto simp: has_prefix_iff contains_iff intro: exI [of _ "[]"])

definition contains_any :: "string \<Rightarrow> string \<Rightarrow> bool" where
  "contains_any s cs = list_ex (\<lambda>c. c \<in> set cs) s"

lemma contains_any_iff: "contains_any s cs \<longleftrightarrow> (\<exists>c \<in> set s. c \<in> set cs)"
  by (auto simp: contains_any_def list_ex_iff)

text \<open>\<open>strings.Cut\<close> at one byte: what stands before it, what stands after it, and whether it occurs.\<close>

definition cut :: "string \<Rightarrow> char \<Rightarrow> string \<times> string \<times> bool" where
  "cut s c = (case index_byte s c of
                None \<Rightarrow> (s, [], False)
              | Some i \<Rightarrow> (take i s, drop (Suc i) s, True))"

lemma index_byte_Some_iff:
  "index_byte s c = Some i \<longleftrightarrow> i < length s \<and> s ! i = c \<and> c \<notin> set (take i s)"
proof
  assume "index_byte s c = Some i"
  from first_index_SomeD [OF this [unfolded index_byte_def]]
  show "i < length s \<and> s ! i = c \<and> c \<notin> set (take i s)"
    by (auto simp: in_set_conv_nth)
next
  assume a: "i < length s \<and> s ! i = c \<and> c \<notin> set (take i s)"
  have "c \<noteq> s ! j" if "j < i" for j
  proof
    assume "c = s ! j"
    with a that have "c \<in> set (take i s)" by (auto simp: in_set_conv_nth intro!: exI [of _ j])
    with a show False by simp
  qed
  with a show "index_byte s c = Some i"
    unfolding index_byte_def by (intro first_index_Some_intro) auto
qed

lemma index_byte_None_iff: "index_byte s c = None \<longleftrightarrow> c \<notin> set s"
  by (auto simp: index_byte_def first_index_None_iff)

lemma index_byte_append_mid: "c \<notin> set u \<Longrightarrow> index_byte (u @ c # v) c = Some (length u)"
  by (simp add: index_byte_Some_iff)

lemma cut_append_mid: "c \<notin> set u \<Longrightarrow> cut (u @ c # v) c = (u, v, True)"
  by (simp add: cut_def index_byte_append_mid)

lemma cut_None: "c \<notin> set s \<Longrightarrow> cut s c = (s, [], False)"
  by (simp add: cut_def index_byte_None_iff [THEN iffD2])

section \<open>Trimming\<close>

fun trim_left :: "string \<Rightarrow> string \<Rightarrow> string" where
  "trim_left [] cs = []"
| "trim_left (c # s) cs = (if c \<in> set cs then trim_left s cs else c # s)"

definition trim_right :: "string \<Rightarrow> string \<Rightarrow> string" where
  "trim_right s cs = rev (trim_left (rev s) cs)"

lemma trim_left_dropWhile: "trim_left s cs = dropWhile (\<lambda>c. c \<in> set cs) s"
  by (induction s) auto

lemma trim_left_idem [simp]: "trim_left (trim_left s cs) cs = trim_left s cs"
  by (simp add: trim_left_dropWhile)

lemma trim_left_id: "s = [] \<or> hd s \<notin> set cs \<Longrightarrow> trim_left s cs = s"
  by (cases s) auto

lemma trim_left_split: "\<exists>u. s = u @ trim_left s cs \<and> set u \<subseteq> set cs"
  by (metis trim_left_dropWhile takeWhile_dropWhile_id set_takeWhileD subsetI)

lemma trim_right_idem [simp]: "trim_right (trim_right s cs) cs = trim_right s cs"
  by (simp add: trim_right_def)

lemma trim_right_split: "\<exists>u. s = trim_right s cs @ u \<and> set u \<subseteq> set cs"
  using trim_left_split [of "rev s" cs]
  by (metis rev_append rev_rev_ident set_rev trim_right_def)

lemma trim_right_last: "trim_right s cs \<noteq> [] \<Longrightarrow> last (trim_right s cs) \<notin> set cs"
  unfolding trim_right_def trim_left_dropWhile
  by (metis hd_dropWhile last_rev rev.simps(1))

text \<open>
  \<open>strings.TrimSpace\<close>: the code points of \<open>unicode.IsSpace\<close>, as the byte sequences that encode
  them in UTF-8.
\<close>

definition go_spaces :: "string list" where
  "go_spaces =
     [[TAB], [NL], [CHR 0x0B], [CHR 0x0C], [CR], [SP],
      [CHR 0xC2, CHR 0x85], [CHR 0xC2, CHR 0xA0], [CHR 0xE1, CHR 0x9A, CHR 0x80],
      [CHR 0xE2, CHR 0x80, CHR 0x80], [CHR 0xE2, CHR 0x80, CHR 0x81],
      [CHR 0xE2, CHR 0x80, CHR 0x82], [CHR 0xE2, CHR 0x80, CHR 0x83],
      [CHR 0xE2, CHR 0x80, CHR 0x84], [CHR 0xE2, CHR 0x80, CHR 0x85],
      [CHR 0xE2, CHR 0x80, CHR 0x86], [CHR 0xE2, CHR 0x80, CHR 0x87],
      [CHR 0xE2, CHR 0x80, CHR 0x88], [CHR 0xE2, CHR 0x80, CHR 0x89],
      [CHR 0xE2, CHR 0x80, CHR 0x8A], [CHR 0xE2, CHR 0x80, CHR 0xA8],
      [CHR 0xE2, CHR 0x80, CHR 0xA9], [CHR 0xE2, CHR 0x80, CHR 0xAF],
      [CHR 0xE2, CHR 0x81, CHR 0x9F], [CHR 0xE3, CHR 0x80, CHR 0x80]]"

lemma go_spaces_nonempty: "w \<in> set go_spaces \<Longrightarrow> w \<noteq> []"
  by (auto simp: go_spaces_def)

text \<open>Strip one of the sequences \<open>ws\<close> from the front as long as one is there.\<close>

function strip_front :: "string list \<Rightarrow> string \<Rightarrow> string" where
  "strip_front ws s =
     (case find (\<lambda>w. w \<noteq> [] \<and> has_prefix s w) ws of
        None \<Rightarrow> s
      | Some w \<Rightarrow> strip_front ws (drop (length w) s))"
  by pat_completeness auto
termination
proof (relation "measure (\<lambda>(ws, s). length s)", goal_cases)
  case (2 ws s w)
  then show ?case by (auto simp: find_Some_iff has_prefix_iff)
qed simp

declare strip_front.simps [simp del]

definition trim_space :: "string \<Rightarrow> string" where
  "trim_space s = rev (strip_front (map rev go_spaces) (rev (strip_front go_spaces s)))"

lemma strip_front_stop:
  "(\<And>w. w \<in> set ws \<Longrightarrow> w \<noteq> [] \<Longrightarrow> \<not> has_prefix s w) \<Longrightarrow> strip_front ws s = s"
  by (subst strip_front.simps) (auto simp: find_None_iff split: option.splits dest: find_Some_iff [THEN iffD1] nth_mem)

lemma strip_front_no_prefix:
  "w \<in> set ws \<Longrightarrow> w \<noteq> [] \<Longrightarrow> \<not> has_prefix (strip_front ws s) w"
proof (induction ws s rule: strip_front.induct)
  case (1 ws s)
  show ?case
  proof (cases "find (\<lambda>w. w \<noteq> [] \<and> has_prefix s w) ws")
    case None
    then have "strip_front ws s = s" by (subst strip_front.simps) simp
    with None "1.prems" show ?thesis by (auto simp: find_None_iff)
  next
    case (Some v)
    with 1 show ?thesis by (subst strip_front.simps) simp
  qed
qed

lemma strip_front_idem [simp]: "strip_front ws (strip_front ws s) = strip_front ws s"
  by (rule strip_front_stop) (rule strip_front_no_prefix)

lemma strip_front_suffix: "\<exists>u. s = u @ strip_front ws s"
proof (induction ws s rule: strip_front.induct)
  case (1 ws s)
  show ?case
  proof (cases "find (\<lambda>w. w \<noteq> [] \<and> has_prefix s w) ws")
    case None
    then show ?thesis by (subst strip_front.simps) simp
  next
    case (Some v)
    with 1 obtain u where "drop (length v) s = u @ strip_front ws (drop (length v) s)" by blast
    with Some show ?thesis
      by (subst strip_front.simps) (metis append.assoc append_take_drop_id option.simps(5))
  qed
qed

lemma trim_space_back: "w \<in> set go_spaces \<Longrightarrow> \<not> has_suffix (trim_space s) w"
  using strip_front_no_prefix [of "rev w" "map rev go_spaces"] go_spaces_nonempty
  by (auto simp: trim_space_def has_suffix_def)

section \<open>Splitting, joining and replacing\<close>

text \<open>\<open>strings.Split\<close> at one byte: never the empty list.\<close>

fun split_on :: "char \<Rightarrow> string \<Rightarrow> string list" where
  "split_on c [] = [[]]"
| "split_on c (x # xs) =
     (if x = c then [] # split_on c xs
      else case split_on c xs of [] \<Rightarrow> [[x]] | w # ws \<Rightarrow> (x # w) # ws)"

fun join :: "string \<Rightarrow> string list \<Rightarrow> string" where
  "join sep [] = []"
| "join sep [w] = w"
| "join sep (w # v # ws) = w @ sep @ join sep (v # ws)"

lemma split_on_nonempty [simp]: "split_on c s \<noteq> []"
  by (cases s) (auto split: list.splits)

lemma join_Cons: "ws \<noteq> [] \<Longrightarrow> join sep (w # ws) = w @ sep @ join sep ws"
  by (cases ws) simp_all

lemma split_on_no_sep: "w \<in> set (split_on c s) \<Longrightarrow> c \<notin> set w"
  by (induction s arbitrary: w) (auto split: if_splits list.splits)

lemma join_split_on [simp]: "join [c] (split_on c s) = s"
proof (induction s)
  case (Cons x xs)
  then show ?case
    by (cases "split_on c xs"; cases "tl (split_on c xs)") (auto simp: join_Cons)
qed simp

lemma split_on_noop: "c \<notin> set w \<Longrightarrow> split_on c w = [w]"
  by (induction w) auto

lemma split_on_append: "c \<notin> set w \<Longrightarrow> split_on c (w @ c # s) = w # split_on c s"
  by (induction w) auto

lemma split_on_join:
  "ws \<noteq> [] \<Longrightarrow> (\<And>w. w \<in> set ws \<Longrightarrow> c \<notin> set w) \<Longrightarrow> split_on c (join [c] ws) = ws"
  by (induction "[c]" ws rule: join.induct) (auto simp: split_on_noop split_on_append)

text \<open>\<open>strings.ReplaceAll\<close> with a non-empty pattern, leftmost occurrence first.\<close>

function replace_all :: "string \<Rightarrow> string \<Rightarrow> string \<Rightarrow> string" where
  "replace_all [] old new = []"
| "replace_all (c # s) old new =
     (if old \<noteq> [] \<and> has_prefix (c # s) old
      then new @ replace_all (drop (length old) (c # s)) old new
      else c # replace_all s old new)"
  by pat_completeness auto
termination
proof (relation "measure (\<lambda>(s, old, new). length s)", goal_cases)
  case (2 c s old new)
  then show ?case by (cases old) auto
qed auto

lemma replace_all_noop: "hd old \<notin> set s \<Longrightarrow> old \<noteq> [] \<Longrightarrow> replace_all s old new = s"
proof (induction s)
  case (Cons c s)
  then show ?case by (cases old) auto
qed simp

lemma replace_all_byte_map:
  "replace_all s [c] new = concat (map (\<lambda>x. if x = c then new else [x]) s)"
  by (induction s) auto

text \<open>Remove every byte of \<open>cs\<close>: \<open>strings.NewReplacer\<close> with one-byte patterns and empty values.\<close>

definition remove_bytes :: "string \<Rightarrow> string \<Rightarrow> string" where
  "remove_bytes s cs = filter (\<lambda>c. c \<notin> set cs) s"

text \<open>\<open>strings.FieldsFunc\<close> for separators that are single bytes.\<close>

definition fields_on :: "string \<Rightarrow> string \<Rightarrow> string list" where
  "fields_on cs s =
     filter (\<lambda>w. w \<noteq> [])
       (split_on (if cs = [] then NL else hd cs)
          (map (\<lambda>c. if c \<in> set cs then hd cs else c) s))"

text \<open>\<open>strings.Fields\<close>: the non-empty pieces between runs of white space.\<close>

fun fields_from :: "string \<Rightarrow> string \<Rightarrow> string list" where
  "fields_from cur [] = (if cur = [] then [] else [rev cur])"
| "fields_from cur (c # s) =
     (case find (has_prefix (c # s)) go_spaces of
        Some w \<Rightarrow> (if cur = [] then [] else [rev cur]) @ fields_from [] (drop (length w - 1) s)
      | None \<Rightarrow> fields_from (c # cur) s)"

definition Fields :: "string \<Rightarrow> string list" where
  "Fields s = fields_from [] s"

section \<open>Case folding and numbers\<close>

definition lower_byte :: "char \<Rightarrow> char" where
  "lower_byte c = (if 65 \<le> (of_char c :: nat) \<and> (of_char c :: nat) \<le> 90
                   then char_of ((of_char c :: nat) + 32) else c)"

definition to_lower :: "string \<Rightarrow> string" where
  "to_lower s = map lower_byte s"

definition is_digit :: "char \<Rightarrow> bool" where
  "is_digit c \<longleftrightarrow> 48 \<le> (of_char c :: nat) \<and> (of_char c :: nat) \<le> 57"

definition digit_val :: "char \<Rightarrow> nat" where
  "digit_val c = (of_char c :: nat) - 48"

text \<open>
  \<open>strconv.Atoi\<close> of a string of decimal digits on a 64-bit platform: an empty string is a syntax
  error and a value above \<open>2\<^sup>6\<^sup>3 - 1\<close> a range error.
\<close>

definition dec_value :: "string \<Rightarrow> nat" where
  "dec_value s = foldl (\<lambda>n c. 10 * n + digit_val c) 0 s"

definition atoi_digits :: "string \<Rightarrow> nat option" where
  "atoi_digits s =
     (if s \<noteq> [] \<and> list_all is_digit s \<and> dec_value s < 2 ^ 63 then Some (dec_value s) else None)"

section \<open>Slash paths\<close>

text \<open>
  \<open>path.Clean\<close>: drop empty and \<open>.\<close> components, let \<open>..\<close> take the component before it away (a
  rooted path has none above the root), and give \<open>.\<close> for the empty result.
\<close>

fun clean_step :: "bool \<Rightarrow> string list \<Rightarrow> string \<Rightarrow> string list" where
  "clean_step rooted out w =
     (if w = [] \<or> w = ''.'' then out
      else if w = ''..'' then
        (case out of
           [] \<Rightarrow> if rooted then [] else [''..'']
         | v # vs \<Rightarrow> if v = ''..'' then ''..'' # out else vs)
      else w # out)"

definition rooted_path :: "string \<Rightarrow> bool" where
  "rooted_path p \<longleftrightarrow> has_prefix p [SLASH]"

definition clean_comps :: "string \<Rightarrow> string list" where
  "clean_comps p = rev (foldl (clean_step (rooted_path p)) [] (split_on SLASH p))"

definition path_clean :: "string \<Rightarrow> string" where
  "path_clean p =
     (let cs = clean_comps p in
      if rooted_path p then SLASH # join [SLASH] cs
      else if cs = [] then ''.'' else join [SLASH] cs)"

text \<open>\<open>path.Dir\<close>: everything up to the last slash, cleaned. \<open>path.Base\<close>: the last element.\<close>

definition path_dir :: "string \<Rightarrow> string" where
  "path_dir p = path_clean (rev (dropWhile (\<lambda>c. c \<noteq> SLASH) (rev p)))"

definition path_base :: "string \<Rightarrow> string" where
  "path_base p =
     (if p = [] then ''.''
      else let q = trim_right p [SLASH] in
        if q = [] then [SLASH] else rev (takeWhile (\<lambda>c. c \<noteq> SLASH) (rev q)))"

text \<open>
  Cleaning never makes a path longer (but for the empty path, which becomes \<open>.\<close>), and keeps the
  length only when it changes nothing. So walking up with \<open>path.Dir\<close> stops.
\<close>

definition comps_len :: "string list \<Rightarrow> nat" where
  "comps_len ws = sum_list (map (\<lambda>w. Suc (length w)) ws)"

lemma comps_len_simps [simp]:
  "comps_len [] = 0" "comps_len (w # ws) = Suc (length w) + comps_len ws"
  "comps_len (xs @ ys) = comps_len xs + comps_len ys" "comps_len (rev xs) = comps_len xs"
  by (simp_all add: comps_len_def flip: rev_map)

lemma length_join: "ws \<noteq> [] \<Longrightarrow> Suc (length (join [c] ws)) = comps_len ws"
  by (induction "[c]" ws rule: join.induct) auto

lemma comps_len_split_on: "comps_len (split_on c s) = Suc (length s)"
  using length_join [OF split_on_nonempty, of c c s] by simp

lemma clean_step_len:
  "clean_step r out w = w # out \<or> comps_len (clean_step r out w) < comps_len out + Suc (length w)"
  by (cases out) auto

declare clean_step.simps [simp del]

lemma foldl_clean_step_len:
  "foldl (clean_step r) out ws = rev ws @ out
     \<or> comps_len (foldl (clean_step r) out ws) < comps_len out + comps_len ws"
proof (induction ws arbitrary: out)
  case (Cons w ws)
  from Cons.IH [of "clean_step r out w"] clean_step_len [of r out w] show ?case by auto
qed simp

lemma clean_comps_cases:
  "clean_comps p = split_on SLASH p \<or> comps_len (clean_comps p) < Suc (length p)"
  using foldl_clean_step_len [of "rooted_path p" "[]" "split_on SLASH p"]
  by (auto simp: clean_comps_def comps_len_split_on)

lemma rooted_path_iff: "rooted_path p \<longleftrightarrow> (\<exists>q. p = SLASH # q)"
  by (auto simp: rooted_path_def has_prefix_iff)

lemma clean_comps_rooted:
  "clean_comps (SLASH # q) = rev (foldl (clean_step True) [] (split_on SLASH q))"
  by (simp add: clean_comps_def rooted_path_def clean_step.simps)

lemma path_clean_rooted_len:
  "path_clean (SLASH # q) = SLASH # q \<or> length (path_clean (SLASH # q)) < Suc (length q) \<or> q = []"
proof -
  let ?cs = "clean_comps (SLASH # q)"
  have pc: "path_clean (SLASH # q) = SLASH # join [SLASH] ?cs"
    by (simp add: path_clean_def rooted_path_def)
  consider "?cs = split_on SLASH q" | "comps_len ?cs < Suc (length q)"
    using foldl_clean_step_len [of True "[]" "split_on SLASH q"]
    by (auto simp: clean_comps_rooted comps_len_split_on)
  then show ?thesis
  proof cases
    case 2
    then show ?thesis using length_join [of ?cs SLASH] pc by (cases "?cs = []") auto
  qed (simp add: pc)
qed

lemma path_clean_relative_len:
  assumes "\<not> rooted_path p"
  shows "path_clean p = p \<or> length (path_clean p) < length p \<or> path_clean p = ''.''"
proof (cases "clean_comps p = []")
  case True
  with assms show ?thesis by (simp add: path_clean_def)
next
  case False
  with assms have pc: "path_clean p = join [SLASH] (clean_comps p)" by (simp add: path_clean_def)
  from clean_comps_cases [of p] length_join [OF False, of SLASH] pc show ?thesis by auto
qed

lemma path_clean_len:
  "path_clean p = p \<or> length (path_clean p) < length p \<or> path_clean p = ''.''"
proof (cases "rooted_path p")
  case True
  then obtain q where p: "p = SLASH # q" by (auto simp: rooted_path_iff)
  have "path_clean [SLASH] = [SLASH]" by code_simp
  with path_clean_rooted_len [of q] p show ?thesis by auto
qed (rule path_clean_relative_len)

lemma path_dir_dot: "path_dir ''.'' = ''.''"
  by code_simp

lemma dropWhile_same_length: "length (dropWhile P xs) = length xs \<Longrightarrow> dropWhile P xs = xs"
proof -
  assume len: "length (dropWhile P xs) = length xs"
  have "length xs = length (takeWhile P xs) + length (dropWhile P xs)"
    by (metis length_append takeWhile_dropWhile_id)
  with len have "takeWhile P xs = []" by simp
  then show ?thesis by (metis append_Nil takeWhile_dropWhile_id)
qed

lemma clean_comps_nonempty: "\<forall>c \<in> set (clean_comps p). c \<noteq> []"
proof -
  have "\<forall>c \<in> set (foldl (clean_step r) out ws). c \<noteq> []" if "\<forall>c \<in> set out. c \<noteq> []" for r out ws
    using that
  proof (induction ws arbitrary: out)
    case (Cons w ws)
    have "\<forall>c \<in> set (clean_step r out w). c \<noteq> []"
      using Cons.prems by (auto simp: clean_step.simps split: list.splits if_splits)
    then show ?case using Cons.IH by simp
  qed simp
  from this [of "[]"] show ?thesis by (simp add: clean_comps_def)
qed

lemma path_clean_nonempty: "path_clean p \<noteq> []"
proof (cases "clean_comps p")
  case (Cons c cs)
  then show ?thesis
    using clean_comps_nonempty [of p] by (cases cs) (auto simp: path_clean_def Let_def)
qed (simp add: path_clean_def Let_def)

definition walk_up_measure :: "string \<Rightarrow> nat" where
  "walk_up_measure p = (if p = ''.'' then 0 else Suc (length p))"

lemma path_dir_decreases: "path_dir p \<noteq> p \<Longrightarrow> walk_up_measure (path_dir p) < walk_up_measure p"
proof -
  assume ne: "path_dir p \<noteq> p"
  define q where "q = rev (dropWhile (\<lambda>c. c \<noteq> SLASH) (rev p))"
  have p: "p \<noteq> ''.''" using ne path_dir_dot by auto
  have "length q \<le> length p"
    using length_dropWhile_le [of "\<lambda>c. c \<noteq> SLASH" "rev p"] by (simp add: q_def)
  moreover have "q = p" if "length q = length p"
    using that dropWhile_same_length [of "\<lambda>c. c \<noteq> SLASH" "rev p"] by (simp add: q_def)
  ultimately have "q = p \<or> length q < length p" by linarith
  moreover have "path_dir p = path_clean q" by (simp add: path_dir_def q_def)
  ultimately show ?thesis
    using path_clean_len [of q] ne p by (auto simp: walk_up_measure_def)
qed

end
