(* ===== verification/PlanTypes.thy ===== *)
theory PlanTypes
  imports GoStrings
begin

text \<open>
  The data model of a recorded plan: \<open>plan/types.go\<close>, \<open>plan/configset.go\<close>, the payload structs of
  \<open>plan/op_payload.go\<close>, the platform names of \<open>internal/platform\<close>, the header check of
  \<open>plan/codec.go\<close> and the schema floor an op needs (\<open>plan/sensitive.go\<close>). A nil and an empty Go
  slice are one list here (\<open>normalizeWire\<close> makes them one on the wire); a pointer is an option; a
  \<open>map[string]string\<close> is the list of its entries in key order.
\<close>

section \<open>Kinds\<close>

datatype kind =
    KindPlan | KindLink | KindFile | KindDir | KindPackage | KindCommand | KindSyncDir
  | KindEnsureDir | KindEnsureFile | KindLinkIfExists | KindWhenBegin | KindWhenEnd | KindTimer
  | KindDaemonReload | KindCron | KindService | KindSystemdTimer | KindUser | KindConfigSet
  | KindConfigSetMember | KindNoop
  | KindOther string \<comment> \<open>any other wire string, the empty one included\<close>

definition allKinds :: "kind list" where
  "allKinds =
     [KindPlan, KindLink, KindFile, KindDir, KindPackage, KindCommand, KindSyncDir, KindEnsureDir,
      KindEnsureFile, KindLinkIfExists, KindWhenBegin, KindWhenEnd, KindTimer, KindDaemonReload,
      KindCron, KindService, KindSystemdTimer, KindUser, KindConfigSet, KindConfigSetMember,
      KindNoop]"

definition IsKnownKind :: "kind \<Rightarrow> bool" where
  "IsKnownKind k = list_ex (\<lambda>known. known = k) allKinds"

fun IsControlKind :: "kind \<Rightarrow> bool" where
  "IsControlKind KindPlan = True"
| "IsControlKind KindWhenBegin = True"
| "IsControlKind KindWhenEnd = True"
| "IsControlKind _ = False"

lemma IsKnownKind_iff: "IsKnownKind k \<longleftrightarrow> (\<forall>s. k \<noteq> KindOther s)"
  by (cases k) (simp_all add: IsKnownKind_def allKinds_def)

section \<open>Structs of the plan\<close>

record KeyedLine =
  kl_key :: string
  kl_line :: string

record Block =
  bl_name :: string
  bl_lines :: "string list"

record Predicate =
  p_fact :: string
  p_eq :: string
  p_in :: "string list"
  p_not :: bool
  p_path_exists :: string

record Guard =
  g_bin :: string
  g_args :: "string list"
  g_expect_stdout :: string
  g_expect_exit :: "int option"

record ConfigMember =
  cm_key :: string
  cm_path :: string
  cm_content_b64 :: string
  cm_mode :: string
  cm_owner :: string
  cm_group :: string

record Argv =
  av_bin :: string
  av_args :: "string list"

section \<open>Payloads of the migrated kinds\<close>

record CronPayload =
  cr_user :: string
  cr_legacy_command :: string
  cr_schedule :: string
  cr_env :: "string list"

record SystemdTimerPayload =
  st_on_calendar :: string
  st_on_boot_sec :: string
  st_persistent :: bool
  st_description :: string
  st_service_description :: string
  st_after :: "string list"
  st_wants :: "string list"

record UserPayload =
  us_primary_group :: string
  us_supplementary_groups :: "string list"
  us_home :: string
  us_create_home :: bool
  us_shell :: string
  us_login_class :: string
  us_system :: bool
  us_manage_home :: bool
  us_manage_shell :: bool

record ServicePayload =
  sv_flags :: string
  sv_has_flags :: bool

record LinkPayload =
  ln_symlink :: string
  ln_hardlink :: string

record LinkIfExistsPayload =
  le_target :: string

record PackagePayload =
  pk_latest :: bool

record CommandPayload =
  co_bin :: string
  co_args :: "string list"
  co_dir :: string
  co_creates :: string
  co_unless :: "Guard option"
  co_only_if :: "Guard option"

record ConfigSetPayload =
  cs_members :: "ConfigMember list"
  cs_validators :: "Argv list"
  cs_chroot :: string
  cs_staging_dir :: string

record ConfigSetMemberPayload =
  cp_member :: string

record SyncDirPayload =
  sd_exclude :: "string list"
  sd_source_dir :: string
  sd_glob :: bool
  sd_file_mode :: string

record FilePayload =
  fp_content_b64 :: string
  fp_has_content :: bool
  fp_template :: bool
  fp_template_param :: string
  fp_template_data :: string
  fp_validation_bin :: string
  fp_validation_args :: "string list"
  fp_add_lines :: "string list"
  fp_remove_lines :: "string list"
  fp_keyed_lines :: "KeyedLine list"
  fp_blocks :: "Block list"
  fp_add_line :: string
  fp_remove_line :: string

text \<open>The interface \<open>OpPayload\<close> as the sum of the types that implement it; nil is \<open>None\<close>.\<close>

datatype OpPayload =
    PCron CronPayload
  | PSystemdTimer SystemdTimerPayload
  | PUser UserPayload
  | PService ServicePayload
  | PLink LinkPayload
  | PLinkIfExists LinkIfExistsPayload
  | PPackage PackagePayload
  | PCommand CommandPayload
  | PConfigSet ConfigSetPayload
  | PConfigSetMember ConfigSetMemberPayload
  | PSyncDir SyncDirPayload
  | PFile FilePayload

section \<open>The op\<close>

record Op =
  op_kind :: kind
  op_version :: int
  op_id :: string
  op_path :: string
  op_mode :: string
  op_owner :: string
  op_group :: string
  op_blob :: string
  op_prune :: bool
  op_absent :: bool
  op_name :: string
  op_env :: "(string \<times> string) list"
  op_command :: string
  op_user :: bool
  op_restart :: bool
  op_reload :: bool
  op_enable_only :: bool
  op_if_changed :: bool
  op_watch :: "string list"
  op_sensitive :: bool
  op_elevate :: bool
  op_deps :: "string list"
  op_all :: "Predicate list"
  op_require :: string
  op_payload :: "OpPayload option"

text \<open>The zero value of \<open>Op\<close> with the given kind: Go's \<open>Op\{Op: k\}\<close>.\<close>

definition zero_op :: "kind \<Rightarrow> Op" where
  "zero_op k =
     \<lparr>op_kind = k, op_version = 0, op_id = [], op_path = [], op_mode = [], op_owner = [],
      op_group = [], op_blob = [], op_prune = False, op_absent = False, op_name = [], op_env = [],
      op_command = [], op_user = False, op_restart = False, op_reload = False,
      op_enable_only = False, op_if_changed = False, op_watch = [], op_sensitive = False,
      op_elevate = False, op_deps = [], op_all = [], op_require = [], op_payload = None\<rparr>"

definition zero_pred :: Predicate where
  "zero_pred = \<lparr>p_fact = [], p_eq = [], p_in = [], p_not = False, p_path_exists = []\<rparr>"

definition resource_op :: "kind \<Rightarrow> string \<Rightarrow> Op" where
  "resource_op k i = (zero_op k)\<lparr>op_id := i\<rparr>"

text \<open>
  \<open>PayloadOf\<close>: the payload of the asked type, or that type's zero value.
\<close>

definition config_set_payload :: "Op \<Rightarrow> ConfigSetPayload" where
  "config_set_payload op =
     (case op_payload op of
        Some (PConfigSet p) \<Rightarrow> p
      | _ \<Rightarrow> \<lparr>cs_members = [], cs_validators = [], cs_chroot = [], cs_staging_dir = []\<rparr>)"

definition user_manage_shell :: "Op \<Rightarrow> bool" where
  "user_manage_shell op = (case op_payload op of Some (PUser p) \<Rightarrow> us_manage_shell p | _ \<Rightarrow> False)"

definition sync_dir_exclude :: "Op \<Rightarrow> string list" where
  "sync_dir_exclude op = (case op_payload op of Some (PSyncDir p) \<Rightarrow> sd_exclude p | _ \<Rightarrow> [])"

definition sync_dir_glob :: "Op \<Rightarrow> bool" where
  "sync_dir_glob op = (case op_payload op of Some (PSyncDir p) \<Rightarrow> sd_glob p | _ \<Rightarrow> False)"

definition file_keyed_lines :: "Op \<Rightarrow> KeyedLine list" where
  "file_keyed_lines op = (case op_payload op of Some (PFile p) \<Rightarrow> fp_keyed_lines p | _ \<Rightarrow> [])"

definition file_blocks :: "Op \<Rightarrow> Block list" where
  "file_blocks op = (case op_payload op of Some (PFile p) \<Rightarrow> fp_blocks p | _ \<Rightarrow> [])"

definition service_has_flags :: "Op \<Rightarrow> bool" where
  "service_has_flags op = (case op_payload op of Some (PService p) \<Rightarrow> sv_has_flags p | _ \<Rightarrow> False)"

section \<open>Platforms\<close>

definition supported_goos :: "string list" where
  "supported_goos = [''linux'', ''darwin'', ''freebsd'', ''openbsd'', ''netbsd'']"

definition IsSupported :: "string \<Rightarrow> bool" where
  "IsSupported goos = (goos \<in> set supported_goos)"

datatype platform_error =
    ErrEmptyGOOS
  | UnsupportedCase string string \<comment> \<open>the name given, the lower-case name meant\<close>
  | UnsupportedGOOS string

definition platform_Check :: "string \<Rightarrow> platform_error check" where
  "platform_Check goos =
     (if goos = [] then Inl ErrEmptyGOOS
      else if to_lower goos \<noteq> goos \<and> IsSupported (to_lower goos)
      then Inl (UnsupportedCase goos (to_lower goos))
      else if \<not> IsSupported goos then Inl (UnsupportedGOOS goos)
      else Inr ())"

lemma supported_goos_lower: "IsSupported g \<Longrightarrow> to_lower g = g \<and> g \<noteq> []"
  by (auto simp: IsSupported_def supported_goos_def to_lower_def lower_byte_def)

lemma platform_Check_iff [res_simps]: "platform_Check g = Inr () \<longleftrightarrow> IsSupported g"
  using supported_goos_lower [of g] by (auto simp: platform_Check_def)

section \<open>Schema versions and the plan header\<close>

definition CurrentVersion :: int where "CurrentVersion = 31"
definition VersionWhenNotOS :: int where "VersionWhenNotOS = 31"
definition VersionUserManageShell :: int where "VersionUserManageShell = 30"
definition VersionServiceEnableOnly :: int where "VersionServiceEnableOnly = 29"
definition VersionSyncDirExclude :: int where "VersionSyncDirExclude = 28"
definition VersionBlocks :: int where "VersionBlocks = 27"
definition VersionHomeToken :: int where "VersionHomeToken = 26"
definition VersionServiceFlags :: int where "VersionServiceFlags = 25"
definition VersionSyncDirGlob :: int where "VersionSyncDirGlob = 24"
definition VersionKeyedLines :: int where "VersionKeyedLines = 23"
definition VersionSensitive :: int where "VersionSensitive = 22"
definition VersionConfigSet :: int where "VersionConfigSet = 21"

lemmas version_defs =
  CurrentVersion_def VersionWhenNotOS_def VersionUserManageShell_def VersionServiceEnableOnly_def
  VersionSyncDirExclude_def VersionBlocks_def VersionHomeToken_def VersionServiceFlags_def
  VersionSyncDirGlob_def VersionKeyedLines_def VersionSensitive_def VersionConfigSet_def

definition supportedVersions :: "int list" where
  "supportedVersions =
     [1, 2, 3, 4, 5, 6, 7, 8, 9, 10, 11, 12, 13, 14, 15, 16, 17, 18, 19, 20, 21, 22, 23, 24, 25,
      26, 27, 28, 29, 30, CurrentVersion]"

definition SupportsVersion :: "int \<Rightarrow> bool" where
  "SupportsVersion v = (v \<in> set supportedVersions)"

lemma SupportsVersion_iff: "SupportsVersion v \<longleftrightarrow> 1 \<le> v \<and> v \<le> CurrentVersion"
  by (simp add: SupportsVersion_def supportedVersions_def CurrentVersion_def) presburger

datatype header_error =
    FirstOpNotPlan kind
  | HeaderMissingVersion
  | UnsupportedVersion int

definition ValidateHeader :: "Op \<Rightarrow> header_error check" where
  "ValidateHeader header =
     (if op_kind header \<noteq> KindPlan then Inl (FirstOpNotPlan (op_kind header))
      else if op_version header = 0 then Inl HeaderMissingVersion
      else if \<not> SupportsVersion (op_version header) then Inl (UnsupportedVersion (op_version header))
      else Inr ())"

lemma ValidateHeader_iff [res_simps]:
  "ValidateHeader h = Inr () \<longleftrightarrow> op_kind h = KindPlan \<and> SupportsVersion (op_version h)"
  by (auto simp: ValidateHeader_def SupportsVersion_iff)

section \<open>The schema version a plan needs\<close>

definition HasToken :: "string \<Rightarrow> bool" where
  "HasToken p = contains p ''${''"

definition requiresWhenNotOS :: "Op \<Rightarrow> bool" where
  "requiresWhenNotOS op = (op_kind op = KindWhenBegin \<and> list_ex p_not (op_all op))"

definition requiresSyncDirGlob :: "Op \<Rightarrow> bool" where
  "requiresSyncDirGlob op = (op_kind op = KindSyncDir \<and> op_prune op \<and> sync_dir_glob op)"

definition requiresKeyedLines :: "Op \<Rightarrow> bool" where
  "requiresKeyedLines op = (op_kind op = KindFile \<and> file_keyed_lines op \<noteq> [])"

definition requiresBlocks :: "Op \<Rightarrow> bool" where
  "requiresBlocks op = (op_kind op = KindFile \<and> file_blocks op \<noteq> [])"

definition requiresHomeToken :: "Op \<Rightarrow> bool" where
  "requiresHomeToken op =
     (if op_kind op \<noteq> KindConfigSet then False
      else let p = config_set_payload op in
        if HasToken (cs_chroot p) \<or> HasToken (cs_staging_dir p) then True
        else list_ex (\<lambda>m. HasToken (cm_path m)) (cs_members p))"

definition requiresServiceFlags :: "Op \<Rightarrow> bool" where
  "requiresServiceFlags op =
     (case op_kind op of
        KindNoop \<Rightarrow> True
      | KindService \<Rightarrow> service_has_flags op
      | _ \<Rightarrow> False)"

definition opVersion :: "Op \<Rightarrow> int" where
  "opVersion op =
     (if requiresWhenNotOS op then VersionWhenNotOS
      else if op_kind op = KindService \<and> op_enable_only op then VersionServiceEnableOnly
      else if op_kind op = KindUser \<and> user_manage_shell op then VersionUserManageShell
      else if op_kind op = KindSyncDir \<and> sync_dir_exclude op \<noteq> [] then VersionSyncDirExclude
      else if requiresBlocks op then VersionBlocks
      else if requiresHomeToken op then VersionHomeToken
      else if requiresServiceFlags op then VersionServiceFlags
      else if requiresSyncDirGlob op then VersionSyncDirGlob
      else if requiresKeyedLines op then VersionKeyedLines
      else if op_sensitive op then VersionSensitive
      else VersionConfigSet)"

text \<open>The loop of \<open>RequiredVersion\<close>, which stops early at \<open>CurrentVersion\<close>.\<close>

fun RequiredVersion_from :: "int \<Rightarrow> Op list \<Rightarrow> int" where
  "RequiredVersion_from version [] = version"
| "RequiredVersion_from version (op # ops) =
     (let v = max version (opVersion op)
      in if v = CurrentVersion then v else RequiredVersion_from v ops)"

definition RequiredVersion :: "Op list \<Rightarrow> int" where
  "RequiredVersion ops = RequiredVersion_from VersionConfigSet ops"

text \<open>
  The features of an op that a destination must know about, each with the schema that brought it:
  what \<open>opVersion\<close> is meant to be the maximum of.
\<close>

definition feature_floors :: "Op \<Rightarrow> int list" where
  "feature_floors op =
     [if requiresWhenNotOS op then 31 else 21,
      if op_kind op = KindUser \<and> user_manage_shell op then 30 else 21,
      if op_kind op = KindService \<and> op_enable_only op then 29 else 21,
      if op_kind op = KindSyncDir \<and> sync_dir_exclude op \<noteq> [] then 28 else 21,
      if requiresBlocks op then 27 else 21,
      if requiresHomeToken op then 26 else 21,
      if requiresServiceFlags op then 25 else 21,
      if requiresSyncDirGlob op then 24 else 21,
      if requiresKeyedLines op then 23 else 21,
      if op_sensitive op then 22 else 21]"

lemma opVersion_is_max: "opVersion op = foldr max (feature_floors op) 21"
  by (cases "op_kind op")
    (simp_all add: feature_floors_def opVersion_def version_defs requiresWhenNotOS_def
      requiresBlocks_def requiresHomeToken_def requiresServiceFlags_def requiresSyncDirGlob_def
      requiresKeyedLines_def)

lemma opVersion_bounds: "21 \<le> opVersion op \<and> opVersion op \<le> CurrentVersion"
  by (simp add: opVersion_def version_defs)

lemma RequiredVersion_from_max:
  "v \<le> CurrentVersion \<Longrightarrow> RequiredVersion_from v ops = foldl max v (map opVersion ops)"
proof (induction ops arbitrary: v)
  case (Cons op ops)
  have top: "foldl max CurrentVersion (map opVersion ops) = CurrentVersion" for ops
    by (induction ops) (simp_all add: max_absorb1 opVersion_bounds)
  from Cons.prems have "max v (opVersion op) \<le> CurrentVersion" using opVersion_bounds by simp
  then show ?case using Cons.IH top by (auto simp: Let_def)
qed simp

lemma foldl_max_ge: "v \<le> foldl max v xs \<and> (\<forall>x \<in> set xs. x \<le> foldl max v xs)" for v :: int
  by (induction xs arbitrary: v) (auto intro: order_trans [OF max.cobounded2] order_trans [OF max.cobounded1])

lemma foldl_max_mem: "foldl max v xs = v \<or> foldl max v xs \<in> set xs" for v :: int
proof (induction xs arbitrary: v)
  case (Cons x xs)
  from Cons.IH [of "max v x"] show ?case by (auto simp: max_def split: if_splits)
qed simp

section \<open>Properties\<close>

text \<open>
  The schema version a plan declares is the least one that covers every feature its ops use:
  at least the schema that brought each feature, and no higher than the highest of them (or the
  baseline), although the code tests the features one after the other and returns at the first.
\<close>

theorem RequiredVersion_least:
  "(\<forall>op \<in> set ops. \<forall>v \<in> set (feature_floors op). v \<le> RequiredVersion ops)
   \<and> (RequiredVersion ops = VersionConfigSet
      \<or> (\<exists>op \<in> set ops. RequiredVersion ops \<in> set (feature_floors op)))"
proof -
  have R: "RequiredVersion ops = foldl max 21 (map opVersion ops)"
    by (simp add: RequiredVersion_def RequiredVersion_from_max version_defs)
  have max_ge: "v \<in> set vs \<Longrightarrow> v \<le> foldr max vs (21::int)" for v vs
    by (induction vs) auto
  have max_mem: "foldr max vs (21::int) = 21 \<or> foldr max vs 21 \<in> set vs" for vs
    by (induction vs) (auto simp: max_def)
  have "v \<le> RequiredVersion ops" if "op \<in> set ops" "v \<in> set (feature_floors op)" for op v
    using that max_ge [of v "feature_floors op"] foldl_max_ge [of 21 "map opVersion ops"]
    by (auto simp: R opVersion_is_max intro: order_trans)
  moreover have "RequiredVersion ops = 21 \<or> (\<exists>op \<in> set ops. RequiredVersion ops \<in> set (feature_floors op))"
    using foldl_max_mem [of 21 "map opVersion ops"] max_mem
    by (auto simp: R opVersion_is_max) (metis opVersion_is_max)
  ultimately show ?thesis by (simp add: VersionConfigSet_def)
qed

theorem RequiredVersion_least_witness:
  "31 \<le> RequiredVersion [(zero_op KindWhenBegin)\<lparr>op_all := [zero_pred\<lparr>p_not := True\<rparr>]\<rparr>]"
proof -
  let ?op = "(zero_op KindWhenBegin)\<lparr>op_all := [zero_pred\<lparr>p_not := True\<rparr>]\<rparr>"
  have "31 \<in> set (feature_floors ?op)" by code_simp
  with RequiredVersion_least [of "[?op]"] show ?thesis by simp
qed

end
