(* ===== verification/PlanSplit.thy ===== *)
theory PlanSplit
  imports PlanTypes
begin

text \<open>
  Privilege chunks: \<open>plan/split.go\<close>, the requirement scopes and stubs of \<open>plan/require.go\<close>, and the
  two small whole-plan checks \<open>plan/negated_os.go\<close> and \<open>plan/service_enable_only.go\<close>. A plan is
  cut into runs of ops that share their (block-promoted) privilege; the pre-flight
  \<open>ValidateChunks\<close> then refuses what such a cut could not apply.
\<close>

section \<open>Chunks and refusals\<close>

record Chunk =
  ch_elevate :: bool
  ch_ops :: "Op list"

datatype scope_condition =
    CondPathExists string
  | CondFact string

datatype refusal =
    NegatedOutsideWhen
  | NegatedMalformed
  | NegatedPlatform platform_error
  | EnableOnlyCombined string
  | DanglingDep string string            \<comment> \<open>op, dependency: \<open>DanglingDepError\<close>\<close>
  | ForwardDep nat string string nat     \<comment> \<open>chunk, op, dependency, later chunk\<close>
  | GateWatchesNothing nat string
  | DanglingWatch string string          \<comment> \<open>op, watch: \<open>DanglingWatchError\<close>\<close>
  | CrossChunkWatch nat string string nat
  | RequirementScope string bool string scope_condition
      \<comment> \<open>requirement, whether it uses the condition itself, the op that uses it, the condition\<close>

section \<open>Block promotion: effectiveElevate\<close>

text \<open>
  \<open>promote f i eff\<close> is the body of the \<open>when_end\<close> case: if any op of \<open>[f, i]\<close> is elevated, all of
  them become so.
\<close>

definition promote :: "nat \<Rightarrow> nat \<Rightarrow> bool list \<Rightarrow> bool list" where
  "promote f i eff =
     (if list_ex (\<lambda>j. eff ! j) [f..<Suc i]
      then map (\<lambda>j. if f \<le> j \<and> j \<le> i then True else eff ! j) [0..<length eff]
      else eff)"

fun elevate_walk :: "nat \<Rightarrow> Op list \<Rightarrow> nat list \<Rightarrow> bool list \<Rightarrow> bool list" where
  "elevate_walk i [] stack eff = eff"
| "elevate_walk i (op # ops) stack eff =
     (if op_kind op = KindWhenBegin then elevate_walk (Suc i) ops (i # stack) eff
      else if op_kind op = KindWhenEnd then
        (case stack of
           [] \<Rightarrow> elevate_walk (Suc i) ops [] eff
         | f # rest \<Rightarrow> elevate_walk (Suc i) ops rest (promote f i eff))
      else elevate_walk (Suc i) ops stack eff)"

definition effectiveElevate :: "Op list \<Rightarrow> bool list" where
  "effectiveElevate body = elevate_walk 0 body [] (map op_elevate body)"

section \<open>Requirement scopes and stubs\<close>

definition hostFacts :: "string list" where
  "hostFacts = [''goos'', ''profile'', ''hostname_contains'']"

fun nonHostFact_preds :: "Predicate list \<Rightarrow> scope_condition option" where
  "nonHostFact_preds [] = None"
| "nonHostFact_preds (p # ps) =
     (if p_path_exists p \<noteq> [] then Some (CondPathExists (p_path_exists p))
      else if p_fact p \<notin> set hostFacts then Some (CondFact (p_fact p))
      else nonHostFact_preds ps)"

definition nonHostFactCondition :: "Op \<Rightarrow> scope_condition option" where
  "nonHostFactCondition op = nonHostFact_preds (op_all op)"

text \<open>The chain is the open \<open>when_begin\<close> ops, outermost first; its last op is the requirement.\<close>

fun scope_error_of :: "Op \<Rightarrow> Op list \<Rightarrow> refusal check" where
  "scope_error_of req [] = Inr ()"
| "scope_error_of req (op # ops) =
     (case nonHostFactCondition op of
        Some cond \<Rightarrow> Inl (RequirementScope (op_id req) (op_id op = op_id req) (op_id op) cond)
      | None \<Rightarrow> scope_error_of req ops)"

definition requirementScopeError :: "Op list \<Rightarrow> refusal check" where
  "requirementScopeError chain = scope_error_of (last chain) chain"

text \<open>\<open>open\<close> grows at its end, as the Go slice does.\<close>

fun scope_walk :: "Op list \<Rightarrow> Op list \<Rightarrow> refusal check" where
  "scope_walk opened [] = Inr ()"
| "scope_walk opened (op # ops) =
     (if op_kind op = KindWhenBegin then
        (if op_require op \<noteq> [] then
           bind_res (requirementScopeError (opened @ [op])) (\<lambda>_. scope_walk (opened @ [op]) ops)
         else scope_walk (opened @ [op]) ops)
      else if op_kind op = KindWhenEnd then scope_walk (butlast opened) ops
      else scope_walk opened ops)"

definition ValidateRequirementScopes :: "Op list list \<Rightarrow> refusal check" where
  "ValidateRequirementScopes chunks = check_all (scope_walk []) chunks"

fun stub_walk :: "Op list \<Rightarrow> Op list \<Rightarrow> Op list" where
  "stub_walk opened [] = []"
| "stub_walk opened (op # ops) =
     (if op_kind op = KindWhenBegin then
        (if op_require op \<noteq> [] \<and> requirementScopeError (opened @ [op]) = Inr ()
         then (opened @ [op]) @ replicate (length (opened @ [op])) (zero_op KindWhenEnd)
              @ stub_walk (opened @ [op]) ops
         else stub_walk (opened @ [op]) ops)
      else if op_kind op = KindWhenEnd then stub_walk (butlast opened) ops
      else stub_walk opened ops)"

definition requirementStubs :: "Op list \<Rightarrow> Op list" where
  "requirementStubs ops = stub_walk [] ops"

text \<open>
  \<open>hoistRequirements\<close> walks the chunks from the last to the first; the second component is the
  \<open>pending\<close> stubs of the chunks already walked.
\<close>

definition prepend_stubs :: "Op list \<Rightarrow> Chunk \<Rightarrow> Chunk" where
  "prepend_stubs pending c =
     (case (pending, ch_ops c) of
        (_ # _, header # rest) \<Rightarrow> c\<lparr>ch_ops := header # pending @ rest\<rparr>
      | _ \<Rightarrow> c)"

fun hoist :: "Chunk list \<Rightarrow> Chunk list \<times> Op list" where
  "hoist [] = ([], [])"
| "hoist (c # cs) =
     (let (done, pending) = hoist cs
      in (prepend_stubs pending c # done, requirementStubs (ch_ops c) @ pending))"

definition hoistRequirements :: "Chunk list \<Rightarrow> Chunk list" where
  "hoistRequirements chunks = fst (hoist chunks)"

section \<open>SplitPrivilegeChunks\<close>

text \<open>The cutting loop: the runs of equal effective privilege, in order.\<close>

fun split_runs :: "bool \<Rightarrow> Op list \<Rightarrow> (bool \<times> Op) list \<Rightarrow> (bool \<times> Op list) list" where
  "split_runs cur part [] = [(cur, part)]"
| "split_runs cur part ((e, op) # rest) =
     (if e = cur then split_runs cur (part @ [op]) rest
      else (cur, part) # split_runs e [op] rest)"

definition split_header :: "Op list \<Rightarrow> Op" where
  "split_header ops =
     (case ops of
        op # _ \<Rightarrow> if op_kind op = KindPlan then op
                  else (zero_op KindPlan)\<lparr>op_version := CurrentVersion\<rparr>
      | [] \<Rightarrow> (zero_op KindPlan)\<lparr>op_version := CurrentVersion\<rparr>)"

definition split_body :: "Op list \<Rightarrow> Op list" where
  "split_body ops =
     (case ops of op # rest \<Rightarrow> if op_kind op = KindPlan then rest else ops | [] \<Rightarrow> [])"

definition chunk_header :: "Op \<Rightarrow> Op" where
  "chunk_header h = (if op_id h = [] then h\<lparr>op_id := ''chunk''\<rparr> else h)"

definition body_runs :: "Op list \<Rightarrow> (bool \<times> Op list) list" where
  "body_runs body =
     (case zip (effectiveElevate body) body of
        [] \<Rightarrow> []
      | (e, op) # rest \<Rightarrow> split_runs e [op] rest)"

definition raw_chunks :: "Op list \<Rightarrow> Chunk list" where
  "raw_chunks ops =
     map (\<lambda>(e, part). \<lparr>ch_elevate = e, ch_ops = chunk_header (split_header ops) # part\<rparr>)
       (body_runs (split_body ops))"

definition SplitPrivilegeChunks :: "Op list \<Rightarrow> Chunk list" where
  "SplitPrivilegeChunks ops =
     (if ops = [] then []
      else if split_body ops = [] then [\<lparr>ch_elevate = False, ch_ops = [split_header ops]\<rparr>]
      else hoistRequirements (raw_chunks ops))"

section \<open>The whole-plan pre-flight\<close>

definition validateNegatedOS :: "Predicate \<Rightarrow> refusal check" where
  "validateNegatedOS p =
     (if p_fact p \<noteq> ''goos'' \<or> p_path_exists p \<noteq> [] \<or> (p_eq p \<noteq> [] \<and> p_in p \<noteq> [])
      then Inl NegatedMalformed
      else check_all (\<lambda>v. map_err NegatedPlatform (platform_Check v))
             (if p_in p = [] then [p_eq p] else p_in p))"

definition validateNegatedOSChunks :: "Op list list \<Rightarrow> refusal check" where
  "validateNegatedOSChunks chunks =
     check_all (check_all (\<lambda>op. check_all
       (\<lambda>p. if \<not> p_not p then Inr ()
            else if op_kind op \<noteq> KindWhenBegin then Inl NegatedOutsideWhen
            else validateNegatedOS p) (op_all op))) chunks"

definition ValidateServiceEnableOnly :: "Op list list \<Rightarrow> refusal check" where
  "ValidateServiceEnableOnly chunks =
     check_all (check_all (\<lambda>op.
       guard_res (\<not> (op_kind op = KindService \<and> op_enable_only op
                     \<and> (op_restart op \<or> op_reload op \<or> op_if_changed op)))
         (EnableOnlyCombined (op_name op)))) chunks"

text \<open>\<open>firstChunkOf\<close>: the Go map, filled chunk by chunk and never overwritten.\<close>

fun note_ids :: "nat \<Rightarrow> Op list \<Rightarrow> (string \<rightharpoonup> nat) \<Rightarrow> (string \<rightharpoonup> nat)" where
  "note_ids i [] m = m"
| "note_ids i (op # ops) m =
     note_ids i ops
       (if op_id op \<noteq> [] \<and> m (op_id op) = None then m(op_id op \<mapsto> i) else m)"

fun first_chunks_from :: "nat \<Rightarrow> Op list list \<Rightarrow> (string \<rightharpoonup> nat) \<Rightarrow> (string \<rightharpoonup> nat)" where
  "first_chunks_from i [] m = m"
| "first_chunks_from i (c # cs) m = first_chunks_from (Suc i) cs (note_ids i c m)"

definition firstChunkOf :: "Op list list \<Rightarrow> (string \<rightharpoonup> nat)" where
  "firstChunkOf chunks = first_chunks_from 0 chunks Map.empty"

definition check_dep :: "(string \<rightharpoonup> nat) \<Rightarrow> nat \<Rightarrow> Op \<Rightarrow> string \<Rightarrow> refusal check" where
  "check_dep firstChunk i op dep =
     (case firstChunk dep of
        None \<Rightarrow> Inl (DanglingDep (op_id op) dep)
      | Some j \<Rightarrow> if j > i then Inl (ForwardDep i (op_id op) dep j) else Inr ())"

definition ValidateChunkDeps :: "Op list list \<Rightarrow> refusal check" where
  "ValidateChunkDeps chunks =
     check_all (\<lambda>(i, chunk). check_all (\<lambda>op.
         check_all (check_dep (firstChunkOf chunks) i op) (op_deps op)) chunk)
       (enumerate 0 chunks)"

definition check_watch :: "(string \<rightharpoonup> nat) \<Rightarrow> nat \<Rightarrow> Op \<Rightarrow> string \<Rightarrow> refusal check" where
  "check_watch firstChunk i op watch =
     (case firstChunk watch of
        None \<Rightarrow> Inl (DanglingWatch (op_id op) watch)
      | Some j \<Rightarrow> if j \<noteq> i then Inl (CrossChunkWatch i (op_id op) watch j) else Inr ())"

definition check_gate :: "(string \<rightharpoonup> nat) \<Rightarrow> nat \<Rightarrow> Op \<Rightarrow> refusal check" where
  "check_gate firstChunk i op =
     (if \<not> op_if_changed op then Inr ()
      else if op_watch op = [] then Inl (GateWatchesNothing i (op_id op))
      else check_all (check_watch firstChunk i op) (op_watch op))"

definition ValidateChangeGates :: "Op list list \<Rightarrow> refusal check" where
  "ValidateChangeGates chunks =
     check_all (\<lambda>(i, chunk). check_all (check_gate (firstChunkOf chunks) i) chunk)
       (enumerate 0 chunks)"

definition ValidateChunks :: "Chunk list \<Rightarrow> refusal check" where
  "ValidateChunks chunks =
     (let bodies = map ch_ops chunks in
      bind_res (validateNegatedOSChunks bodies) (\<lambda>_.
      bind_res (ValidateServiceEnableOnly bodies) (\<lambda>_.
      bind_res (ValidateChunkDeps bodies) (\<lambda>_.
      bind_res (ValidateChangeGates bodies) (\<lambda>_.
      ValidateRequirementScopes bodies)))))"

section \<open>Lemmas: the first chunk of an id\<close>

definition carries :: "string \<Rightarrow> Op list \<Rightarrow> bool" where
  "carries i chunk = list_ex (\<lambda>op. op_id op = i) chunk"

lemma carries_iff: "carries i chunk \<longleftrightarrow> (\<exists>op \<in> set chunk. op_id op = i)"
  by (auto simp: carries_def list_ex_iff)

lemma note_ids_lookup:
  "note_ids i c m k =
     (case m k of Some j \<Rightarrow> Some j | None \<Rightarrow> if k \<noteq> [] \<and> carries k c then Some i else None)"
  by (induction c arbitrary: m) (auto simp: carries_def split: option.splits)

lemma first_chunks_from_lookup:
  "first_chunks_from i cs m k =
     (case m k of Some j \<Rightarrow> Some j
      | None \<Rightarrow> if k = [] then None else map_option ((+) i) (first_index (carries k) cs))"
proof (induction cs arbitrary: i m)
  case (Cons c cs)
  have plus: "(+) (Suc i) = (+) i \<circ> Suc" by auto
  show ?case
    by (simp add: Cons.IH note_ids_lookup plus option.map_comp split: option.splits)
qed (simp split: option.splits)

text \<open>The map is the reference search: the first chunk that carries the id.\<close>

lemma firstChunkOf_eq:
  "firstChunkOf chunks k = (if k = [] then None else first_index (carries k) chunks)"
proof -
  have "(+) (0::nat) = id" by auto
  then show ?thesis
    by (simp add: firstChunkOf_def first_chunks_from_lookup option.map_id)
qed

lemma firstChunkOf_SomeD:
  "firstChunkOf chunks k = Some j \<Longrightarrow>
     j < length chunks \<and> k \<noteq> [] \<and> carries k (chunks ! j) \<and> (\<forall>l < j. \<not> carries k (chunks ! l))"
  by (auto simp: firstChunkOf_eq dest: first_index_SomeD split: if_splits)

lemma firstChunkOf_exists:
  assumes "j < length chunks" "k \<noteq> []" "carries k (chunks ! j)"
  shows "\<exists>l \<le> j. firstChunkOf chunks k = Some l"
proof -
  obtain l where l: "first_index (carries k) chunks = Some l"
    using first_index_exists [of "chunks ! j" chunks "carries k"] assms by auto
  have "l \<le> j" using first_index_SomeD [OF l] assms(3) by (meson not_le_imp_less)
  with l assms(2) show ?thesis by (auto simp: firstChunkOf_eq)
qed

lemma in_enumerate_iff: "(i, c) \<in> set (enumerate 0 cs) \<longleftrightarrow> i < length cs \<and> c = cs ! i"
  by (auto simp: in_set_enumerate_eq)

lemma check_enumerate_iff:
  "check_all (\<lambda>(i, c). check_all (f i) c) (enumerate 0 cs) = Inr () \<longleftrightarrow>
     (\<forall>i < length cs. \<forall>op \<in> set (cs ! i). f i op = Inr ())" (is "?L \<longleftrightarrow> ?R")
proof -
  have "?L \<longleftrightarrow> (\<forall>(i, c) \<in> set (enumerate 0 cs). \<forall>op \<in> set c. f i op = Inr ())"
    by (simp add: check_all_Inr_iff case_prod_beta)
  also have "\<dots> \<longleftrightarrow> ?R"
    using in_enumerate_iff [of _ _ cs] by (fastforce simp: Ball_def)
  finally show ?thesis .
qed

section \<open>Lemmas: stubs and hoisting\<close>

lemma stub_walk_control:
  "(\<forall>op \<in> set opened. op_kind op = KindWhenBegin) \<Longrightarrow> s \<in> set (stub_walk opened ops) \<Longrightarrow>
     op_kind s = KindWhenBegin \<or> op_kind s = KindWhenEnd"
proof (induction opened ops arbitrary: s rule: stub_walk.induct)
  case (2 opened op ops)
  have tail: "\<forall>o' \<in> set (butlast opened). op_kind o' = KindWhenBegin"
    using "2.prems"(1) by (auto dest: in_set_butlastD)
  show ?case
    using "2.prems" "2.IH" tail
    by (auto simp: zero_op_def split: if_splits)
qed simp

lemma requirementStubs_control:
  "s \<in> set (requirementStubs ops) \<Longrightarrow> op_kind s = KindWhenBegin \<or> op_kind s = KindWhenEnd"
  unfolding requirementStubs_def by (rule stub_walk_control) auto

lemma length_hoist [simp]: "length (fst (hoist cs)) = length cs"
  by (induction cs) (simp_all add: case_prod_beta Let_def)

lemma hoist_pending: "snd (hoist cs) = concat (map (requirementStubs \<circ> ch_ops) cs)"
  by (induction cs) (simp_all add: case_prod_beta Let_def)

lemma hoist_nth:
  "k < length cs \<Longrightarrow>
     fst (hoist cs) ! k = prepend_stubs (concat (map (requirementStubs \<circ> ch_ops) (drop (Suc k) cs))) (cs ! k)"
proof (induction cs arbitrary: k)
  case (Cons c cs)
  then show ?case by (cases k) (simp_all add: case_prod_beta Let_def hoist_pending comp_def)
qed simp

lemma prepend_stubs_elevate [simp]: "ch_elevate (prepend_stubs p c) = ch_elevate c"
  by (auto simp: prepend_stubs_def split: list.splits)

lemma prepend_stubs_ops:
  "ch_ops c = h # part \<Longrightarrow> ch_ops (prepend_stubs p c) = h # p @ part"
  by (auto simp: prepend_stubs_def split: list.splits)

section \<open>Lemmas: runs\<close>

lemma concat_split_runs:
  "concat (map snd (split_runs cur part rest)) = part @ map snd rest"
  by (induction cur part rest rule: split_runs.induct) auto

lemma split_runs_mem:
  "(c, ops) \<in> set (split_runs cur part rest) \<Longrightarrow> op \<in> set ops \<Longrightarrow>
     (op \<in> set part \<and> c = cur) \<or> (c, op) \<in> set rest"
  by (induction cur part rest rule: split_runs.induct) (auto split: if_splits)

lemma hd_split_runs: "\<exists>ops rs. split_runs cur part rest = (cur, ops) # rs"
  by (induction cur part rest rule: split_runs.induct) (auto split: if_splits)

lemma split_runs_alternate:
  "Suc i < length (split_runs cur part rest) \<Longrightarrow>
     fst (split_runs cur part rest ! i) \<noteq> fst (split_runs cur part rest ! Suc i)"
proof (induction cur part rest arbitrary: i rule: split_runs.induct)
  case (2 cur part e op rest)
  obtain ops rs where hd: "split_runs e [op] rest = (e, ops) # rs" using hd_split_runs by blast
  show ?case
  proof (cases "e = cur")
    case True
    with 2 show ?thesis by simp
  next
    case False
    with 2 hd show ?thesis by (cases i) auto
  qed
qed simp

lemma split_runs_nonempty:
  "part \<noteq> [] \<Longrightarrow> (c, ops) \<in> set (split_runs cur part rest) \<Longrightarrow> ops \<noteq> []"
  by (induction cur part rest rule: split_runs.induct) (auto split: if_splits)

lemma length_promote [simp]: "length (promote f i eff) = length eff"
  by (simp add: promote_def)

lemma promote_outside: "j < f \<or> i < j \<Longrightarrow> j < length eff \<Longrightarrow> promote f i eff ! j = eff ! j"
  by (auto simp: promote_def)

lemma promote_uniform:
  assumes "f \<le> j" "j \<le> i" "f \<le> j'" "j' \<le> i" "i < length eff"
  shows "promote f i eff ! j = promote f i eff ! j'"
  using assms by (auto simp: promote_def list_ex_iff)

lemma promote_mono: "j < length eff \<Longrightarrow> eff ! j \<Longrightarrow> promote f i eff ! j"
  by (auto simp: promote_def)

lemma length_elevate_walk [simp]: "length (elevate_walk i ops st eff) = length eff"
  by (induction i ops st eff rule: elevate_walk.induct) (auto split: list.splits)

lemma length_effectiveElevate [simp]: "length (effectiveElevate body) = length body"
  by (simp add: effectiveElevate_def)

lemma elevate_walk_mono:
  "j < length eff \<Longrightarrow> eff ! j \<Longrightarrow> elevate_walk i ops st eff ! j"
proof (induction i ops st eff rule: elevate_walk.induct)
  case (2 i op ops stack eff)
  then show ?case
    by (cases stack) (simp_all add: promote_mono)
qed simp

lemma effectiveElevate_ge: "j < length body \<Longrightarrow> op_elevate (body ! j) \<Longrightarrow> effectiveElevate body ! j"
  unfolding effectiveElevate_def by (rule elevate_walk_mono) auto

lemma body_runs_concat: "concat (map snd (body_runs body)) = body"
proof (cases "zip (effectiveElevate body) body")
  case Nil
  then have "body = []" by (metis length_0_conv length_effectiveElevate length_zip min.idem)
  then show ?thesis by (simp add: body_runs_def effectiveElevate_def)
next
  case (Cons x rest)
  obtain e op where x: "x = (e, op)" by (cases x)
  have "op # map snd rest = map snd (zip (effectiveElevate body) body)" using Cons x by simp
  also have "\<dots> = body" by simp
  finally show ?thesis using Cons x by (simp add: body_runs_def concat_split_runs)
qed

lemma body_runs_tag:
  "(c, ops) \<in> set (body_runs body) \<Longrightarrow> op \<in> set ops \<Longrightarrow>
     \<exists>j < length body. body ! j = op \<and> effectiveElevate body ! j = c"
proof -
  assume a: "(c, ops) \<in> set (body_runs body)" "op \<in> set ops"
  have "(c, op) \<in> set (zip (effectiveElevate body) body)"
  proof (cases "zip (effectiveElevate body) body")
    case Nil
    with a show ?thesis by (simp add: body_runs_def)
  next
    case (Cons x rest)
    with a split_runs_mem [of c ops _ _ rest op] show ?thesis
      by (cases x) (fastforce simp: body_runs_def)
  qed
  then show ?thesis by (auto simp: in_set_zip)
qed

section \<open>Well-nested bodies\<close>

text \<open>
  \<open>nest d ops\<close> is the number of open blocks after \<open>ops\<close>, started with \<open>d\<close> open; \<open>None\<close> when a
  \<open>when_end\<close> closes nothing. A body is \<open>balanced\<close> when it starts and ends with none open.
\<close>

fun nest :: "nat \<Rightarrow> Op list \<Rightarrow> nat option" where
  "nest d [] = Some d"
| "nest d (op # ops) =
     (if op_kind op = KindWhenBegin then nest (Suc d) ops
      else if op_kind op = KindWhenEnd then (if d = 0 then None else nest (d - 1) ops)
      else nest d ops)"

definition balanced :: "Op list \<Rightarrow> bool" where
  "balanced ops \<longleftrightarrow> nest 0 ops = Some 0"

lemma nest_append: "nest d (xs @ ys) = Option.bind (nest d xs) (\<lambda>d'. nest d' ys)"
  by (induction d xs rule: nest.induct) auto

lemma nest_shift: "nest d xs = Some d' \<Longrightarrow> nest (d + e) xs = Some (d' + e)"
proof (induction d xs rule: nest.induct)
  case (2 d op ops)
  then show ?case by (cases d) (auto split: if_splits)
qed simp

lemma balanced_append: "balanced xs \<Longrightarrow> balanced ys \<Longrightarrow> balanced (xs @ ys)"
  by (simp add: balanced_def nest_append)

lemma balanced_concat: "(\<And>xs. xs \<in> set xss \<Longrightarrow> balanced xs) \<Longrightarrow> balanced (concat xss)"
  by (induction xss) (auto simp: balanced_append, simp add: balanced_def)

lemma nest_begins:
  "(\<forall>op \<in> set bs. op_kind op = KindWhenBegin) \<Longrightarrow> nest d bs = Some (d + length bs)"
  by (induction bs arbitrary: d) auto

lemma nest_ends: "n \<le> d \<Longrightarrow> nest d (replicate n (zero_op KindWhenEnd)) = Some (d - n)"
  by (induction n arbitrary: d) (auto simp: zero_op_def)

lemma balanced_stub_walk:
  "(\<forall>op \<in> set opened. op_kind op = KindWhenBegin) \<Longrightarrow> balanced (stub_walk opened ops)"
proof (induction opened ops rule: stub_walk.induct)
  case (1 opened)
  show ?case by (simp add: balanced_def)
next
  case (2 opened op ops)
  have tail: "\<forall>o' \<in> set (butlast opened). op_kind o' = KindWhenBegin"
    using "2.prems" by (auto dest: in_set_butlastD)
  have stub: "balanced ((opened @ [op]) @ replicate (length (opened @ [op])) (zero_op KindWhenEnd))"
    if "op_kind op = KindWhenBegin"
  proof -
    have "nest 0 (opened @ [op]) = Some (length (opened @ [op]))"
      using nest_begins [of "opened @ [op]" 0] "2.prems" that by simp
    then show ?thesis
      unfolding balanced_def nest_append [of 0 "opened @ [op]"]
      using nest_ends [of "length (opened @ [op])" "length (opened @ [op])"] by simp
  qed
  show ?case
    using 2 tail balanced_append [OF stub] by auto
qed

lemma balanced_requirementStubs: "balanced (requirementStubs ops)"
  unfolding requirementStubs_def by (rule balanced_stub_walk) simp

lemma promote_boundary_keep:
  "Suc k < f \<Longrightarrow> f \<le> i \<Longrightarrow> i < length eff \<Longrightarrow>
     promote f i eff ! k = promote f i eff ! Suc k \<longleftrightarrow> eff ! k = eff ! Suc k"
  by (simp add: promote_outside)

text \<open>
  The loop invariant of \<open>effectiveElevate\<close> on a prefix of length \<open>i\<close>: the stack holds the starts of
  the open blocks, the outermost of them at nesting depth 0, and two neighbours inside a block that
  is closed (or opened before the outermost open one) have the same flag.
\<close>

definition walk_inv :: "Op list \<Rightarrow> nat \<Rightarrow> nat list \<Rightarrow> bool list \<Rightarrow> bool" where
  "walk_inv body i stack eff \<longleftrightarrow>
     i \<le> length body \<and> length eff = length body \<and>
     nest 0 (take i body) = Some (length stack) \<and>
     sorted_wrt (>) stack \<and> (\<forall>f \<in> set stack. f < i) \<and>
     (stack \<noteq> [] \<longrightarrow> nest 0 (take (last stack) body) = Some 0) \<and>
     (\<forall>k. Suc k < i \<longrightarrow> (stack \<noteq> [] \<longrightarrow> Suc k \<le> last stack) \<longrightarrow>
          nest 0 (take (Suc k) body) \<noteq> Some 0 \<longrightarrow> eff ! k = eff ! Suc k)"

lemma nest_take_Suc:
  "i < length body \<Longrightarrow>
     nest 0 (take (Suc i) body) = Option.bind (nest 0 (take i body)) (\<lambda>d. nest d [body ! i])"
  by (simp add: take_Suc_conv_app_nth nest_append)

lemma last_less_all: "sorted_wrt (>) (f # rest) \<Longrightarrow> rest \<noteq> [] \<Longrightarrow> last rest < (f::nat)"
  by (cases rest) auto

lemma walk_inv_begin:
  assumes "walk_inv body i stack eff" "i < length body" "op_kind (body ! i) = KindWhenBegin"
  shows "walk_inv body (Suc i) (i # stack) eff"
proof -
  have last: "stack \<noteq> [] \<Longrightarrow> last stack < i" using assms(1) by (auto simp: walk_inv_def)
  have "eff ! k = eff ! Suc k"
    if "Suc k < Suc i" "Suc k \<le> last (i # stack)" "nest 0 (take (Suc k) body) \<noteq> Some 0" for k
  proof (cases "Suc k = i")
    case True
    with assms(1) last that show ?thesis by (cases stack) (auto simp: walk_inv_def)
  next
    case False
    with assms(1) that show ?thesis by (auto simp: walk_inv_def split: if_splits)
  qed
  with assms show ?thesis by (auto simp: walk_inv_def nest_take_Suc)
qed

lemma walk_inv_other:
  assumes inv: "walk_inv body i stack eff" and i: "i < length body"
    and kind: "op_kind (body ! i) \<noteq> KindWhenBegin" "op_kind (body ! i) \<noteq> KindWhenEnd"
  shows "walk_inv body (Suc i) stack eff"
proof -
  have last: "stack \<noteq> [] \<Longrightarrow> last stack < i" using inv by (auto simp: walk_inv_def)
  have "eff ! k = eff ! Suc k"
    if "Suc k < Suc i" "stack \<noteq> [] \<longrightarrow> Suc k \<le> last stack" "nest 0 (take (Suc k) body) \<noteq> Some 0" for k
  proof (cases "Suc k = i")
    case True
    with inv last that show ?thesis by (cases stack) (auto simp: walk_inv_def)
  next
    case False
    with inv that show ?thesis by (auto simp: walk_inv_def)
  qed
  with inv i kind show ?thesis by (auto simp: walk_inv_def nest_take_Suc)
qed

lemma walk_inv_end:
  assumes inv: "walk_inv body i (f # rest) eff" and i: "i < length body"
    and kind: "op_kind (body ! i) = KindWhenEnd"
  shows "walk_inv body (Suc i) rest (promote f i eff)"
proof -
  have fi: "f < i" and sorted: "sorted_wrt (>) (f # rest)" using inv by (auto simp: walk_inv_def)
  have "promote f i eff ! k = promote f i eff ! Suc k"
    if k: "Suc k < Suc i" "rest \<noteq> [] \<longrightarrow> Suc k \<le> last rest" "nest 0 (take (Suc k) body) \<noteq> Some 0" for k
  proof (cases "rest = []")
    case False
    with k sorted have "Suc k < f" using last_less_all by fastforce
    with inv k False fi show ?thesis
      by (auto simp: walk_inv_def promote_outside)
  next
    case True
    have "Suc k \<noteq> f" using inv k(3) True by (auto simp: walk_inv_def)
    then consider "Suc k < f" | "f \<le> k" by linarith
    then show ?thesis
    proof cases
      case 1
      with inv k True fi show ?thesis by (auto simp: walk_inv_def promote_outside)
    next
      case 2
      with k i inv show ?thesis by (intro promote_uniform) (auto simp: walk_inv_def)
    qed
  qed
  with inv i kind fi show ?thesis
    by (auto simp: walk_inv_def nest_take_Suc less_Suc_eq split: if_splits)
qed

lemma elevate_walk_inv:
  assumes "walk_inv body i stack eff" "balanced body"
  shows "\<exists>st. walk_inv body (length body) st (elevate_walk i (drop i body) stack eff)"
  using assms
proof (induction "length body - i" arbitrary: i stack eff)
  case 0
  then show ?case by (auto simp: walk_inv_def)
next
  case (Suc n)
  then have i: "i < length body" by simp
  define op where "op = body ! i"
  have drop: "drop i body = op # drop (Suc i) body" using i by (simp add: op_def Cons_nth_drop_Suc)
  have n: "n = length body - Suc i" using Suc.hyps(2) by simp
  consider "op_kind op = KindWhenBegin" | "op_kind op = KindWhenEnd"
    | "op_kind op \<noteq> KindWhenBegin" "op_kind op \<noteq> KindWhenEnd" by blast
  then show ?case
  proof cases
    case 1
    with Suc.hyps(1) [OF n walk_inv_begin [OF Suc.prems(1) i]] Suc.prems(2) drop show ?thesis
      by (simp add: op_def)
  next
    case 2
    have "nest 0 (take (Suc i) body) \<noteq> None"
      using Suc.prems(2) nest_append [of 0 "take (Suc i) body" "drop (Suc i) body"]
      by (cases "nest 0 (take (Suc i) body)") (auto simp: balanced_def)
    with 2 i Suc.prems(1) obtain f rest where "stack = f # rest"
      by (cases stack) (auto simp: walk_inv_def nest_take_Suc op_def)
    with 2 Suc.hyps(1) [OF n walk_inv_end] Suc.prems i drop show ?thesis
      by (simp add: op_def)
  next
    case 3
    with Suc.hyps(1) [OF n walk_inv_other [OF Suc.prems(1) i]] Suc.prems(2) drop show ?thesis
      by (simp add: op_def)
  qed
qed

lemma effectiveElevate_blocks:
  assumes "balanced body" "Suc k < length body" "nest 0 (take (Suc k) body) \<noteq> Some 0"
  shows "effectiveElevate body ! k = effectiveElevate body ! Suc k"
proof -
  have "walk_inv body 0 [] (map op_elevate body)" by (simp add: walk_inv_def)
  from elevate_walk_inv [OF this assms(1)] obtain st where
    inv: "walk_inv body (length body) st (effectiveElevate body)"
    by (auto simp: effectiveElevate_def)
  then have "st = []" using assms(1) by (simp add: walk_inv_def balanced_def)
  with inv assms show ?thesis by (simp add: walk_inv_def)
qed

lemma split_runs_balanced:
  assumes "nest 0 (part @ map snd rest) = Some 0"
    and "\<forall>k < length rest. (cur # map fst rest) ! k \<noteq> fst (rest ! k) \<longrightarrow>
           nest 0 (part @ map snd (take k rest)) = Some 0"
    and "(c, ops) \<in> set (split_runs cur part rest)"
  shows "balanced ops"
  using assms
proof (induction cur part rest rule: split_runs.induct)
  case (1 cur part)
  then show ?case by (simp add: balanced_def)
next
  case (2 cur part e op rest)
  have step: "\<forall>k < length rest. (e # map fst rest) ! k \<noteq> fst (rest ! k) \<longrightarrow>
      nest 0 (part @ op # map snd (take k rest)) = Some 0"
    using "2.prems"(2) by (auto dest: spec [of _ "Suc _"])
  show ?case
  proof (cases "e = cur")
    case True
    with 2 step show ?thesis by simp
  next
    case False
    have part: "nest 0 part = Some 0" using "2.prems"(2) False by force
    have "nest 0 (op # map snd rest) = Some 0" using "2.prems"(1) part by (simp add: nest_append)
    moreover have "\<forall>k < length rest. (e # map fst rest) ! k \<noteq> fst (rest ! k) \<longrightarrow>
        nest 0 ([op] @ map snd (take k rest)) = Some 0"
      using step part by (simp add: nest_append)
    ultimately show ?thesis using False 2 part by (auto simp: balanced_def)
  qed
qed

lemma body_runs_balanced:
  assumes "balanced body" "(c, ops) \<in> set (body_runs body)"
  shows "balanced ops"
proof (cases body)
  case Nil
  with assms(2) show ?thesis by (simp add: body_runs_def effectiveElevate_def)
next
  case (Cons op0 body')
  define eff where "eff = effectiveElevate body"
  have len: "length eff = Suc (length body')" by (simp add: eff_def Cons)
  then obtain e0 eff' where eff: "eff = e0 # eff'" by (cases eff) auto
  have zip: "zip eff body = (e0, op0) # zip eff' body'" by (simp add: eff Cons)
  have len': "length eff' = length body'" using len eff by simp
  have mapsnd: "map snd (zip eff' body') = body'" and mapfst: "map fst (zip eff' body') = eff'"
    using len' by simp_all
  have cond: "nest 0 ([op0] @ map snd (take k (zip eff' body'))) = Some 0"
    if "k < length (zip eff' body')" "(e0 # map fst (zip eff' body')) ! k \<noteq> fst (zip eff' body' ! k)" for k
  proof (rule ccontr)
    assume "\<not> ?thesis"
    moreover have "[op0] @ map snd (take k (zip eff' body')) = take (Suc k) body"
      using len' by (simp add: Cons take_zip)
    ultimately have "nest 0 (take (Suc k) body) \<noteq> Some 0" by metis
    moreover have "Suc k < length body" using that(1) len' by (simp add: Cons)
    ultimately have "eff ! k = eff ! Suc k"
      unfolding eff_def by (intro effectiveElevate_blocks [OF assms(1)])
    with that mapfst len' show False by (simp add: eff)
  qed
  show ?thesis
  proof (rule split_runs_balanced)
    show "nest 0 ([op0] @ map snd (zip eff' body')) = Some 0"
      using assms(1) mapsnd by (simp add: balanced_def Cons)
    show "(c, ops) \<in> set (split_runs e0 [op0] (zip eff' body'))"
      using assms(2) zip by (simp add: body_runs_def eff_def)
  qed (use cond in blast)
qed

section \<open>Lemmas: the chunks as a whole\<close>

abbreviation is_resource :: "Op \<Rightarrow> bool" where
  "is_resource op \<equiv> \<not> IsControlKind (op_kind op)"

lemma split_header_kind [simp]: "op_kind (chunk_header (split_header ops)) = KindPlan"
  by (cases ops) (simp_all add: split_header_def chunk_header_def zero_op_def)

lemma split_header_kind' [simp]: "op_kind (split_header ops) = KindPlan"
  by (cases ops) (simp_all add: split_header_def zero_op_def)

lemma raw_chunks_ops:
  "c \<in> set (raw_chunks ops) \<Longrightarrow>
     \<exists>part. (ch_elevate c, part) \<in> set (body_runs (split_body ops))
       \<and> ch_ops c = chunk_header (split_header ops) # part"
  by (auto simp: raw_chunks_def)

lemma nth_hoistRequirements:
  assumes "k < length cs" "ch_ops (cs ! k) = h # part"
  shows "ch_ops (hoistRequirements cs ! k) =
           h # concat (map (requirementStubs \<circ> ch_ops) (drop (Suc k) cs)) @ part"
  unfolding hoistRequirements_def hoist_nth [OF assms(1)] by (rule prepend_stubs_ops [OF assms(2)])

lemma first_chunk_ops:
  assumes "body_runs (split_body ops) = (e0, part0) # runs"
  shows "ch_ops (hd (SplitPrivilegeChunks ops)) =
    chunk_header (split_header ops) # concat (map requirementStubs (map snd runs)) @ part0"
proof -
  let ?hdr = "chunk_header (split_header ops)"
  have ne: "ops \<noteq> []" "split_body ops \<noteq> []"
    using assms by (auto simp: split_body_def body_runs_def effectiveElevate_def)
  have raw: "raw_chunks ops = \<lparr>ch_elevate = e0, ch_ops = ?hdr # part0\<rparr>
      # map (\<lambda>(e, part). \<lparr>ch_elevate = e, ch_ops = ?hdr # part\<rparr>) runs"
    by (simp add: raw_chunks_def assms)
  have "requirementStubs (?hdr # part) = requirementStubs part" for part
    by (simp add: requirementStubs_def chunk_header_def split_header_def zero_op_def split: list.splits)
  then have "concat (map (requirementStubs \<circ> ch_ops) (drop (Suc 0) (raw_chunks ops)))
      = concat (map requirementStubs (map snd runs))"
    by (simp add: raw comp_def case_prod_beta)
  moreover have "ch_ops (raw_chunks ops ! 0) = ?hdr # part0" "0 < length (raw_chunks ops)"
    by (simp_all add: raw)
  ultimately have at0: "ch_ops (hoistRequirements (raw_chunks ops) ! 0)
      = ?hdr # concat (map requirementStubs (map snd runs)) @ part0"
    using nth_hoistRequirements [of 0 "raw_chunks ops" ?hdr part0] by simp
  have "hoistRequirements (raw_chunks ops) \<noteq> []"
    using length_hoist [of "raw_chunks ops"] raw unfolding hoistRequirements_def by force
  then show ?thesis using ne at0 by (simp add: SplitPrivilegeChunks_def hd_conv_nth)
qed

lemma hoist_elevate: "map ch_elevate (hoistRequirements cs) = map ch_elevate cs"
  by (rule nth_equalityI) (simp_all add: hoistRequirements_def hoist_nth)

text \<open>A chunk is its header, the stubs of the later chunks, and its own run.\<close>

lemma split_chunk_shape:
  assumes "c \<in> set (hoistRequirements (raw_chunks ops))"
  obtains part stubs where "(ch_elevate c, part) \<in> set (body_runs (split_body ops))"
    "ch_ops c = chunk_header (split_header ops) # stubs @ part"
    "balanced stubs" "\<forall>s \<in> set stubs. IsControlKind (op_kind s)"
proof -
  let ?cs = "raw_chunks ops"
  from assms obtain k where k: "k < length ?cs" "c = hoistRequirements ?cs ! k"
    by (metis hoistRequirements_def in_set_conv_nth length_hoist)
  from raw_chunks_ops [of "?cs ! k" ops] k(1) obtain part where
    part: "(ch_elevate (?cs ! k), part) \<in> set (body_runs (split_body ops))"
      "ch_ops (?cs ! k) = chunk_header (split_header ops) # part" by auto
  let ?stubs = "concat (map (requirementStubs \<circ> ch_ops) (drop (Suc k) ?cs))"
  show thesis
  proof
    show "(ch_elevate c, part) \<in> set (body_runs (split_body ops))"
      using part(1) k by (simp add: hoistRequirements_def hoist_nth)
    show "ch_ops c = chunk_header (split_header ops) # ?stubs @ part"
      using nth_hoistRequirements [OF k(1) part(2)] k(2) by simp
    show "balanced ?stubs" by (rule balanced_concat) (auto intro: balanced_requirementStubs)
    show "\<forall>s \<in> set ?stubs. IsControlKind (op_kind s)" by (auto dest: requirementStubs_control)
  qed
qed

lemma hoist_keeps_resources:
  assumes "\<And>c. c \<in> set cs \<Longrightarrow> ch_ops c \<noteq> []"
  shows "filter is_resource (concat (map ch_ops (hoistRequirements cs)))
           = filter is_resource (concat (map ch_ops cs))"
proof -
  have "filter is_resource (ch_ops (prepend_stubs p c)) = filter is_resource (ch_ops c)"
    if "ch_ops c \<noteq> []" "\<forall>s \<in> set p. IsControlKind (op_kind s)" for p c
    using that by (cases "ch_ops c") (auto simp: prepend_stubs_ops intro: filter_False)
  moreover have "\<forall>s \<in> set (snd (hoist cs)). IsControlKind (op_kind s)" for cs
    by (auto simp: hoist_pending dest!: requirementStubs_control)
  ultimately show ?thesis
    using assms unfolding hoistRequirements_def
    by (induction cs) (simp_all add: Let_def case_prod_beta)
qed

lemma chunk_deps_placed_iff:
  "ValidateChunkDeps chunks = Inr () \<longleftrightarrow>
     (\<forall>i < length chunks. \<forall>op \<in> set (chunks ! i). \<forall>dep \<in> set (op_deps op).
        dep \<noteq> [] \<and> (\<exists>j \<le> i. \<exists>op' \<in> set (chunks ! j). op_id op' = dep))"
proof -
  have one: "check_dep (firstChunkOf chunks) i op dep = Inr () \<longleftrightarrow>
      dep \<noteq> [] \<and> (\<exists>j \<le> i. carries dep (chunks ! j))" if "i < length chunks" for i op dep
  proof
    assume "check_dep (firstChunkOf chunks) i op dep = Inr ()"
    then obtain j where "firstChunkOf chunks dep = Some j" "j \<le> i"
      by (auto simp: check_dep_def split: option.splits if_splits)
    then show "dep \<noteq> [] \<and> (\<exists>j \<le> i. carries dep (chunks ! j))" using firstChunkOf_SomeD by blast
  next
    assume a: "dep \<noteq> [] \<and> (\<exists>j \<le> i. carries dep (chunks ! j))"
    then obtain j where "j \<le> i" "carries dep (chunks ! j)" by blast
    with firstChunkOf_exists [of j chunks dep] a that obtain l where
      "l \<le> j" "firstChunkOf chunks dep = Some l" by auto
    with \<open>j \<le> i\<close> show "check_dep (firstChunkOf chunks) i op dep = Inr ()"
      by (auto simp: check_dep_def)
  qed
  show ?thesis
    unfolding ValidateChunkDeps_def check_enumerate_iff
    by (simp add: one carries_iff check_all_Inr_iff)
qed

lemma split_unprivileged_ops:
  assumes "ch \<in> set (SplitPrivilegeChunks ops)" "\<not> ch_elevate ch"
    and "op \<in> set (ch_ops ch)" "is_resource op"
  shows "\<not> op_elevate op"
proof (cases "ops = [] \<or> split_body ops = []")
  case True
  with assms(1) have "ch_ops ch = [split_header ops]"
    by (auto simp: SplitPrivilegeChunks_def split: if_splits)
  with assms(3,4) show ?thesis by simp
next
  case False
  with assms(1) have "ch \<in> set (hoistRequirements (raw_chunks ops))"
    by (simp add: SplitPrivilegeChunks_def)
  then obtain part stubs where part: "(ch_elevate ch, part) \<in> set (body_runs (split_body ops))"
    and ops: "ch_ops ch = chunk_header (split_header ops) # stubs @ part"
    and stubs: "\<forall>s \<in> set stubs. IsControlKind (op_kind s)" by (rule split_chunk_shape)
  with assms(3,4) have "op \<in> set part" by auto
  from body_runs_tag [OF part this] show ?thesis using assms(2) effectiveElevate_ge by fastforce
qed

section \<open>Properties\<close>

text \<open>
  C2: cutting a plan into privilege chunks neither loses, duplicates nor reorders a resource op:
  the resource ops of the chunks, read chunk after chunk, are those of the plan.
\<close>

theorem split_keeps_resource_ops:
  "filter is_resource (concat (map ch_ops (SplitPrivilegeChunks ops))) = filter is_resource ops"
proof (cases "ops = [] \<or> split_body ops = []")
  case True
  then show ?thesis
    by (auto simp: SplitPrivilegeChunks_def split_body_def split: list.splits if_splits)
next
  case False
  have "concat (map ch_ops (raw_chunks ops)) =
      concat (map (\<lambda>part. chunk_header (split_header ops) # part) (map snd (body_runs (split_body ops))))"
    by (simp add: raw_chunks_def case_prod_beta comp_def)
  moreover have "filter is_resource (concat (map (\<lambda>part. chunk_header (split_header ops) # part) ps))
      = filter is_resource (concat ps)" for ps
    by (induction ps) simp_all
  ultimately have "filter is_resource (concat (map ch_ops (raw_chunks ops)))
      = filter is_resource (split_body ops)"
    by (simp only: body_runs_concat)
  moreover have "filter is_resource (split_body ops) = filter is_resource ops"
    by (cases ops) (simp_all add: split_body_def)
  moreover have "filter is_resource (concat (map ch_ops (hoistRequirements (raw_chunks ops))))
      = filter is_resource (concat (map ch_ops (raw_chunks ops)))"
    by (rule hoist_keeps_resources) (auto dest: raw_chunks_ops)
  ultimately show ?thesis using False by (simp add: SplitPrivilegeChunks_def)
qed

text \<open>
  C3: no op recorded as privileged ever lands in an unprivileged chunk, so the process that
  applies such a chunk is never asked to do privileged work.
\<close>

theorem split_confines_elevated:
  assumes "ch \<in> set (SplitPrivilegeChunks ops)" "\<not> ch_elevate ch"
    and "op \<in> set (ch_ops ch)" "is_resource op"
  shows "\<not> op_elevate op"
  using assms by (rule split_unprivileged_ops)

text \<open>
  A cut never falls inside a \<open>when_begin\<close>/\<open>when_end\<close> block: if the recorded body is well
  nested, so is every chunk on its own, requirement stubs included.
\<close>

theorem split_blocks_whole:
  assumes "balanced (split_body ops)" "ch \<in> set (SplitPrivilegeChunks ops)"
  shows "balanced (ch_ops ch)"
proof (cases "ops = [] \<or> split_body ops = []")
  case True
  with assms(2) have "ch_ops ch = [split_header ops]"
    by (auto simp: SplitPrivilegeChunks_def split: if_splits)
  then show ?thesis by (simp add: balanced_def)
next
  case False
  with assms(2) have "ch \<in> set (hoistRequirements (raw_chunks ops))"
    by (simp add: SplitPrivilegeChunks_def)
  then obtain part stubs where part: "(ch_elevate ch, part) \<in> set (body_runs (split_body ops))"
    and ops: "ch_ops ch = chunk_header (split_header ops) # stubs @ part" and "balanced stubs"
    by (rule split_chunk_shape)
  with body_runs_balanced [OF assms(1) part] have "balanced (stubs @ part)"
    by (intro balanced_append)
  then show ?thesis by (simp add: ops balanced_def)
qed

text \<open>
  The chunks are as few as the recorded order allows: two neighbouring chunks never have the
  same privilege.
\<close>

theorem split_alternates:
  assumes "Suc i < length (SplitPrivilegeChunks ops)"
  shows "ch_elevate (SplitPrivilegeChunks ops ! i) \<noteq> ch_elevate (SplitPrivilegeChunks ops ! Suc i)"
proof -
  have ne: "ops \<noteq> []" "split_body ops \<noteq> []"
    using assms by (auto simp: SplitPrivilegeChunks_def split: if_splits)
  let ?runs = "body_runs (split_body ops)"
  have eq: "map ch_elevate (SplitPrivilegeChunks ops) = map fst ?runs"
    using ne by (simp add: SplitPrivilegeChunks_def hoist_elevate raw_chunks_def case_prod_beta)
  then have len: "length (SplitPrivilegeChunks ops) = length ?runs" by (metis length_map)
  have "fst (?runs ! i) \<noteq> fst (?runs ! Suc i)"
    using assms unfolding len
    by (cases "zip (effectiveElevate (split_body ops)) (split_body ops)")
      (auto simp: body_runs_def dest: split_runs_alternate)
  then show ?thesis using eq assms len by (metis Suc_lessD nth_map)
qed

text \<open>
  The dependency pre-flight accepts exactly the plans in which every dependency of an op is
  recorded, under a non-empty id, in the op's own chunk or an earlier one.
\<close>

theorem ValidateChunkDeps_iff:
  "ValidateChunkDeps chunks = Inr () \<longleftrightarrow>
     (\<forall>i < length chunks. \<forall>op \<in> set (chunks ! i). \<forall>dep \<in> set (op_deps op).
        dep \<noteq> [] \<and> (\<exists>j \<le> i. \<exists>op' \<in> set (chunks ! j). op_id op' = dep))"
  by (rule chunk_deps_placed_iff)

text \<open>
  The change-gate pre-flight accepts exactly the plans in which every change-gated op watches
  something and everything it watches is first recorded in the op's own chunk, so its change report
  can reach the gate.
\<close>

theorem ValidateChangeGates_iff:
  "ValidateChangeGates chunks = Inr () \<longleftrightarrow>
     (\<forall>i < length chunks. \<forall>op \<in> set (chunks ! i). op_if_changed op \<longrightarrow>
        op_watch op \<noteq> [] \<and>
        (\<forall>w \<in> set (op_watch op). w \<noteq> [] \<and> (\<exists>op' \<in> set (chunks ! i). op_id op' = w)
           \<and> (\<forall>j < i. \<forall>op' \<in> set (chunks ! j). op_id op' \<noteq> w)))"
proof -
  have one: "check_watch (firstChunkOf chunks) i op w = Inr () \<longleftrightarrow>
      w \<noteq> [] \<and> carries w (chunks ! i) \<and> (\<forall>j < i. \<not> carries w (chunks ! j))"
    if i: "i < length chunks" for i op w
  proof
    assume "check_watch (firstChunkOf chunks) i op w = Inr ()"
    then have "firstChunkOf chunks w = Some i"
      by (auto simp: check_watch_def split: option.splits if_splits)
    then show "w \<noteq> [] \<and> carries w (chunks ! i) \<and> (\<forall>j < i. \<not> carries w (chunks ! j))"
      using firstChunkOf_SomeD by blast
  next
    assume a: "w \<noteq> [] \<and> carries w (chunks ! i) \<and> (\<forall>j < i. \<not> carries w (chunks ! j))"
    with firstChunkOf_exists [of i chunks w] i obtain l where
      l: "l \<le> i" "firstChunkOf chunks w = Some l" by auto
    then have "l = i" using a firstChunkOf_SomeD by (meson le_neq_implies_less)
    with l show "check_watch (firstChunkOf chunks) i op w = Inr ()" by (simp add: check_watch_def)
  qed
  have gate: "check_gate (firstChunkOf chunks) i op = Inr () \<longleftrightarrow>
      (op_if_changed op \<longrightarrow> op_watch op \<noteq> [] \<and>
        (\<forall>w \<in> set (op_watch op). w \<noteq> [] \<and> carries w (chunks ! i) \<and> (\<forall>j < i. \<not> carries w (chunks ! j))))"
    if "i < length chunks" for i op
    using one [OF that] by (auto simp: check_gate_def res_simps)
  have "ValidateChangeGates chunks = Inr () \<longleftrightarrow>
      (\<forall>i < length chunks. \<forall>op \<in> set (chunks ! i). check_gate (firstChunkOf chunks) i op = Inr ())"
    unfolding ValidateChangeGates_def by (rule check_enumerate_iff)
  then show ?thesis by (simp add: gate carries_iff cong: conj_cong)
qed

section \<open>Witnesses\<close>

text \<open>
  A plan with an unprivileged file, a privileged command, and a block whose inner op is privileged
  and carries a requirement.
\<close>

definition sample_plan :: "Op list" where
  "sample_plan =
     [(zero_op KindPlan)\<lparr>op_version := 31\<rparr>,
      resource_op KindFile ''File[a]'',
      (resource_op KindCommand ''Command[b]'')\<lparr>op_elevate := True, op_deps := [''File[a]'']\<rparr>,
      (resource_op KindWhenBegin ''When[c]'')
        \<lparr>op_require := ''linux only'',
          op_all := [zero_pred\<lparr>p_fact := ''goos'', p_eq := ''linux''\<rparr>]\<rparr>,
      (resource_op KindCommand ''Command[d]'')\<lparr>op_elevate := True\<rparr>,
      resource_op KindFile ''File[e]'',
      zero_op KindWhenEnd,
      resource_op KindFile ''File[f]'']"

lemmas sample_defs = sample_plan_def zero_op_def resource_op_def zero_pred_def

lemma sample_elevate: "effectiveElevate (split_body sample_plan) = [False, True, True, True, True, True, False]"
  by code_simp

lemma sample_shape: "map ch_elevate (SplitPrivilegeChunks sample_plan) = [False, True, False]"
  by code_simp

lemma sample_first_chunk:
  "SplitPrivilegeChunks sample_plan ! 0 \<in> set (SplitPrivilegeChunks sample_plan)"
  "\<not> ch_elevate (SplitPrivilegeChunks sample_plan ! 0)"
  "resource_op KindFile ''File[a]'' \<in> set (ch_ops (SplitPrivilegeChunks sample_plan ! 0))"
  "is_resource (resource_op KindFile ''File[a]'')"
  by code_simp+

theorem split_confines_elevated_witness:
  "\<not> op_elevate (resource_op KindFile ''File[a]'')"
  by (rule split_confines_elevated [OF sample_first_chunk])

lemma sample_balanced: "balanced (split_body sample_plan)"
  by code_simp

theorem split_blocks_whole_witness:
  "balanced (ch_ops (SplitPrivilegeChunks sample_plan ! 0))"
  by (rule split_blocks_whole [OF sample_balanced sample_first_chunk(1)])

lemma sample_three_chunks: "Suc 0 < length (SplitPrivilegeChunks sample_plan)"
  by code_simp

theorem split_alternates_witness:
  "ch_elevate (SplitPrivilegeChunks sample_plan ! 0) \<noteq> ch_elevate (SplitPrivilegeChunks sample_plan ! Suc 0)"
  by (rule split_alternates [OF sample_three_chunks])

definition sample_gated :: "Op list list" where
  "sample_gated =
     [[resource_op KindFile ''File[a]'',
       (resource_op KindCommand ''Command[b]'')
         \<lparr>op_if_changed := True, op_watch := [''File[a]''], op_deps := [''File[a]'']\<rparr>]]"

theorem ValidateChunkDeps_iff_witness:
  "ValidateChunkDeps sample_gated = Inr () \<and>
   (\<exists>j \<le> 0. \<exists>op' \<in> set (sample_gated ! j). op_id op' = ''File[a]'')"
proof -
  have ok: "ValidateChunkDeps sample_gated = Inr ()" by code_simp
  have "sample_gated ! 0 ! 1 \<in> set (sample_gated ! 0)"
    "''File[a]'' \<in> set (op_deps (sample_gated ! 0 ! 1))" "0 < length sample_gated"
    by code_simp+
  with ok ValidateChunkDeps_iff [of sample_gated] show ?thesis by blast
qed

theorem ValidateChangeGates_iff_witness:
  "ValidateChangeGates sample_gated = Inr () \<and>
   (\<exists>op' \<in> set (sample_gated ! 0). op_id op' = ''File[a]'')"
proof -
  have ok: "ValidateChangeGates sample_gated = Inr ()" by code_simp
  have "sample_gated ! 0 ! 1 \<in> set (sample_gated ! 0)" "op_if_changed (sample_gated ! 0 ! 1)"
    "''File[a]'' \<in> set (op_watch (sample_gated ! 0 ! 1))" "0 < length sample_gated"
    by code_simp+
  with ok ValidateChangeGates_iff [of sample_gated] show ?thesis by blast
qed

end
