(* ===== verification/Reach.thy ===== *)
theory Reach
  imports Prelude
begin

text \<open>
  Reachability by breadth-first search, as \<open>reacher.reaches\<close> of \<open>plan/pathdeps.go\<close> runs it: nodes are
  marked when they are queued, and the search stops as soon as it queues the target. The search
  decides reachability exactly, with one unit of fuel per node.
\<close>

section \<open>The search\<close>

fun visit_node :: "nat \<Rightarrow> nat \<Rightarrow> bool \<times> nat list \<times> nat list \<Rightarrow> bool \<times> nat list \<times> nat list" where
  "visit_node to v (found, seen, queue) =
     (if found \<or> v \<in> set seen then (found, seen, queue) else (v = to, v # seen, queue @ [v]))"

fun bfs_loop :: "nat \<Rightarrow> (nat \<Rightarrow> nat list) \<Rightarrow> nat \<Rightarrow> bool \<times> nat list \<times> nat list \<Rightarrow> bool" where
  "bfs_loop 0 succ to (found, seen, queue) = found"
| "bfs_loop (Suc fuel) succ to (found, seen, []) = found"
| "bfs_loop (Suc fuel) succ to (found, seen, u # queue) =
     (if found then True
      else bfs_loop fuel succ to (fold (visit_node to) (succ u) (found, seen, queue)))"

definition reaches :: "nat \<Rightarrow> (nat \<Rightarrow> nat list) \<Rightarrow> nat \<Rightarrow> nat \<Rightarrow> bool" where
  "reaches n succ from to = (bfs_loop n succ to (False, [from], [from]) \<or> from = to)"

definition succ_rel :: "(nat \<Rightarrow> nat list) \<Rightarrow> (nat \<times> nat) set" where
  "succ_rel succ = {(u, v). v \<in> set (succ u)}"

lemma succ_rel_iff: "(u, v) \<in> succ_rel succ \<longleftrightarrow> v \<in> set (succ u)"
  by (simp add: succ_rel_def)

definition closed_on :: "nat \<Rightarrow> (nat \<Rightarrow> nat list) \<Rightarrow> bool" where
  "closed_on n succ = (\<forall>u < n. \<forall>v \<in> set (succ u). v < n)"

lemma closed_onD: "closed_on n succ \<Longrightarrow> u < n \<Longrightarrow> v \<in> set (succ u) \<Longrightarrow> v < n"
  by (simp add: closed_on_def)

section \<open>Correctness\<close>

lemma closed_contains_reachable:
  assumes "a \<in> S" "\<And>u v. u \<in> S \<Longrightarrow> (u, v) \<in> r \<Longrightarrow> v \<in> S" "(a, b) \<in> r\<^sup>*"
  shows "b \<in> S"
  using assms(3,1) by (induction rule: rtrancl_induct) (auto intro: assms(2))

text \<open>
  The invariant: what is seen is reachable, the nodes no longer queued have all their successors
  seen, and the target is seen only when found (unless it is the start).
\<close>

definition bfs_inv :: "nat \<Rightarrow> (nat \<Rightarrow> nat list) \<Rightarrow> nat \<Rightarrow> nat \<Rightarrow> bool \<times> nat list \<times> nat list \<Rightarrow> bool" where
  "bfs_inv n succ a b = (\<lambda>(found, seen, queue).
     distinct seen \<and> set seen \<subseteq> {..<n} \<and> set queue \<subseteq> set seen \<and> a \<in> set seen
     \<and> (\<forall>v \<in> set seen. (a, v) \<in> (succ_rel succ)\<^sup>*)
     \<and> (found \<longrightarrow> b \<in> set seen) \<and> (\<not> found \<longrightarrow> b \<in> set seen \<longrightarrow> a = b)
     \<and> (\<not> found \<longrightarrow> (\<forall>u \<in> set seen - set queue. set (succ u) \<subseteq> set seen)))"

text \<open>While one node's successors are visited, that node alone may still have unseen ones.\<close>

lemma visit_fold:
  assumes "\<forall>v \<in> set vs. v < n \<and> (a, v) \<in> (succ_rel succ)\<^sup>*"
    and "distinct seen" "set seen \<subseteq> {..<n}" "set queue \<subseteq> set seen" "a \<in> set seen"
    and "\<forall>v \<in> set seen. (a, v) \<in> (succ_rel succ)\<^sup>*"
    and "found \<longrightarrow> b \<in> set seen" "\<not> found \<longrightarrow> b \<in> set seen \<longrightarrow> a = b"
    and "fold (visit_node b) vs (found, seen, queue) = (found', seen', queue')"
  shows "distinct seen' \<and> set seen' \<subseteq> {..<n} \<and> set queue' \<subseteq> set seen' \<and> set seen \<subseteq> set seen'
    \<and> (\<forall>v \<in> set seen'. (a, v) \<in> (succ_rel succ)\<^sup>*)
    \<and> (found' \<longrightarrow> b \<in> set seen') \<and> (\<not> found' \<longrightarrow> b \<in> set seen' \<longrightarrow> a = b)
    \<and> (\<not> found' \<longrightarrow> set vs \<subseteq> set seen' \<and> set seen' - set queue' \<subseteq> set seen - set queue)
    \<and> length seen' + length queue = length seen + length queue'"
  using assms
proof (induction vs arbitrary: found seen queue)
  case (Cons v vs)
  show ?case
  proof (cases "found \<or> v \<in> set seen")
    case True
    have "fold (visit_node b) vs (found, seen, queue) = (found', seen', queue')"
      using Cons.prems(9) True by simp
    note IH = Cons.IH [OF _ Cons.prems(2-8) this]
    have keep: "fold (visit_node b) vs (True, s, q) = (True, s, q)" for vs s q
      by (induction vs) auto
    from IH Cons.prems(1,9) True show ?thesis
      by (cases found) (auto simp: keep)
  next
    case False
    have run: "fold (visit_node b) vs (v = b, v # seen, queue @ [v]) = (found', seen', queue')"
      using Cons.prems(9) False by simp
    have "distinct (v # seen)" "set (v # seen) \<subseteq> {..<n}" "set (queue @ [v]) \<subseteq> set (v # seen)"
      "a \<in> set (v # seen)" "\<forall>x \<in> set (v # seen). (a, x) \<in> (succ_rel succ)\<^sup>*"
      "v = b \<longrightarrow> b \<in> set (v # seen)" "v \<noteq> b \<longrightarrow> b \<in> set (v # seen) \<longrightarrow> a = b"
      using Cons.prems False by auto
    from Cons.IH [OF _ this run] Cons.prems(1) False Cons.prems(4) show ?thesis by auto
  qed
qed auto

lemma bfs_loop_correct:
  assumes closed: "\<And>u v. u < n \<Longrightarrow> v \<in> set (succ u) \<Longrightarrow> v < n"
    and inv: "bfs_inv n succ a b (found, seen, queue)"
    and fuel: "n + length queue \<le> fuel + length seen" and ab: "a \<noteq> b"
  shows "bfs_loop fuel succ b (found, seen, queue) \<longleftrightarrow> (a, b) \<in> (succ_rel succ)\<^sup>*"
  using inv fuel
proof (induction fuel arbitrary: found seen queue)
  case 0
  have "length seen \<le> n"
    using 0(1) card_mono [of "{..<n}" "set seen"] by (simp add: bfs_inv_def distinct_card)
  moreover have "n + length queue \<le> length seen" using 0(2) by simp
  ultimately have "length queue = 0" by linarith
  then have "queue = []" by simp
  with 0 ab show ?case
    using closed_contains_reachable [of a "set seen" "succ_rel succ" b]
    by (auto simp: bfs_inv_def succ_rel_iff)
next
  case (Suc fuel)
  show ?case
  proof (cases queue)
    case Nil
    with Suc.prems ab show ?thesis
      using closed_contains_reachable [of a "set seen" "succ_rel succ" b]
      by (auto simp: bfs_inv_def succ_rel_iff)
  next
    case (Cons u rest)
    show ?thesis
    proof (cases found)
      case True
      with Suc.prems(1) Cons show ?thesis by (auto simp: bfs_inv_def)
    next
      case False
      have I: "distinct seen" "set seen \<subseteq> {..<n}" "set queue \<subseteq> set seen" "a \<in> set seen"
        "\<forall>v \<in> set seen. (a, v) \<in> (succ_rel succ)\<^sup>*" "b \<notin> set seen"
        "\<forall>w \<in> set seen - set queue. set (succ w) \<subseteq> set seen"
        using Suc.prems(1) False ab by (auto simp: bfs_inv_def)
      have u: "u \<in> set seen" "u < n" using I(2,3) Cons by auto
      obtain f' s' q' where run: "fold (visit_node b) (succ u) (False, seen, rest) = (f', s', q')"
        by (cases "fold (visit_node b) (succ u) (False, seen, rest)") auto
      have vs: "\<forall>v \<in> set (succ u). v < n \<and> (a, v) \<in> (succ_rel succ)\<^sup>*"
        using closed u I(5) by (auto intro: rtrancl_into_rtrancl simp: succ_rel_iff)
      have rest: "set rest \<subseteq> set seen" using I(3) Cons by auto
      have p: "False \<longrightarrow> b \<in> set seen" "\<not> False \<longrightarrow> b \<in> set seen \<longrightarrow> a = b"
        using I(6) by simp_all
      note V = visit_fold [OF vs I(1,2) rest I(4,5) p run]
      have done_closed: "set (succ w) \<subseteq> set s'" if "\<not> f'" "w \<in> set s' - set q'" for w
      proof (cases "w = u")
        case True
        with V that(1) show ?thesis by simp
      next
        case False
        have "w \<in> set seen - set rest" using V that by blast
        with False Cons have "w \<in> set seen - set queue" by simp
        with I(7) V show ?thesis by blast
      qed
      have mono: "set seen \<subseteq> set s'" using V by simp
      with I(4) have "a \<in> set s'" by blast
      with V done_closed have inv': "bfs_inv n succ a b (f', s', q')"
        by (simp add: bfs_inv_def)
      have "n + length q' \<le> fuel + length s'" using V Cons Suc.prems(2) by simp
      with inv' have "bfs_loop fuel succ b (f', s', q') \<longleftrightarrow> (a, b) \<in> (succ_rel succ)\<^sup>*"
        by (rule Suc.IH)
      with Cons False run show ?thesis by simp
    qed
  qed
qed

theorem reaches_correct:
  assumes "\<And>u v. u < n \<Longrightarrow> v \<in> set (succ u) \<Longrightarrow> v < n" "a < n"
  shows "reaches n succ a b \<longleftrightarrow> (a, b) \<in> (succ_rel succ)\<^sup>*"
proof (cases "a = b")
  case False
  have "bfs_inv n succ a b (False, [a], [a])" using assms(2) False by (simp add: bfs_inv_def)
  with bfs_loop_correct [OF assms(1) this _ False] False show ?thesis by (simp add: reaches_def)
qed (simp add: reaches_def)

text \<open>The same over the edges that leave the nodes below \<open>n\<close> only.\<close>

definition arcs_on :: "nat \<Rightarrow> (nat \<Rightarrow> nat list) \<Rightarrow> (nat \<times> nat) set" where
  "arcs_on n succ = {(u, v). u < n \<and> v \<in> set (succ u)}"

lemma arcs_on_iff: "(u, v) \<in> arcs_on n succ \<longleftrightarrow> u < n \<and> v \<in> set (succ u)"
  by (simp add: arcs_on_def)

lemma reaches_iff:
  assumes "closed_on n succ" and "a < n"
  shows "reaches n succ a b \<longleftrightarrow> (a, b) \<in> (arcs_on n succ)\<^sup>*"
proof -
  have "(a, b) \<in> (arcs_on n succ)\<^sup>* \<and> b < n" if "(a, b) \<in> (succ_rel succ)\<^sup>*"
    using that
  proof (induction rule: rtrancl_induct)
    case (step y z)
    then have "(y, z) \<in> arcs_on n succ" "z < n" using assms(1) by (auto simp: closed_on_def arcs_on_def succ_rel_iff)
    with step show ?case by auto
  qed (simp add: assms(2))
  moreover have "(arcs_on n succ)\<^sup>* \<subseteq> (succ_rel succ)\<^sup>*"
    by (rule rtrancl_mono) (auto simp: arcs_on_def succ_rel_iff)
  moreover have "reaches n succ a b \<longleftrightarrow> (a, b) \<in> (succ_rel succ)\<^sup>*"
    by (rule reaches_correct) (use assms in \<open>auto simp: closed_on_def\<close>)
  ultimately show ?thesis by blast
qed

text \<open>An edge whose target does not reach its source back closes no cycle.\<close>

lemma acyclic_insert_unreached: "acyclic r \<Longrightarrow> (v, u) \<notin> r\<^sup>* \<Longrightarrow> acyclic (insert (u, v) r)"
  by (simp add: acyclic_insert)

end
