(* ===== verification/PathDeps.thy ===== *)
theory PathDeps
  imports PlanTypes Reach
begin

text \<open>
  Parent-directory dependency inference: \<open>plan/pathdeps.go\<close>. An op that creates something inside a
  directory another op of the same run creates gets an edge from that op, unless the edge would
  close a cycle with the edges already there. The caller's \<open>next\<close> callback is the list of nodes it
  visits; the stamped scratch array of \<open>reacher\<close> is the list of nodes seen in one search.
\<close>

section \<open>Providers and consumers\<close>

definition createsDir :: "Op \<Rightarrow> bool" where
  "createsDir op =
     (case op_kind op of
        KindDir \<Rightarrow> \<not> op_absent op \<and> op_path op \<noteq> []
      | KindSyncDir \<Rightarrow> \<not> op_absent op \<and> op_path op \<noteq> []
      | KindEnsureDir \<Rightarrow> \<not> op_absent op \<and> op_path op \<noteq> []
      | _ \<Rightarrow> False)"

definition createdPaths :: "Op \<Rightarrow> string list" where
  "createdPaths op =
     (if op_absent op then []
      else if op_kind op \<in> set [KindFile, KindEnsureFile, KindDir, KindSyncDir, KindEnsureDir,
                               KindLink, KindLinkIfExists]
      then (if op_path op = [] then [] else [op_path op])
      else if op_kind op = KindConfigSet
      then map cm_path (filter (\<lambda>m. cm_path m \<noteq> []) (cs_members (config_set_payload op)))
      else [])"

type_synonym providers = "string \<rightharpoonup> nat list"

definition dirProviders :: "Op list \<Rightarrow> providers" where
  "dirProviders ops =
     index_from (\<lambda>op. if createsDir op then Some (path_clean (op_path op)) else None) 0 ops Map.empty"

text \<open>The walk up stops when \<open>path.Dir\<close> no longer moves; every move shortens the path.\<close>

function nearestAncestor :: "string \<Rightarrow> providers \<Rightarrow> string" where
  "nearestAncestor p m =
     (let parent = path_dir p
      in if parent = p then []
         else if m parent \<noteq> None then parent
         else nearestAncestor parent m)"
  by pat_completeness auto
termination
  by (relation "measure (\<lambda>(p, m). walk_up_measure p)") (auto intro: path_dir_decreases)

declare nearestAncestor.simps [simp del]

fun add_providers :: "nat \<Rightarrow> nat list \<Rightarrow> nat list \<Rightarrow> nat list" where
  "add_providers self [] deps = deps"
| "add_providers self (dep # rest) deps =
     add_providers self rest (if dep \<noteq> self \<and> dep \<notin> set deps then deps @ [dep] else deps)"

definition nearestProviders :: "Op \<Rightarrow> nat \<Rightarrow> providers \<Rightarrow> nat list" where
  "nearestProviders op self m =
     fold (\<lambda>p. add_providers self (at_key m (nearestAncestor (path_clean p) m)))
       (createdPaths op) []"

section \<open>Inference\<close>

text \<open>An edge is the pair of the providing and the dependent position.\<close>

type_synonym arc = "nat \<times> nat"

definition infer_edge ::
  "nat \<Rightarrow> (nat \<Rightarrow> nat list) \<Rightarrow> nat \<Rightarrow> nat \<Rightarrow> nat list list \<times> arc list \<Rightarrow> nat list list \<times> arc list"
where
  "infer_edge n nxt i dep = (\<lambda>(extra, found).
     if reaches n (\<lambda>u. nxt u @ extra ! u) i dep then (extra, found)
     else (extra[dep := extra ! dep @ [i]], found @ [(dep, i)]))"

definition InferParentDirDeps :: "Op list \<Rightarrow> (nat \<Rightarrow> nat list) \<Rightarrow> arc list" where
  "InferParentDirDeps ops nxt =
     (if \<not> list_ex createsDir ops then []
      else snd (fold (\<lambda>(i, op). fold (infer_edge (length ops) nxt i)
                                 (nearestProviders op i (dirProviders ops)))
                 (enumerate 0 ops) (replicate (length ops) [], [])))"

section \<open>Lemmas: the walk up\<close>

text \<open>The strict ancestors of a path, nearest first.\<close>

function ancestors :: "string \<Rightarrow> string list" where
  "ancestors p = (if path_dir p = p then [] else path_dir p # ancestors (path_dir p))"
  by pat_completeness auto
termination
  by (relation "measure walk_up_measure") (auto intro: path_dir_decreases)

declare ancestors.simps [simp del]

lemma nearestAncestor_find:
  "nearestAncestor p m = (case find (\<lambda>a. m a \<noteq> None) (ancestors p) of Some a \<Rightarrow> a | None \<Rightarrow> [])"
proof (induction p m rule: nearestAncestor.induct)
  case (1 p m)
  then show ?case
    by (subst nearestAncestor.simps, subst ancestors.simps) (auto simp: Let_def)
qed

lemma find_split:
  "find P xs = Some a \<Longrightarrow> \<exists>ys zs. xs = ys @ a # zs \<and> P a \<and> (\<forall>y \<in> set ys. \<not> P y)"
proof (induction xs)
  case (Cons x xs)
  show ?case
  proof (cases "P x")
    case True
    with Cons.prems have "x # xs = [] @ a # xs \<and> P a \<and> (\<forall>y \<in> set []. \<not> P y)" by simp
    then show ?thesis by blast
  next
    case False
    with Cons obtain ys zs where "xs = ys @ a # zs" "P a" "\<forall>y \<in> set ys. \<not> P y" by auto
    with False show ?thesis by (intro exI [of _ "x # ys"] exI [of _ zs]) auto
  qed
qed simp

section \<open>Lemmas: providers\<close>

lemma in_dirProviders_iff:
  "d \<in> set (at_key (dirProviders ops) p) \<longleftrightarrow>
     d < length ops \<and> createsDir (ops ! d) \<and> path_clean (op_path (ops ! d)) = p"
  by (simp add: dirProviders_def in_index_iff)

lemma dirProviders_None_iff: "dirProviders ops p = None \<longleftrightarrow> at_key (dirProviders ops) p = []"
  by (simp add: dirProviders_def index_None_iff)

lemma add_providers_set: "set (add_providers self new deps) = set deps \<union> (set new - {self})"
  by (induction new arbitrary: deps) auto

lemma nearestProviders_iff:
  "d \<in> set (nearestProviders op self m) \<longleftrightarrow>
     d \<noteq> self \<and> (\<exists>p \<in> set (createdPaths op). d \<in> set (at_key m (nearestAncestor (path_clean p) m)))"
proof -
  have "set (fold (\<lambda>p. add_providers self (f p)) ps deps) = set deps \<union> (\<Union>p \<in> set ps. set (f p) - {self})"
    for f :: "string \<Rightarrow> nat list" and ps deps
    by (induction ps arbitrary: deps) (auto simp: add_providers_set)
  then show ?thesis by (auto simp: nearestProviders_def)
qed

section \<open>Lemmas: inference\<close>

text \<open>All candidates, in the order they are tried; and the nested loops as one loop over them.\<close>

definition candidates :: "Op list \<Rightarrow> (nat \<times> nat) list" where
  "candidates ops =
     concat (map (\<lambda>(i, op). map (Pair i) (nearestProviders op i (dirProviders ops))) (enumerate 0 ops))"

lemma candidates_iff:
  "(i, d) \<in> set (candidates ops) \<longleftrightarrow>
     i < length ops \<and> d \<in> set (nearestProviders (ops ! i) i (dirProviders ops))"
proof -
  have "(i, d) \<in> set (candidates ops) \<longleftrightarrow>
      (\<exists>op. (i, op) \<in> set (enumerate 0 ops) \<and> d \<in> set (nearestProviders op i (dirProviders ops)))"
    by (force simp: candidates_def)
  then show ?thesis by (auto simp: in_set_enumerate_eq)
qed

lemma candidates_bounds: "(i, d) \<in> set (candidates ops) \<Longrightarrow> i < length ops \<and> d < length ops \<and> d \<noteq> i"
  by (auto simp: candidates_iff nearestProviders_iff in_dirProviders_iff)

lemma fold_candidates:
  "fold (\<lambda>(i, op). fold (g i) (f i op)) xs s
     = fold (\<lambda>(i, d). g i d) (concat (map (\<lambda>(i, op). map (Pair i) (f i op)) xs)) s"
proof (induction xs arbitrary: s)
  case (Cons x xs)
  obtain i op where x: "x = (i, op)" by (cases x)
  have "fold (g i) ds s = fold (\<lambda>(i, d). g i d) (map (Pair i) ds) s" for ds s
    by (induction ds arbitrary: s) simp_all
  then show ?case using Cons x by simp
qed simp

lemma no_provider_no_candidate: "\<not> list_ex createsDir ops \<Longrightarrow> candidates ops = []"
proof -
  assume "\<not> list_ex createsDir ops"
  then have "\<not> (\<exists>d < length ops. createsDir (ops ! d))" by (auto simp: list_ex_iff)
  then have "(i, d) \<notin> set (candidates ops)" for i d
    by (auto simp: candidates_iff nearestProviders_iff in_dirProviders_iff)
  then show ?thesis by (metis list.set_sel(1) surj_pair)
qed

lemma InferParentDirDeps_eq:
  "InferParentDirDeps ops nxt =
     snd (fold (\<lambda>(i, d). infer_edge (length ops) nxt i d) (candidates ops)
            (replicate (length ops) [], []))"
proof -
  have "fold (\<lambda>(i, op). fold (infer_edge (length ops) nxt i) (nearestProviders op i (dirProviders ops)))
          (enumerate 0 ops) s
      = fold (\<lambda>(i, d). infer_edge (length ops) nxt i d) (candidates ops) s" for s
    unfolding candidates_def by (rule fold_candidates)
  then show ?thesis
    by (simp add: InferParentDirDeps_def no_provider_no_candidate)
qed

text \<open>The graph after some edges are accepted: the caller's edges and the accepted ones.\<close>

definition infer_inv :: "nat \<Rightarrow> (nat \<Rightarrow> nat list) \<Rightarrow> nat list list \<times> arc list \<Rightarrow> bool" where
  "infer_inv n nxt = (\<lambda>(extra, found).
     length extra = n \<and> (\<forall>(d, i) \<in> set found. d < n \<and> i < n)
     \<and> (\<forall>u < n. \<forall>v. v \<in> set (extra ! u) \<longleftrightarrow> (u, v) \<in> set found))"

lemma infer_inv_arcs:
  "infer_inv n nxt (extra, found) \<Longrightarrow>
     arcs_on n (\<lambda>u. nxt u @ extra ! u) = arcs_on n nxt \<union> set found"
  by (auto simp: infer_inv_def arcs_on_def)

lemma infer_edge_cases:
  assumes closed: "closed_on n nxt"
    and inv: "infer_inv n nxt (extra, found)" and b: "i < n" "d < n"
    and run: "infer_edge n nxt i d (extra, found) = (extra', found')"
  shows "infer_inv n nxt (extra', found')"
    and "(i, d) \<in> (arcs_on n nxt \<union> set found)\<^sup>* \<and> found' = found
       \<or> (i, d) \<notin> (arcs_on n nxt \<union> set found)\<^sup>* \<and> found' = found @ [(d, i)]"
proof -
  have "closed_on n (\<lambda>u. nxt u @ extra ! u)"
    using inv closed by (auto simp: infer_inv_def closed_on_def)
  then have r: "reaches n (\<lambda>u. nxt u @ extra ! u) i d \<longleftrightarrow> (i, d) \<in> (arcs_on n nxt \<union> set found)\<^sup>*"
    using reaches_iff [of n "\<lambda>u. nxt u @ extra ! u" i d] b(1) infer_inv_arcs [OF inv] by simp
  show "(i, d) \<in> (arcs_on n nxt \<union> set found)\<^sup>* \<and> found' = found
       \<or> (i, d) \<notin> (arcs_on n nxt \<union> set found)\<^sup>* \<and> found' = found @ [(d, i)]"
    using run r by (auto simp: infer_edge_def split: if_splits)
  show "infer_inv n nxt (extra', found')"
    using run inv b by (auto simp: infer_edge_def infer_inv_def nth_list_update split: if_splits)
qed

text \<open>
  What the whole loop leaves: the graph stays acyclic, every accepted edge was a candidate, and
  every candidate is accepted or its dependent already reaches its provider.
\<close>

lemma infer_fold:
  assumes closed: "closed_on n nxt"
    and "infer_inv n nxt (extra, found)" "\<forall>(i, d) \<in> set cs. i < n \<and> d < n"
    and "fold (\<lambda>(i, d). infer_edge n nxt i d) cs (extra, found) = (extra', found')"
  shows "(R \<subseteq> arcs_on n nxt \<longrightarrow> acyclic (R \<union> set found) \<longrightarrow> acyclic (R \<union> set found'))
    \<and> set found \<subseteq> set found' \<and> set found' \<subseteq> set found \<union> (\<lambda>(i, d). (d, i)) ` set cs
    \<and> (\<forall>(i, d) \<in> set cs. (d, i) \<in> set found' \<or> (i, d) \<in> (arcs_on n nxt \<union> set found')\<^sup>*)"
  using assms(2-)
proof (induction cs arbitrary: extra found)
  case (Cons c cs)
  obtain i d where c: "c = (i, d)" by (cases c)
  obtain e1 f1 where s1: "infer_edge n nxt i d (extra, found) = (e1, f1)" by fastforce
  have b: "i < n" "d < n" using Cons.prems(2) c by auto
  note step = infer_edge_cases [OF closed Cons.prems(1) b s1]
  have IH: "(R \<subseteq> arcs_on n nxt \<longrightarrow> acyclic (R \<union> set f1) \<longrightarrow> acyclic (R \<union> set found'))
    \<and> set f1 \<subseteq> set found' \<and> set found' \<subseteq> set f1 \<union> (\<lambda>(i, d). (d, i)) ` set cs
    \<and> (\<forall>(i, d) \<in> set cs. (d, i) \<in> set found' \<or> (i, d) \<in> (arcs_on n nxt \<union> set found')\<^sup>*)"
    using Cons.prems(2,3) c s1 by (intro Cons.IH [OF step(1)]) auto
  from step(2) show ?case
  proof
    assume rej: "(i, d) \<in> (arcs_on n nxt \<union> set found)\<^sup>* \<and> f1 = found"
    have "(arcs_on n nxt \<union> set found)\<^sup>* \<subseteq> (arcs_on n nxt \<union> set found')\<^sup>*"
      using IH rej by (intro rtrancl_mono) auto
    with IH rej c show ?case by auto
  next
    assume acc: "(i, d) \<notin> (arcs_on n nxt \<union> set found)\<^sup>* \<and> f1 = found @ [(d, i)]"
    have "acyclic (R \<union> set f1)" if R: "R \<subseteq> arcs_on n nxt" and ac: "acyclic (R \<union> set found)"
    proof -
      have "(R \<union> set found)\<^sup>* \<subseteq> (arcs_on n nxt \<union> set found)\<^sup>*" using R by (intro rtrancl_mono) auto
      with acc have "(i, d) \<notin> (R \<union> set found)\<^sup>*" by blast
      then show ?thesis using acyclic_insert_unreached [OF ac, of i d] acc by simp
    qed
    with IH acc c show ?case by auto
  qed
qed auto

lemma infer_all:
  assumes closed: "closed_on (length ops) nxt"
  shows "R \<subseteq> arcs_on (length ops) nxt \<Longrightarrow> acyclic R \<Longrightarrow> acyclic (R \<union> set (InferParentDirDeps ops nxt))"
    and "(d, i) \<in> set (InferParentDirDeps ops nxt) \<Longrightarrow> (i, d) \<in> set (candidates ops)"
    and "(i, d) \<in> set (candidates ops) \<Longrightarrow> (d, i) \<in> set (InferParentDirDeps ops nxt)
       \<or> (i, d) \<in> (arcs_on (length ops) nxt \<union> set (InferParentDirDeps ops nxt))\<^sup>*"
proof -
  let ?n = "length ops"
  obtain e f where run: "fold (\<lambda>(i, d). infer_edge ?n nxt i d) (candidates ops) (replicate ?n [], []) = (e, f)"
    by fastforce
  have f: "InferParentDirDeps ops nxt = f" using run by (simp add: InferParentDirDeps_eq)
  have "infer_inv ?n nxt (replicate ?n [], [])" by (simp add: infer_inv_def)
  moreover have "\<forall>(i, d) \<in> set (candidates ops). i < ?n \<and> d < ?n" using candidates_bounds by fast
  ultimately have all: "(R \<subseteq> arcs_on ?n nxt \<longrightarrow> acyclic (R \<union> set []) \<longrightarrow> acyclic (R \<union> set f))
    \<and> set [] \<subseteq> set f \<and> set f \<subseteq> set [] \<union> (\<lambda>(i, d). (d, i)) ` set (candidates ops)
    \<and> (\<forall>(i, d) \<in> set (candidates ops). (d, i) \<in> set f \<or> (i, d) \<in> (arcs_on ?n nxt \<union> set f)\<^sup>*)" for R
    by (intro infer_fold [OF closed _ _ run])
  show "R \<subseteq> arcs_on ?n nxt \<Longrightarrow> acyclic R \<Longrightarrow> acyclic (R \<union> set (InferParentDirDeps ops nxt))"
    using all [of R] f by simp
  show "(d, i) \<in> set (InferParentDirDeps ops nxt) \<Longrightarrow> (i, d) \<in> set (candidates ops)"
    using all [of "{}"] f by auto
  show "(i, d) \<in> set (candidates ops) \<Longrightarrow> (d, i) \<in> set (InferParentDirDeps ops nxt)
       \<or> (i, d) \<in> (arcs_on ?n nxt \<union> set (InferParentDirDeps ops nxt))\<^sup>*"
    using all [of "{}"] f by auto
qed

lemma infer_bounds:
  assumes "closed_on (length ops) nxt"
    and "(d, i) \<in> set (InferParentDirDeps ops nxt)"
  shows "d < length ops \<and> i < length ops \<and> d \<noteq> i"
  using candidates_bounds [OF infer_all(2) [OF assms]] by blast

section \<open>Properties\<close>

text \<open>
  C21: adding the inferred parent-directory edges to the graph they were inferred against never
  closes a cycle, so inference alone turns no acceptable plan into a refused one.
\<close>

theorem infer_keeps_acyclic:
  assumes "closed_on (length ops) nxt"
    and "acyclic {(u, v). u < length ops \<and> v \<in> set (nxt u)}"
  shows "acyclic ({(u, v). u < length ops \<and> v \<in> set (nxt u)} \<union> set (InferParentDirDeps ops nxt))"
  using infer_all(1) [OF assms(1) order_refl] assms(2) by (simp add: arcs_on_def)

text \<open>
  Every inferred edge leads from a present directory op to another op of the same run that
  creates something below that directory, and no directory in between is created by any op of the
  run (nested directories chain).
\<close>

theorem infer_edges_nearest:
  assumes "closed_on (length ops) nxt"
    and "(d, i) \<in> set (InferParentDirDeps ops nxt)"
  shows "d < length ops \<and> i < length ops \<and> d \<noteq> i \<and> createsDir (ops ! d) \<and>
    (\<exists>p \<in> set (createdPaths (ops ! i)). \<exists>closer farther.
       ancestors (path_clean p) = closer @ path_clean (op_path (ops ! d)) # farther \<and>
       (\<forall>e < length ops. createsDir (ops ! e) \<longrightarrow> path_clean (op_path (ops ! e)) \<notin> set closer))"
proof -
  let ?m = "dirProviders ops"
  from infer_all(2) [OF assms] have c: "(i, d) \<in> set (candidates ops)" by blast
  then obtain p where p: "p \<in> set (createdPaths (ops ! i))"
    and d: "d \<in> set (at_key ?m (nearestAncestor (path_clean p) ?m))"
    by (auto simp: candidates_iff nearestProviders_iff)
  have D: "d < length ops" "createsDir (ops ! d)"
    "path_clean (op_path (ops ! d)) = nearestAncestor (path_clean p) ?m"
    using d in_dirProviders_iff by auto
  have "find (\<lambda>a. ?m a \<noteq> None) (ancestors (path_clean p)) \<noteq> None"
    using D(3) path_clean_nonempty [of "op_path (ops ! d)"]
    by (auto simp: nearestAncestor_find split: option.splits)
  with D(3) have "find (\<lambda>a. ?m a \<noteq> None) (ancestors (path_clean p)) = Some (path_clean (op_path (ops ! d)))"
    by (auto simp: nearestAncestor_find)
  then obtain closer farther where
    split: "ancestors (path_clean p) = closer @ path_clean (op_path (ops ! d)) # farther"
      "\<forall>a \<in> set closer. \<not> ?m a \<noteq> None"
    by (blast dest: find_split)
  have "path_clean (op_path (ops ! e)) \<notin> set closer" if "e < length ops" "createsDir (ops ! e)" for e
  proof
    assume "path_clean (op_path (ops ! e)) \<in> set closer"
    with split(2) have "at_key ?m (path_clean (op_path (ops ! e))) = []"
      by (auto simp: dirProviders_None_iff)
    with that in_dirProviders_iff [of e ops "path_clean (op_path (ops ! e))"] show False by simp
  qed
  with D p split(1) candidates_bounds [OF c] show ?thesis by blast
qed

section \<open>Witnesses\<close>

definition sample_dirs :: "Op list" where
  "sample_dirs =
     [(resource_op KindFile ''File[/a/b/c]'')\<lparr>op_path := ''/a/b/c''\<rparr>,
      (resource_op KindEnsureDir ''Dir[/a]'')\<lparr>op_path := ''/a/''\<rparr>,
      (resource_op KindDir ''Dir[/a/b]'')\<lparr>op_path := ''/a/b''\<rparr>]"

lemma sample_dirs_edges: "InferParentDirDeps sample_dirs (\<lambda>_. []) = [(2, 0), (1, 2)]"
  by code_simp

lemma sample_dirs_closed: "closed_on (length sample_dirs) (\<lambda>_. [])"
  by (simp add: closed_on_def)

theorem infer_keeps_acyclic_witness:
  "acyclic ({(u, v). u < length sample_dirs \<and> v \<in> set ((\<lambda>_. []) u :: nat list)} \<union> {(2, 0), (1, 2)})"
proof -
  have "acyclic {(u, v). u < length sample_dirs \<and> v \<in> set ((\<lambda>_. []) u :: nat list)}"
    by (simp add: acyclic_def)
  from infer_keeps_acyclic [OF sample_dirs_closed this] show ?thesis
    by (simp add: sample_dirs_edges)
qed

theorem infer_edges_nearest_witness:
  "createsDir (sample_dirs ! 2) \<and>
   (\<exists>p \<in> set (createdPaths (sample_dirs ! 0)). \<exists>closer farther.
      ancestors (path_clean p) = closer @ path_clean (op_path (sample_dirs ! 2)) # farther)"
proof -
  have "(2, 0) \<in> set (InferParentDirDeps sample_dirs (\<lambda>_. []))" by (simp add: sample_dirs_edges)
  from infer_edges_nearest [OF sample_dirs_closed this] show ?thesis by blast
qed

end
