(* ===== verification/Kahn.thy ===== *)
theory Kahn
  imports Prelude "HOL-Library.Multiset"
begin

text \<open>
  Kahn's topological sort, once for the two places that use it: \<open>kahnStable\<close> (\<open>plan/apply.go\<close>),
  whose ready ops sit in an ascending slice, and \<open>depGraph.kahn\<close> (\<open>api/apply_order.go\<close>), whose
  ready ops sit in a heap ordered by (rank, index). The loop takes the queue's operations as
  arguments; the locale \<open>ready_queue\<close> states what a queue promises, and under it the loop's output is
  a topological order that at each step takes the ready node with the least key, and it is complete
  exactly when the graph has no cycle.
\<close>

section \<open>The loop\<close>

text \<open>
  The inner loop: every waiter of the emitted node loses one unmet dependency, and joins the ready
  queue when that was the last.
\<close>

fun release :: "(nat \<Rightarrow> 'q \<Rightarrow> 'q) \<Rightarrow> nat list \<Rightarrow> int list \<Rightarrow> 'q \<Rightarrow> int list \<times> 'q" where
  "release push [] indeg q = (indeg, q)"
| "release push (w # ws) indeg q =
     (let d = indeg ! w - 1
      in release push ws (indeg[w := d]) (if d = 0 then push w q else q))"

text \<open>
  The outer loop, with fuel: each round emits one node, so as many rounds as there are nodes empty
  the queue (\<open>kahn_drains\<close>). The result is the emitted order, the remaining in-degrees and the queue.
\<close>

fun kahn_loop ::
  "nat \<Rightarrow> ('q \<Rightarrow> (nat \<times> 'q) option) \<Rightarrow> (nat \<Rightarrow> 'q \<Rightarrow> 'q) \<Rightarrow> nat list list \<Rightarrow> 'q \<Rightarrow> int list \<Rightarrow> nat list
     \<Rightarrow> nat list \<times> int list \<times> 'q" where
  "kahn_loop 0 pop push waiters q indeg out = (out, indeg, q)"
| "kahn_loop (Suc fuel) pop push waiters q indeg out =
     (case pop q of
        None \<Rightarrow> (out, indeg, q)
      | Some (x, q') \<Rightarrow>
          (case release push (waiters ! x) indeg q' of
             (indeg', q'') \<Rightarrow> kahn_loop fuel pop push waiters q'' indeg' (out @ [x])))"

section \<open>Graphs as adjacency lists\<close>

definition edge :: "nat list list \<Rightarrow> nat \<Rightarrow> nat \<Rightarrow> bool" where
  "edge waiters u v \<longleftrightarrow> u < length waiters \<and> v \<in> set (waiters ! u)"

definition edges :: "nat list list \<Rightarrow> (nat \<times> nat) set" where
  "edges waiters = {(u, v). edge waiters u v}"

definition closed_graph :: "nat list list \<Rightarrow> bool" where
  "closed_graph waiters \<longleftrightarrow> (\<forall>u < length waiters. \<forall>v \<in> set (waiters ! u). v < length waiters)"

text \<open>The edges into \<open>v\<close> that come from outside \<open>D\<close>, with their multiplicity.\<close>

definition indeg_without :: "nat list list \<Rightarrow> nat set \<Rightarrow> nat \<Rightarrow> nat" where
  "indeg_without waiters D v = (\<Sum>u \<in> {..<length waiters} - D. count_list (waiters ! u) v)"

lemma count_list_pos: "0 < count_list xs v \<longleftrightarrow> v \<in> set xs"
  using count_list_0_iff [of xs v] by auto

lemma indeg_without_0_iff:
  "indeg_without waiters D v = 0 \<longleftrightarrow> (\<forall>u. edge waiters u v \<longrightarrow> u \<in> D)"
  by (auto simp: indeg_without_def edge_def count_list_0_iff)

lemma indeg_without_insert:
  assumes "x < length waiters" "x \<notin> D"
  shows "indeg_without waiters D v = count_list (waiters ! x) v + indeg_without waiters (insert x D) v"
proof -
  have "{..<length waiters} - D = insert x ({..<length waiters} - insert x D)" using assms by auto
  moreover have "x \<notin> {..<length waiters} - insert x D" by simp
  ultimately show ?thesis
    unfolding indeg_without_def by (metis finite_Diff finite_lessThan sum.insert)
qed

text \<open>
  A graph under construction: the in-degree counts every edge, doubled edges twice. \<open>add_arc\<close> is the
  pair of statements \<open>indeg[v]++\<close> and \<open>waiters[u] = append(waiters[u], v)\<close>.
\<close>

type_synonym graph = "int list \<times> nat list list"

definition add_arc :: "nat \<Rightarrow> nat \<Rightarrow> graph \<Rightarrow> graph" where
  "add_arc u v = (\<lambda>(indeg, waiters). (indeg[v := indeg ! v + 1], waiters[u := waiters ! u @ [v]]))"

definition counted_graph :: "nat \<Rightarrow> graph \<Rightarrow> bool" where
  "counted_graph n = (\<lambda>(indeg, waiters).
     length indeg = n \<and> length waiters = n \<and> closed_graph waiters
     \<and> (\<forall>v < n. indeg ! v = int (indeg_without waiters {} v)))"

lemma counted_graph_empty: "counted_graph n (replicate n 0, replicate n [])"
  by (simp add: counted_graph_def closed_graph_def indeg_without_def)

lemma edges_empty: "edges (replicate n []) = {}"
  by (auto simp: edges_def edge_def)

lemma add_arc_counted:
  assumes "counted_graph n (indeg, waiters)" "u < n" "v < n"
  shows "counted_graph n (add_arc u v (indeg, waiters))"
    and "edges (snd (add_arc u v (indeg, waiters))) = insert (u, v) (edges waiters)"
proof -
  have L: "length indeg = n" "length waiters = n" "closed_graph waiters"
    using assms(1) by (auto simp: counted_graph_def)
  have "indeg_without (waiters[u := waiters ! u @ [v]]) {} w
      = indeg_without waiters {} w + (if w = v then 1 else 0)" for w
  proof -
    have "(\<Sum>x < n. count_list (waiters[u := waiters ! u @ [v]] ! x) w)
        = (\<Sum>x < n. count_list (waiters ! x) w + (if x = u \<and> w = v then 1 else 0))"
      using L assms(2) by (intro sum.cong) (auto simp: nth_list_update)
    also have "\<dots> = (\<Sum>x < n. count_list (waiters ! x) w) + (if w = v then 1 else 0)"
      using assms(2) by (simp add: sum.distrib)
    finally show ?thesis using L by (simp add: indeg_without_def)
  qed
  then show "counted_graph n (add_arc u v (indeg, waiters))"
    using assms L
    by (auto simp: counted_graph_def add_arc_def closed_graph_def nth_list_update)
  show "edges (snd (add_arc u v (indeg, waiters))) = insert (u, v) (edges waiters)"
    using assms L by (auto simp: add_arc_def edges_def edge_def nth_list_update split: if_splits)
qed

lemma fold_add_arc_counted:
  assumes "counted_graph n g" "\<forall>(u, v) \<in> set arcs. u < n \<and> v < n"
  shows "counted_graph n (fold (\<lambda>(u, v). add_arc u v) arcs g)
    \<and> edges (snd (fold (\<lambda>(u, v). add_arc u v) arcs g)) = edges (snd g) \<union> set arcs"
  using assms
proof (induction arcs arbitrary: g)
  case (Cons a arcs)
  obtain u v where a: "a = (u, v)" by (cases a)
  obtain indeg waiters where g: "g = (indeg, waiters)" by (cases g)
  have b: "u < n" "v < n" using Cons.prems(2) a by auto
  note step = add_arc_counted [OF Cons.prems(1) [unfolded g] b]
  from Cons.IH [OF step(1)] Cons.prems(2) step(2) show ?case by (auto simp: a g)
qed simp

text \<open>A finite set in which every node has a predecessor holds a cycle.\<close>

lemma preds_in_set_cycle:
  assumes "finite B" "B \<noteq> {}" "\<And>v. v \<in> B \<Longrightarrow> \<exists>u \<in> B. (u, v) \<in> r"
  shows "\<not> acyclic r"
proof
  assume ac: "acyclic r"
  let ?s = "r \<inter> B \<times> B"
  have "acyclic ?s" using ac by (rule acyclic_subset) auto
  moreover have "finite ?s" using assms(1) by (simp add: finite_subset [OF Int_lower2])
  ultimately have "wf ?s" by (simp add: finite_acyclic_wf)
  with assms(2) obtain m where "m \<in> B" "\<And>y. (y, m) \<in> ?s \<Longrightarrow> y \<notin> B" by (meson ex_in_conv wfE_min)
  with assms(3) show False by blast
qed

text \<open>A list in which every edge goes forward excludes a cycle through its elements.\<close>

lemma ordered_acyclic:
  assumes "distinct out" "\<And>u v. (u, v) \<in> r \<Longrightarrow> before out u v"
  shows "acyclic r"
proof -
  have idx: "\<exists>i j. i < j \<and> j < length out \<and> out ! i = u \<and> out ! j = v" if "before out u v" for u v
  proof -
    from that obtain us vs ws where out: "out = us @ u # vs @ v # ws" by (auto simp: before_def)
    have "out ! length us = u" by (simp add: out)
    moreover have "out = (us @ u # vs) @ v # ws" by (simp add: out)
    then have "out ! length (us @ u # vs) = v" by (metis nth_append_length)
    ultimately show ?thesis
      by (intro exI [of _ "length us"] exI [of _ "length (us @ u # vs)"]) (simp add: out)
  qed
  define pos where "pos v = (THE i. i < length out \<and> out ! i = v)" for v
  have pos: "pos (out ! i) = i" if "i < length out" for i
    unfolding pos_def using that assms(1) by (intro the_equality) (auto simp: nth_eq_iff_index_eq)
  have "r \<subseteq> measure pos"
  proof
    fix p assume "p \<in> r"
    then obtain u v where p: "p = (u, v)" "before out u v" using assms(2) by (cases p) auto
    with idx obtain i j where "i < j" "j < length out" "out ! i = u" "out ! j = v" by blast
    with pos p show "p \<in> measure pos" by (metis in_measure order.strict_trans)
  qed
  then show ?thesis by (meson acyclic_subset wf_acyclic wf_measure)
qed

section \<open>What a ready queue promises\<close>

locale ready_queue =
  fixes pop :: "'q \<Rightarrow> (nat \<times> 'q) option"
    and push :: "nat \<Rightarrow> 'q \<Rightarrow> 'q"
    and elems :: "'q \<Rightarrow> nat multiset"
    and invar :: "'q \<Rightarrow> bool"
    and key :: "nat \<Rightarrow> 'k::linorder"
  assumes pop_None: "invar q \<Longrightarrow> pop q = None \<longleftrightarrow> elems q = {#}"
    and pop_Some: "invar q \<Longrightarrow> pop q = Some (x, q') \<Longrightarrow>
          elems q = add_mset x (elems q') \<and> invar q' \<and> (\<forall>y \<in># elems q'. key x \<le> key y)"
    and push_elems: "invar q \<Longrightarrow> elems (push x q) = add_mset x (elems q)"
    and push_invar: "invar q \<Longrightarrow> invar (push x q)"
begin

lemma release_spec:
  assumes "invar q" "\<And>v. v < length indeg \<Longrightarrow> int (count_list ws v) \<le> indeg ! v"
    and "\<And>v. v \<in> set ws \<Longrightarrow> v < length indeg"
    and "release push ws indeg q = (indeg', q')"
  shows "invar q' \<and> length indeg' = length indeg
    \<and> (\<forall>v < length indeg. indeg' ! v = indeg ! v - int (count_list ws v))
    \<and> elems q' = elems q + mset_set {v \<in> set ws. indeg ! v = int (count_list ws v)}"
  using assms
proof (induction ws arbitrary: indeg q)
  case (Cons w ws)
  define d where "d = indeg ! w - 1"
  define q1 where "q1 = (if d = 0 then push w q else q)"
  have w: "w < length indeg" using Cons.prems(3) by simp
  have upd: "indeg[w := d] ! v = indeg ! v - (if v = w then 1 else 0)" for v
    using w by (auto simp: d_def nth_list_update)
  have le: "int (count_list ws v) \<le> indeg[w := d] ! v" if "v < length (indeg[w := d])" for v
    using Cons.prems(2) [of v] that by (auto simp: upd split: if_splits)
  have inv1: "invar q1" using Cons.prems(1) by (simp add: q1_def push_invar)
  have IH: "invar q' \<and> length indeg' = length (indeg[w := d])
    \<and> (\<forall>v < length (indeg[w := d]). indeg' ! v = indeg[w := d] ! v - int (count_list ws v))
    \<and> elems q' = elems q1 + mset_set {v \<in> set ws. indeg[w := d] ! v = int (count_list ws v)}"
    using Cons.prems(3,4) by (intro Cons.IH [OF inv1 le]) (auto simp: Let_def d_def q1_def)
  let ?zero = "\<lambda>ws indeg. {v \<in> set ws. indeg ! v = int (count_list ws v)}"
  have same: "v \<noteq> w \<Longrightarrow> v \<in> ?zero (w # ws) indeg \<longleftrightarrow> v \<in> ?zero ws (indeg[w := d])" for v
    by (auto simp: upd)
  have "elems q1 + mset_set (?zero ws (indeg[w := d])) = elems q + mset_set (?zero (w # ws) indeg)"
  proof (cases "d = 0")
    case True
    have "count_list ws w = 0" using le [of w] True w upd [of w] by (simp add: d_def)
    then have "w \<notin> set ws" by (simp add: count_list_0_iff)
    moreover from this have "?zero (w # ws) indeg = insert w (?zero ws (indeg[w := d]))"
      using same True \<open>count_list ws w = 0\<close> by (auto simp: d_def)
    ultimately show ?thesis using True Cons.prems(1) by (simp add: q1_def push_elems)
  next
    case False
    have "w \<in> ?zero (w # ws) indeg \<longleftrightarrow> w \<in> ?zero ws (indeg[w := d])"
    proof -
      have "indeg ! w \<noteq> 1" using False by (simp add: d_def)
      moreover have "indeg[w := d] ! w = indeg ! w - 1" using upd [of w] by simp
      ultimately show ?thesis using count_list_0_iff [of ws w] by auto
    qed
    then have "v \<in> ?zero (w # ws) indeg \<longleftrightarrow> v \<in> ?zero ws (indeg[w := d])" for v
      using same [of v] by (cases "v = w") simp_all
    then have "?zero (w # ws) indeg = ?zero ws (indeg[w := d])" by (rule set_eqI)
    with False show ?thesis by (simp add: q1_def)
  qed
  with IH show ?case by (auto simp: upd)
qed simp

text \<open>
  The invariant of the outer loop: what is emitted is closed under predecessors and in order, the
  in-degrees count the edges from nodes not yet emitted, and the queue holds exactly the nodes that
  are ready and not emitted. \<open>least_ready\<close> says how each emitted node was chosen.
\<close>

definition ready_set :: "nat list list \<Rightarrow> nat set \<Rightarrow> nat set" where
  "ready_set waiters D =
     {v. v < length waiters \<and> v \<notin> D \<and> (\<forall>u. edge waiters u v \<longrightarrow> u \<in> D)}"

definition least_ready :: "nat list list \<Rightarrow> nat list \<Rightarrow> bool" where
  "least_ready waiters out \<longleftrightarrow>
     (\<forall>i < length out. out ! i \<in> ready_set waiters (set (take i out)) \<and>
        (\<forall>v \<in> ready_set waiters (set (take i out)). key (out ! i) \<le> key v))"

definition kahn_inv :: "nat list list \<Rightarrow> 'q \<Rightarrow> int list \<Rightarrow> nat list \<Rightarrow> bool" where
  "kahn_inv waiters q indeg out \<longleftrightarrow>
     invar q \<and> closed_graph waiters \<and> length indeg = length waiters \<and> distinct out
     \<and> set out \<subseteq> {..<length waiters}
     \<and> (\<forall>v < length waiters. indeg ! v = int (indeg_without waiters (set out) v))
     \<and> elems q = mset_set (ready_set waiters (set out))
     \<and> least_ready waiters out"

lemma finite_ready_set [simp]: "finite (ready_set waiters D)"
  by (rule finite_subset [of _ "{..<length waiters}"]) (auto simp: ready_set_def)

lemma least_ready_snoc:
  assumes "least_ready waiters out" "x \<in> ready_set waiters (set out)"
    and "\<And>v. v \<in> ready_set waiters (set out) \<Longrightarrow> key x \<le> key v"
  shows "least_ready waiters (out @ [x])"
  using assms by (auto simp: least_ready_def less_Suc_eq nth_append)

lemma least_ready_closed:
  assumes "least_ready waiters out" "v \<in> set out" "edge waiters u v"
  shows "u \<in> set out"
proof -
  from assms(2) obtain i where i: "i < length out" "v = out ! i" by (auto simp: in_set_conv_nth)
  with assms(1,3) have "u \<in> set (take i out)" by (auto simp: least_ready_def ready_set_def)
  then show ?thesis by (rule in_set_takeD)
qed

lemma ready_set_insert:
  assumes x: "x \<in> ready_set waiters D"
    and closed: "\<And>u v. v \<in> D \<Longrightarrow> edge waiters u v \<Longrightarrow> u \<in> D" and g: "closed_graph waiters"
  shows "ready_set waiters (insert x D) =
     (ready_set waiters D - {x}) \<union>
     {v \<in> set (waiters ! x). indeg_without waiters D v = count_list (waiters ! x) v}"
    (is "?L = ?R")
proof (rule set_eqI)
  fix v
  have xn: "x < length waiters" "x \<notin> D" using x by (auto simp: ready_set_def)
  have split: "indeg_without waiters D v = count_list (waiters ! x) v + indeg_without waiters (insert x D) v"
    by (rule indeg_without_insert [OF xn])
  have ready: "v \<in> ready_set waiters E \<longleftrightarrow> v < length waiters \<and> v \<notin> E \<and> indeg_without waiters E v = 0" for E
    by (simp add: ready_set_def indeg_without_0_iff)
  have emitted: "v \<in> insert x D \<Longrightarrow> indeg_without waiters D v = 0"
    using x closed by (auto simp: ready_set_def indeg_without_0_iff)
  have mem: "v \<in> set (waiters ! x) \<longleftrightarrow> 0 < count_list (waiters ! x) v"
    by (simp add: count_list_pos)
  have n: "v \<in> set (waiters ! x) \<Longrightarrow> v < length waiters" using g xn by (auto simp: closed_graph_def)
  show "v \<in> ?L \<longleftrightarrow> v \<in> ?R"
  proof (cases "v \<in> set (waiters ! x)")
    case True
    with split emitted n mem show ?thesis by (auto simp: ready)
  next
    case False
    with split emitted mem xn show ?thesis by (auto simp: ready)
  qed
qed

lemma kahn_inv_step:
  assumes inv: "kahn_inv waiters q indeg out" and pop: "pop q = Some (x, q')"
    and rel: "release push (waiters ! x) indeg q' = (indeg', q'')"
  shows "kahn_inv waiters q'' indeg' (out @ [x])"
proof -
  let ?D = "set out"
  have I: "invar q" "closed_graph waiters" "length indeg = length waiters" "distinct out"
      "set out \<subseteq> {..<length waiters}" "elems q = mset_set (ready_set waiters ?D)"
      "least_ready waiters out"
    and indeg: "\<And>v. v < length waiters \<Longrightarrow> indeg ! v = int (indeg_without waiters ?D v)"
    using inv by (auto simp: kahn_inv_def)
  have el: "elems q = add_mset x (elems q')" and inv': "invar q'" and least: "\<forall>y \<in># elems q'. key x \<le> key y"
    using pop_Some [OF I(1) pop] by auto
  have x: "x \<in> ready_set waiters ?D"
    by (metis I(6) el elem_mset_set finite_ready_set union_single_eq_member)
  have q': "elems q' = mset_set (ready_set waiters ?D - {x})"
    using el I(6) x by (simp add: mset_set_Diff)
  have keys: "key x \<le> key v" if "v \<in> ready_set waiters ?D" for v
    using least that q' by (cases "v = x") auto
  have xn: "x < length waiters" "x \<notin> ?D" using x by (auto simp: ready_set_def)
  have wait: "\<And>v. v \<in> set (waiters ! x) \<Longrightarrow> v < length indeg"
    using I(2,3) xn by (auto simp: closed_graph_def)
  have count: "int (count_list (waiters ! x) v) \<le> indeg ! v" if "v < length indeg" for v
    using indeg [of v] that I(3) indeg_without_insert [OF xn, of v] by simp
  note R = release_spec [OF inv' count wait rel]
  have zero: "{v \<in> set (waiters ! x). indeg ! v = int (count_list (waiters ! x) v)}
      = {v \<in> set (waiters ! x). indeg_without waiters ?D v = count_list (waiters ! x) v}"
    using indeg wait I(3) by auto
  have "mset_set (ready_set waiters ?D - {x})
      + mset_set {v \<in> set (waiters ! x). indeg_without waiters ?D v = count_list (waiters ! x) v}
      = mset_set (ready_set waiters (insert x ?D))"
  proof -
    have "ready_set waiters (insert x ?D) = (ready_set waiters ?D - {x}) \<union>
        {v \<in> set (waiters ! x). indeg_without waiters ?D v = count_list (waiters ! x) v}"
      by (rule ready_set_insert [OF x _ I(2)]) (rule least_ready_closed [OF I(7)])
    moreover have "v \<notin> {v \<in> set (waiters ! x). indeg_without waiters ?D v = count_list (waiters ! x) v}"
      if "v \<in> ready_set waiters ?D" for v
      using that indeg_without_0_iff [of waiters ?D v] count_list_pos [of "waiters ! x" v]
      by (auto simp: ready_set_def)
    ultimately show ?thesis by (simp add: disjoint_iff mset_set_Union)
  qed
  with R q' zero have "elems q'' = mset_set (ready_set waiters (set (out @ [x])))" by simp
  moreover have "indeg' ! v = int (indeg_without waiters (set (out @ [x])) v)" if "v < length waiters" for v
    using R indeg [OF that] that I(3) indeg_without_insert [OF xn, of v] by simp
  moreover have "least_ready waiters (out @ [x])" by (rule least_ready_snoc [OF I(7) x keys])
  ultimately show ?thesis using I R xn by (simp add: kahn_inv_def)
qed

text \<open>With as much fuel as nodes left, the loop ends with an empty queue.\<close>

lemma kahn_loop_inv:
  assumes "kahn_inv waiters q indeg out" "length waiters \<le> fuel + length out"
    and "kahn_loop fuel pop push waiters q indeg out = (out', indeg', q')"
  shows "kahn_inv waiters q' indeg' out' \<and> elems q' = {#}"
  using assms
proof (induction fuel arbitrary: q indeg out)
  case 0
  then have "length waiters \<le> card (set out)" by (simp add: kahn_inv_def distinct_card)
  then have "set out = {..<length waiters}"
    using 0 by (intro card_seteq) (auto simp: kahn_inv_def)
  then have "ready_set waiters (set out) = {}" by (auto simp: ready_set_def)
  with 0 show ?case by (simp add: kahn_inv_def)
next
  case (Suc fuel)
  show ?case
  proof (cases "pop q")
    case None
    with Suc.prems pop_None [of q] show ?thesis by (auto simp: kahn_inv_def)
  next
    case (Some xq)
    obtain x q1 where xq: "xq = (x, q1)" by (cases xq)
    obtain indeg1 q2 where rel: "release push (waiters ! x) indeg q1 = (indeg1, q2)" by fastforce
    show ?thesis
      using Suc.prems Some xq rel
      by (intro Suc.IH [OF kahn_inv_step [OF Suc.prems(1)]]) auto
  qed
qed

lemma least_ready_before:
  assumes "least_ready waiters out" "distinct out" "v \<in> set out" "edge waiters u v"
  shows "before out u v"
proof -
  from assms(3) obtain i where i: "i < length out" "v = out ! i" by (auto simp: in_set_conv_nth)
  with assms(1,4) have "u \<in> set (take i out)" by (auto simp: least_ready_def ready_set_def)
  moreover have "out = take i out @ v # drop (Suc i) out" using i by (simp add: id_take_nth_drop)
  ultimately show ?thesis
    by (metis before_append_mem list.set_intros(1))
qed

theorem kahn_correct:
  assumes init: "kahn_inv waiters q indeg []"
    and run: "kahn_loop (length waiters) pop push waiters q indeg [] = (out, indeg', q')"
  shows kahn_distinct: "distinct out" and kahn_bounds: "set out \<subseteq> {..<length waiters}"
    and kahn_order: "\<And>u v. v \<in> set out \<Longrightarrow> edge waiters u v \<Longrightarrow> before out u v"
    and kahn_least: "least_ready waiters out"
    and kahn_indeg: "\<And>v. v < length waiters \<Longrightarrow> indeg' ! v = int (indeg_without waiters (set out) v)"
    and kahn_emitted: "\<And>v. v < length waiters \<Longrightarrow> v \<in> set out \<longleftrightarrow> indeg' ! v = 0"
    and kahn_indeg_nonneg: "\<And>v. v < length waiters \<Longrightarrow> 0 \<le> indeg' ! v"
    and kahn_length: "length indeg' = length waiters"
    and kahn_complete: "set out = {..<length waiters} \<longleftrightarrow> acyclic (edges waiters)"
proof -
  have inv: "kahn_inv waiters q' indeg' out" and drained: "elems q' = {#}"
    using kahn_loop_inv [OF init _ run] by auto
  show d: "distinct out" and b: "set out \<subseteq> {..<length waiters}" and l: "least_ready waiters out"
    and len: "length indeg' = length waiters"
    using inv by (auto simp: kahn_inv_def)
  show ord: "\<And>u v. v \<in> set out \<Longrightarrow> edge waiters u v \<Longrightarrow> before out u v"
    by (rule least_ready_before [OF l d])
  show indeg: "\<And>v. v < length waiters \<Longrightarrow> indeg' ! v = int (indeg_without waiters (set out) v)"
    using inv by (simp add: kahn_inv_def)
  then show "\<And>v. v < length waiters \<Longrightarrow> 0 \<le> indeg' ! v" by simp
  have none: "ready_set waiters (set out) = {}"
    using inv drained by (metis finite_ready_set kahn_inv_def mset_set_empty_iff)
  have blocked: "\<exists>u. u < length waiters \<and> u \<notin> set out \<and> edge waiters u v" if "v < length waiters" "v \<notin> set out" for v
    using none that by (auto simp: ready_set_def edge_def)
  show "v \<in> set out \<longleftrightarrow> indeg' ! v = 0" if "v < length waiters" for v
    using indeg [OF that] blocked [OF that] least_ready_closed [OF l]
    by (auto simp: indeg_without_0_iff)
  show "set out = {..<length waiters} \<longleftrightarrow> acyclic (edges waiters)"
  proof
    assume all: "set out = {..<length waiters}"
    have "closed_graph waiters" using inv by (simp add: kahn_inv_def)
    with all ord have "\<And>u v. (u, v) \<in> edges waiters \<Longrightarrow> before out u v"
      by (auto simp: edges_def closed_graph_def edge_def)
    with d show "acyclic (edges waiters)" by (rule ordered_acyclic)
  next
    assume ac: "acyclic (edges waiters)"
    let ?B = "{v. v < length waiters \<and> v \<notin> set out}"
    have "?B = {}"
    proof (rule ccontr)
      assume ne: "?B \<noteq> {}"
      have "\<not> acyclic (edges waiters)"
        by (rule preds_in_set_cycle [OF _ ne]) (use blocked in \<open>auto simp: edges_def\<close>)
      with ac show False by blast
    qed
    with b show "set out = {..<length waiters}" by auto
  qed
qed

lemma kahn_inv_init:
  assumes "invar q" "closed_graph waiters" "length indeg = length waiters"
    and "\<And>v. v < length waiters \<Longrightarrow> indeg ! v = int (indeg_without waiters {} v)"
    and "elems q = mset_set {v. v < length waiters \<and> indeg ! v = 0}"
  shows "kahn_inv waiters q indeg []"
proof -
  have "ready_set waiters {} = {v. v < length waiters \<and> indeg ! v = 0}"
    using assms(4) by (auto simp: ready_set_def indeg_without_0_iff)
  with assms show ?thesis by (simp add: kahn_inv_def least_ready_def)
qed

lemma kahn_inv_counted:
  assumes "counted_graph n (indeg, waiters)" "invar q"
    and "elems q = mset_set {v. v < n \<and> indeg ! v = 0}"
  shows "kahn_inv waiters q indeg []"
  using assms by (intro kahn_inv_init) (auto simp: counted_graph_def)

end

end
