(* ===== verification/PlanSort.thy ===== *)
theory PlanSort
  imports PathDeps Kahn
begin

text \<open>
  The apply order of a plan body: \<open>sortedApplyOrder\<close>, \<open>sortRunByDeps\<close>, \<open>addParentDirDeps\<close> and
  \<open>kahnStable\<close> of \<open>plan/apply.go\<close>. Each run of resource ops between control ops is sorted on its
  own by recorded deps and inferred directory edges; control ops keep their place.
\<close>

section \<open>Plan lines and errors\<close>

record planLine =
  pl_op :: Op
  pl_line :: nat

datatype sort_error =
    LaterDep string string  \<comment> \<open>an op, and its dependency recorded only after the op's run\<close>
  | CircularDep string      \<comment> \<open>an op left waiting\<close>

section \<open>The stable ready queue\<close>

text \<open>\<open>ready\<close> is a slice kept ascending: pop at the front, insert at the place \<open>sort.SearchInts\<close> gives.\<close>

definition SearchInts :: "nat list \<Rightarrow> nat \<Rightarrow> nat" where
  "SearchInts xs w = length (takeWhile (\<lambda>x. x < w) xs)"

definition pop_front :: "nat list \<Rightarrow> (nat \<times> nat list) option" where
  "pop_front q = (case q of [] \<Rightarrow> None | x # xs \<Rightarrow> Some (x, xs))"

definition insert_ready :: "nat \<Rightarrow> nat list \<Rightarrow> nat list" where
  "insert_ready w q = take (SearchInts q w) q @ w # drop (SearchInts q w) q"

lemma insert_ready_eq: "insert_ready w q = takeWhile (\<lambda>x. x < w) q @ w # dropWhile (\<lambda>x. x < w) q"
  by (simp add: insert_ready_def SearchInts_def flip: takeWhile_eq_take dropWhile_eq_drop)

lemma mset_insert_ready: "mset (insert_ready w q) = mset (w # q)"
proof -
  have "mset (takeWhile (\<lambda>x. x < w) q) + mset (dropWhile (\<lambda>x. x < w) q) = mset q"
    by (simp only: mset_append [symmetric] takeWhile_dropWhile_id)
  then show ?thesis by (simp add: insert_ready_eq)
qed

lemma sorted_insert_ready: "sorted q \<Longrightarrow> sorted (insert_ready w q)"
proof (induction q)
  case (Cons x q)
  show ?case
  proof (cases "x < w")
    case True
    then have "insert_ready w (x # q) = x # insert_ready w q" by (simp add: insert_ready_eq)
    moreover have "\<forall>y \<in> set (insert_ready w q). x \<le> y"
      using mset_insert_ready [of w q, THEN mset_eq_setD] True Cons.prems by auto
    ultimately show ?thesis using Cons by simp
  next
    case False
    with Cons.prems show ?thesis by (auto simp: insert_ready_eq)
  qed
qed (simp add: insert_ready_eq)

interpretation stable: ready_queue pop_front insert_ready mset sorted "\<lambda>x. x"
proof
  show "\<And>q. sorted q \<Longrightarrow> (pop_front q = None) = (mset q = {#})"
    by (simp add: pop_front_def split: list.splits)
  show "\<And>q x q'. sorted q \<Longrightarrow> pop_front q = Some (x, q') \<Longrightarrow>
      mset q = add_mset x (mset q') \<and> sorted q' \<and> (\<forall>y \<in># mset q'. x \<le> y)"
    by (auto simp: pop_front_def split: list.splits)
qed (simp_all add: mset_insert_ready sorted_insert_ready)

definition kahnStable ::
  "planLine list \<Rightarrow> int list \<Rightarrow> nat list list \<Rightarrow> (sort_error, planLine list) result"
where
  "kahnStable run indeg waiters =
     (case kahn_loop (length run) pop_front insert_ready waiters
             (filter (\<lambda>pos. indeg ! pos = 0) [0..<length indeg]) indeg [] of
        (out, indeg', _) \<Rightarrow>
          (case find (\<lambda>pos. indeg' ! pos > 0) [0..<length indeg'] of
             Some pos \<Rightarrow> Inl (CircularDep (op_id (pl_op (run ! pos))))
           | None \<Rightarrow> Inr (map (\<lambda>pos. run ! pos) out)))"

section \<open>Sorting one run\<close>

definition in_run :: "planLine list \<Rightarrow> (string \<rightharpoonup> nat list)" where
  "in_run run =
     index_from (\<lambda>l. if op_id (pl_op l) \<noteq> [] then Some (op_id (pl_op l)) else None) 0 run Map.empty"

definition place_dep ::
  "(string \<rightharpoonup> nat list) \<Rightarrow> string set \<Rightarrow> (string \<rightharpoonup> nat) \<Rightarrow> nat \<Rightarrow> nat \<Rightarrow> string \<Rightarrow> string \<Rightarrow> graph
     \<Rightarrow> (sort_error, graph) result"
where
  "place_dep inRun placed bodyIDs runEnd pos i dep g =
     (case inRun dep of
        None \<Rightarrow>
          if dep \<in> placed then Inr g
          else (case bodyIDs dep of
                  Some first \<Rightarrow> if first \<ge> runEnd then Inl (LaterDep i dep) else Inr g
                | None \<Rightarrow> Inr g)
      | Some at \<Rightarrow> Inr (fold (\<lambda>p. add_arc p pos) at g))"

definition record_deps ::
  "planLine list \<Rightarrow> string set \<Rightarrow> (string \<rightharpoonup> nat) \<Rightarrow> nat \<Rightarrow> (sort_error, graph) result"
where
  "record_deps run placed bodyIDs runEnd =
     fold_res (\<lambda>(pos, l). fold_res (place_dep (in_run run) placed bodyIDs runEnd pos (op_id (pl_op l)))
                            (op_deps (pl_op l)))
       (enumerate 0 run) (replicate (length run) 0, replicate (length run) [])"

definition addParentDirDeps :: "planLine list \<Rightarrow> graph \<Rightarrow> graph" where
  "addParentDirDeps run g =
     fold (\<lambda>(dep, dependent). add_arc dep dependent)
       (InferParentDirDeps (map pl_op run) (\<lambda>u. snd g ! u)) g"

definition sortRunByDeps ::
  "planLine list \<Rightarrow> string set \<Rightarrow> (string \<rightharpoonup> nat) \<Rightarrow> nat \<Rightarrow> (sort_error, planLine list) result"
where
  "sortRunByDeps run placed bodyIDs runEnd =
     bind_res (record_deps run placed bodyIDs runEnd) (\<lambda>g.
       case addParentDirDeps run g of (indeg, waiters) \<Rightarrow> kahnStable run indeg waiters)"

section \<open>Sorting a body\<close>

fun body_ids_from :: "nat \<Rightarrow> Op list \<Rightarrow> (string \<rightharpoonup> nat) \<Rightarrow> (string \<rightharpoonup> nat)" where
  "body_ids_from i [] m = m"
| "body_ids_from i (op # ops) m =
     body_ids_from (Suc i) ops (if op_id op \<noteq> [] \<and> m (op_id op) = None then m(op_id op \<mapsto> i) else m)"

record sort_state =
  so_out :: "planLine list"
  so_run :: "planLine list"
  so_end :: nat
  so_placed :: "string set"

definition flush :: "(string \<rightharpoonup> nat) \<Rightarrow> sort_state \<Rightarrow> (sort_error, sort_state) result" where
  "flush bodyIDs st =
     (if so_run st = [] then Inr st
      else bind_res (sortRunByDeps (so_run st) (so_placed st) bodyIDs (so_end st)) (\<lambda>sorted.
        Inr (st\<lparr>so_out := so_out st @ sorted, so_run := [],
                so_placed := so_placed st \<union>
                  set (filter (\<lambda>i. i \<noteq> []) (map (\<lambda>l. op_id (pl_op l)) sorted))\<rparr>)))"

definition sort_step ::
  "(string \<rightharpoonup> nat) \<Rightarrow> nat \<times> Op \<Rightarrow> sort_state \<Rightarrow> (sort_error, sort_state) result"
where
  "sort_step bodyIDs = (\<lambda>(i, op) st.
     if IsControlKind (op_kind op) then
       bind_res (flush bodyIDs st) (\<lambda>st'.
         Inr (st'\<lparr>so_out := so_out st' @ [\<lparr>pl_op = op, pl_line = i + 2\<rparr>]\<rparr>))
     else Inr (st\<lparr>so_run := so_run st @ [\<lparr>pl_op = op, pl_line = i + 2\<rparr>], so_end := i + 1\<rparr>))"

definition sortedApplyOrder :: "Op list \<Rightarrow> (sort_error, planLine list) result" where
  "sortedApplyOrder body =
     (let bodyIDs = body_ids_from 0 body Map.empty in
      bind_res (fold_res (sort_step bodyIDs) (enumerate 0 body)
                 \<lparr>so_out = [], so_run = [], so_end = 0, so_placed = {}\<rparr>) (\<lambda>st.
      bind_res (flush bodyIDs st) (\<lambda>st'. Inr (so_out st'))))"

section \<open>Lemmas: the graph of one run\<close>

definition dep_arcs :: "planLine list \<Rightarrow> nat \<times> planLine \<Rightarrow> (nat \<times> nat) list" where
  "dep_arcs run = (\<lambda>(pos, l).
     concat (map (\<lambda>dep. map (\<lambda>p. (p, pos)) (at_key (in_run run) dep)) (op_deps (pl_op l))))"

text \<open>The recorded edges of a run: from every op of the run that carries a dependency's id.\<close>

definition recorded_arcs :: "planLine list \<Rightarrow> (nat \<times> nat) set" where
  "recorded_arcs run =
     {(p, pos). p < length run \<and> pos < length run \<and> op_id (pl_op (run ! p)) \<noteq> []
        \<and> op_id (pl_op (run ! p)) \<in> set (op_deps (pl_op (run ! pos)))}"

text \<open>A dependency the run cannot wait for: not in the run, not placed, first recorded later.\<close>

definition later_dep ::
  "planLine list \<Rightarrow> string set \<Rightarrow> (string \<rightharpoonup> nat) \<Rightarrow> nat \<Rightarrow> string \<Rightarrow> bool"
where
  "later_dep run placed bodyIDs runEnd dep \<longleftrightarrow>
     in_run run dep = None \<and> dep \<notin> placed \<and> (\<exists>first. bodyIDs dep = Some first \<and> runEnd \<le> first)"

lemma in_in_run_iff:
  "p \<in> set (at_key (in_run run) dep) \<longleftrightarrow> p < length run \<and> dep \<noteq> [] \<and> op_id (pl_op (run ! p)) = dep"
  by (auto simp: in_run_def in_index_iff)

lemma place_dep_eq:
  "place_dep (in_run run) placed bodyIDs runEnd pos i dep g =
     (if later_dep run placed bodyIDs runEnd dep then Inl (LaterDep i dep)
      else Inr (fold (\<lambda>(u, v). add_arc u v) (map (\<lambda>p. (p, pos)) (at_key (in_run run) dep)) g))"
  by (auto simp: place_dep_def later_dep_def at_key_def fold_map comp_def split: option.splits)

lemma fold_place_dep:
  "fold_res (place_dep (in_run run) placed bodyIDs runEnd pos i) deps g = Inr g' \<longleftrightarrow>
     (\<forall>dep \<in> set deps. \<not> later_dep run placed bodyIDs runEnd dep) \<and>
     g' = fold (\<lambda>(u, v). add_arc u v)
            (concat (map (\<lambda>dep. map (\<lambda>p. (p, pos)) (at_key (in_run run) dep)) deps)) g"
  by (induction deps arbitrary: g) (auto simp: place_dep_eq)

lemma fold_record_deps:
  "fold_res (\<lambda>(pos, l). fold_res (place_dep (in_run run) placed bodyIDs runEnd pos (op_id (pl_op l)))
                          (op_deps (pl_op l))) xs g = Inr g' \<longleftrightarrow>
     (\<forall>(pos, l) \<in> set xs. \<forall>dep \<in> set (op_deps (pl_op l)). \<not> later_dep run placed bodyIDs runEnd dep) \<and>
     g' = fold (\<lambda>(u, v). add_arc u v) (concat (map (dep_arcs run) xs)) g"
proof (induction xs arbitrary: g)
  case (Cons x xs)
  obtain pos l where x: "x = (pos, l)" by (cases x)
  show ?case
    by (simp add: x fold_place_dep bind_res_Inr_iff Cons.IH dep_arcs_def [of run, THEN fun_cong, of "(pos, l)"])
qed auto

lemma in_dep_arcs:
  "(p, i) \<in> set (dep_arcs run (pos, l)) \<longleftrightarrow>
     i = pos \<and> p < length run \<and> op_id (pl_op (run ! p)) \<noteq> [] \<and> op_id (pl_op (run ! p)) \<in> set (op_deps (pl_op l))"
proof -
  have "(p, i) \<in> set (dep_arcs run (pos, l)) \<longleftrightarrow>
      i = pos \<and> (\<exists>dep \<in> set (op_deps (pl_op l)). p \<in> set (at_key (in_run run) dep))"
    by (auto simp: dep_arcs_def)
  then show ?thesis by (auto simp: in_in_run_iff)
qed

lemma set_dep_arcs: "set (concat (map (dep_arcs run) (enumerate 0 run))) = recorded_arcs run"
proof (rule set_eqI)
  fix a :: "nat \<times> nat"
  obtain p i where a: "a = (p, i)" by (cases a)
  have "a \<in> set (concat (map (dep_arcs run) (enumerate 0 run))) \<longleftrightarrow>
      (\<exists>x \<in> set (enumerate 0 run). (p, i) \<in> set (dep_arcs run x))"
    by (simp add: a)
  also have "\<dots> \<longleftrightarrow> (\<exists>l. (i, l) \<in> set (enumerate 0 run) \<and> (p, i) \<in> set (dep_arcs run (i, l)))"
    by (simp only: Bex_def split_paired_Ex) (auto simp: in_dep_arcs)
  also have "\<dots> \<longleftrightarrow> a \<in> recorded_arcs run"
    by (auto simp: a in_dep_arcs in_set_enumerate_eq recorded_arcs_def)
  finally show "a \<in> set (concat (map (dep_arcs run) (enumerate 0 run))) \<longleftrightarrow> a \<in> recorded_arcs run" .
qed

definition recorded_graph :: "planLine list \<Rightarrow> graph" where
  "recorded_graph run =
     fold (\<lambda>(u, v). add_arc u v) (concat (map (dep_arcs run) (enumerate 0 run)))
       (replicate (length run) 0, replicate (length run) [])"

lemma record_deps_iff:
  "record_deps run placed bodyIDs runEnd = Inr g \<longleftrightarrow>
     (\<forall>l \<in> set run. \<forall>dep \<in> set (op_deps (pl_op l)). \<not> later_dep run placed bodyIDs runEnd dep) \<and>
     g = recorded_graph run"
proof -
  have "(\<forall>(pos, l) \<in> set (enumerate 0 run). P l) \<longleftrightarrow> (\<forall>l \<in> set (map snd (enumerate 0 run)). P l)"
    for P :: "planLine \<Rightarrow> bool" by (simp only: set_map ball_simps case_prod_unfold)
  then show ?thesis by (simp add: record_deps_def fold_record_deps recorded_graph_def)
qed

lemma record_deps_graph:
  assumes "record_deps run placed bodyIDs runEnd = Inr (indeg, waiters)"
  shows "counted_graph (length run) (indeg, waiters)" and "edges waiters = recorded_arcs run"
proof -
  have b: "\<forall>(u, v) \<in> set (concat (map (dep_arcs run) (enumerate 0 run))). u < length run \<and> v < length run"
    unfolding set_dep_arcs by (auto simp: recorded_arcs_def)
  from fold_add_arc_counted [OF counted_graph_empty b]
  have "counted_graph (length run) (recorded_graph run) \<and> edges (snd (recorded_graph run)) = recorded_arcs run"
    by (simp only: recorded_graph_def set_dep_arcs snd_conv edges_empty Un_empty_left simp_thms)
  moreover have "recorded_graph run = (indeg, waiters)" using assms by (simp add: record_deps_iff)
  ultimately show "counted_graph (length run) (indeg, waiters)" "edges waiters = recorded_arcs run"
    by simp_all
qed

text \<open>The full graph of a run: its recorded edges and the directory edges inferred against them.\<close>

definition inferred_arcs :: "planLine list \<Rightarrow> (nat \<times> nat) set" where
  "inferred_arcs run =
     set (InferParentDirDeps (map pl_op run) (\<lambda>u. snd (recorded_graph run) ! u))"

lemma arcs_on_waiters: "length waiters = n \<Longrightarrow> arcs_on n (\<lambda>u. waiters ! u) = edges waiters"
  by (auto simp: arcs_on_def edges_def edge_def)

lemma run_graph:
  assumes "record_deps run placed bodyIDs runEnd = Inr g"
    and "addParentDirDeps run g = (indeg, waiters)"
  shows "counted_graph (length run) (indeg, waiters)"
    and "edges waiters = recorded_arcs run \<union> inferred_arcs run"
    and "acyclic (edges waiters) \<longleftrightarrow> acyclic (recorded_arcs run)"
proof -
  let ?n = "length run"
  obtain indeg0 waiters0 where g: "g = (indeg0, waiters0)" by (cases g)
  note G = record_deps_graph [OF assms(1) [unfolded g]]
  let ?arcs = "InferParentDirDeps (map pl_op run) (\<lambda>u. waiters0 ! u)"
  have closed: "closed_on (length (map pl_op run)) (\<lambda>u. waiters0 ! u)"
    using G(1) by (auto simp: closed_on_def counted_graph_def closed_graph_def)
  have "u < ?n \<and> v < ?n" if "(u, v) \<in> set ?arcs" for u v
    using infer_bounds [OF closed that] by simp
  then have b: "\<forall>(u, v) \<in> set ?arcs. u < ?n \<and> v < ?n" by blast
  have "recorded_graph run = (indeg0, waiters0)" using assms(1) g by (simp add: record_deps_iff)
  then have inf: "inferred_arcs run = set ?arcs" by (simp add: inferred_arcs_def)
  note F = fold_add_arc_counted [OF G(1) b]
  show "counted_graph ?n (indeg, waiters)"
    using F assms(2) g by (simp add: addParentDirDeps_def)
  show E: "edges waiters = recorded_arcs run \<union> inferred_arcs run"
    using F assms(2) g G(2) inf by (simp add: addParentDirDeps_def)
  have "arcs_on (length (map pl_op run)) (\<lambda>u. waiters0 ! u) = recorded_arcs run"
    using arcs_on_waiters [of waiters0 ?n] G by (simp add: counted_graph_def)
  with infer_all(1) [OF closed order_refl] inf E
  have "acyclic (recorded_arcs run) \<longrightarrow> acyclic (edges waiters)" by simp
  moreover have "acyclic (edges waiters) \<Longrightarrow> acyclic (recorded_arcs run)"
    using E by (auto intro: acyclic_subset)
  ultimately show "acyclic (edges waiters) \<longleftrightarrow> acyclic (recorded_arcs run)" by blast
qed

section \<open>Lemmas: the sorted run\<close>

lemma kahnStable_spec:
  assumes g: "counted_graph (length run) (indeg, waiters)"
  shows kahnStable_total: "(\<exists>srt. kahnStable run indeg waiters = Inr srt) \<longleftrightarrow> acyclic (edges waiters)"
    and kahnStable_order: "kahnStable run indeg waiters = Inr srt \<Longrightarrow>
      \<exists>out. srt = map (\<lambda>pos. run ! pos) out \<and> distinct out \<and> set out = {..<length run}
        \<and> (\<forall>(u, v) \<in> edges waiters. before out u v) \<and> stable.least_ready waiters out"
proof -
  let ?n = "length run"
  let ?q = "filter (\<lambda>pos. indeg ! pos = 0) [0..<length indeg]"
  have len: "length indeg = ?n" "length waiters = ?n" using g by (auto simp: counted_graph_def)
  have "{v. v < ?n \<and> indeg ! v = 0} = set ?q" using len by auto
  then have "mset ?q = mset_set {v. v < ?n \<and> indeg ! v = 0}"
    by (simp add: mset_set_set del: set_filter)
  then have init: "stable.kahn_inv waiters ?q indeg []"
    by (intro stable.kahn_inv_counted [OF g]) (simp_all add: sorted_wrt_filter)
  obtain out indeg' q' where run: "kahn_loop ?n pop_front insert_ready waiters ?q indeg [] = (out, indeg', q')"
    by (cases "kahn_loop ?n pop_front insert_ready waiters ?q indeg []") auto
  note K = stable.kahn_correct [OF init run [folded len(2)]]
  have "find (\<lambda>pos. indeg' ! pos > 0) [0..<length indeg'] = None \<longleftrightarrow> set out = {..<?n}"
    using K(2,6,7,8) len by (auto simp: find_None_iff) (metis linorder_not_less order_le_less)+
  then have full: "find (\<lambda>pos. indeg' ! pos > 0) [0..<length indeg'] = None \<longleftrightarrow> acyclic (edges waiters)"
    using K(9) len by simp
  have res: "kahnStable run indeg waiters =
      (case find (\<lambda>pos. indeg' ! pos > 0) [0..<length indeg'] of
         Some pos \<Rightarrow> Inl (CircularDep (op_id (pl_op (run ! pos))))
       | None \<Rightarrow> Inr (map (\<lambda>pos. run ! pos) out))"
    unfolding kahnStable_def by (simp only: run prod.case)
  show "(\<exists>srt. kahnStable run indeg waiters = Inr srt) \<longleftrightarrow> acyclic (edges waiters)"
    using full res by (auto split: option.splits)
  assume "kahnStable run indeg waiters = Inr srt"
  with res have s: "srt = map (\<lambda>pos. run ! pos) out"
    and "find (\<lambda>pos. indeg' ! pos > 0) [0..<length indeg'] = None" by (auto split: option.splits)
  with full K(9) len have all: "set out = {..<?n}" by simp
  have "before out u v" if "(u, v) \<in> edges waiters" for u v
    using that K(3) [of v u] all g by (auto simp: edges_def edge_def counted_graph_def closed_graph_def)
  with s all K(1,4) show "\<exists>out. srt = map (\<lambda>pos. run ! pos) out \<and> distinct out \<and> set out = {..<?n}
        \<and> (\<forall>(u, v) \<in> edges waiters. before out u v) \<and> stable.least_ready waiters out" by blast
qed

lemma sortRun_Inr:
  assumes "sortRunByDeps run placed bodyIDs runEnd = Inr srt"
  obtains out where "srt = map (\<lambda>pos. run ! pos) out" "distinct out" "set out = {..<length run}"
    "\<forall>u v. (u, v) \<in> recorded_arcs run \<union> inferred_arcs run \<longrightarrow> before out u v"
    "\<forall>l \<in> set run. \<forall>dep \<in> set (op_deps (pl_op l)). \<not> later_dep run placed bodyIDs runEnd dep"
proof -
  from assms obtain g where g: "record_deps run placed bodyIDs runEnd = Inr g"
    and s: "(case addParentDirDeps run g of (indeg, waiters) \<Rightarrow> kahnStable run indeg waiters) = Inr srt"
    unfolding sortRunByDeps_def bind_res_Inr_iff by blast
  obtain indeg waiters where a: "addParentDirDeps run g = (indeg, waiters)" by fastforce
  with s have k: "kahnStable run indeg waiters = Inr srt" by simp
  note G = run_graph [OF g a]
  from kahnStable_order [OF G(1) k] obtain out where
    out: "srt = map (\<lambda>pos. run ! pos) out" "distinct out" "set out = {..<length run}"
      and o: "\<forall>(u, v) \<in> edges waiters. before out u v" by blast
  show thesis
  proof (rule that [OF out])
    show "\<forall>u v. (u, v) \<in> recorded_arcs run \<union> inferred_arcs run \<longrightarrow> before out u v"
      using o G(2) by auto
    show "\<forall>l \<in> set run. \<forall>dep \<in> set (op_deps (pl_op l)). \<not> later_dep run placed bodyIDs runEnd dep"
      using g by (simp add: record_deps_iff)
  qed
qed

lemma sortRun_mset:
  assumes "sortRunByDeps run placed bodyIDs runEnd = Inr srt"
  shows "mset srt = mset run"
proof -
  obtain out where out: "srt = map (\<lambda>pos. run ! pos) out" "distinct out" "set out = {..<length run}"
    using assms by (rule sortRun_Inr)
  from out(2) have "mset out = mset_set (set out)" by (simp add: mset_set_set)
  then have "mset out = mset [0..<length run]" by (simp add: out(3) atLeast0LessThan)
  then have "mset srt = image_mset ((!) run) (mset [0..<length run])" by (simp add: out(1))
  also have "\<dots> = mset run" by (simp only: mset_map [symmetric] map_nth)
  finally show ?thesis .
qed

text \<open>When every edge already points forward, the least ready node is always the next one.\<close>

lemma least_ready_forward:
  assumes l: "stable.least_ready waiters out" and n: "set out = {..<length waiters}" and d: "distinct out"
    and fwd: "\<And>u v. (u, v) \<in> edges waiters \<Longrightarrow> u < v"
  shows "out = [0..<length waiters]"
proof (rule nth_equalityI)
  show len: "length out = length [0..<length waiters]" using n d by (metis card_lessThan distinct_card length_upt minus_nat.diff_0)
  have "out ! i = i" if "i < length out" for i
    using that
  proof (induction i rule: less_induct)
    case (less i)
    have take: "take i out = [0..<i]"
      by (rule nth_equalityI) (use less in auto)
    have "i \<in> stable.ready_set waiters (set (take i out))"
      using less.prems len fwd unfolding take
      by (auto simp: stable.ready_set_def edges_def)
    then have "out ! i \<le> i" using l less.prems by (auto simp: stable.least_ready_def)
    moreover have "out ! i \<notin> set (take i out)"
      using l less.prems by (auto simp: stable.least_ready_def stable.ready_set_def)
    ultimately show ?case unfolding take by simp
  qed
  then show "\<And>i. i < length out \<Longrightarrow> out ! i = [0..<length waiters] ! i" using len by simp
qed

section \<open>Lemmas: the sorted body\<close>

definition plan_lines :: "Op list \<Rightarrow> planLine list" where
  "plan_lines body = map (\<lambda>(i, op). \<lparr>pl_op = op, pl_line = i + 2\<rparr>) (enumerate 0 body)"

lemma plan_lines_length [simp]: "length (plan_lines body) = length body"
  by (simp add: plan_lines_def)

lemma plan_lines_nth: "i < length body \<Longrightarrow> plan_lines body ! i = \<lparr>pl_op = body ! i, pl_line = i + 2\<rparr>"
  by (simp add: plan_lines_def nth_enumerate_eq)

lemma body_ids_from_lookup:
  "body_ids_from i ops m k =
     (case m k of Some j \<Rightarrow> Some j
      | None \<Rightarrow> if k = [] then None else map_option ((+) i) (first_index (\<lambda>op. op_id op = k) ops))"
proof (induction ops arbitrary: i m)
  case (Cons op ops)
  have plus: "(+) (Suc i) = (+) i \<circ> Suc" by auto
  show ?case by (auto simp: Cons.IH plus option.map_comp split: option.splits)
qed (simp split: option.splits)

lemma body_ids_lookup:
  "body_ids_from 0 body Map.empty k =
     (if k = [] then None else first_index (\<lambda>op. op_id op = k) body)"
proof -
  have "(+) (0::nat) = id" by auto
  then show ?thesis by (simp add: body_ids_from_lookup option.map_id)
qed

text \<open>
  The walk's invariant after \<open>i\<close> ops: what is out is, run by run, a permutation of the lines before
  the current run, control ops in place, and the placed ids are ids that are out.
\<close>

definition deps_met :: "Op list \<Rightarrow> planLine list \<Rightarrow> bool" where
  "deps_met body out \<longleftrightarrow>
     (\<forall>k < length out. \<not> IsControlKind (op_kind (pl_op (out ! k))) \<longrightarrow>
        (\<forall>dep \<in> set (op_deps (pl_op (out ! k))). dep \<noteq> [] \<longrightarrow> (\<exists>op \<in> set body. op_id op = dep) \<longrightarrow>
           (\<exists>j < k. op_id (pl_op (out ! j)) = dep)))"

definition in_segments :: "planLine list \<Rightarrow> planLine list \<Rightarrow> bool" where
  "in_segments lns out \<longleftrightarrow>
     length out \<le> length lns \<and> mset out = mset (take (length out) lns)
     \<and> (\<forall>k < length out. IsControlKind (op_kind (pl_op (out ! k))) = IsControlKind (op_kind (pl_op (lns ! k))))
     \<and> (\<forall>k < length out. IsControlKind (op_kind (pl_op (lns ! k))) \<longrightarrow>
          out ! k = lns ! k \<and> mset (take k out) = mset (take k lns))"

definition sort_inv :: "Op list \<Rightarrow> nat \<Rightarrow> sort_state \<Rightarrow> bool" where
  "sort_inv body i st \<longleftrightarrow>
     i \<le> length body \<and> length (so_out st) + length (so_run st) = i
     \<and> so_run st = drop (length (so_out st)) (take i (plan_lines body))
     \<and> (\<forall>l \<in> set (so_run st). \<not> IsControlKind (op_kind (pl_op l)))
     \<and> (so_run st \<noteq> [] \<longrightarrow> so_end st = i)
     \<and> in_segments (plan_lines body) (so_out st) \<and> deps_met body (so_out st)
     \<and> so_placed st \<subseteq> {op_id (pl_op l) |l. l \<in> set (so_out st)}"

lemma in_segments_append:
  assumes "in_segments lns out" "length out + length srt \<le> length lns"
    and "mset srt = mset (take (length srt) (drop (length out) lns))"
    and "\<And>k. k < length srt \<Longrightarrow> \<not> IsControlKind (op_kind (pl_op (lns ! (length out + k))))"
  shows "in_segments lns (out @ srt)"
proof -
  have "\<not> IsControlKind (op_kind (pl_op (lns ! k)))" if "length out \<le> k" "k < length out + length srt" for k
    using assms(4) [of "k - length out"] that by simp
  moreover have "\<not> IsControlKind (op_kind (pl_op (srt ! k)))" if "k < length srt" for k
  proof -
    have "srt ! k \<in> set (take (length srt) (drop (length out) lns))"
      using assms(3) that by (metis mset_eq_setD nth_mem)
    then obtain j where "j < length srt" "srt ! k = lns ! (length out + j)"
      using assms(2) by (auto simp: in_set_conv_nth)
    with assms(4) show ?thesis by simp
  qed
  moreover have "mset (take (length out + length srt) lns) = mset out + mset srt"
    using assms(1,3) by (simp add: in_segments_def take_add)
  ultimately show ?thesis
    using assms(1,2) by (auto simp: in_segments_def nth_append)
qed

lemma in_segments_control:
  assumes "in_segments lns out" "length out < length lns"
  shows "in_segments lns (out @ [lns ! length out])"
proof -
  have "take (Suc (length out)) lns = take (length out) lns @ [lns ! length out]"
    using assms(2) by (rule take_Suc_conv_app_nth)
  with assms show ?thesis by (auto simp: in_segments_def nth_append less_Suc_eq)
qed

lemma deps_met_append:
  assumes "deps_met body out"
    and "\<And>k dep. k < length srt \<Longrightarrow> \<not> IsControlKind (op_kind (pl_op (srt ! k))) \<Longrightarrow> dep \<in> set (op_deps (pl_op (srt ! k))) \<Longrightarrow> dep \<noteq> [] \<Longrightarrow>
        (\<exists>op \<in> set body. op_id op = dep) \<Longrightarrow>
        (\<exists>l \<in> set out. op_id (pl_op l) = dep) \<or> (\<exists>j < k. op_id (pl_op (srt ! j)) = dep)"
  shows "deps_met body (out @ srt)"
  unfolding deps_met_def
proof (intro allI impI ballI)
  fix k dep
  assume k: "k < length (out @ srt)" and c: "\<not> IsControlKind (op_kind (pl_op ((out @ srt) ! k)))"
    and dep: "dep \<in> set (op_deps (pl_op ((out @ srt) ! k)))" "dep \<noteq> []" and b: "\<exists>op \<in> set body. op_id op = dep"
  show "\<exists>j < k. op_id (pl_op ((out @ srt) ! j)) = dep"
  proof (cases "k < length out")
    case True
    then have "\<not> IsControlKind (op_kind (pl_op (out ! k)))" "dep \<in> set (op_deps (pl_op (out ! k)))"
      using c dep by (simp_all add: nth_append)
    with assms(1) True dep(2) b obtain j where "j < k" "op_id (pl_op (out ! j)) = dep"
      unfolding deps_met_def by blast
    moreover have "(out @ srt) ! j = out ! j" using True \<open>j < k\<close> by (simp add: nth_append)
    ultimately show ?thesis by metis
  next
    case False
    define k' where "k' = k - length out"
    have k': "k = length out + k'" "k' < length srt" using False k by (auto simp: k'_def)
    then have "dep \<in> set (op_deps (pl_op (srt ! k')))" using dep(1) by (simp add: nth_append)
    moreover have "\<not> IsControlKind (op_kind (pl_op (srt ! k')))" using c k' by (simp add: nth_append)
    ultimately consider l where "l \<in> set out" "op_id (pl_op l) = dep"
      | j where "j < k'" "op_id (pl_op (srt ! j)) = dep"
      using assms(2) [OF k'(2) _ _ dep(2) b] by blast
    then show ?thesis
    proof cases
      case 1
      then obtain j where "j < length out" "out ! j = l" by (auto simp: in_set_conv_nth)
      with 1 k' show ?thesis by (intro exI [of _ j]) (auto simp: nth_append)
    next
      case 2
      with k' show ?thesis by (intro exI [of _ "length out + j"]) (auto simp: nth_append)
    qed
  qed
qed

text \<open>Within the run being flushed, every dependency of the body is placed or comes first.\<close>

lemma flush_deps:
  assumes inv: "sort_inv body i st" and ne: "so_run st \<noteq> []"
    and s: "sortRunByDeps (so_run st) (so_placed st) (body_ids_from 0 body Map.empty) (so_end st) = Inr srt"
    and k: "k < length srt" and dep: "dep \<in> set (op_deps (pl_op (srt ! k)))" "dep \<noteq> []"
    and b: "\<exists>op \<in> set body. op_id op = dep"
  shows "(\<exists>l \<in> set (so_out st). op_id (pl_op l) = dep) \<or> (\<exists>j < k. op_id (pl_op (srt ! j)) = dep)"
proof -
  let ?run = "so_run st"
  from s obtain out where out: "srt = map (\<lambda>pos. ?run ! pos) out" "distinct out" "set out = {..<length ?run}"
    and ord: "\<forall>u v. (u, v) \<in> recorded_arcs ?run \<union> inferred_arcs ?run \<longrightarrow> before out u v"
    and later: "\<forall>l \<in> set ?run. \<forall>dep \<in> set (op_deps (pl_op l)).
      \<not> later_dep ?run (so_placed st) (body_ids_from 0 body Map.empty) (so_end st) dep"
    by (rule sortRun_Inr)
  have kl: "k < length out" using k out(1) by simp
  then have "out ! k \<in> {..<length ?run}" using out(3) nth_mem by blast
  with kl have pos: "out ! k < length ?run" "k < length out" "srt ! k = ?run ! (out ! k)"
    by (simp_all add: out(1))
  show ?thesis
  proof (cases "\<exists>p < length ?run. op_id (pl_op (?run ! p)) = dep")
    case True
    then obtain p where p: "p < length ?run" "op_id (pl_op (?run ! p)) = dep" by blast
    with dep pos have "(p, out ! k) \<in> recorded_arcs ?run" by (auto simp: recorded_arcs_def)
    then have "before out p (out ! k)" using ord by blast
    then obtain us vs ws where sp: "out = us @ p # vs @ out ! k # ws" by (auto simp: before_def)
    have "out ! length (us @ p # vs) = out ! k" using sp by (metis append.assoc append_Cons nth_append_length)
    moreover have "length (us @ p # vs) < length out" using arg_cong [OF sp, of length] by simp
    ultimately have "k = length (us @ p # vs)" using out(2) pos(2) by (metis nth_eq_iff_index_eq)
    moreover have "out ! length us = p" using sp by (metis nth_append_length)
    ultimately have "length us < k" "srt ! length us = ?run ! p" using k by (auto simp: out(1))
    with p show ?thesis by metis
  next
    case False
    have nr: "in_run ?run dep = None"
    proof -
      have "at_key (in_run ?run) dep = []"
        using False in_in_run_iff [of _ ?run dep] by (metis list.set_intros(1) neq_Nil_conv)
      then show ?thesis by (simp add: in_run_def index_None_iff)
    qed
    obtain first where first: "first_index (\<lambda>op. op_id op = dep) body = Some first"
      using b first_index_None_iff [of "\<lambda>op. op_id op = dep" body]
      by (cases "first_index (\<lambda>op. op_id op = dep) body") auto
    have f: "first < length body" "op_id (body ! first) = dep" using first_index_SomeD [OF first] by auto
    have I: "i = length (so_out st) + length ?run" "so_end st = i" "i \<le> length body"
      "?run = drop (length (so_out st)) (take i (plan_lines body))"
      "mset (so_out st) = mset (take (length (so_out st)) (plan_lines body))"
      "so_placed st \<subseteq> {op_id (pl_op l) |l. l \<in> set (so_out st)}"
      using inv ne by (auto simp: sort_inv_def in_segments_def)
    have "srt ! k \<in> set ?run" using pos by simp
    with later dep have "\<not> later_dep ?run (so_placed st) (body_ids_from 0 body Map.empty) i dep"
      using I(2) by auto
    then have "dep \<in> so_placed st \<or> first < i"
      using nr first dep(2) by (auto simp: later_dep_def body_ids_lookup)
    then show ?thesis
    proof
      assume "dep \<in> so_placed st"
      with I(6) show ?thesis by blast
    next
      assume lt: "first < i"
      have "first < length (so_out st)"
      proof (rule ccontr)
        assume "\<not> first < length (so_out st)"
        then obtain p where p: "first = length (so_out st) + p" using le_Suc_ex not_less by blast
        then have "p < length ?run" using lt I(1) by simp
        moreover have "?run ! p = plan_lines body ! first"
          using I(3,4) p lt by simp
        ultimately show False using False f by (auto simp: plan_lines_nth)
      qed
      then have "plan_lines body ! first \<in> set (take (length (so_out st)) (plan_lines body))"
        using f(1) by (metis in_set_conv_nth length_take min_less_iff_conj nth_take plan_lines_length)
      then have "plan_lines body ! first \<in> set (so_out st)" using I(5) by (metis mset_eq_setD)
      with f show ?thesis by (intro disjI1 bexI [of _ "plan_lines body ! first"]) (simp_all add: plan_lines_nth)
    qed
  qed
qed

lemma flush_inv:
  assumes inv: "sort_inv body i st" and fl: "flush (body_ids_from 0 body Map.empty) st = Inr st'"
  shows "sort_inv body i st' \<and> so_run st' = []"
proof (cases "so_run st = []")
  case True
  with fl inv show ?thesis by (simp add: flush_def)
next
  case False
  let ?run = "so_run st"
  from fl False obtain srt where
    s: "sortRunByDeps ?run (so_placed st) (body_ids_from 0 body Map.empty) (so_end st) = Inr srt"
    and st': "st' = st\<lparr>so_out := so_out st @ srt, so_run := [],
      so_placed := so_placed st \<union> set (filter (\<lambda>i. i \<noteq> []) (map (\<lambda>l. op_id (pl_op l)) srt))\<rparr>"
    by (auto simp: flush_def bind_res_Inr_iff)
  have m: "mset srt = mset ?run" using s by (rule sortRun_mset)
  then have len: "length srt = length ?run" by (rule mset_eq_length)
  have I: "i = length (so_out st) + length ?run" "i \<le> length body"
    "?run = drop (length (so_out st)) (take i (plan_lines body))"
    "\<forall>l \<in> set ?run. \<not> IsControlKind (op_kind (pl_op l))"
    "in_segments (plan_lines body) (so_out st)" "deps_met body (so_out st)"
    "so_placed st \<subseteq> {op_id (pl_op l) |l. l \<in> set (so_out st)}"
    using inv by (auto simp: sort_inv_def)
  have run: "?run = take (length srt) (drop (length (so_out st)) (plan_lines body))"
    using I(1,3) len by (simp add: drop_take)
  have nth: "?run ! k = plan_lines body ! (length (so_out st) + k)" if "k < length ?run" for k
    using that I(1,2) by (subst I(3)) simp
  have "in_segments (plan_lines body) (so_out st @ srt)"
  proof (rule in_segments_append [OF I(5)])
    show "length (so_out st) + length srt \<le> length (plan_lines body)" using I(1,2) len by simp
    show "mset srt = mset (take (length srt) (drop (length (so_out st)) (plan_lines body)))"
      using m run by simp
    fix k assume "k < length srt"
    then show "\<not> IsControlKind (op_kind (pl_op (plan_lines body ! (length (so_out st) + k))))"
      using I(4) nth [of k] len nth_mem by metis
  qed
  moreover have "deps_met body (so_out st @ srt)"
    by (rule deps_met_append [OF I(6)]) (rule flush_deps [OF inv False s])
  moreover have "so_placed st' \<subseteq> {op_id (pl_op l) |l. l \<in> set (so_out st @ srt)}"
    using I(7) by (auto simp: st')
  ultimately show ?thesis using I(1,2) len by (auto simp: sort_inv_def st')
qed

lemma sort_step_inv:
  assumes inv: "sort_inv body i st" and i: "i < length body"
    and st: "sort_step (body_ids_from 0 body Map.empty) (i, body ! i) st = Inr st'"
  shows "sort_inv body (Suc i) st'"
proof (cases "IsControlKind (op_kind (body ! i))")
  case True
  with st obtain st1 where fl: "flush (body_ids_from 0 body Map.empty) st = Inr st1"
    and st': "st' = st1\<lparr>so_out := so_out st1 @ [plan_lines body ! i]\<rparr>"
    by (auto simp: sort_step_def bind_res_Inr_iff plan_lines_nth [OF i])
  from flush_inv [OF inv fl] have I: "sort_inv body i st1" "so_run st1 = []" by auto
  then have n: "length (so_out st1) = i" by (simp add: sort_inv_def)
  have "in_segments (plan_lines body) (so_out st1 @ [plan_lines body ! length (so_out st1)])"
    using I i n by (intro in_segments_control) (auto simp: sort_inv_def)
  moreover have "deps_met body (so_out st1 @ [plan_lines body ! i])"
    by (rule deps_met_append) (use I(1) True i in \<open>auto simp: sort_inv_def plan_lines_nth\<close>)
  ultimately show ?thesis using I i n by (auto simp: sort_inv_def st')
next
  case False
  with st have st': "st' = st\<lparr>so_run := so_run st @ [plan_lines body ! i], so_end := i + 1\<rparr>"
    by (simp add: sort_step_def plan_lines_nth [OF i])
  have "take (Suc i) (plan_lines body) = take i (plan_lines body) @ [plan_lines body ! i]"
    using i by (simp add: take_Suc_conv_app_nth)
  with inv False i show ?thesis by (auto simp: sort_inv_def st' plan_lines_nth)
qed

text \<open>The control ops of the sorted body are those of the recorded one, in the recorded order.\<close>

lemma filter_positions:
  assumes "length xs = length ys" "\<And>k. k < length xs \<Longrightarrow> P (xs ! k) = P (ys ! k)"
    and "\<And>k. k < length xs \<Longrightarrow> P (ys ! k) \<Longrightarrow> xs ! k = ys ! k"
  shows "filter P xs = filter P ys"
  using assms
proof (induction xs ys rule: list_induct2)
  case (Cons x xs y ys)
  have "P x = P y" "P y \<Longrightarrow> x = y" using Cons.prems [of 0] by auto
  moreover have "filter P xs = filter P ys"
    using Cons.prems(1) [of "Suc _"] Cons.prems(2) [of "Suc _"] by (intro Cons.IH) auto
  ultimately show ?case by auto
qed simp

lemma sortedApplyOrder_inv:
  assumes "sortedApplyOrder body = Inr out"
  shows "in_segments (plan_lines body) out \<and> length out = length body \<and> deps_met body out"
proof -
  let ?ids = "body_ids_from 0 body Map.empty"
  let ?s0 = "\<lparr>so_out = [], so_run = [], so_end = 0, so_placed = {}\<rparr>"
  from assms obtain st st' where walk: "fold_res (sort_step ?ids) (enumerate 0 body) ?s0 = Inr st"
    and fl: "flush ?ids st = Inr st'" and out: "out = so_out st'"
    by (auto simp: sortedApplyOrder_def Let_def bind_res_Inr_iff)
  have "sort_inv body i s" if "i \<le> length body" "fold_res (sort_step ?ids) (take i (enumerate 0 body)) ?s0 = Inr s" for i s
    using that
  proof (induction i arbitrary: s)
    case 0
    then have "s = ?s0" by simp
    then show ?case by (simp add: sort_inv_def in_segments_def deps_met_def)
  next
    case (Suc i)
    have "take (Suc i) (enumerate 0 body) = take i (enumerate 0 body) @ [(i, body ! i)]"
      using Suc.prems(1) by (simp add: take_Suc_conv_app_nth nth_enumerate_eq)
    with Suc.prems(2) obtain s1 where "fold_res (sort_step ?ids) (take i (enumerate 0 body)) ?s0 = Inr s1"
      "sort_step ?ids (i, body ! i) s1 = Inr s" by (auto simp: fold_res_append bind_res_Inr_iff)
    with Suc sort_step_inv [of body i s1 s] show ?case by simp
  qed
  from this [of "length body" st] walk have "sort_inv body (length body) st" by simp
  from flush_inv [OF this fl] show ?thesis by (auto simp: sort_inv_def out)
qed

lemma map_op_plan_lines [simp]: "map pl_op (plan_lines body) = body"
  by (simp add: plan_lines_def case_prod_beta comp_def)

lemma sorted_control_ops:
  assumes "sortedApplyOrder body = Inr out"
  shows "filter (\<lambda>op. IsControlKind (op_kind op)) (map pl_op out) =
    filter (\<lambda>op. IsControlKind (op_kind op)) body"
proof -
  have "filter (\<lambda>l. IsControlKind (op_kind (pl_op l))) out
      = filter (\<lambda>l. IsControlKind (op_kind (pl_op l))) (plan_lines body)"
    using sortedApplyOrder_inv [OF assms] by (intro filter_positions) (auto simp: in_segments_def)
  then have "map pl_op (filter (\<lambda>l. IsControlKind (op_kind (pl_op l))) out)
      = map pl_op (filter (\<lambda>l. IsControlKind (op_kind (pl_op l))) (plan_lines body))" by simp
  then show ?thesis by (simp add: filter_map comp_def flip: filter_map [of "\<lambda>op. IsControlKind (op_kind op)" pl_op "plan_lines body", unfolded comp_def])
qed

lemmas recorded_arcs_code [code] = set_dep_arcs [symmetric]

section \<open>Properties\<close>

text \<open>
  The apply order is a permutation of the recorded lines that moves nothing across a control
  op: every control op keeps its place, and the lines before it are the lines recorded before it.
\<close>

theorem sorted_within_segments:
  assumes "sortedApplyOrder body = Inr out"
  shows "mset out = mset (plan_lines body) \<and>
    (\<forall>k < length body. IsControlKind (op_kind (body ! k)) \<longrightarrow>
       out ! k = plan_lines body ! k \<and> mset (take k out) = mset (take k (plan_lines body)))"
  using sortedApplyOrder_inv [OF assms] by (auto simp: in_segments_def plan_lines_nth)

text \<open>
  C19: in the apply order, an op that a resource op depends on is applied before it, whenever the
  body records the dependency at all.
\<close>

theorem sorted_deps_first:
  assumes "sortedApplyOrder body = Inr out" and "k < length out"
    and "\<not> IsControlKind (op_kind (pl_op (out ! k)))"
    and "dep \<in> set (op_deps (pl_op (out ! k)))" "dep \<noteq> []" "\<exists>op \<in> set body. op_id op = dep"
  shows "\<exists>j < k. op_id (pl_op (out ! j)) = dep"
  using sortedApplyOrder_inv [OF assms(1)] assms(2-) unfolding deps_met_def by blast

text \<open>
  C20: a run is refused exactly when one of its ops depends on an op first recorded after the run
  (and not applied before it), or when its recorded dependencies are cyclic; the inferred directory
  edges never cause a refusal.
\<close>

theorem sortRun_accepts_iff:
  "(\<exists>srt. sortRunByDeps run placed bodyIDs runEnd = Inr srt) \<longleftrightarrow>
     (\<forall>l \<in> set run. \<forall>dep \<in> set (op_deps (pl_op l)). \<not> later_dep run placed bodyIDs runEnd dep)
     \<and> acyclic (recorded_arcs run)"
proof (cases "\<forall>l \<in> set run. \<forall>dep \<in> set (op_deps (pl_op l)). \<not> later_dep run placed bodyIDs runEnd dep")
  case True
  then have g: "record_deps run placed bodyIDs runEnd = Inr (recorded_graph run)"
    by (simp add: record_deps_iff)
  obtain indeg waiters where a: "addParentDirDeps run (recorded_graph run) = (indeg, waiters)" by fastforce
  note G = run_graph [OF g a]
  have "(\<exists>srt. sortRunByDeps run placed bodyIDs runEnd = Inr srt) \<longleftrightarrow> acyclic (recorded_arcs run)"
    using kahnStable_total [OF G(1)] G(3) by (simp add: sortRunByDeps_def g a)
  with True show ?thesis by simp
next
  case False
  then have "\<not> (\<exists>srt. sortRunByDeps run placed bodyIDs runEnd = Inr srt)"
    unfolding sortRunByDeps_def bind_res_Inr_iff record_deps_iff by blast
  with False show ?thesis by blast
qed

text \<open>
  The sort is stable: a run whose recorded and inferred edges all point forward already is
  applied in its recorded order, line by line.
\<close>

theorem sortRun_keeps_valid_order:
  assumes "\<And>l dep. l \<in> set run \<Longrightarrow> dep \<in> set (op_deps (pl_op l)) \<Longrightarrow> \<not> later_dep run placed bodyIDs runEnd dep"
    and "\<And>u v. (u, v) \<in> recorded_arcs run \<union> inferred_arcs run \<Longrightarrow> u < v"
  shows "sortRunByDeps run placed bodyIDs runEnd = Inr run"
proof -
  have g: "record_deps run placed bodyIDs runEnd = Inr (recorded_graph run)"
    using assms(1) by (auto simp: record_deps_iff)
  obtain indeg waiters where a: "addParentDirDeps run (recorded_graph run) = (indeg, waiters)" by fastforce
  note G = run_graph [OF g a]
  have fwd: "u < v" if "(u, v) \<in> edges waiters" for u v using that G(2) assms(2) by blast
  have "edges waiters \<subseteq> less_than" using fwd by auto
  then have "acyclic (edges waiters)" by (meson acyclic_subset wf_acyclic wf_less_than)
  with kahnStable_total [OF G(1)] obtain srt where k: "kahnStable run indeg waiters = Inr srt" by blast
  with kahnStable_order [OF G(1)] obtain out where out: "srt = map (\<lambda>pos. run ! pos) out" "distinct out"
    "set out = {..<length run}" "stable.least_ready waiters out" by blast
  have "length waiters = length run" using G(1) by (simp add: counted_graph_def)
  with least_ready_forward [OF out(4) _ out(2) fwd] out(3) have "out = [0..<length run]" by simp
  then have "srt = run" by (simp add: out(1) map_nth)
  with k show ?thesis by (simp add: sortRunByDeps_def g a)
qed

text \<open>
  An op that creates something inside a directory applies after every op of its run that
  creates the nearest such directory, unless the dependencies already force it to come first.
\<close>

theorem sortRun_dirs_first:
  assumes "sortRunByDeps run placed bodyIDs runEnd = Inr srt" and "i < length run"
    and "d \<in> set (nearestProviders (pl_op (run ! i)) i (dirProviders (map pl_op run)))"
    and "(i, d) \<notin> (recorded_arcs run \<union> inferred_arcs run)\<^sup>*"
  shows "\<exists>out. srt = map (\<lambda>pos. run ! pos) out \<and> distinct out \<and> set out = {..<length run} \<and> before out d i"
proof -
  from assms(1) obtain out where out: "srt = map (\<lambda>pos. run ! pos) out" "distinct out" "set out = {..<length run}"
    and ord: "\<forall>u v. (u, v) \<in> recorded_arcs run \<union> inferred_arcs run \<longrightarrow> before out u v"
    and l: "\<forall>l \<in> set run. \<forall>dep \<in> set (op_deps (pl_op l)). \<not> later_dep run placed bodyIDs runEnd dep"
    by (rule sortRun_Inr)
  obtain indeg waiters where g: "recorded_graph run = (indeg, waiters)" by fastforce
  have "record_deps run placed bodyIDs runEnd = Inr (indeg, waiters)" using l g by (simp add: record_deps_iff)
  note G = record_deps_graph [OF this]
  have c: "closed_on (length (map pl_op run)) (\<lambda>u. waiters ! u)"
    using G(1) by (auto simp: closed_on_def counted_graph_def closed_graph_def)
  have arcs: "arcs_on (length (map pl_op run)) (\<lambda>u. waiters ! u) = recorded_arcs run"
    using arcs_on_waiters [of waiters "length run"] G by (simp add: counted_graph_def)
  have inf: "inferred_arcs run = set (InferParentDirDeps (map pl_op run) (\<lambda>u. waiters ! u))"
    by (simp add: inferred_arcs_def g)
  have "(i, d) \<in> set (candidates (map pl_op run))" using assms(2,3) by (simp add: candidates_iff)
  from infer_all(3) [OF c this] have "(d, i) \<in> inferred_arcs run" using assms(4) arcs inf by simp
  with ord out show ?thesis by blast
qed

section \<open>Witnesses\<close>

definition sample_body :: "Op list" where
  "sample_body =
     [(resource_op KindFile ''File[/a/x]'')\<lparr>op_path := ''/a/x'', op_deps := [''Command[z]'']\<rparr>,
      (resource_op KindEnsureDir ''Dir[/a]'')\<lparr>op_path := ''/a''\<rparr>,
      resource_op KindCommand ''Command[z]'',
      zero_op KindWhenBegin,
      (resource_op KindCommand ''Command[y]'')\<lparr>op_deps := [''File[/a/x]'']\<rparr>,
      zero_op KindWhenEnd]"

lemma sample_body_order:
  "sortedApplyOrder sample_body = Inr (map (\<lambda>i. plan_lines sample_body ! i) [1, 2, 0, 3, 4, 5])"
  by code_simp

theorem sorted_within_segments_witness:
  "map (\<lambda>i. plan_lines sample_body ! i) [1, 2, 0, 3, 4, 5] ! 3 = plan_lines sample_body ! 3"
proof -
  have "3 < length sample_body" "IsControlKind (op_kind (sample_body ! 3))" by code_simp+
  with sorted_within_segments [OF sample_body_order] show ?thesis by blast
qed

lemma sample_body_third:
  "2 < length (map (\<lambda>i. plan_lines sample_body ! i) [1, 2, 0, 3, 4, 5])"
  "\<not> IsControlKind (op_kind (pl_op (map (\<lambda>i. plan_lines sample_body ! i) [1, 2, 0, 3, 4, 5] ! 2)))"
  "''Command[z]'' \<in> set (op_deps (pl_op (map (\<lambda>i. plan_lines sample_body ! i) [1, 2, 0, 3, 4, 5] ! 2)))"
  "''Command[z]'' \<noteq> []" "\<exists>op \<in> set sample_body. op_id op = ''Command[z]''"
  by code_simp+

theorem sorted_deps_first_witness:
  "\<exists>j < 2. op_id (pl_op (map (\<lambda>i. plan_lines sample_body ! i) [1, 2, 0, 3, 4, 5] ! j)) = ''Command[z]''"
  by (rule sorted_deps_first [OF sample_body_order sample_body_third])

definition sample_run :: "planLine list" where
  "sample_run =
     [\<lparr>pl_op = (resource_op KindEnsureDir ''Dir[/a]'')\<lparr>op_path := ''/a''\<rparr>, pl_line = 2\<rparr>,
      \<lparr>pl_op = (resource_op KindFile ''File[/a/x]'')\<lparr>op_path := ''/a/x'', op_deps := [''Dir[/a]'']\<rparr>, pl_line = 3\<rparr>]"

lemma sample_run_arcs: "recorded_arcs sample_run = {(0, 1)}" "inferred_arcs sample_run = {(0, 1)}"
  by code_simp+

lemma sample_run_nothing_later: "\<not> later_dep run placed Map.empty e dep"
  by (simp add: later_dep_def)

theorem sortRun_accepts_iff_witness:
  "acyclic (recorded_arcs sample_run)"
proof -
  have "\<exists>srt. sortRunByDeps sample_run {} Map.empty 2 = Inr srt" by (rule exI [of _ sample_run]) code_simp
  with sortRun_accepts_iff [of sample_run] show ?thesis by blast
qed

theorem sortRun_keeps_valid_order_witness:
  "sortRunByDeps sample_run {} Map.empty 2 = Inr sample_run"
  by (rule sortRun_keeps_valid_order) (auto simp: sample_run_arcs sample_run_nothing_later)

definition sample_late_dir :: "planLine list" where
  "sample_late_dir =
     [\<lparr>pl_op = (resource_op KindFile ''File[/a/x]'')\<lparr>op_path := ''/a/x''\<rparr>, pl_line = 2\<rparr>,
      \<lparr>pl_op = (resource_op KindEnsureDir ''Dir[/a]'')\<lparr>op_path := ''/a''\<rparr>, pl_line = 3\<rparr>]"

lemma sample_late_dir_facts:
  "sortRunByDeps sample_late_dir {} Map.empty 2 = Inr (rev sample_late_dir)"
  "0 < length sample_late_dir"
  "1 \<in> set (nearestProviders (pl_op (sample_late_dir ! 0)) 0 (dirProviders (map pl_op sample_late_dir)))"
  by code_simp+

lemma sample_late_dir_arcs: "recorded_arcs sample_late_dir \<union> inferred_arcs sample_late_dir = {(1, 0)}"
  by code_simp

theorem sortRun_dirs_first_witness:
  "\<exists>out. rev sample_late_dir = map (\<lambda>pos. sample_late_dir ! pos) out \<and> before out 1 0"
proof -
  have "(0, 1) \<notin> {(1 :: nat, 0 :: nat)}\<^sup>*" by (auto elim: converse_rtranclE)
  with sortRun_dirs_first [OF sample_late_dir_facts] show ?thesis
    unfolding sample_late_dir_arcs by blast
qed

end
