(* ===== verification/PathToken.thy ===== *)
theory PathToken
  imports GoStrings
begin

text \<open>
  Destination path tokens: \<open>internal/pathtoken/pathtoken.go\<close>. The environment is the value of
  \<open>$HOME\<close> and the answer of the user database, which are arguments here.
\<close>

section \<open>Expansion\<close>

datatype token_error =
    UnclosedToken string
  | EmptyToken string
  | UnknownToken string
  | UserLookupFailed
  | HomeNotSet
  | HomeNotAbsolute string

record home_env =
  he_home :: string                    \<comment> \<open>\<open>os.Getenv("HOME")\<close>\<close>
  he_user :: "string option"           \<comment> \<open>\<open>currentUserHome()\<close>, \<open>None\<close> when it fails\<close>

definition Home :: string where "Home = ''${HOME}''"

definition resolveHome :: "home_env \<Rightarrow> (token_error, string) result" where
  "resolveHome env =
     bind_res
       (if he_home env = [] then (case he_user env of None \<Rightarrow> Inl UserLookupFailed | Some h \<Rightarrow> Inr h)
        else Inr (he_home env))
       (\<lambda>home.
         if home = [] then Inl HomeNotSet
         else if \<not> has_prefix home [SLASH] then Inl (HomeNotAbsolute home)
         else Inr home)"

definition lookup_token :: "home_env \<Rightarrow> string \<Rightarrow> string \<Rightarrow> (token_error, string) result" where
  "lookup_token env p name =
     (if name = [] then Inl (EmptyToken p)
      else if name = ''HOME'' then resolveHome env
      else Inl (UnknownToken name))"

text \<open>\<open>expand_from\<close> is the loop on what is left of the path; \<open>p\<close> is the whole path, for messages.\<close>

function expand_from :: "home_env \<Rightarrow> string \<Rightarrow> string \<Rightarrow> (token_error, string) result" where
  "expand_from env p [] = Inr []"
| "expand_from env p (c # cs) =
     (if \<not> has_prefix (c # cs) ''${'' then
        bind_res (expand_from env p cs) (\<lambda>rest. Inr (c # rest))
      else
        (case index_byte (drop 2 (c # cs)) (CHR ''}'') of
           None \<Rightarrow> Inl (UnclosedToken p)
         | Some e \<Rightarrow>
             bind_res (lookup_token env p (take e (drop 2 (c # cs)))) (\<lambda>v.
               let val = path_clean v; left = drop (e + 3) (c # cs);
                 left' = (if has_suffix val [SLASH] \<and> has_prefix left [SLASH] then drop 1 left else left)
               in bind_res (expand_from env p left') (\<lambda>rest. Inr (val @ rest)))))"
  by pat_completeness auto
termination by (relation "measure (\<lambda>(env, p, s). length s)") auto

definition Expand :: "home_env \<Rightarrow> string \<Rightarrow> (token_error, string) result" where
  "Expand env p = (if \<not> contains p ''${'' then Inr p else expand_from env p p)"

section \<open>Clean absolute paths\<close>

definition proper_comp :: "string \<Rightarrow> bool" where
  "proper_comp c \<longleftrightarrow> c \<noteq> [] \<and> SLASH \<notin> set c \<and> c \<noteq> ''.'' \<and> c \<noteq> ''..''"

definition abs_path :: "string list \<Rightarrow> string" where
  "abs_path cs = SLASH # join [SLASH] cs"

lemma clean_step_proper: "proper_comp w \<Longrightarrow> clean_step r out w = w # out"
  by (simp add: proper_comp_def clean_step.simps)

lemma foldl_clean_proper: "\<forall>c \<in> set cs. proper_comp c \<Longrightarrow> foldl (clean_step r) out cs = rev cs @ out"
  by (induction cs arbitrary: out) (simp_all add: clean_step_proper)

lemma path_clean_abs:
  assumes "\<forall>c \<in> set cs. proper_comp c"
  shows "path_clean (abs_path cs) = abs_path cs"
proof -
  have r: "rooted_path (abs_path cs)" by (simp add: rooted_path_def abs_path_def)
  have "clean_comps (abs_path cs) = cs"
  proof (cases "cs = []")
    case True
    have "clean_comps [SLASH] = []" by code_simp
    with True show ?thesis by (simp add: abs_path_def)
  next
    case False
    have "split_on SLASH (join [SLASH] cs) = cs"
      using assms False by (intro split_on_join) (auto simp: proper_comp_def)
    then have "split_on SLASH (abs_path cs) = [] # cs" by (simp add: abs_path_def)
    then show ?thesis
      using foldl_clean_proper [OF assms, of True "[]"] r
      by (simp add: clean_comps_def clean_step.simps)
  qed
  with r show ?thesis by (simp add: path_clean_def abs_path_def)
qed

lemma clean_step_keeps_proper:
  assumes "\<forall>c \<in> set out. proper_comp c" "SLASH \<notin> set w"
  shows "\<forall>c \<in> set (clean_step True out w). proper_comp c"
  using assms by (cases out) (auto simp: clean_step.simps proper_comp_def)

lemma split_on_sep_free: "\<forall>w \<in> set (split_on c s). c \<notin> set w"
proof (induction s)
  case (Cons x s)
  then show ?case by (cases "split_on c s") auto
qed simp

lemma path_clean_rooted:
  assumes "has_prefix h [SLASH]"
  obtains cs where "path_clean h = abs_path cs" "\<forall>c \<in> set cs. proper_comp c"
proof -
  have step: "\<forall>c \<in> set (foldl (clean_step True) out ws). proper_comp c"
    if "\<forall>c \<in> set out. proper_comp c" "\<forall>w \<in> set ws. SLASH \<notin> set w" for out ws
    using that
  proof (induction ws arbitrary: out)
    case (Cons w ws)
    then have "\<forall>c \<in> set (clean_step True out w). proper_comp c"
      by (intro clean_step_keeps_proper) simp_all
    with Cons show ?case by simp
  qed simp
  have "rooted_path h" using assms by (simp add: rooted_path_def)
  with step [of "[]"] split_on_sep_free [of SLASH h] have
    "\<forall>c \<in> set (clean_comps h). proper_comp c" "path_clean h = abs_path (clean_comps h)"
    by (simp_all add: clean_comps_def path_clean_def abs_path_def)
  then show thesis using that by blast
qed

lemma join_append: "xs \<noteq> [] \<Longrightarrow> ys \<noteq> [] \<Longrightarrow> join sep (xs @ ys) = join sep xs @ sep @ join sep ys"
proof (induction xs)
  case (Cons x xs)
  then show ?case by (cases xs) (simp_all add: join_Cons)
qed simp

lemma abs_path_no_trailing:
  assumes "cs \<noteq> []" "\<forall>c \<in> set cs. proper_comp c"
  shows "\<not> has_suffix (abs_path cs) [SLASH]"
proof -
  obtain ds d where cs: "cs = ds @ [d]" using assms(1) by (metis rev_exhaust)
  have d: "d \<noteq> []" "SLASH \<notin> set d" using assms(2) cs by (auto simp: proper_comp_def)
  have "\<exists>u. join [SLASH] cs = u @ d"
    by (cases "ds = []") (simp_all add: cs join_append)
  then obtain u where "abs_path cs = SLASH # u @ d" by (auto simp: abs_path_def)
  moreover have "last d \<noteq> SLASH" using d last_in_set by metis
  ultimately have "last (abs_path cs) \<noteq> SLASH" using d(1) by simp
  then show ?thesis by (auto simp: has_suffix_iff)
qed

section \<open>Expanding\<close>

lemma expand_verbatim: "CHR ''$'' \<notin> set s \<Longrightarrow> expand_from env p s = Inr s"
  by (induction s) auto

lemma expand_home:
  assumes "resolveHome env = Inr h" "CHR ''$'' \<notin> set rest"
  shows "Expand env (Home @ rest) =
    Inr (path_clean h @ (if has_suffix (path_clean h) [SLASH] \<and> has_prefix rest [SLASH] then drop 1 rest else rest))"
proof -
  have "contains (Home @ rest) ''${''"
    unfolding contains_iff by (intro exI [of _ "[]"] exI [of _ "''HOME}'' @ rest"]) (simp add: Home_def)
  moreover have "index_byte (''HOME}'' @ rest) (CHR ''}'') = Some 4" by (simp add: index_byte_def)
  moreover have "CHR ''$'' \<notin> set (drop 1 rest)" using assms(2) by (auto dest: in_set_dropD)
  ultimately show ?thesis
    using assms by (simp add: Expand_def Home_def lookup_token_def expand_verbatim Let_def)
qed

text \<open>
  A path built on the home token and further clean elements expands to a clean absolute path
  below the destination's home, whatever spelling \<open>$HOME\<close> has (trailing or doubled slashes, dot
  elements, the root itself).
\<close>

theorem Expand_clean:
  assumes "resolveHome env = Inr h"
    and "\<And>c. c \<in> set cs \<Longrightarrow> c \<noteq> [] \<and> SLASH \<notin> set c \<and> CHR ''$'' \<notin> set c \<and> c \<noteq> ''.'' \<and> c \<noteq> ''..''"
  shows "\<exists>hs. path_clean h = SLASH # join [SLASH] hs \<and>
    Expand env (join [SLASH] (Home # cs)) = Inr (SLASH # join [SLASH] (hs @ cs)) \<and>
    path_clean (SLASH # join [SLASH] (hs @ cs)) = SLASH # join [SLASH] (hs @ cs)"
proof -
  have "has_prefix h [SLASH]" using assms(1) by (auto simp: resolveHome_def res_simps split: if_splits)
  then obtain hs where hs: "path_clean h = abs_path hs" "\<forall>c \<in> set hs. proper_comp c"
    by (rule path_clean_rooted)
  have cs: "\<forall>c \<in> set cs. proper_comp c" using assms(2) by (simp add: proper_comp_def)
  have clean: "path_clean (abs_path (hs @ cs)) = abs_path (hs @ cs)"
    using hs(2) cs by (intro path_clean_abs) auto
  let ?rest = "if cs = [] then [] else SLASH # join [SLASH] cs"
  have tok: "join [SLASH] (Home # cs) = Home @ ?rest" by (cases cs) simp_all
  have "CHR ''$'' \<notin> set (join [SLASH] ws)" if "\<forall>w \<in> set ws. CHR ''$'' \<notin> set w" for ws
    using that by (induction "[SLASH]" ws rule: join.induct) auto
  then have "CHR ''$'' \<notin> set ?rest" using assms(2) by simp
  note E = expand_home [OF assms(1) this, folded tok, unfolded hs(1)]
  have "Expand env (join [SLASH] (Home # cs)) = Inr (abs_path (hs @ cs))"
  proof (cases "hs = []")
    case True
    then show ?thesis by (simp add: E abs_path_def has_suffix_def)
  next
    case False
    with abs_path_no_trailing [OF False hs(2)] show ?thesis
      by (simp add: E) (simp add: abs_path_def join_append)
  qed
  with hs(1) clean show ?thesis by (auto simp: abs_path_def)
qed

definition sample_env :: home_env where
  "sample_env = \<lparr>he_home = ''/home//paul/./'', he_user = None\<rparr>"

theorem Expand_clean_witness:
  "\<exists>hs. path_clean ''/home//paul/./'' = SLASH # join [SLASH] hs \<and>
    Expand sample_env (join [SLASH] (Home # [''.config'', ''app''])) = Inr (SLASH # join [SLASH] (hs @ [''.config'', ''app'']))"
proof -
  have h: "resolveHome sample_env = Inr ''/home//paul/./''" by code_simp
  have "\<And>c. c \<in> set [''.config'', ''app''] \<Longrightarrow>
      c \<noteq> [] \<and> SLASH \<notin> set c \<and> CHR ''$'' \<notin> set c \<and> c \<noteq> ''.'' \<and> c \<noteq> ''..''" by auto
  from Expand_clean [OF h this] show ?thesis by blast
qed

text \<open>
  The other direction of the documentation's claim fails away from the front of a path: a clean path
  with the token further in does not expand to a clean one.
\<close>

lemma Expand_inner_token:
  "path_clean (''a/'' @ Home) = ''a/'' @ Home \<and>
   Expand sample_env (''a/'' @ Home) = Inr ''a//home/paul'' \<and> path_clean ''a//home/paul'' \<noteq> ''a//home/paul''"
  by code_simp

end
