(* ===== verification/PlanApply.thy ===== *)
theory PlanApply
  imports PlanSplit PlanSort PathToken
begin

text \<open>
  Applying a plan body on a host: the predicates, \<open>applyLine\<close>, \<open>applyBody\<close> and
  \<open>ApplyWithContext\<close> of \<open>plan/apply.go\<close>, \<open>checkRequirements\<close> of \<open>plan/require.go\<close> and
  \<open>internal/sealeddir\<close>. The host is a parameter: its \<open>os.Stat\<close>, the registered handlers of the
  resource kinds (each may change the state \<open>'s\<close> and fail), and the context, which may be done
  before any line. What Go returns as an error is the first component of the result.
\<close>

section \<open>Hosts\<close>

record Facts =
  fa_goos :: string
  fa_profile :: string
  fa_hostname :: string

type_synonym ('s, 'e) handler = "Op \<Rightarrow> string \<Rightarrow> Facts \<Rightarrow> 's \<Rightarrow> 'e option \<times> 's"

record ('s, 'e, 'c) host =
  ho_home :: home_env
  ho_stat :: "string \<Rightarrow> 's \<Rightarrow> ('e, bool) result"   \<comment> \<open>exists, does not exist, or another error\<close>
  ho_handler :: "kind \<Rightarrow> ('s, 'e) handler option"
  ho_done :: "nat \<Rightarrow> 'c option"                      \<comment> \<open>\<open>ctx.Err()\<close> before the n-th line\<close>
  ho_sealed :: "(string \<times> string list) option"       \<comment> \<open>the override of \<open>sealeddir.With\<close>\<close>

definition Resolve :: "('s, 'e, 'c) host \<Rightarrow> string \<Rightarrow> string \<Rightarrow> string" where
  "Resolve h blobRef planDir =
     (if blobRef = [] then planDir
      else (case ho_sealed h of
              Some (dir, refs) \<Rightarrow> if blobRef \<in> set refs then dir else planDir
            | None \<Rightarrow> planDir))"

section \<open>Predicates\<close>

datatype 'e pred_error =
    NegatedRefused refusal
  | NegatedDestination platform_error
  | TokenFailed token_error
  | EmptyPathExists
  | StatFailed 'e
  | EmptyPredicate
  | UnknownFact string

definition matchesEqOrIn :: "string \<Rightarrow> string \<Rightarrow> string list \<Rightarrow> bool" where
  "matchesEqOrIn value eq ins = (if ins \<noteq> [] then list_ex (\<lambda>want. value = want) ins else value = eq)"

definition matchesContainsOrIn :: "string \<Rightarrow> string \<Rightarrow> string list \<Rightarrow> bool" where
  "matchesContainsOrIn hostname eq ins =
     (let host = to_lower hostname in
      if ins \<noteq> [] then list_ex (\<lambda>want. contains host (to_lower want)) ins
      else contains host (to_lower eq))"

definition evalFact :: "string \<Rightarrow> string \<Rightarrow> string list \<Rightarrow> Facts \<Rightarrow> ('e pred_error, bool) result" where
  "evalFact name eq ins facts =
     (if name = ''goos'' then Inr (matchesEqOrIn (fa_goos facts) eq ins)
      else if name = ''profile'' then Inr (matchesEqOrIn (fa_profile facts) eq ins)
      else if name = ''hostname_contains'' then Inr (matchesContainsOrIn (fa_hostname facts) eq ins)
      else Inl (UnknownFact name))"

definition pathExists :: "('s, 'e, 'c) host \<Rightarrow> 's \<Rightarrow> string \<Rightarrow> ('e pred_error, bool) result" where
  "pathExists h s path =
     (if path = [] then Inl EmptyPathExists else map_err StatFailed (ho_stat h path s))"

definition evalPredicate ::
  "('s, 'e, 'c) host \<Rightarrow> Facts \<Rightarrow> 's \<Rightarrow> Predicate \<Rightarrow> ('e pred_error, bool) result"
where
  "evalPredicate h facts s p =
     (if p_not p then
        bind_res (map_err NegatedRefused (validateNegatedOS p)) (\<lambda>_.
        bind_res (map_err NegatedDestination (platform_Check (fa_goos facts))) (\<lambda>_.
        Inr (\<not> matchesEqOrIn (fa_goos facts) (p_eq p) (p_in p))))
      else if p_path_exists p \<noteq> [] then
        bind_res (map_err TokenFailed (Expand (ho_home h) (p_path_exists p))) (pathExists h s)
      else if p_fact p \<noteq> [] then evalFact (p_fact p) (p_eq p) (p_in p) facts
      else Inl EmptyPredicate)"

fun evalAll ::
  "('s, 'e, 'c) host \<Rightarrow> Facts \<Rightarrow> 's \<Rightarrow> Predicate list \<Rightarrow> ('e pred_error, bool) result"
where
  "evalAll h facts s [] = Inr True"
| "evalAll h facts s (p # ps) =
     bind_res (evalPredicate h facts s p) (\<lambda>ok. if \<not> ok then Inr False else evalAll h facts s ps)"

section \<open>Lines\<close>

datatype 'e line_error =
    PredicateFailed "'e pred_error"
  | RequirementNotMet string string string  \<comment> \<open>op, destination GOOS, requirement\<close>
  | UnmatchedWhenEnd
  | DuplicateHeader
  | UnknownOp kind
  | HandlerFailed 'e

datatype ('e, 'c) apply_error =
    EmptyPlan
  | BadHeader header_error
  | PlanRefused refusal
  | DestinationFact platform_error
  | BadOrder sort_error
  | AtLine nat "'e line_error"
  | Stopped nat 'c
  | UnclosedWhen nat

definition requirementError :: "Op \<Rightarrow> Facts \<Rightarrow> 'e line_error" where
  "requirementError op facts = RequirementNotMet (op_id op) (fa_goos facts) (op_require op)"

text \<open>The stack of \<open>when\<close> outcomes, innermost first.\<close>

definition whenActive :: "bool list \<Rightarrow> bool" where
  "whenActive stack = (case stack of [] \<Rightarrow> True | b # _ \<Rightarrow> b)"

definition applyActiveWithFacts ::
  "('s, 'e, 'c) host \<Rightarrow> Facts \<Rightarrow> string \<Rightarrow> Op \<Rightarrow> 's \<Rightarrow> 'e line_error option \<times> 's"
where
  "applyActiveWithFacts h facts planDir op s =
     (case ho_handler h (op_kind op) of
        Some handle \<Rightarrow>
          (case handle op (Resolve h (op_blob op) planDir) facts s of
             (err, s') \<Rightarrow> (map_option HandlerFailed err, s'))
      | None \<Rightarrow> (Some (UnknownOp (op_kind op)), s))"

definition applyLine ::
  "('s, 'e, 'c) host \<Rightarrow> Facts \<Rightarrow> string \<Rightarrow> Op \<Rightarrow> bool list \<Rightarrow> 's
     \<Rightarrow> ('e line_error, bool list) result \<times> 's"
where
  "applyLine h facts planDir op stack s =
     (if op_kind op = KindWhenBegin then
        (if whenActive stack then
           (case evalAll h facts s (op_all op) of
              Inl e \<Rightarrow> (Inl (PredicateFailed e), s)
            | Inr ok \<Rightarrow>
                if \<not> ok \<and> op_require op \<noteq> [] then (Inl (requirementError op facts), s)
                else (Inr (ok # stack), s))
         else (Inr (False # stack), s))
      else if op_kind op = KindWhenEnd then
        (case stack of [] \<Rightarrow> (Inl UnmatchedWhenEnd, s) | _ # rest \<Rightarrow> (Inr rest, s))
      else if op_kind op = KindPlan then (Inl DuplicateHeader, s)
      else if \<not> whenActive stack then (Inr stack, s)
      else (case applyActiveWithFacts h facts planDir op s of
              (Some e, s') \<Rightarrow> (Inl e, s')
            | (None, s') \<Rightarrow> (Inr stack, s')))"

fun applyBody ::
  "('s, 'e, 'c) host \<Rightarrow> Facts \<Rightarrow> string \<Rightarrow> nat \<Rightarrow> planLine list \<Rightarrow> bool list \<Rightarrow> 's
     \<Rightarrow> ('e, 'c) apply_error option \<times> 's"
where
  "applyBody h facts planDir n [] stack s =
     (if stack \<noteq> [] then Some (UnclosedWhen (length stack)) else None, s)"
| "applyBody h facts planDir n (l # ls) stack s =
     (case ho_done h n of
        Some cause \<Rightarrow> (Some (Stopped (pl_line l) cause), s)
      | None \<Rightarrow>
          (case applyLine h facts planDir (pl_op l) stack s of
             (Inl e, s') \<Rightarrow> (Some (AtLine (pl_line l) e), s')
           | (Inr stack', s') \<Rightarrow> applyBody h facts planDir (Suc n) ls stack' s'))"

section \<open>The requirement pre-check\<close>

fun check_walk ::
  "('s, 'e, 'c) host \<Rightarrow> Facts \<Rightarrow> 's \<Rightarrow> planLine list \<Rightarrow> bool list \<Rightarrow> ('e, 'c) apply_error check"
where
  "check_walk h facts s [] stack = Inr ()"
| "check_walk h facts s (l # ls) stack =
     (if op_kind (pl_op l) = KindWhenBegin then
        (if whenActive stack then
           (case evalAll h facts s (op_all (pl_op l)) of
              Inl e \<Rightarrow> Inl (AtLine (pl_line l) (PredicateFailed e))
            | Inr ok \<Rightarrow>
                if \<not> ok \<and> op_require (pl_op l) \<noteq> []
                then Inl (AtLine (pl_line l) (requirementError (pl_op l) facts))
                else check_walk h facts s ls (ok # stack))
         else check_walk h facts s ls (False # stack))
      else if op_kind (pl_op l) = KindWhenEnd then check_walk h facts s ls (tl stack)
      else check_walk h facts s ls stack)"

definition checkRequirements ::
  "('s, 'e, 'c) host \<Rightarrow> Facts \<Rightarrow> 's \<Rightarrow> planLine list \<Rightarrow> ('e, 'c) apply_error check"
where
  "checkRequirements h facts s body =
     (if \<not> list_ex (\<lambda>l. op_require (pl_op l) \<noteq> []) body then Inr ()
      else bind_res (map_err PlanRefused (ValidateRequirementScopes [map pl_op body])) (\<lambda>_.
           check_walk h facts s body []))"

section \<open>Apply\<close>

definition preflight ::
  "('s, 'e, 'c) host \<Rightarrow> Facts \<Rightarrow> 's \<Rightarrow> Op list \<Rightarrow> (('e, 'c) apply_error, planLine list) result"
where
  "preflight h facts s ops =
     (case ops of
        [] \<Rightarrow> Inl EmptyPlan
      | header # body \<Rightarrow>
          bind_res (map_err BadHeader (ValidateHeader header)) (\<lambda>_.
          bind_res (map_err PlanRefused (validateNegatedOSChunks [ops])) (\<lambda>_.
          bind_res (if list_ex requiresWhenNotOS ops
                    then map_err DestinationFact (platform_Check (fa_goos facts)) else Inr ()) (\<lambda>_.
          bind_res (map_err PlanRefused (ValidateServiceEnableOnly [ops])) (\<lambda>_.
          bind_res (map_err PlanRefused (ValidateChangeGates [ops])) (\<lambda>_.
          bind_res (map_err BadOrder (sortedApplyOrder body)) (\<lambda>order.
          bind_res (checkRequirements h facts s order) (\<lambda>_. Inr order))))))))"

definition ApplyWithContext ::
  "('s, 'e, 'c) host \<Rightarrow> Op list \<Rightarrow> Facts \<Rightarrow> string \<Rightarrow> 's \<Rightarrow> ('e, 'c) apply_error option \<times> 's"
where
  "ApplyWithContext h ops facts planDir s =
     (case preflight h facts s ops of
        Inl e \<Rightarrow> (Some e, s)
      | Inr order \<Rightarrow> applyBody h facts planDir 0 order [] s)"

section \<open>Lemmas: requirement chains\<close>

text \<open>
  The chain of a requirement: the \<open>when_begin\<close> ops open at it, itself last. A chain is unmet on a
  host when everything around the requirement holds and the requirement itself does not.
\<close>

fun req_chains :: "Op list \<Rightarrow> Op list \<Rightarrow> Op list list" where
  "req_chains opened [] = []"
| "req_chains opened (op # ops) =
     (if op_kind op = KindWhenBegin then
        (if op_require op \<noteq> [] then (opened @ [op]) # req_chains (opened @ [op]) ops
         else req_chains (opened @ [op]) ops)
      else if op_kind op = KindWhenEnd then req_chains (butlast opened) ops
      else req_chains opened ops)"

definition holds :: "('s, 'e, 'c) host \<Rightarrow> Facts \<Rightarrow> 's \<Rightarrow> Op \<Rightarrow> bool" where
  "holds h facts s op = (case evalAll h facts s (op_all op) of Inr ok \<Rightarrow> ok | Inl _ \<Rightarrow> False)"

definition chain_unmet :: "('s, 'e, 'c) host \<Rightarrow> Facts \<Rightarrow> 's \<Rightarrow> Op list \<Rightarrow> bool" where
  "chain_unmet h facts s chain =
     (list_all (holds h facts s) (butlast chain) \<and> \<not> holds h facts s (last chain))"

lemma holds_iff: "holds h facts s op \<longleftrightarrow> evalAll h facts s (op_all op) = Inr True"
  by (auto simp: holds_def split: sum.splits)

text \<open>The stack both walks keep for a list of open blocks (innermost first) that all evaluated.\<close>

fun act_stack :: "('s, 'e, 'c) host \<Rightarrow> Facts \<Rightarrow> 's \<Rightarrow> Op list \<Rightarrow> bool list" where
  "act_stack h facts s [] = []"
| "act_stack h facts s (op # os) = list_all (holds h facts s) (op # os) # act_stack h facts s os"

lemma whenActive_act_stack: "whenActive (act_stack h facts s os) = list_all (holds h facts s) os"
  by (cases os) (simp_all add: whenActive_def)

lemma act_stack_tl: "tl (act_stack h facts s os) = act_stack h facts s (tl os)"
  by (cases os) simp_all

lemma rev_butlast: "rev (butlast xs) = tl (rev xs)"
  by (metis butlast_rev rev_rev_ident rev_swap)

lemma check_walk_chains:
  assumes "check_walk h facts s ls (act_stack h facts s (rev opened)) = Inr ()"
    and "chain \<in> set (req_chains opened (map pl_op ls))"
  shows "\<not> chain_unmet h facts s chain"
  using assms
proof (induction ls arbitrary: opened)
  case (Cons l ls)
  let ?op = "pl_op l"
  let ?st = "act_stack h facts s (rev opened)"
  have act: "whenActive ?st = list_all (holds h facts s) opened"
    by (simp add: whenActive_act_stack list_all_rev)
  consider "op_kind ?op = KindWhenBegin" | "op_kind ?op = KindWhenEnd"
    | "op_kind ?op \<noteq> KindWhenBegin" "op_kind ?op \<noteq> KindWhenEnd" by blast
  then show ?case
  proof cases
    case 1
    have next_stack: "(list_all (holds h facts s) opened \<and> holds h facts s ?op) # ?st
        = act_stack h facts s (rev (opened @ [?op]))"
      by (simp add: list_all_rev conj_commute)
    have walk: "check_walk h facts s ls (act_stack h facts s (rev (opened @ [?op]))) = Inr ()"
      and met: "op_require ?op \<noteq> [] \<Longrightarrow> \<not> chain_unmet h facts s (opened @ [?op])"
      using Cons.prems(1) 1 act
      by (auto simp: chain_unmet_def holds_def list_all_rev simp flip: next_stack
          split: if_splits sum.splits)
    show ?thesis
      using Cons.prems(2) 1 met Cons.IH [OF walk] by (auto split: if_splits)
  next
    case 2
    with Cons.prems(1) have "check_walk h facts s ls (act_stack h facts s (rev (butlast opened))) = Inr ()"
      by (simp add: act_stack_tl rev_butlast)
    with Cons.prems(2) 2 show ?thesis using Cons.IH by simp
  next
    case 3
    with Cons show ?thesis by simp
  qed
qed simp

section \<open>Lemmas: requirement scopes\<close>

text \<open>An op whose conditions are all host facts evaluates the same whatever state it meets.\<close>

definition host_only :: "Op \<Rightarrow> bool" where
  "host_only op \<longleftrightarrow> nonHostFactCondition op = None"

lemma nonHostFact_preds_None:
  "nonHostFact_preds ps = None \<longleftrightarrow> (\<forall>p \<in> set ps. p_path_exists p = [] \<and> p_fact p \<in> set hostFacts)"
  by (induction ps) auto

lemma evalAll_host_only: "host_only op \<Longrightarrow> evalAll h facts s (op_all op) = evalAll h facts s' (op_all op)"
proof -
  assume "host_only op"
  then have "\<forall>p \<in> set (op_all op). p_path_exists p = []"
    by (simp add: host_only_def nonHostFactCondition_def nonHostFact_preds_None)
  moreover have "(\<forall>p \<in> set ps. p_path_exists p = []) \<Longrightarrow> evalAll h facts s ps = evalAll h facts s' ps" for ps
    by (induction ps) (auto simp: evalPredicate_def intro!: bind_res_cong)
  ultimately show ?thesis by blast
qed

lemma scope_error_of_iff: "scope_error_of req ops = Inr () \<longleftrightarrow> list_all host_only ops"
  by (induction ops) (auto simp: host_only_def split: option.splits)

lemma requirementScopeError_iff [res_simps]: "requirementScopeError chain = Inr () \<longleftrightarrow> list_all host_only chain"
  by (simp add: requirementScopeError_def scope_error_of_iff)

lemma scope_walk_iff:
  "scope_walk opened ops = Inr () \<longleftrightarrow> (\<forall>chain \<in> set (req_chains opened ops). list_all host_only chain)"
  by (induction opened ops rule: scope_walk.induct) (auto simp: res_simps)

text \<open>Only control ops matter to the chains.\<close>

lemma req_chains_control:
  "req_chains opened (filter (\<lambda>op. IsControlKind (op_kind op)) ops) = req_chains opened ops"
proof (induction opened ops rule: req_chains.induct)
  case (2 opened op ops)
  then show ?case by (cases "op_kind op") simp_all
qed simp

fun walk_open :: "Op list \<Rightarrow> Op list \<Rightarrow> Op list" where
  "walk_open opened [] = opened"
| "walk_open opened (op # ops) =
     (if op_kind op = KindWhenBegin then walk_open (opened @ [op]) ops
      else if op_kind op = KindWhenEnd then walk_open (butlast opened) ops
      else walk_open opened ops)"

lemma req_chains_append:
  "req_chains opened (xs @ ys) = req_chains opened xs @ req_chains (walk_open opened xs) ys"
  by (induction opened xs rule: req_chains.induct) simp_all

lemma walk_open_base:
  "nest (length e) xs = Some d \<Longrightarrow> \<exists>e'. length e' = d \<and> (\<forall>base. walk_open (base @ e) xs = base @ e')"
proof (induction xs arbitrary: e)
  case (Cons op xs)
  consider "op_kind op = KindWhenBegin" | "op_kind op = KindWhenEnd"
    | "op_kind op \<noteq> KindWhenBegin" "op_kind op \<noteq> KindWhenEnd" by blast
  then show ?case
  proof cases
    case 1
    with Cons.prems have "nest (length (e @ [op])) xs = Some d" by simp
    from Cons.IH [OF this] 1 show ?thesis by simp
  next
    case 2
    with Cons.prems have e: "e \<noteq> []" and "nest (length (butlast e)) xs = Some d" by (auto split: if_splits)
    from Cons.IH [OF this(2)] 2 e show ?thesis by (simp add: butlast_append)
  next
    case 3
    with Cons show ?thesis by simp
  qed
qed auto

lemma walk_open_balanced: "balanced xs \<Longrightarrow> walk_open opened xs = opened"
  using walk_open_base [of "[]" xs 0] by (auto simp: balanced_def)

lemma req_chains_balanced:
  "balanced xs \<Longrightarrow> req_chains opened (xs @ ys) = req_chains opened xs @ req_chains opened ys"
  by (simp add: req_chains_append walk_open_balanced)

lemma req_chains_concat:
  "(\<And>xs. xs \<in> set xss \<Longrightarrow> balanced xs) \<Longrightarrow> req_chains opened (concat xss) = concat (map (req_chains opened) xss)"
  by (induction xss) (simp_all add: req_chains_balanced)

lemma req_chains_shape:
  "\<forall>op \<in> set opened. op_kind op = KindWhenBegin \<Longrightarrow> chain \<in> set (req_chains opened ops) \<Longrightarrow>
     chain \<noteq> [] \<and> op_require (last chain) \<noteq> [] \<and> (\<forall>op \<in> set chain. op_kind op = KindWhenBegin)"
proof (induction ops arbitrary: opened)
  case (Cons op ops)
  show ?case
  proof (cases "op_kind op = KindWhenBegin")
    case True
    then have b: "\<forall>o' \<in> set (opened @ [op]). op_kind o' = KindWhenBegin" using Cons.prems(1) by simp
    have "chain = opened @ [op] \<and> op_require op \<noteq> [] \<or> chain \<in> set (req_chains (opened @ [op]) ops)"
      using Cons.prems(2) True by (simp split: if_splits)
    with Cons.IH [OF b] b show ?thesis by auto
  next
    case False
    have "\<forall>o' \<in> set (butlast opened). op_kind o' = KindWhenBegin"
      using Cons.prems(1) by (auto dest: in_set_butlastD)
    with Cons False show ?thesis by (simp split: if_splits)
  qed
qed simp

lemma chain_members:
  "chain \<in> set (req_chains opened ops) \<Longrightarrow> last chain \<in> set ops"
proof (induction ops arbitrary: opened)
  case (Cons op ops)
  then show ?case by (auto split: if_splits)
qed simp

section \<open>Lemmas: stubs\<close>

definition stub_of :: "Op list \<Rightarrow> Op list" where
  "stub_of chain = chain @ replicate (length chain) (zero_op KindWhenEnd)"

lemma stub_walk_chains:
  "stub_walk opened ops = concat (map stub_of (filter (list_all host_only) (req_chains opened ops)))"
  by (induction opened ops rule: stub_walk.induct) (auto simp: stub_of_def res_simps)

lemma stub_of_balanced: "\<forall>op \<in> set chain. op_kind op = KindWhenBegin \<Longrightarrow> balanced (stub_of chain)"
  using nest_begins [of chain 0] nest_ends [of "length chain" "length chain"]
  by (simp add: balanced_def stub_of_def nest_append)

lemma req_chains_begins:
  "\<forall>op \<in> set pre. op_kind op = KindWhenBegin \<Longrightarrow> op_kind r = KindWhenBegin \<Longrightarrow> op_require r \<noteq> [] \<Longrightarrow>
     opened @ pre @ [r] \<in> set (req_chains opened (pre @ r # rest))"
proof (induction pre arbitrary: opened)
  case (Cons p pre)
  from Cons.IH [of "opened @ [p]"] Cons.prems show ?case by auto
qed simp

text \<open>The stub of a requirement with host-fact scope carries the same chain as the requirement.\<close>

lemma chain_in_own_stub:
  assumes "chain \<noteq> []" "op_require (last chain) \<noteq> []" "\<forall>op \<in> set chain. op_kind op = KindWhenBegin"
  shows "chain \<in> set (req_chains [] (stub_of chain))"
proof -
  have c: "chain = butlast chain @ [last chain]" using assms(1) by simp
  have "[] @ butlast chain @ [last chain] \<in>
      set (req_chains [] (butlast chain @ last chain # replicate (length chain) (zero_op KindWhenEnd)))"
    using assms by (intro req_chains_begins) (auto dest: in_set_butlastD)
  then show ?thesis using c unfolding stub_of_def by (metis append.left_neutral append.assoc append_Cons)
qed

lemma in_concat_mapI: "y \<in> set ys \<Longrightarrow> x \<in> set (f y) \<Longrightarrow> x \<in> set (concat (map f ys))"
  by auto

lemma chain_in_stubs:
  assumes "chain \<in> set (req_chains [] ops)" "list_all host_only chain"
  shows "chain \<in> set (req_chains [] (requirementStubs ops))"
proof -
  let ?stubs = "map stub_of (filter (list_all host_only) (req_chains [] ops))"
  note S = req_chains_shape [of "[]" _ ops]
  have "balanced xs" if "xs \<in> set ?stubs" for xs
    using that S by (auto intro: stub_of_balanced)
  then have "req_chains [] (concat ?stubs) = concat (map (req_chains []) ?stubs)"
    by (rule req_chains_concat)
  moreover have "stub_of chain \<in> set ?stubs" using assms by simp
  moreover have "chain \<in> set (req_chains [] (stub_of chain))"
    using S [OF _ assms(1)] by (intro chain_in_own_stub) auto
  ultimately have "chain \<in> set (req_chains [] (concat ?stubs))"
    by (simp only:) (rule in_concat_mapI)
  then show ?thesis by (simp only: requirementStubs_def stub_walk_chains)
qed

section \<open>Lemmas: the pre-check and the run evaluate requirements alike\<close>

text \<open>
  The two stacks agree on every open block whose whole scope is host facts: those evaluate the same
  in any state, so what the run finds there is what the pre-check found.
\<close>

fun stacks_agree :: "Op list \<Rightarrow> bool list \<Rightarrow> bool list \<Rightarrow> bool" where
  "stacks_agree [] [] [] = True"
| "stacks_agree (op # os) (b # bs) (c # cs) =
     (stacks_agree os bs cs \<and> (list_all host_only (op # os) \<longrightarrow> b = c))"
| "stacks_agree _ _ _ = False"

lemma stacks_agree_active:
  "stacks_agree os bs cs \<Longrightarrow> list_all host_only os \<Longrightarrow> whenActive bs = whenActive cs"
  by (induction os bs cs rule: stacks_agree.induct) (auto simp: whenActive_def)

lemma stacks_agree_tl: "stacks_agree os bs cs \<Longrightarrow> stacks_agree (tl os) (tl bs) (tl cs)"
  by (induction os bs cs rule: stacks_agree.induct) auto

definition is_unmet_requirement :: "('e, 'c) apply_error \<Rightarrow> bool" where
  "is_unmet_requirement e = (\<exists>n i g r. e = AtLine n (RequirementNotMet i g r))"

lemma applyActive_no_requirement:
  "applyActiveWithFacts h facts dir op s = (Some e, s') \<Longrightarrow> e \<noteq> RequirementNotMet i g r"
  by (auto simp: applyActiveWithFacts_def split: option.splits prod.splits)

lemma applyBody_requirements:
  assumes "check_walk h facts s0 ls bs = Inr ()"
    and "\<forall>chain \<in> set (req_chains opened (map pl_op ls)). list_all host_only chain"
    and "stacks_agree (rev opened) bs cs" "applyBody h facts dir n ls cs s = (Some e, s')"
  shows "\<not> is_unmet_requirement e"
  using assms
proof (induction ls arbitrary: opened bs cs n s)
  case Nil
  then show ?case by (auto simp: is_unmet_requirement_def split: if_splits)
next
  case (Cons l ls)
  let ?op = "pl_op l"
  show ?case
  proof (cases "ho_done h n")
    case (Some cause)
    with Cons.prems(4) show ?thesis by (auto simp: is_unmet_requirement_def)
  next
    case None
    show ?thesis
    proof (cases "applyLine h facts dir ?op cs s")
      case (Pair r s1)
      show ?thesis
      proof (cases r)
        case (Inl le)
        with Pair None Cons.prems(4) have e: "e = AtLine (pl_line l) le" by simp
        have "le \<noteq> RequirementNotMet i g rq" for i g rq
        proof
          assume "le = RequirementNotMet i g rq"
          with Pair Inl have b: "op_kind ?op = KindWhenBegin" "whenActive cs"
            and ev: "evalAll h facts s (op_all ?op) = Inr False" and rq: "op_require ?op \<noteq> []"
            by (auto simp: applyLine_def applyActive_no_requirement
                split: if_splits sum.splits list.splits prod.splits option.splits)
          have ho: "list_all host_only (rev opened)" "host_only ?op"
            using Cons.prems(2) b(1) rq by (auto simp: list_all_rev)
          have "whenActive bs" using stacks_agree_active [OF Cons.prems(3) ho(1)] b(2) by simp
          moreover have "evalAll h facts s0 (op_all ?op) = Inr False"
            using evalAll_host_only [OF ho(2)] ev by metis
          ultimately show False using Cons.prems(1) b(1) rq by simp
        qed
        with e show ?thesis by (auto simp: is_unmet_requirement_def)
      next
        case (Inr cs')
        with Pair None Cons.prems(4) have rest: "applyBody h facts dir (Suc n) ls cs' s1 = (Some e, s')"
          by simp
        consider "op_kind ?op = KindWhenBegin" | "op_kind ?op = KindWhenEnd"
          | "op_kind ?op \<noteq> KindWhenBegin" "op_kind ?op \<noteq> KindWhenEnd" by blast
        then show ?thesis
        proof cases
          case 1
          obtain b where w: "check_walk h facts s0 ls (b # bs) = Inr ()"
            and b: "b = (if whenActive bs then evalAll h facts s0 (op_all ?op) = Inr True else False)"
            using Cons.prems(1) 1 by (auto split: if_splits sum.splits)
          obtain c where c: "cs' = c # cs"
            "c = (if whenActive cs then evalAll h facts s (op_all ?op) = Inr True else False)"
            using Pair Inr 1 by (auto simp: applyLine_def split: if_splits sum.splits)
          have "list_all host_only (?op # rev opened) \<longrightarrow> b = c"
            using stacks_agree_active [OF Cons.prems(3)] evalAll_host_only [of ?op h facts s s0] b c
            by (auto split: if_splits)
          with Cons.prems(3) c(1) have ag: "stacks_agree (rev (opened @ [?op])) (b # bs) cs'" by simp
          have "\<forall>chain \<in> set (req_chains (opened @ [?op]) (map pl_op ls)). list_all host_only chain"
            using Cons.prems(2) 1 by (auto split: if_splits)
          from Cons.IH [OF w this ag rest] show ?thesis .
        next
          case 2
          then have w: "check_walk h facts s0 ls (tl bs) = Inr ()"
            and ch: "\<forall>chain \<in> set (req_chains (butlast opened) (map pl_op ls)). list_all host_only chain"
            using Cons.prems(1,2) by simp_all
          have "cs' = tl cs" using Pair Inr 2 by (auto simp: applyLine_def split: list.splits)
          with stacks_agree_tl [OF Cons.prems(3)] have "stacks_agree (rev (butlast opened)) (tl bs) cs'"
            by (simp add: rev_butlast)
          from Cons.IH [OF w ch this rest] show ?thesis .
        next
          case 3
          then have w: "check_walk h facts s0 ls bs = Inr ()"
            and ch: "\<forall>chain \<in> set (req_chains opened (map pl_op ls)). list_all host_only chain"
            using Cons.prems(1,2) by simp_all
          have "cs' = cs"
            using Pair Inr 3 by (auto simp: applyLine_def split: if_splits option.splits prod.splits)
          with Cons.IH [OF w ch _ rest] Cons.prems(3) show ?thesis by simp
        qed
      qed
    qed
  qed
qed

lemma preflight_InrD:
  "preflight h facts s (header # body) = Inr order \<Longrightarrow>
     sortedApplyOrder body = Inr order \<and> checkRequirements h facts s order = Inr ()"
  by (auto simp: preflight_def res_simps)

text \<open>The first chunk carries every requirement chain of host facts of the whole body.\<close>

lemma chain_in_first_chunk:
  assumes "balanced (split_body ops)" "chain \<in> set (req_chains [] (split_body ops))"
    and host: "list_all host_only chain"
  obtains hdr body where "ch_ops (hd (SplitPrivilegeChunks ops)) = hdr # body"
    "chain \<in> set (req_chains [] body)"
proof -
  let ?runs = "map snd (body_runs (split_body ops))"
  have body: "split_body ops = concat ?runs" by (simp add: body_runs_concat)
  have bal: "balanced xs" if "xs \<in> set ?runs" for xs
    using that body_runs_balanced [OF assms(1)] by auto
  have "req_chains [] (concat ?runs) = concat (map (req_chains []) ?runs)"
    using bal by (rule req_chains_concat)
  with assms(2) body obtain part where part: "part \<in> set ?runs" "chain \<in> set (req_chains [] part)" by auto
  obtain e0 part0 runs where runs: "body_runs (split_body ops) = (e0, part0) # runs"
    using part(1) by (cases "body_runs (split_body ops)") auto
  let ?later = "map snd runs"
  have stubs: "balanced xs" if "xs \<in> set (map requirementStubs ?later)" for xs
    using that balanced_requirementStubs by auto
  have app: "req_chains [] (concat (map requirementStubs ?later) @ part0)
      = req_chains [] (concat (map requirementStubs ?later)) @ req_chains [] part0"
    using stubs by (intro req_chains_balanced balanced_concat)
  have "chain \<in> set (req_chains [] (concat (map requirementStubs ?later) @ part0))"
  proof (cases "part = part0")
    case True
    with part(2) show ?thesis by (simp only: app set_append) simp
  next
    case False
    then have "requirementStubs part \<in> set (map requirementStubs ?later)" using part(1) runs by auto
    moreover have "chain \<in> set (req_chains [] (requirementStubs part))"
      using part(2) host by (rule chain_in_stubs)
    ultimately have "chain \<in> set (concat (map (req_chains []) (map requirementStubs ?later)))"
      by (rule in_concat_mapI)
    then show ?thesis by (simp only: app req_chains_concat [OF stubs] set_append) simp
  qed
  with first_chunk_ops [OF runs] that show thesis by blast
qed

text \<open>The pre-flight refuses a body with an unmet chain, wherever the sort leaves its lines.\<close>

lemma unmet_preflight:
  assumes "chain \<in> set (req_chains [] body)" "chain_unmet h facts s chain"
  obtains e where "preflight h facts s (hdr # body) = Inl e"
proof -
  have "checkRequirements h facts s order \<noteq> Inr ()" if "sortedApplyOrder body = Inr order" for order
  proof
    assume ok: "checkRequirements h facts s order = Inr ()"
    have chain: "chain \<in> set (req_chains [] (map pl_op order))"
      using assms(1) sorted_control_ops [OF that] by (metis req_chains_control)
    then have "op_require (last chain) \<noteq> []" "last chain \<in> set (map pl_op order)"
      using req_chains_shape [OF _ chain] chain_members [OF chain] by auto
    then have "list_ex (\<lambda>l. op_require (pl_op l) \<noteq> []) order" by (auto simp: list_ex_iff)
    with ok have "check_walk h facts s order [] = Inr ()" by (auto simp: checkRequirements_def res_simps)
    with check_walk_chains [of h facts s order "[]" chain] chain assms(2) show False by simp
  qed
  then show thesis
    using that preflight_InrD [of h facts s hdr body] by (cases "preflight h facts s (hdr # body)") auto
qed

text \<open>Inside an inactive block nothing is evaluated and no handler runs.\<close>

lemma applyBody_inactive:
  assumes "\<And>n. ho_done h n = None" and "nest k (map pl_op ls) = Some d"
    and "\<forall>l \<in> set ls. op_kind (pl_op l) \<noteq> KindPlan"
  shows "applyBody h facts dir n (ls @ rest) (replicate k False @ False # base) s
       = applyBody h facts dir (n + length ls) rest (replicate d False @ False # base) s"
  using assms(2,3)
proof (induction ls arbitrary: k n)
  case (Cons l ls)
  have inactive: "\<not> whenActive (replicate k False @ False # base)" for k
    by (cases k) (simp_all add: whenActive_def)
  consider "op_kind (pl_op l) = KindWhenBegin" | "op_kind (pl_op l) = KindWhenEnd"
    | "op_kind (pl_op l) \<noteq> KindWhenBegin" "op_kind (pl_op l) \<noteq> KindWhenEnd" by blast
  then show ?case
  proof cases
    case 1
    with Cons.prems have "nest (Suc k) (map pl_op ls) = Some d" by simp
    from Cons.IH [OF this, of "Suc n"] Cons.prems(2) 1 inactive [of k] assms(1) [of n]
    show ?thesis by (simp add: applyLine_def)
  next
    case 2
    with Cons.prems obtain k' where "k = Suc k'" "nest k' (map pl_op ls) = Some d"
      by (cases k) auto
    with Cons.IH [of k' "Suc n"] Cons.prems(2) 2 assms(1) [of n] show ?thesis
      by (simp add: applyLine_def)
  next
    case 3
    with Cons.IH [of k "Suc n"] Cons.prems inactive [of k] assms(1) [of n] show ?thesis
      by (simp add: applyLine_def)
  qed
qed simp

section \<open>Properties\<close>

text \<open>
  Once the pre-check has passed, no requirement can fail in the middle of an apply: whatever
  the handlers do to the host, a run never stops at an unmet requirement, so a refusal of this kind
  always comes before the first mutation.
\<close>

theorem requirement_never_fails_midway:
  assumes "checkRequirements h facts s order = Inr ()"
    and "applyBody h facts planDir n order [] s' = (Some e, s'')"
  shows "\<not> is_unmet_requirement e"
proof (cases "list_ex (\<lambda>l. op_require (pl_op l) \<noteq> []) order")
  case True
  with assms(1) have "scope_walk [] (map pl_op order) = Inr ()" "check_walk h facts s order [] = Inr ()"
    by (auto simp: checkRequirements_def ValidateRequirementScopes_def res_simps)
  with assms(2) applyBody_requirements [of h facts s order "[]" "[]" "[]" planDir n s' e s'']
  show ?thesis by (simp add: scope_walk_iff)
next
  case False
  have met: "\<not> is_unmet_requirement e" if "applyBody h facts planDir n ls st s1 = (Some e, s2)"
    "\<forall>l \<in> set ls. op_require (pl_op l) = []" for ls n st s1 s2
    using that
  proof (induction ls arbitrary: n st s1)
    case (Cons l ls)
    show ?case
    proof (cases "ho_done h n")
      case None
      obtain r s3 where r: "applyLine h facts planDir (pl_op l) st s1 = (r, s3)" by fastforce
      show ?thesis
      proof (cases r)
        case (Inl le)
        then have "le \<noteq> RequirementNotMet i g q" for i g q
          using r Cons.prems(2) by (auto simp: applyLine_def applyActive_no_requirement
              split: if_splits sum.splits list.splits prod.splits option.splits)
        with Cons.prems(1) None r Inl show ?thesis by (auto simp: is_unmet_requirement_def)
      next
        case (Inr st')
        with Cons None r show ?thesis by auto
      qed
    qed (use Cons.prems in \<open>auto simp: is_unmet_requirement_def\<close>)
  qed (auto simp: is_unmet_requirement_def split: if_splits)
  from False have "\<forall>l \<in> set order. op_require (pl_op l) = []" by (simp add: list_ex_iff)
  with met assms(2) show ?thesis by blast
qed

text \<open>
  C1: if any requirement of a plan, wherever privilege splitting puts it, is unmet on the host,
  then applying the first privilege chunk already fails and leaves the host as it was: the copies of
  the later chunks' requirements refuse in the first chunk.
\<close>

theorem unmet_requirement_refuses_first_chunk:
  assumes "balanced (split_body ops)"
    and "chain \<in> set (req_chains [] (split_body ops))" "requirementScopeError chain = Inr ()"
    and "chain_unmet h facts s chain"
  shows "\<exists>e. ApplyWithContext h (ch_ops (hd (SplitPrivilegeChunks ops))) facts planDir s = (Some e, s)"
proof -
  have host: "list_all host_only chain" using assms(3) by (simp add: requirementScopeError_iff)
  obtain hdr body where chunk: "ch_ops (hd (SplitPrivilegeChunks ops)) = hdr # body"
    and chain: "chain \<in> set (req_chains [] body)"
    by (rule chain_in_first_chunk [OF assms(1,2) host])
  obtain e where "preflight h facts s (hdr # body) = Inl e"
    by (rule unmet_preflight [OF chain assms(4)])
  then show ?thesis by (simp add: ApplyWithContext_def chunk)
qed

text \<open>
  A \<open>when\<close> block whose condition does not hold is skipped as a whole: no predicate inside it is
  evaluated, no handler runs, the host stays as it is and the walk goes on after its \<open>when_end\<close>.
\<close>

theorem inactive_block_skipped:
  assumes "\<And>n. ho_done h n = None"
    and "op_kind (pl_op l) = KindWhenBegin" "op_kind (pl_op l') = KindWhenEnd"
    and "whenActive stack \<Longrightarrow> evalAll h facts s (op_all (pl_op l)) = Inr False \<and> op_require (pl_op l) = []"
    and "balanced (map pl_op inner)" "\<And>i. i \<in> set inner \<Longrightarrow> op_kind (pl_op i) \<noteq> KindPlan"
  shows "applyBody h facts planDir n (l # inner @ l' # rest) stack s
       = applyBody h facts planDir (n + length inner + 2) rest stack s"
proof -
  have "applyLine h facts planDir (pl_op l) stack s = (Inr (False # stack), s)"
    using assms(2,4) by (simp add: applyLine_def)
  then have "applyBody h facts planDir n (l # inner @ l' # rest) stack s
      = applyBody h facts planDir (Suc n) (inner @ l' # rest) (replicate 0 False @ False # stack) s"
    using assms(1) [of n] by simp
  also have "\<dots> = applyBody h facts planDir (Suc n + length inner) (l' # rest) (replicate 0 False @ False # stack) s"
    using assms(5,6) by (intro applyBody_inactive assms(1)) (auto simp: balanced_def)
  also have "\<dots> = applyBody h facts planDir (n + length inner + 2) rest stack s"
    using assms(1) [of "Suc n + length inner"] assms(3) by (simp add: applyLine_def)
  finally show ?thesis .
qed

section \<open>Witnesses\<close>

text \<open>A host on which every handler appends the op's id to the state and no path exists.\<close>

definition sample_host :: "(string list, unit, unit) host" where
  "sample_host =
     \<lparr>ho_home = sample_env, ho_stat = \<lambda>_ _. Inr False,
      ho_handler = \<lambda>_. Some (\<lambda>op _ _ s. (None, s @ [op_id op])),
      ho_done = \<lambda>_. None, ho_sealed = None\<rparr>"

definition openbsd :: Facts where
  "openbsd = \<lparr>fa_goos = ''openbsd'', fa_profile = [], fa_hostname = ''f0.lan''\<rparr>"

lemma sample_runs_on_linux:
  "ApplyWithContext sample_host (hd (map ch_ops (SplitPrivilegeChunks sample_plan)))
     (openbsd\<lparr>fa_goos := ''linux''\<rparr>) [] [] = (None, [''File[a]''])"
  by code_simp

theorem requirement_never_fails_midway_witness:
  "\<not> is_unmet_requirement (AtLine 3 (UnknownOp KindNoop) :: (unit, unit) apply_error)"
proof -
  let ?h = "sample_host\<lparr>ho_handler := \<lambda>k. if k = KindNoop then None else ho_handler sample_host k\<rparr>"
  let ?order = "[\<lparr>pl_op = resource_op KindFile ''File[a]'', pl_line = 2\<rparr>, \<lparr>pl_op = zero_op KindNoop, pl_line = 3\<rparr>]"
  have "checkRequirements ?h openbsd [] ?order = Inr ()" by code_simp
  moreover have "applyBody ?h openbsd [] 0 ?order [] [] = (Some (AtLine 3 (UnknownOp KindNoop)), [''File[a]''])"
    by code_simp
  ultimately show ?thesis by (rule requirement_never_fails_midway)
qed

text \<open>\<open>sample_plan\<close> requires Linux inside its privileged chunk; the first chunk is unprivileged.\<close>

theorem unmet_requirement_refuses_first_chunk_witness:
  "\<exists>e. ApplyWithContext sample_host (ch_ops (hd (SplitPrivilegeChunks sample_plan))) openbsd [] []
     = (Some e, [])"
proof -
  have "[sample_plan ! 3] \<in> set (req_chains [] (split_body sample_plan))"
    "requirementScopeError [sample_plan ! 3] = Inr ()"
    "chain_unmet sample_host openbsd [] [sample_plan ! 3]" by code_simp+
  with sample_balanced show ?thesis by (rule unmet_requirement_refuses_first_chunk)
qed

theorem inactive_block_skipped_witness:
  "applyBody sample_host openbsd [] 0
     [\<lparr>pl_op = (zero_op KindWhenBegin)\<lparr>op_all := [zero_pred\<lparr>p_fact := ''goos'', p_eq := ''linux''\<rparr>]\<rparr>, pl_line = 2\<rparr>,
      \<lparr>pl_op = resource_op KindFile ''File[a]'', pl_line = 3\<rparr>, \<lparr>pl_op = zero_op KindWhenEnd, pl_line = 4\<rparr>] [] []
   = applyBody sample_host openbsd [] 3 [] [] []"
proof -
  let ?l = "\<lparr>pl_op = (zero_op KindWhenBegin)\<lparr>op_all := [zero_pred\<lparr>p_fact := ''goos'', p_eq := ''linux''\<rparr>]\<rparr>, pl_line = 2\<rparr>"
  let ?i = "\<lparr>pl_op = resource_op KindFile ''File[a]'', pl_line = 3\<rparr>"
  let ?e = "\<lparr>pl_op = zero_op KindWhenEnd, pl_line = 4\<rparr>"
  have no_ctx: "\<And>n. ho_done sample_host n = None" by (simp add: sample_host_def)
  have k: "op_kind (pl_op ?l) = KindWhenBegin" "op_kind (pl_op ?e) = KindWhenEnd"
    "evalAll sample_host openbsd [] (op_all (pl_op ?l)) = Inr False \<and> op_require (pl_op ?l) = []"
    "balanced (map pl_op [?i])" by code_simp+
  have p: "\<And>i. i \<in> set [?i] \<Longrightarrow> op_kind (pl_op i) \<noteq> KindPlan" by (simp add: resource_op_def zero_op_def)
  from inactive_block_skipped [OF no_ctx k(1,2) k(3) k(4) p, where stack = "[]" and planDir = "[]" and n = 0 and rest = "[]"] show ?thesis by simp
qed

end
