(* ===== verification/PlanWire.thy ===== *)
theory PlanWire
  imports PlanTypes "HOL-Library.Char_ord" "HOL-Library.List_Lexorder"
begin

text \<open>
  The wire form of an op: \<open>wireOp\<close> and \<open>normalizeWire\<close> (\<open>plan/wire.go\<close>), the payload half of the op
  (\<open>applyToWire\<close>, \<open>toWire\<close>, \<open>fromWire\<close>, \<open>payloadConstructors\<close>, \<open>checkForeignPayload\<close> of
  \<open>plan/op_payload.go\<close>) and \<open>MarshalJSON\<close>/\<open>UnmarshalJSON\<close> (\<open>plan/types.go\<close>). A line of JSON is the
  \<open>wireOp\<close> of its fields. On the wire a nil slice is \<open>None\<close>; an op's own slices are lists, which do
  not tell nil from empty, so \<open>toWire\<close> writes them as \<open>Some\<close> and \<open>omitempty\<close> drops the empty ones,
  as \<open>encoding/json\<close> does. The trimming of slices inside slices disappears with that choice. The
  record is declared in four extensions only for the sake of its size.
\<close>

section \<open>The wire record\<close>

record wireCore =
  w_op :: kind
  w_version :: int
  w_id :: string
  w_path :: string
  w_mode :: string
  w_owner :: string
  w_group :: string
  w_blob :: string
  w_prune :: bool
  w_absent :: bool
  w_name :: string
  w_env :: "(string \<times> string) list option"
  w_command :: string
  w_user :: bool
  w_restart :: bool
  w_reload :: bool
  w_enable_only :: bool
  w_if_changed :: bool
  w_watch :: "string list option"
  w_sensitive :: bool
  w_elevate :: bool
  w_deps :: "string list option"
  w_all :: "Predicate list option"
  w_require :: string

record wireJobs = wireCore +
  w_cron_user :: string
  w_legacy_command :: string
  w_schedule :: string
  w_cron_env :: "string list option"
  w_on_calendar :: string
  w_on_boot_sec :: string
  w_persistent :: bool
  w_description :: string
  w_service_description :: string
  w_after :: "string list option"
  w_wants :: "string list option"
  w_primary_group :: string
  w_supplementary_groups :: "string list option"
  w_home :: string
  w_create_home :: bool
  w_shell :: string
  w_login_class :: string
  w_system :: bool
  w_manage_home :: bool
  w_manage_shell :: bool
  w_flags :: string
  w_has_flags :: bool

record wirePaths = wireJobs +
  w_symlink :: string
  w_hardlink :: string
  w_target :: string
  w_latest :: bool
  w_bin :: string
  w_args :: "string list option"
  w_dir :: string
  w_creates :: string
  w_unless :: "Guard option"
  w_only_if :: "Guard option"
  w_members :: "ConfigMember list option"
  w_validators :: "Argv list option"
  w_chroot :: string
  w_staging_dir :: string
  w_member :: string
  w_exclude :: "string list option"
  w_source_dir :: string
  w_glob :: bool
  w_file_mode :: string

record wireOp = wirePaths +
  w_content_b64 :: string
  w_has_content :: bool
  w_template :: bool
  w_template_param :: string
  w_template_data :: "char list option"
  w_validation_bin :: string
  w_validation_args :: "string list option"
  w_add_lines :: "string list option"
  w_remove_lines :: "string list option"
  w_keyed_lines :: "KeyedLine list option"
  w_blocks :: "Block list option"
  w_add_line :: string
  w_remove_line :: string

fun trim_slice :: "'a list option \<Rightarrow> 'a list option" where
  "trim_slice (Some []) = None"
| "trim_slice s = s"

definition slice :: "'a list option \<Rightarrow> 'a list" where
  "slice s = (case s of None \<Rightarrow> [] | Some xs \<Rightarrow> xs)"

lemma slice_simps [simp]: "slice None = []" "slice (Some xs) = xs"
  by (simp_all add: slice_def)

lemma trim_slice_simps [simp]:
  "slice (trim_slice s) = slice s" "trim_slice (trim_slice s) = trim_slice s"
  "trim_slice (Some (slice s)) = trim_slice s"
  by (cases s rule: trim_slice.cases; simp)+

text \<open>The zero \<open>wireOp\<close> of a kind.\<close>

definition zero_wire :: "kind \<Rightarrow> wireOp" where
  "zero_wire k =
     \<lparr>w_op = k, w_version = 0, w_id = [], w_path = [], w_mode = [], w_owner = [],
      w_group = [], w_blob = [], w_prune = False, w_absent = False, w_name = [], w_env = None,
      w_command = [], w_user = False, w_restart = False, w_reload = False, w_enable_only = False,
      w_if_changed = False, w_watch = None, w_sensitive = False, w_elevate = False, w_deps = None,
      w_all = None, w_require = [], w_cron_user = [], w_legacy_command = [], w_schedule = [],
      w_cron_env = None, w_on_calendar = [], w_on_boot_sec = [], w_persistent = False,
      w_description = [], w_service_description = [], w_after = None, w_wants = None,
      w_primary_group = [], w_supplementary_groups = None, w_home = [], w_create_home = False,
      w_shell = [], w_login_class = [], w_system = False, w_manage_home = False,
      w_manage_shell = False, w_flags = [], w_has_flags = False, w_symlink = [], w_hardlink = [],
      w_target = [], w_latest = False, w_bin = [], w_args = None, w_dir = [], w_creates = [],
      w_unless = None, w_only_if = None, w_members = None, w_validators = None, w_chroot = [],
      w_staging_dir = [], w_member = [], w_exclude = None, w_source_dir = [], w_glob = False,
      w_file_mode = [], w_content_b64 = [], w_has_content = False, w_template = False,
      w_template_param = [], w_template_data = None, w_validation_bin = [],
      w_validation_args = None, w_add_lines = None, w_remove_lines = None, w_keyed_lines = None,
      w_blocks = None, w_add_line = [], w_remove_line = []\<rparr>"

definition normalizeWire :: "wireOp \<Rightarrow> wireOp" where
  "normalizeWire w =
     w\<lparr>w_args := trim_slice (w_args w), w_env := trim_slice (w_env w),
       w_all := trim_slice (w_all w), w_cron_env := trim_slice (w_cron_env w),
       w_supplementary_groups := trim_slice (w_supplementary_groups w),
       w_deps := trim_slice (w_deps w), w_add_lines := trim_slice (w_add_lines w),
       w_remove_lines := trim_slice (w_remove_lines w),
       w_keyed_lines := trim_slice (w_keyed_lines w), w_blocks := trim_slice (w_blocks w),
       w_validation_args := trim_slice (w_validation_args w)\<rparr>"

text \<open>What \<open>json.Marshal\<close> writes: every field is tagged \<open>omitempty\<close>, so an empty slice or map is left out.\<close>

definition omitempty :: "wireOp \<Rightarrow> wireOp" where
  "omitempty w =
     w\<lparr>w_env := trim_slice (w_env w), w_watch := trim_slice (w_watch w),
       w_deps := trim_slice (w_deps w), w_all := trim_slice (w_all w),
       w_cron_env := trim_slice (w_cron_env w), w_after := trim_slice (w_after w),
       w_wants := trim_slice (w_wants w),
       w_supplementary_groups := trim_slice (w_supplementary_groups w),
       w_args := trim_slice (w_args w), w_members := trim_slice (w_members w),
       w_validators := trim_slice (w_validators w), w_exclude := trim_slice (w_exclude w),
       w_template_data := trim_slice (w_template_data w),
       w_validation_args := trim_slice (w_validation_args w),
       w_add_lines := trim_slice (w_add_lines w),
       w_remove_lines := trim_slice (w_remove_lines w),
       w_keyed_lines := trim_slice (w_keyed_lines w), w_blocks := trim_slice (w_blocks w)\<rparr>"

section \<open>Payloads on the wire\<close>

text \<open>One \<open>applyToWire\<close> method per payload type.\<close>

definition Cron_applyToWire :: "CronPayload \<Rightarrow> wireOp \<Rightarrow> wireOp" where [simp]:
  "Cron_applyToWire p w =
     w\<lparr>w_cron_user := cr_user p, w_legacy_command := cr_legacy_command p,
       w_schedule := cr_schedule p, w_cron_env := Some (cr_env p)\<rparr>"

definition SystemdTimer_applyToWire :: "SystemdTimerPayload \<Rightarrow> wireOp \<Rightarrow> wireOp" where [simp]:
  "SystemdTimer_applyToWire p w =
     w\<lparr>w_on_calendar := st_on_calendar p, w_on_boot_sec := st_on_boot_sec p,
       w_persistent := st_persistent p, w_description := st_description p,
       w_service_description := st_service_description p, w_after := Some (st_after p),
       w_wants := Some (st_wants p)\<rparr>"

definition User_applyToWire :: "UserPayload \<Rightarrow> wireOp \<Rightarrow> wireOp" where [simp]:
  "User_applyToWire p w =
     w\<lparr>w_primary_group := us_primary_group p,
       w_supplementary_groups := Some (us_supplementary_groups p), w_home := us_home p,
       w_create_home := us_create_home p, w_shell := us_shell p,
       w_login_class := us_login_class p, w_system := us_system p,
       w_manage_home := us_manage_home p, w_manage_shell := us_manage_shell p\<rparr>"

definition Service_applyToWire :: "ServicePayload \<Rightarrow> wireOp \<Rightarrow> wireOp" where [simp]:
  "Service_applyToWire p w =
     w\<lparr>w_flags := sv_flags p, w_has_flags := sv_has_flags p\<rparr>"

definition Link_applyToWire :: "LinkPayload \<Rightarrow> wireOp \<Rightarrow> wireOp" where [simp]:
  "Link_applyToWire p w =
     w\<lparr>w_symlink := ln_symlink p, w_hardlink := ln_hardlink p\<rparr>"

definition LinkIfExists_applyToWire :: "LinkIfExistsPayload \<Rightarrow> wireOp \<Rightarrow> wireOp" where [simp]:
  "LinkIfExists_applyToWire p w =
     w\<lparr>w_target := le_target p\<rparr>"

definition Package_applyToWire :: "PackagePayload \<Rightarrow> wireOp \<Rightarrow> wireOp" where [simp]:
  "Package_applyToWire p w =
     w\<lparr>w_latest := pk_latest p\<rparr>"

definition Command_applyToWire :: "CommandPayload \<Rightarrow> wireOp \<Rightarrow> wireOp" where [simp]:
  "Command_applyToWire p w =
     w\<lparr>w_bin := co_bin p, w_args := Some (co_args p), w_dir := co_dir p,
       w_creates := co_creates p, w_unless := co_unless p, w_only_if := co_only_if p\<rparr>"

definition ConfigSet_applyToWire :: "ConfigSetPayload \<Rightarrow> wireOp \<Rightarrow> wireOp" where [simp]:
  "ConfigSet_applyToWire p w =
     w\<lparr>w_members := Some (cs_members p), w_validators := Some (cs_validators p),
       w_chroot := cs_chroot p, w_staging_dir := cs_staging_dir p\<rparr>"

definition ConfigSetMember_applyToWire :: "ConfigSetMemberPayload \<Rightarrow> wireOp \<Rightarrow> wireOp" where [simp]:
  "ConfigSetMember_applyToWire p w =
     w\<lparr>w_member := cp_member p\<rparr>"

definition SyncDir_applyToWire :: "SyncDirPayload \<Rightarrow> wireOp \<Rightarrow> wireOp" where [simp]:
  "SyncDir_applyToWire p w =
     w\<lparr>w_exclude := Some (sd_exclude p), w_source_dir := sd_source_dir p, w_glob := sd_glob p,
       w_file_mode := sd_file_mode p\<rparr>"

definition File_applyToWire :: "FilePayload \<Rightarrow> wireOp \<Rightarrow> wireOp" where [simp]:
  "File_applyToWire p w =
     w\<lparr>w_content_b64 := fp_content_b64 p, w_has_content := fp_has_content p,
       w_template := fp_template p, w_template_param := fp_template_param p,
       w_template_data := Some (fp_template_data p), w_validation_bin := fp_validation_bin p,
       w_validation_args := Some (fp_validation_args p), w_add_lines := Some (fp_add_lines p),
       w_remove_lines := Some (fp_remove_lines p), w_keyed_lines := Some (fp_keyed_lines p),
       w_blocks := Some (fp_blocks p), w_add_line := fp_add_line p,
       w_remove_line := fp_remove_line p\<rparr>"

fun applyToWire :: "OpPayload \<Rightarrow> wireOp \<Rightarrow> wireOp" where
  "applyToWire (PCron p) w = Cron_applyToWire p w"
| "applyToWire (PSystemdTimer p) w = SystemdTimer_applyToWire p w"
| "applyToWire (PUser p) w = User_applyToWire p w"
| "applyToWire (PService p) w = Service_applyToWire p w"
| "applyToWire (PLink p) w = Link_applyToWire p w"
| "applyToWire (PLinkIfExists p) w = LinkIfExists_applyToWire p w"
| "applyToWire (PPackage p) w = Package_applyToWire p w"
| "applyToWire (PCommand p) w = Command_applyToWire p w"
| "applyToWire (PConfigSet p) w = ConfigSet_applyToWire p w"
| "applyToWire (PConfigSetMember p) w = ConfigSetMember_applyToWire p w"
| "applyToWire (PSyncDir p) w = SyncDir_applyToWire p w"
| "applyToWire (PFile p) w = File_applyToWire p w"

text \<open>The kind a payload type belongs to: \<open>payloadKindsByType\<close>.\<close>

fun payloadKind :: "OpPayload \<Rightarrow> kind" where
  "payloadKind (PCron p) = KindCron"
| "payloadKind (PSystemdTimer p) = KindSystemdTimer"
| "payloadKind (PUser p) = KindUser"
| "payloadKind (PService p) = KindService"
| "payloadKind (PLink p) = KindLink"
| "payloadKind (PLinkIfExists p) = KindLinkIfExists"
| "payloadKind (PPackage p) = KindPackage"
| "payloadKind (PCommand p) = KindCommand"
| "payloadKind (PConfigSet p) = KindConfigSet"
| "payloadKind (PConfigSetMember p) = KindConfigSetMember"
| "payloadKind (PSyncDir p) = KindSyncDir"
| "payloadKind (PFile p) = KindFile"

fun payloadConstructors :: "kind \<Rightarrow> (wireOp \<Rightarrow> OpPayload) option" where
  "payloadConstructors KindCron =
     Some (\<lambda>w. PCron
       \<lparr>cr_user = w_cron_user w, cr_legacy_command = w_legacy_command w,
        cr_schedule = w_schedule w, cr_env = slice (w_cron_env w)\<rparr>)"
| "payloadConstructors KindSystemdTimer =
     Some (\<lambda>w. PSystemdTimer
       \<lparr>st_on_calendar = w_on_calendar w, st_on_boot_sec = w_on_boot_sec w,
        st_persistent = w_persistent w, st_description = w_description w,
        st_service_description = w_service_description w, st_after = slice (w_after w),
        st_wants = slice (w_wants w)\<rparr>)"
| "payloadConstructors KindUser =
     Some (\<lambda>w. PUser
       \<lparr>us_primary_group = w_primary_group w,
        us_supplementary_groups = slice (w_supplementary_groups w), us_home = w_home w,
        us_create_home = w_create_home w, us_shell = w_shell w,
        us_login_class = w_login_class w, us_system = w_system w,
        us_manage_home = w_manage_home w, us_manage_shell = w_manage_shell w\<rparr>)"
| "payloadConstructors KindService =
     Some (\<lambda>w. PService
       \<lparr>sv_flags = w_flags w, sv_has_flags = w_has_flags w\<rparr>)"
| "payloadConstructors KindLink =
     Some (\<lambda>w. PLink
       \<lparr>ln_symlink = w_symlink w, ln_hardlink = w_hardlink w\<rparr>)"
| "payloadConstructors KindLinkIfExists =
     Some (\<lambda>w. PLinkIfExists
       \<lparr>le_target = w_target w\<rparr>)"
| "payloadConstructors KindPackage =
     Some (\<lambda>w. PPackage
       \<lparr>pk_latest = w_latest w\<rparr>)"
| "payloadConstructors KindCommand =
     Some (\<lambda>w. PCommand
       \<lparr>co_bin = w_bin w, co_args = slice (w_args w), co_dir = w_dir w,
        co_creates = w_creates w, co_unless = w_unless w, co_only_if = w_only_if w\<rparr>)"
| "payloadConstructors KindConfigSet =
     Some (\<lambda>w. PConfigSet
       \<lparr>cs_members = slice (w_members w), cs_validators = slice (w_validators w),
        cs_chroot = w_chroot w, cs_staging_dir = w_staging_dir w\<rparr>)"
| "payloadConstructors KindConfigSetMember =
     Some (\<lambda>w. PConfigSetMember
       \<lparr>cp_member = w_member w\<rparr>)"
| "payloadConstructors KindSyncDir =
     Some (\<lambda>w. PSyncDir
       \<lparr>sd_exclude = slice (w_exclude w), sd_source_dir = w_source_dir w, sd_glob = w_glob w,
        sd_file_mode = w_file_mode w\<rparr>)"
| "payloadConstructors KindFile =
     Some (\<lambda>w. PFile
       \<lparr>fp_content_b64 = w_content_b64 w, fp_has_content = w_has_content w,
        fp_template = w_template w, fp_template_param = w_template_param w,
        fp_template_data = slice (w_template_data w), fp_validation_bin = w_validation_bin w,
        fp_validation_args = slice (w_validation_args w), fp_add_lines = slice (w_add_lines w),
        fp_remove_lines = slice (w_remove_lines w), fp_keyed_lines = slice (w_keyed_lines w),
        fp_blocks = slice (w_blocks w), fp_add_line = w_add_line w,
        fp_remove_line = w_remove_line w\<rparr>)"
| "payloadConstructors _ = None"

definition payloadFromWire :: "wireOp \<Rightarrow> OpPayload option" where
  "payloadFromWire w = map_option (\<lambda>ctor. ctor w) (payloadConstructors (w_op w))"

datatype wire_error =
    ForeignPayload kind kind          \<comment> \<open>the op's kind, the kind of the payload it holds\<close>
  | ForeignFields kind "string list"  \<comment> \<open>the line's kind, the fields it cannot own\<close>

definition core_wire :: "Op \<Rightarrow> wireOp" where
  "core_wire op =
     (zero_wire (op_kind op))
       \<lparr>w_version := op_version op, w_id := op_id op, w_path := op_path op,
        w_mode := op_mode op, w_owner := op_owner op, w_group := op_group op,
        w_blob := op_blob op, w_prune := op_prune op, w_absent := op_absent op,
        w_name := op_name op, w_env := Some (op_env op), w_command := op_command op,
        w_user := op_user op, w_restart := op_restart op, w_reload := op_reload op,
        w_enable_only := op_enable_only op, w_if_changed := op_if_changed op,
        w_watch := Some (op_watch op), w_sensitive := op_sensitive op,
        w_elevate := op_elevate op, w_deps := Some (op_deps op), w_all := Some (op_all op),
        w_require := op_require op\<rparr>"

definition toWire :: "Op \<Rightarrow> (wire_error, wireOp) result" where
  "toWire op =
     (case op_payload op of
        None \<Rightarrow> Inr (core_wire op)
      | Some p \<Rightarrow>
          if payloadKind p \<noteq> op_kind op then Inl (ForeignPayload (op_kind op) (payloadKind p))
          else Inr (applyToWire p (core_wire op)))"

definition fromWire :: "wireOp \<Rightarrow> Op" where
  "fromWire w =
     \<lparr>op_kind = w_op w, op_version = w_version w, op_id = w_id w, op_path = w_path w,
      op_mode = w_mode w, op_owner = w_owner w, op_group = w_group w, op_blob = w_blob w,
      op_prune = w_prune w, op_absent = w_absent w, op_name = w_name w,
      op_env = slice (w_env w), op_command = w_command w, op_user = w_user w,
      op_restart = w_restart w, op_reload = w_reload w, op_enable_only = w_enable_only w,
      op_if_changed = w_if_changed w, op_watch = slice (w_watch w),
      op_sensitive = w_sensitive w, op_elevate = w_elevate w, op_deps = slice (w_deps w),
      op_all = slice (w_all w), op_require = w_require w, op_payload = payloadFromWire w\<rparr>"

section \<open>Foreign fields\<close>

text \<open>
  \<open>payloadFieldOwners\<close>: every field of every payload with the kind that owns it, its tag, and whether
  it is set (not Go's zero value) on a line. A Go map, so its order is open; the refusal sorts.
\<close>

definition payloadFieldOwners :: "(kind \<times> string \<times> (wireOp \<Rightarrow> bool)) list" where
  "payloadFieldOwners =
     [(KindCron, ''cron_user'', \<lambda>w. w_cron_user w \<noteq> []),
      (KindCron, ''legacy_command'', \<lambda>w. w_legacy_command w \<noteq> []),
      (KindCron, ''schedule'', \<lambda>w. w_schedule w \<noteq> []),
      (KindCron, ''cron_env'', \<lambda>w. w_cron_env w \<noteq> None),
      (KindSystemdTimer, ''on_calendar'', \<lambda>w. w_on_calendar w \<noteq> []),
      (KindSystemdTimer, ''on_boot_sec'', \<lambda>w. w_on_boot_sec w \<noteq> []),
      (KindSystemdTimer, ''persistent'', \<lambda>w. w_persistent w),
      (KindSystemdTimer, ''description'', \<lambda>w. w_description w \<noteq> []),
      (KindSystemdTimer, ''service_description'', \<lambda>w. w_service_description w \<noteq> []),
      (KindSystemdTimer, ''after'', \<lambda>w. w_after w \<noteq> None),
      (KindSystemdTimer, ''wants'', \<lambda>w. w_wants w \<noteq> None),
      (KindUser, ''primary_group'', \<lambda>w. w_primary_group w \<noteq> []),
      (KindUser, ''supplementary_groups'', \<lambda>w. w_supplementary_groups w \<noteq> None),
      (KindUser, ''home'', \<lambda>w. w_home w \<noteq> []),
      (KindUser, ''create_home'', \<lambda>w. w_create_home w),
      (KindUser, ''shell'', \<lambda>w. w_shell w \<noteq> []),
      (KindUser, ''login_class'', \<lambda>w. w_login_class w \<noteq> []),
      (KindUser, ''system'', \<lambda>w. w_system w),
      (KindUser, ''manage_home'', \<lambda>w. w_manage_home w),
      (KindUser, ''manage_shell'', \<lambda>w. w_manage_shell w),
      (KindService, ''flags'', \<lambda>w. w_flags w \<noteq> []),
      (KindService, ''has_flags'', \<lambda>w. w_has_flags w),
      (KindLink, ''symlink'', \<lambda>w. w_symlink w \<noteq> []),
      (KindLink, ''hardlink'', \<lambda>w. w_hardlink w \<noteq> []),
      (KindLinkIfExists, ''target'', \<lambda>w. w_target w \<noteq> []),
      (KindPackage, ''latest'', \<lambda>w. w_latest w),
      (KindCommand, ''bin'', \<lambda>w. w_bin w \<noteq> []),
      (KindCommand, ''args'', \<lambda>w. w_args w \<noteq> None),
      (KindCommand, ''dir'', \<lambda>w. w_dir w \<noteq> []),
      (KindCommand, ''creates'', \<lambda>w. w_creates w \<noteq> []),
      (KindCommand, ''unless'', \<lambda>w. w_unless w \<noteq> None),
      (KindCommand, ''only_if'', \<lambda>w. w_only_if w \<noteq> None),
      (KindConfigSet, ''members'', \<lambda>w. w_members w \<noteq> None),
      (KindConfigSet, ''validators'', \<lambda>w. w_validators w \<noteq> None),
      (KindConfigSet, ''chroot'', \<lambda>w. w_chroot w \<noteq> []),
      (KindConfigSet, ''staging_dir'', \<lambda>w. w_staging_dir w \<noteq> []),
      (KindConfigSetMember, ''member'', \<lambda>w. w_member w \<noteq> []),
      (KindSyncDir, ''exclude'', \<lambda>w. w_exclude w \<noteq> None),
      (KindSyncDir, ''source_dir'', \<lambda>w. w_source_dir w \<noteq> []),
      (KindSyncDir, ''glob'', \<lambda>w. w_glob w),
      (KindSyncDir, ''file_mode'', \<lambda>w. w_file_mode w \<noteq> []),
      (KindFile, ''content_b64'', \<lambda>w. w_content_b64 w \<noteq> []),
      (KindFile, ''has_content'', \<lambda>w. w_has_content w),
      (KindFile, ''template'', \<lambda>w. w_template w),
      (KindFile, ''template_param'', \<lambda>w. w_template_param w \<noteq> []),
      (KindFile, ''template_data'', \<lambda>w. w_template_data w \<noteq> None),
      (KindFile, ''validation_bin'', \<lambda>w. w_validation_bin w \<noteq> []),
      (KindFile, ''validation_args'', \<lambda>w. w_validation_args w \<noteq> None),
      (KindFile, ''add_lines'', \<lambda>w. w_add_lines w \<noteq> None),
      (KindFile, ''remove_lines'', \<lambda>w. w_remove_lines w \<noteq> None),
      (KindFile, ''keyed_lines'', \<lambda>w. w_keyed_lines w \<noteq> None),
      (KindFile, ''blocks'', \<lambda>w. w_blocks w \<noteq> None),
      (KindFile, ''add_line'', \<lambda>w. w_add_line w \<noteq> []),
      (KindFile, ''remove_line'', \<lambda>w. w_remove_line w \<noteq> [])]"

fun kind_name :: "kind \<Rightarrow> string" where
  "kind_name KindPlan = ''plan''"
| "kind_name KindLink = ''link''"
| "kind_name KindFile = ''file''"
| "kind_name KindDir = ''dir''"
| "kind_name KindPackage = ''package''"
| "kind_name KindCommand = ''command''"
| "kind_name KindSyncDir = ''sync_dir''"
| "kind_name KindEnsureDir = ''ensure_dir''"
| "kind_name KindEnsureFile = ''ensure_file''"
| "kind_name KindLinkIfExists = ''link_if_exists''"
| "kind_name KindWhenBegin = ''when_begin''"
| "kind_name KindWhenEnd = ''when_end''"
| "kind_name KindTimer = ''timer''"
| "kind_name KindDaemonReload = ''daemon_reload''"
| "kind_name KindCron = ''cron''"
| "kind_name KindService = ''service''"
| "kind_name KindSystemdTimer = ''systemd_timer''"
| "kind_name KindUser = ''user''"
| "kind_name KindConfigSet = ''config_set''"
| "kind_name KindConfigSetMember = ''config_set_member''"
| "kind_name KindNoop = ''noop''"
| "kind_name (KindOther s) = s"

definition foreign_fields :: "wireOp \<Rightarrow> string list" where
  "foreign_fields w =
     sort (map (\<lambda>(k, tag, _). tag @ '' ('' @ kind_name k @ ''-exclusive)'')
            (filter (\<lambda>(k, tag, isset). k \<noteq> w_op w \<and> isset w) payloadFieldOwners))"

definition checkForeignPayload :: "wireOp \<Rightarrow> wire_error check" where
  "checkForeignPayload w =
     (if foreign_fields w = [] then Inr () else Inl (ForeignFields (w_op w) (foreign_fields w)))"

section \<open>Encoding and decoding a line\<close>

definition MarshalJSON :: "Op \<Rightarrow> (wire_error, wireOp) result" where
  "MarshalJSON op = bind_res (toWire op) (\<lambda>w. Inr (omitempty (normalizeWire w)))"

definition UnmarshalJSON :: "wireOp \<Rightarrow> (wire_error, Op) result" where
  "UnmarshalJSON line =
     (let w = normalizeWire line in bind_res (checkForeignPayload w) (\<lambda>_. Inr (fromWire w)))"

section \<open>Lemmas\<close>

lemma omitempty_normalize: "omitempty (normalizeWire w) = omitempty w"
  by (simp add: omitempty_def normalizeWire_def)

lemma checkForeignPayload_iff:
  "checkForeignPayload w = Inr () \<longleftrightarrow>
     (\<forall>(k, tag, isset) \<in> set payloadFieldOwners. k = w_op w \<or> \<not> isset w)"
proof -
  have "foreign_fields w = [] \<longleftrightarrow> filter (\<lambda>(k, tag, isset). k \<noteq> w_op w \<and> isset w) payloadFieldOwners = []"
    by (simp only: foreign_fields_def length_0_conv [symmetric] length_sort length_map)
  then show ?thesis by (auto simp: checkForeignPayload_def filter_empty_conv)
qed

text \<open>The op a decoder sees: a kind that has a payload always gets one.\<close>

definition with_payload :: "Op \<Rightarrow> Op" where
  "with_payload op =
     (case op_payload op of
        None \<Rightarrow> op\<lparr>op_payload := payloadFromWire (zero_wire (op_kind op))\<rparr>
      | Some _ \<Rightarrow> op)"

lemma fromWire_omitempty: "fromWire (omitempty w) = fromWire w"
proof -
  have "payloadFromWire (omitempty w) = payloadFromWire w"
    by (cases "w_op w") (simp_all add: payloadFromWire_def omitempty_def)
  then show ?thesis by (simp add: fromWire_def) (simp add: omitempty_def)
qed

lemma fromWire_normalizeWire: "fromWire (normalizeWire w) = fromWire w"
  by (metis fromWire_omitempty omitempty_normalize)

lemma w_op_core [simp]: "w_op (core_wire op) = op_kind op" "w_op (zero_wire k) = k"
  by (simp_all add: core_wire_def zero_wire_def)

lemma w_op_apply [simp]: "w_op (applyToWire p w) = w_op w"
  by (cases p) simp_all

lemma payload_core: "payloadFromWire (core_wire op) = payloadFromWire (zero_wire (op_kind op))"
  by (cases "op_kind op") (simp_all add: payloadFromWire_def core_wire_def)

lemma payload_apply: "w_op w = payloadKind p \<Longrightarrow> payloadFromWire (applyToWire p w) = Some p"
  by (cases p) (simp_all add: payloadFromWire_def)

lemma fromWire_payload: "(fromWire w)\<lparr>op_payload := payloadFromWire w\<rparr> = fromWire w"
  by (simp add: fromWire_def)

lemma fromWire_core_wire: "(fromWire (core_wire op))\<lparr>op_payload := P\<rparr> = op\<lparr>op_payload := P\<rparr>"
  by (simp add: fromWire_def core_wire_def)

lemma fromWire_apply_core: "(fromWire (applyToWire p w))\<lparr>op_payload := P\<rparr> = (fromWire w)\<lparr>op_payload := P\<rparr>"
  by (cases p) (simp_all add: fromWire_def)

lemma fromWire_toWire:
  assumes "toWire op = Inr w"
  shows "fromWire w = with_payload op"
proof (cases "op_payload op")
  case None
  with assms have "w = core_wire op" by (simp add: toWire_def)
  then have "fromWire w = op\<lparr>op_payload := payloadFromWire (core_wire op)\<rparr>"
    using fromWire_core_wire [where op = op and P = "payloadFromWire (core_wire op)"]
      fromWire_payload [of "core_wire op"] by simp
  with None show ?thesis by (simp add: with_payload_def payload_core)
next
  case (Some p)
  with assms have w: "w = applyToWire p (core_wire op)" and k: "payloadKind p = op_kind op"
    by (auto simp: toWire_def split: if_splits)
  then have "fromWire w = op\<lparr>op_payload := Some p\<rparr>"
    using fromWire_apply_core [where p = p and w = "core_wire op" and P = "Some p"] fromWire_core_wire [where op = op and P = "Some p"]
      payload_apply [where p = p and w = "core_wire op"] fromWire_payload [of w] by simp
  with Some show ?thesis by (simp add: with_payload_def)
qed

text \<open>Decoding and encoding again keeps every field: the payload's own, the core ones, and the foreign ones because they are zero.\<close>

lemma refit_none:
  assumes "payloadConstructors (w_op w) = None" "checkForeignPayload w = Inr ()"
  shows "omitempty (core_wire (fromWire w)) = omitempty w"
proof -
  have k: "KindCron \<noteq> w_op w" "KindSystemdTimer \<noteq> w_op w" "KindUser \<noteq> w_op w" "KindService \<noteq> w_op w"
    "KindLink \<noteq> w_op w" "KindLinkIfExists \<noteq> w_op w" "KindPackage \<noteq> w_op w" "KindCommand \<noteq> w_op w"
    "KindConfigSet \<noteq> w_op w" "KindConfigSetMember \<noteq> w_op w" "KindSyncDir \<noteq> w_op w" "KindFile \<noteq> w_op w"
    using assms(1) by auto
  show ?thesis
    using assms(2) unfolding checkForeignPayload_iff payloadFieldOwners_def
    by (simp add: k) (cases w, simp add: core_wire_def fromWire_def zero_wire_def omitempty_def)
qed

lemma refit_schedules:
  assumes "w_op w \<in> set [KindCron, KindSystemdTimer, KindUser]" "checkForeignPayload w = Inr ()"
  shows "omitempty (applyToWire (the (payloadFromWire w)) (core_wire (fromWire w))) = omitempty w"
proof -
  have "w_op w = KindCron \<or> w_op w = KindSystemdTimer \<or> w_op w = KindUser"
    using assms(1) by simp
  then show ?thesis
    by (elim disjE; insert assms(2);
        simp add: checkForeignPayload_iff payloadFieldOwners_def payloadFromWire_def;
        cases w; simp add: core_wire_def fromWire_def zero_wire_def omitempty_def)
qed

lemma refit_units:
  assumes "w_op w \<in> set [KindService, KindLink, KindLinkIfExists]" "checkForeignPayload w = Inr ()"
  shows "omitempty (applyToWire (the (payloadFromWire w)) (core_wire (fromWire w))) = omitempty w"
proof -
  have "w_op w = KindService \<or> w_op w = KindLink \<or> w_op w = KindLinkIfExists"
    using assms(1) by simp
  then show ?thesis
    by (elim disjE; insert assms(2);
        simp add: checkForeignPayload_iff payloadFieldOwners_def payloadFromWire_def;
        cases w; simp add: core_wire_def fromWire_def zero_wire_def omitempty_def)
qed

lemma refit_commands:
  assumes "w_op w \<in> set [KindPackage, KindCommand, KindConfigSet]" "checkForeignPayload w = Inr ()"
  shows "omitempty (applyToWire (the (payloadFromWire w)) (core_wire (fromWire w))) = omitempty w"
proof -
  have "w_op w = KindPackage \<or> w_op w = KindCommand \<or> w_op w = KindConfigSet"
    using assms(1) by simp
  then show ?thesis
    by (elim disjE; insert assms(2);
        simp add: checkForeignPayload_iff payloadFieldOwners_def payloadFromWire_def;
        cases w; simp add: core_wire_def fromWire_def zero_wire_def omitempty_def)
qed

lemma refit_files:
  assumes "w_op w \<in> set [KindConfigSetMember, KindSyncDir, KindFile]" "checkForeignPayload w = Inr ()"
  shows "omitempty (applyToWire (the (payloadFromWire w)) (core_wire (fromWire w))) = omitempty w"
proof -
  have "w_op w = KindConfigSetMember \<or> w_op w = KindSyncDir \<or> w_op w = KindFile"
    using assms(1) by simp
  then show ?thesis
    by (elim disjE; insert assms(2);
        simp add: checkForeignPayload_iff payloadFieldOwners_def payloadFromWire_def;
        cases w; simp add: core_wire_def fromWire_def zero_wire_def omitempty_def)
qed

lemma refit_some:
  assumes "payloadConstructors (w_op w) \<noteq> None" "checkForeignPayload w = Inr ()"
  shows "omitempty (applyToWire (the (payloadFromWire w)) (core_wire (fromWire w))) = omitempty w"
proof -
  have "w_op w \<in> set [KindCron, KindSystemdTimer, KindUser]
    \<or> w_op w \<in> set [KindService, KindLink, KindLinkIfExists]
    \<or> w_op w \<in> set [KindPackage, KindCommand, KindConfigSet]
    \<or> w_op w \<in> set [KindConfigSetMember, KindSyncDir, KindFile]"
    using assms(1) by (cases "w_op w") simp_all
  then show ?thesis using refit_schedules refit_units refit_commands refit_files assms(2) by blast
qed

lemma checkForeign_core: "checkForeignPayload (omitempty (core_wire op)) = Inr ()"
  unfolding checkForeignPayload_iff payloadFieldOwners_def
  by (simp add: core_wire_def zero_wire_def omitempty_def)

lemma checkForeign_apply:
  "w_op w = payloadKind p \<Longrightarrow> checkForeignPayload (omitempty w) = Inr () \<Longrightarrow>
     checkForeignPayload (omitempty (applyToWire p w)) = Inr ()"
  unfolding checkForeignPayload_iff payloadFieldOwners_def
  by (cases p) (simp_all add: omitempty_def)

lemma payloadKind_payloadFromWire: "payloadFromWire w = Some p \<Longrightarrow> payloadKind p = w_op w"
  by (cases "w_op w") (auto simp: payloadFromWire_def)


lemma toWire_own_fields: "toWire op = Inr w \<Longrightarrow> checkForeignPayload (omitempty w) = Inr ()"
  by (auto simp: toWire_def checkForeign_core checkForeign_apply split: option.splits if_splits)

lemma normalize_omitempty: "normalizeWire (omitempty w) = omitempty w"
  by (simp add: normalizeWire_def omitempty_def)

lemma decode_encode:
  assumes "MarshalJSON op = Inr line"
  shows "UnmarshalJSON line = Inr (with_payload op)"
proof -
  from assms obtain w where w: "toWire op = Inr w" and line: "line = omitempty w"
    by (auto simp: MarshalJSON_def bind_res_Inr_iff omitempty_normalize)
  have "fromWire line = with_payload op"
    using fromWire_toWire [OF w] by (simp add: line fromWire_omitempty)
  then show ?thesis
    using toWire_own_fields [OF w]
    by (simp add: UnmarshalJSON_def line normalize_omitempty)
qed

lemma encode_decode:
  assumes "UnmarshalJSON line = Inr op"
  shows "MarshalJSON op = Inr (omitempty line)"
proof -
  let ?w = "normalizeWire line"
  from assms have ok: "checkForeignPayload ?w = Inr ()" and op: "op = fromWire ?w"
    by (auto simp: UnmarshalJSON_def Let_def bind_res_Inr_iff)
  have kind: "op_kind op = w_op ?w" "op_payload op = payloadFromWire ?w" by (simp_all add: op fromWire_def)
  show ?thesis
  proof (cases "payloadFromWire ?w")
    case None
    with kind have "toWire op = Inr (core_wire op)" by (simp add: toWire_def)
    moreover have "payloadConstructors (w_op ?w) = None" using None by (simp add: payloadFromWire_def)
    ultimately show ?thesis
      using refit_none [OF _ ok] by (simp add: MarshalJSON_def omitempty_normalize op)
  next
    case (Some p)
    with kind have "toWire op = Inr (applyToWire p (core_wire op))"
      by (simp add: toWire_def payloadKind_payloadFromWire)
    moreover have "payloadConstructors (w_op ?w) \<noteq> None" using Some by (auto simp: payloadFromWire_def)
    ultimately show ?thesis
      using refit_some [OF _ ok] Some by (simp add: MarshalJSON_def omitempty_normalize op)
  qed
qed

section \<open>Properties\<close>

text \<open>
  Encoding an op and decoding the line gives the op back, whatever its kind and payload; an op
  of a kind that carries a payload but was built without one comes back with the empty payload.
\<close>

theorem Unmarshal_Marshal:
  assumes "MarshalJSON op = Inr line"
  shows "UnmarshalJSON line = Inr (with_payload op)"
  using assms by (rule decode_encode)


text \<open>
  Encoding is refused exactly when the op holds a payload that belongs to another kind, so no
  line is ever written that its own decoder would refuse.
\<close>

theorem Marshal_refuses_iff:
  "MarshalJSON op = Inl e \<longleftrightarrow>
     (\<exists>p. op_payload op = Some p \<and> payloadKind p \<noteq> op_kind op
        \<and> e = ForeignPayload (op_kind op) (payloadKind p))"
  by (auto simp: MarshalJSON_def bind_res_Inl_iff toWire_def split: option.splits if_splits)

section \<open>Witnesses\<close>

definition sample_cron :: Op where
  "sample_cron =
     (resource_op KindCron ''Cron[backup]'')
       \<lparr>op_payload := Some (PCron \<lparr>cr_user = ''root'', cr_legacy_command = [], cr_schedule = ''@daily'', cr_env = []\<rparr>)\<rparr>"

lemma sample_cron_line: "\<exists>line. MarshalJSON sample_cron = Inr line"
  by (simp add: MarshalJSON_def toWire_def sample_cron_def resource_op_def zero_op_def)

theorem Unmarshal_Marshal_witness:
  "\<exists>line. MarshalJSON sample_cron = Inr line \<and> UnmarshalJSON line = Inr (with_payload sample_cron)"
  using sample_cron_line Unmarshal_Marshal by blast


end
