(* ===== verification/PlanCodec.thy ===== *)
theory PlanCodec
  imports PlanWire GoFormat
begin

text \<open>
  The JSONL document of a plan (\<open>plan/codec.go\<close>): \<open>EncodeOp\<close>, \<open>DecodeOp\<close>, \<open>EncodePlan\<close>,
  \<open>DecodePlan\<close>, \<open>readNonEmptyLine\<close>, \<open>FormatSupportedVersions\<close> and \<open>SetFileContentB64\<close>. A document
  is the list of its lines; a line is blank, not a JSON object of the wire form, or the \<open>wireOp\<close> of
  its fields. A reader that fails in the middle is not modelled (\<open>DecodePlanBytes\<close>' never does).
\<close>

datatype wire_line = BlankLine | NotJSON | JSONLine wireOp

datatype codec_error =
    EncodeMissingOp
  | EncodeFailed kind wire_error
  | EmptyPlan
  | EncodeLine nat codec_error
  | DecodeEmptyLine
  | DecodeFailed wire_error
  | DecodeNotJSON
  | DecodeMissingOp
  | MissingHeader
  | BadHeaderLine codec_error
  | BadHeader header_error
  | DecodeLine nat codec_error
  | DuplicateHeader nat

section \<open>One line\<close>

definition EncodeOp :: "Op \<Rightarrow> (codec_error, wire_line) result" where
  "EncodeOp op =
     (if op_kind op = KindOther [] then Inl EncodeMissingOp
      else bind_res (map_err (EncodeFailed (op_kind op)) (MarshalJSON op)) (\<lambda>b. Inr (JSONLine b)))"

fun DecodeOp :: "wire_line \<Rightarrow> (codec_error, Op) result" where
  "DecodeOp BlankLine = Inl DecodeEmptyLine"
| "DecodeOp NotJSON = Inl DecodeNotJSON"
| "DecodeOp (JSONLine b) =
     bind_res (map_err DecodeFailed (UnmarshalJSON b)) (\<lambda>op.
       if op_kind op = KindOther [] then Inl DecodeMissingOp else Inr op)"

section \<open>The document\<close>

fun encode_lines :: "nat \<Rightarrow> Op list \<Rightarrow> (codec_error, wire_line list) result" where
  "encode_lines i [] = Inr []"
| "encode_lines i (op # ops) =
     bind_res (map_err (EncodeLine (i + 1)) (EncodeOp op)) (\<lambda>b.
       bind_res (encode_lines (Suc i) ops) (\<lambda>bs. Inr (b # bs)))"

definition EncodePlan :: "Op list \<Rightarrow> (codec_error, wire_line list) result" where
  "EncodePlan ops = (if ops = [] then Inl EmptyPlan else encode_lines 0 ops)"

text \<open>The next line that is not blank, with the rest of the document; \<open>None\<close> is \<open>io.EOF\<close>.\<close>

fun readNonEmptyLine :: "wire_line list \<Rightarrow> (wire_line \<times> wire_line list) option" where
  "readNonEmptyLine [] = None"
| "readNonEmptyLine (l # ls) = (if l = BlankLine then readNonEmptyLine ls else Some (l, ls))"

lemma readNonEmptyLine_shorter [termination_simp]:
  "readNonEmptyLine ls = Some (l, rest) \<Longrightarrow> length rest < length ls"
  by (induction ls) (auto split: if_splits)

function decode_body :: "nat \<Rightarrow> wire_line list \<Rightarrow> (codec_error, Op list) result" where
  "decode_body lineNo br =
     (case readNonEmptyLine br of
        None \<Rightarrow> Inr []
      | Some (l, br') \<Rightarrow>
          bind_res (map_err (DecodeLine lineNo) (DecodeOp l)) (\<lambda>op.
            if op_kind op = KindPlan then Inl (DuplicateHeader lineNo)
            else bind_res (decode_body (Suc lineNo) br') (\<lambda>ops. Inr (op # ops))))"
  by pat_completeness auto
termination by (relation "measure (\<lambda>(_, br). length br)") (auto simp: termination_simp)

declare decode_body.simps [simp del]

definition DecodePlan :: "wire_line list \<Rightarrow> (codec_error, Op list) result" where
  "DecodePlan br =
     (case readNonEmptyLine br of
        None \<Rightarrow> Inl MissingHeader
      | Some (l, br') \<Rightarrow>
          bind_res (map_err BadHeaderLine (DecodeOp l)) (\<lambda>header.
            bind_res (map_err BadHeader (ValidateHeader header)) (\<lambda>_.
              bind_res (decode_body 2 br') (\<lambda>ops. Inr (header # ops)))))"

text \<open>The list of supported versions in an error message: the keys of the map, sorted.\<close>

definition FormatSupportedVersions :: string where
  "FormatSupportedVersions = join '', '' (map (\<lambda>v. decimal (nat v)) (sort (remdups supportedVersions)))"

text \<open>Storing an uploaded blob in a file op: the payload is a value, so it is written back.\<close>

definition SetFileContentB64 :: "Op \<Rightarrow> string \<Rightarrow> Op" where
  "SetFileContentB64 op b64 =
     (case op_payload op of
        Some (PFile fp) \<Rightarrow> op\<lparr>op_payload := Some (PFile (fp\<lparr>fp_content_b64 := b64\<rparr>))\<rparr>
      | _ \<Rightarrow> op)"

section \<open>Lemmas\<close>

lemma op_kind_with_payload [simp]: "op_kind (with_payload op) = op_kind op"
  "op_version (with_payload op) = op_version op"
  by (simp_all add: with_payload_def split: option.split)

lemma EncodeOp_Inr_iff:
  "EncodeOp op = Inr l \<longleftrightarrow> op_kind op \<noteq> KindOther [] \<and> (\<exists>b. l = JSONLine b \<and> MarshalJSON op = Inr b)"
  by (auto simp: EncodeOp_def res_simps)

lemma DecodeOp_EncodeOp: "EncodeOp op = Inr l \<Longrightarrow> DecodeOp l = Inr (with_payload op)"
  by (auto simp: EncodeOp_Inr_iff decode_encode)

lemma EncodeOp_not_blank: "EncodeOp op = Inr l \<Longrightarrow> l \<noteq> BlankLine"
  by (auto simp: EncodeOp_Inr_iff)

lemma decode_encode_lines:
  assumes "encode_lines i ops = Inr ls" and "\<forall>op \<in> set ops. op_kind op \<noteq> KindPlan"
  shows "decode_body n ls = Inr (map with_payload ops)"
  using assms
proof (induction ops arbitrary: i n ls)
  case Nil
  then show ?case by (subst decode_body.simps) simp
next
  case (Cons op ops)
  then obtain b bs where enc: "EncodeOp op = Inr b" "encode_lines (Suc i) ops = Inr bs" "ls = b # bs"
    by (auto simp: res_simps)
  have "decode_body (Suc n) bs = Inr (map with_payload ops)"
    using Cons.IH [OF enc(2)] Cons.prems(2) by simp
  then show ?case
    using Cons.prems(2) DecodeOp_EncodeOp [OF enc(1)] EncodeOp_not_blank [OF enc(1)] enc(3)
    by (subst decode_body.simps) simp
qed

lemma readNonEmptyLine_SomeD:
  "readNonEmptyLine ls = Some (l, rest) \<Longrightarrow>
     filter (\<lambda>x. x \<noteq> BlankLine) ls = l # filter (\<lambda>x. x \<noteq> BlankLine) rest"
  by (induction ls) (auto split: if_splits)

lemma readNonEmptyLine_NoneD:
  "readNonEmptyLine ls = None \<Longrightarrow> filter (\<lambda>x. x \<noteq> BlankLine) ls = []"
  by (induction ls) (auto split: if_splits)

text \<open>An accepted line encodes again to the same fields.\<close>

definition same_line :: "wire_line \<Rightarrow> wire_line" where
  "same_line l = (case l of JSONLine b \<Rightarrow> JSONLine (omitempty b) | _ \<Rightarrow> l)"

lemma EncodeOp_DecodeOp: "DecodeOp l = Inr op \<Longrightarrow> EncodeOp op = Inr (same_line l)"
  by (cases l) (auto simp: res_simps EncodeOp_Inr_iff same_line_def encode_decode split: if_splits)

lemma encode_decode_body:
  "decode_body n ls = Inr ops \<Longrightarrow>
     encode_lines i ops = Inr (map same_line (filter (\<lambda>x. x \<noteq> BlankLine) ls))"
proof (induction n ls arbitrary: i ops rule: decode_body.induct)
  case (1 n ls)
  show ?case
  proof (cases "readNonEmptyLine ls")
    case None
    with "1.prems" have "ops = []" by (subst (asm) decode_body.simps) simp
    with None show ?thesis by (simp add: readNonEmptyLine_NoneD)
  next
    case (Some p)
    then obtain l rest where p: "readNonEmptyLine ls = Some (l, rest)" by (cases p) auto
    from "1.prems" p obtain op ops' where dec: "DecodeOp l = Inr op" "op_kind op \<noteq> KindPlan"
      "decode_body (Suc n) rest = Inr ops'" "ops = op # ops'"
      by (subst (asm) decode_body.simps) (auto simp: res_simps split: if_splits)
    then have "encode_lines (Suc i) ops' = Inr (map same_line (filter (\<lambda>x. x \<noteq> BlankLine) rest))"
      using "1.IH" [OF p] by (auto simp: res_simps)
    with dec(1,4) show ?thesis
      by (simp add: readNonEmptyLine_SomeD [OF p] EncodeOp_DecodeOp)
  qed
qed

lemma decode_encode_plan:
  assumes "EncodePlan (header # ops) = Inr doc"
    and "op_kind header = KindPlan" and "SupportsVersion (op_version header)"
    and "\<forall>op \<in> set ops. op_kind op \<noteq> KindPlan"
  shows "DecodePlan doc = Inr (map with_payload (header # ops))"
proof -
  from assms(1) obtain b bs where enc: "EncodeOp header = Inr b" "encode_lines 1 ops = Inr bs" "doc = b # bs"
    by (auto simp: EncodePlan_def res_simps)
  then show ?thesis
    using assms(2,3) decode_encode_lines [OF enc(2) assms(4)] DecodeOp_EncodeOp [OF enc(1)]
      EncodeOp_not_blank [OF enc(1)] ValidateHeader_iff [of "with_payload header"]
    by (simp add: DecodePlan_def)
qed

section \<open>Properties\<close>


text \<open>
  Every document the decoder accepts starts with one supported header, holds no second one, and
  encodes again to the same lines without the blank ones: decoding a document loses nothing.
\<close>

theorem DecodePlan_accepted:
  assumes "DecodePlan doc = Inr ops"
  shows "EncodePlan ops = Inr (map same_line (filter (\<lambda>l. l \<noteq> BlankLine) doc))
    \<and> (\<exists>header rest. ops = header # rest \<and> op_kind header = KindPlan
         \<and> SupportsVersion (op_version header))"
proof -
  from assms obtain l rest header body where r: "readNonEmptyLine doc = Some (l, rest)"
    and h: "DecodeOp l = Inr header" "ValidateHeader header = Inr ()"
    and b: "decode_body 2 rest = Inr body" "ops = header # body"
    by (auto simp: DecodePlan_def res_simps split: option.splits prod.splits)
  have "encode_lines 0 ops = Inr (map same_line (filter (\<lambda>l. l \<noteq> BlankLine) doc))"
    using encode_decode_body [OF b(1)] EncodeOp_DecodeOp [OF h(1)] b(2)
    by (simp add: readNonEmptyLine_SomeD [OF r])
  then show ?thesis using h(2) b(2) by (simp add: EncodePlan_def ValidateHeader_iff)
qed

section \<open>Witnesses\<close>

definition sample_header :: Op where
  "sample_header = (zero_op KindPlan)\<lparr>op_version := 31\<rparr>"

lemma sample_plan_lines: "\<exists>doc. EncodePlan [sample_header, sample_cron] = Inr doc"
  using sample_cron_line
  by (auto simp: EncodePlan_def EncodeOp_def MarshalJSON_def toWire_def sample_header_def zero_op_def
      sample_cron_def resource_op_def)

lemma sample_plan_ok: "op_kind sample_header = KindPlan" "SupportsVersion (op_version sample_header)"
  "\<forall>op \<in> set [sample_cron]. op_kind op \<noteq> KindPlan"
  by (simp_all add: sample_header_def sample_cron_def zero_op_def resource_op_def SupportsVersion_iff CurrentVersion_def)


theorem DecodePlan_accepted_witness:
  "\<exists>doc ops. DecodePlan (BlankLine # doc) = Inr ops
     \<and> EncodePlan ops = Inr (map same_line (filter (\<lambda>l. l \<noteq> BlankLine) (BlankLine # doc)))"
proof -
  obtain doc where "EncodePlan [sample_header, sample_cron] = Inr doc" using sample_plan_lines by blast
  then have "DecodePlan (BlankLine # doc) = Inr (map with_payload [sample_header, sample_cron])"
    using decode_encode_plan [OF _ sample_plan_ok] by (simp add: DecodePlan_def)
  with DecodePlan_accepted show ?thesis by blast
qed

end
