(* ===== verification/DepGraph.thy ===== *)
theory DepGraph
  imports PlanSplit PlanSort "HOL-Library.Product_Lexorder"
begin

text \<open>
  The dependency graph of an \<open>api.Apply\<close> body (\<open>api/apply_order.go\<close>): \<open>depGraph\<close>, \<open>newDepGraph\<close>, the
  Kahn pass over a heap of ready ops ordered by (rank, index), and the walk that names a dependency
  cycle. The heap is a list whose pop takes the element least by \<open>Less\<close>, which is what
  \<open>container/heap\<close> promises of \<open>Push\<close> and \<open>Pop\<close>. Go's \<open>-1\<close> for no index is \<open>None\<close>.
\<close>

section \<open>The graph\<close>

record depGraph =
  g_byID :: "string \<rightharpoonup> nat"
  g_deps :: "nat list list"
  g_waiters :: "nat list list"

definition link :: "nat \<Rightarrow> nat \<Rightarrow> depGraph \<Rightarrow> depGraph" where
  "link at i g =
     g\<lparr>g_deps := (g_deps g)[i := g_deps g ! i @ [at]],
       g_waiters := (g_waiters g)[at := g_waiters g ! at @ [i]]\<rparr>"

definition newDepGraph :: "Op list \<Rightarrow> depGraph" where
  "newDepGraph body =
     (let ids = body_ids_from 0 body Map.empty in
      fold (\<lambda>(i, op). fold (\<lambda>dep g. case ids dep of None \<Rightarrow> g | Some at \<Rightarrow> link at i g) (op_deps op))
        (enumerate 0 body)
        \<lparr>g_byID = ids, g_deps = replicate (length body) [], g_waiters = replicate (length body) []\<rparr>)"

definition indegrees :: "depGraph \<Rightarrow> int list" where
  "indegrees g = map (\<lambda>d. int (length d)) (g_deps g)"

definition firstReady :: "depGraph \<Rightarrow> nat option" where
  "firstReady g = first_index (\<lambda>d. d = []) (g_deps g)"

section \<open>The heap of ready ops\<close>

definition heap_less :: "(nat \<Rightarrow> nat) \<Rightarrow> nat \<Rightarrow> nat \<Rightarrow> bool" where
  "heap_less rank a b \<longleftrightarrow> rank a < rank b \<or> (rank a = rank b \<and> a < b)"

fun heap_min :: "(nat \<Rightarrow> nat) \<Rightarrow> nat \<Rightarrow> nat list \<Rightarrow> nat" where
  "heap_min rank m [] = m"
| "heap_min rank m (x # xs) = heap_min rank (if heap_less rank x m then x else m) xs"

fun heap_pop :: "(nat \<Rightarrow> nat) \<Rightarrow> nat list \<Rightarrow> (nat \<times> nat list) option" where
  "heap_pop rank [] = None"
| "heap_pop rank (x # xs) = (let m = heap_min rank x xs in Some (m, remove1 m (x # xs)))"

definition heap_push :: "nat \<Rightarrow> nat list \<Rightarrow> nat list" where
  "heap_push x q = q @ [x]"

lemma heap_less_key: "heap_less rank a b \<longleftrightarrow> (rank a, a) < (rank b, b)"
  by (auto simp: heap_less_def)

lemma heap_min_least:
  "heap_min rank m xs \<in> set (m # xs) \<and> (\<forall>y \<in> set (m # xs). (rank (heap_min rank m xs), heap_min rank m xs) \<le> (rank y, y))"
proof (induction xs arbitrary: m)
  case (Cons x xs)
  define m' where "m' = (if heap_less rank x m then x else m)"
  have le: "(rank m', m') \<le> (rank m, m)" "(rank m', m') \<le> (rank x, x)" and mem: "m' \<in> {m, x}"
    by (auto simp: m'_def heap_less_def)
  let ?r = "heap_min rank m' xs"
  have IH: "?r \<in> set (m' # xs)" "\<forall>y \<in> set (m' # xs). (rank ?r, ?r) \<le> (rank y, y)"
    using Cons.IH [of m'] by blast+
  then have "(rank ?r, ?r) \<le> (rank m', m')" by simp
  with le have "(rank ?r, ?r) \<le> (rank m, m)" "(rank ?r, ?r) \<le> (rank x, x)"
    by (blast intro: order_trans)+
  with IH mem have "?r \<in> set (m # x # xs) \<and> (\<forall>y \<in> set (m # x # xs). (rank ?r, ?r) \<le> (rank y, y))"
    by (simp del: less_eq_prod_simp) blast
  then show ?case by (simp add: m'_def)
qed simp

interpretation ready_heap: ready_queue "heap_pop rank" heap_push mset "\<lambda>_. True" "\<lambda>i. (rank i, i)"
  for rank :: "nat \<Rightarrow> nat"
proof
  show "(heap_pop rank q = None) = (mset q = {#})" for q by (cases q) (simp_all add: Let_def)
  show "mset q = add_mset x (mset q') \<and> True \<and> (\<forall>y \<in># mset q'. (rank x, x) \<le> (rank y, y))"
    if "heap_pop rank q = Some (x, q')" for q x q'
  proof (cases q)
    case (Cons a as)
    with that have q: "x = heap_min rank a as" "q' = remove1 x q"
      by (auto simp: Let_def simp del: remove1.simps)
    then have "x \<in> set q" "\<forall>y \<in> set q. (rank x, x) \<le> (rank y, y)"
      using heap_min_least [of rank a as] Cons by auto
    moreover have "set q' \<subseteq> set q" using q(2) set_remove1_subset by metis
    ultimately show ?thesis using q(2) by (simp del: less_eq_prod_simp add: subset_iff flip: set_mset_mset)
  qed (use that in simp)
qed (simp_all add: heap_push_def)

section \<open>The Kahn pass\<close>

definition kahn :: "(nat \<Rightarrow> nat) \<Rightarrow> depGraph \<Rightarrow> nat list \<times> int list" where
  "kahn rank g =
     (let indeg = indegrees g;
          ready = filter (\<lambda>i. indeg ! i = 0) [0..<length indeg]
      in case kahn_loop (length (g_waiters g)) (heap_pop rank) heap_push (g_waiters g) ready indeg [] of
           (order, indeg', _) \<Rightarrow> (order, indeg'))"

definition cycleBlocked :: "depGraph \<Rightarrow> int list \<times> bool" where
  "cycleBlocked g = (case kahn (\<lambda>_. 0) g of (order, indeg) \<Rightarrow> (indeg, length order = length (g_deps g)))"

text \<open>\<open>nil\<close> on a cycle is the empty order.\<close>

definition levelOrder :: "depGraph \<Rightarrow> nat list \<Rightarrow> nat list" where
  "levelOrder g level =
     (case kahn (\<lambda>i. level ! i) g of (order, _) \<Rightarrow>
        if length order < length (g_deps g) then [] else order)"

fun class_changes :: "Op list \<Rightarrow> nat list \<Rightarrow> nat" where
  "class_changes body (i # j # rest) =
     (if op_elevate (body ! j) \<noteq> op_elevate (body ! i) then 1 else 0) + class_changes body (j # rest)"
| "class_changes body _ = 0"

definition chunkCount :: "Op list \<Rightarrow> nat list \<Rightarrow> nat" where
  "chunkCount body order = (if order = [] then 0 else 1 + class_changes body order)"

section \<open>Naming a cycle\<close>

datatype order_error =
    CircularDependency "string list"
  | CircularUnnamed
  | NoReadyOp

definition blockedDep :: "depGraph \<Rightarrow> nat \<Rightarrow> int list \<Rightarrow> nat option" where
  "blockedDep g op blocked = find (\<lambda>d. blocked ! d > 0) (g_deps g ! op)"

definition cycleErrorFor :: "Op list \<Rightarrow> nat list \<Rightarrow> order_error" where
  "cycleErrorFor body loop = CircularDependency (map (\<lambda>i. op_id (body ! i)) loop)"

text \<open>
  The walk along blocked dependencies. The map \<open>seen\<close> gives an op's position on the path; the loop
  ends because every round puts a new op on the path, so one round per op and one more are enough
  fuel (\<open>cycle_walk_loops\<close>).
\<close>

fun cycle_walk ::
  "nat \<Rightarrow> depGraph \<Rightarrow> int list \<Rightarrow> (nat \<rightharpoonup> nat) \<Rightarrow> nat list \<Rightarrow> nat option \<Rightarrow> nat list option" where
  "cycle_walk 0 g blocked seen path at = None"
| "cycle_walk (Suc fuel) g blocked seen path None = None"
| "cycle_walk (Suc fuel) g blocked seen path (Some u) =
     (case seen u of
        Some start \<Rightarrow> Some (drop start path @ [u])
      | None \<Rightarrow> cycle_walk fuel g blocked (seen(u \<mapsto> length path)) (path @ [u]) (blockedDep g u blocked))"

definition cycleError :: "depGraph \<Rightarrow> Op list \<Rightarrow> int list \<Rightarrow> order_error" where
  "cycleError g body blocked =
     (case cycle_walk (Suc (length body)) g blocked Map.empty [] (first_index (\<lambda>n. n > 0) blocked) of
        Some loop \<Rightarrow> cycleErrorFor body loop
      | None \<Rightarrow> CircularUnnamed)"

section \<open>Lemmas: the graph\<close>

text \<open>
  \<open>dep_graph n g E\<close>: the adjacency lists of \<open>g\<close> over \<open>n\<close> ops agree with each other and hold exactly
  the edges \<open>E\<close>, a pair being the dependency and its dependent.
\<close>

definition dep_graph :: "nat \<Rightarrow> depGraph \<Rightarrow> (nat \<times> nat) set \<Rightarrow> bool" where
  "dep_graph n g E \<longleftrightarrow>
     counted_graph n (indegrees g, g_waiters g) \<and> length (g_deps g) = n
     \<and> edges (g_waiters g) = E \<and> (\<forall>i < n. set (g_deps g ! i) = {u. (u, i) \<in> E})"

lemma dep_graph_empty:
  "dep_graph n \<lparr>g_byID = ids, g_deps = replicate n [], g_waiters = replicate n []\<rparr> {}"
  using counted_graph_empty [of n]
  by (simp add: dep_graph_def indegrees_def edges_empty map_replicate_const)

lemma dep_graph_link:
  assumes "dep_graph n g E" "at < n" "i < n"
  shows "dep_graph n (link at i g) (insert (at, i) E)"
proof -
  have L: "length (g_deps g) = n" and G: "counted_graph n (indegrees g, g_waiters g)"
    and E: "edges (g_waiters g) = E" "\<forall>i < n. set (g_deps g ! i) = {u. (u, i) \<in> E}"
    using assms(1) by (auto simp: dep_graph_def)
  have eq: "(indegrees (link at i g), g_waiters (link at i g)) = add_arc at i (indegrees g, g_waiters g)"
    using L assms(3) by (simp add: link_def add_arc_def indegrees_def map_update add.commute)
  note A = add_arc_counted [OF G assms(2,3), folded eq]
  have "set (g_deps (link at i g) ! k) = {u. (u, k) \<in> insert (at, i) E}" if "k < n" for k
    using E(2) L that assms(3) by (auto simp: link_def nth_list_update)
  with A E(1) L show ?thesis by (simp add: dep_graph_def) (simp add: link_def)
qed

lemma dep_graph_fold_link:
  "dep_graph n g E \<Longrightarrow> \<forall>(at, i) \<in> set arcs. at < n \<and> i < n \<Longrightarrow>
     dep_graph n (fold (\<lambda>(at, i). link at i) arcs g) (E \<union> set arcs)"
proof (induction arcs arbitrary: g E)
  case (Cons a arcs)
  then obtain at i where a: "a = (at, i)" "at < n" "i < n" by (cases a) auto
  have "dep_graph n (fold (\<lambda>(at, i). link at i) arcs (link at i g)) (insert (at, i) E \<union> set arcs)"
    using Cons.prems a by (intro Cons.IH dep_graph_link) auto
  with a show ?case by simp
qed simp

text \<open>The recorded edges: a dependency is the first op with its id.\<close>

definition depends_on :: "Op list \<Rightarrow> nat \<Rightarrow> nat \<Rightarrow> bool" where
  "depends_on body i at \<longleftrightarrow>
     i < length body \<and> (\<exists>dep \<in> set (op_deps (body ! i)). dep \<noteq> []
        \<and> first_index (\<lambda>op. op_id op = dep) body = Some at)"

definition dep_arcs :: "Op list \<Rightarrow> (nat \<times> nat) list" where
  "dep_arcs body =
     concat (map (\<lambda>(i, op). map (\<lambda>at. (at, i)) (List.map_filter (body_ids_from 0 body Map.empty) (op_deps op)))
       (enumerate 0 body))"

lemma fold_deps_links:
  "fold (\<lambda>dep g. case ids dep of None \<Rightarrow> g | Some at \<Rightarrow> link at i g) deps g
     = fold (\<lambda>(at, i). link at i) (map (\<lambda>at. (at, i)) (List.map_filter ids deps)) g"
  by (induction deps arbitrary: g) (auto simp: List.map_filter_simps split: option.splits)

lemma newDepGraph_links:
  "newDepGraph body =
     fold (\<lambda>(at, i). link at i) (dep_arcs body)
       \<lparr>g_byID = body_ids_from 0 body Map.empty, g_deps = replicate (length body) [],
        g_waiters = replicate (length body) []\<rparr>"
proof -
  let ?ids = "body_ids_from 0 body Map.empty"
  have "fold (\<lambda>(i, op). fold (\<lambda>dep g. case ?ids dep of None \<Rightarrow> g | Some at \<Rightarrow> link at i g) (op_deps op)) xs g
      = fold (\<lambda>(at, i). link at i)
          (concat (map (\<lambda>(i, op). map (\<lambda>at. (at, i)) (List.map_filter ?ids (op_deps op))) xs)) g" for xs g
    by (induction xs arbitrary: g) (auto simp: fold_deps_links)
  then show ?thesis by (simp add: newDepGraph_def dep_arcs_def Let_def)
qed

lemma set_graph_dep_arcs: "set (dep_arcs body) = {(at, i). depends_on body i at}"
proof -
  have mem: "at \<in> set (List.map_filter m deps) \<longleftrightarrow> (\<exists>dep \<in> set deps. m dep = Some at)" for at m deps
    by (force simp: List.map_filter_def)
  have "(at, i) \<in> set (dep_arcs body) \<longleftrightarrow>
      (\<exists>op. (i, op) \<in> set (enumerate 0 body) \<and> (\<exists>dep \<in> set (op_deps op). body_ids_from 0 body Map.empty dep = Some at))"
    for at i
    by (force simp: dep_arcs_def mem)
  moreover have "(\<exists>op. (i, op) \<in> set (enumerate 0 body) \<and> (\<exists>dep \<in> set (op_deps op). body_ids_from 0 body Map.empty dep = Some at))
      \<longleftrightarrow> depends_on body i at" for at i
    by (auto simp: in_enumerate_iff depends_on_def body_ids_lookup)
  ultimately show ?thesis by auto
qed

lemma depends_on_bounds: "depends_on body i at \<Longrightarrow> i < length body \<and> at < length body"
  by (auto simp: depends_on_def)

lemma newDepGraph_dep_graph:
  "dep_graph (length body) (newDepGraph body) {(at, i). depends_on body i at}"
proof -
  have "\<forall>(at, i) \<in> set (dep_arcs body). at < length body \<and> i < length body"
    by (auto simp: set_graph_dep_arcs dest: depends_on_bounds)
  from dep_graph_fold_link [OF dep_graph_empty this] show ?thesis
    by (simp add: newDepGraph_links set_graph_dep_arcs)
qed

section \<open>Lemmas: the pass\<close>

lemma kahn_facts:
  assumes "dep_graph n g E" and "kahn rank g = (order, indeg)"
  shows "distinct order" and "set order \<subseteq> {..<n}"
    and "\<And>u v. v \<in> set order \<Longrightarrow> (u, v) \<in> E \<Longrightarrow> before order u v"
    and "\<And>v. v < n \<Longrightarrow> v \<in> set order \<longleftrightarrow> indeg ! v = 0"
    and "\<And>v. v < n \<Longrightarrow> indeg ! v \<ge> 0" and "length indeg = n"
    and "set order = {..<n} \<longleftrightarrow> acyclic E"
    and "ready_heap.least_ready rank (g_waiters g) order"
    and "\<And>v. v < n \<Longrightarrow> indeg ! v = int (indeg_without (g_waiters g) (set order) v)"
proof -
  have G: "counted_graph n (indegrees g, g_waiters g)" and E: "edges (g_waiters g) = E"
    and n: "length (indegrees g) = n" "length (g_waiters g) = n"
    using assms(1) by (auto simp: dep_graph_def counted_graph_def)
  let ?ready = "filter (\<lambda>i. indegrees g ! i = 0) [0..<length (indegrees g)]"
  have "mset ?ready = mset_set {v. v < n \<and> indegrees g ! v = 0}"
    using n by (simp add: mset_filter mset_set_upto_eq_mset_upto [symmetric] atLeast0LessThan lessThan_def)
  then have init: "ready_heap.kahn_inv rank (g_waiters g) ?ready (indegrees g) []"
    by (intro ready_heap.kahn_inv_counted [OF G]) simp_all
  obtain q where run: "kahn_loop (length (g_waiters g)) (heap_pop rank) heap_push (g_waiters g) ?ready (indegrees g) []
      = (order, indeg, q)"
    using assms(2) by (auto simp: kahn_def Let_def split: prod.splits)
  note K = ready_heap.kahn_correct [OF init run]
  have e: "edge (g_waiters g) u v \<longleftrightarrow> (u, v) \<in> E" for u v using E by (auto simp: edges_def)
  show "distinct order" "set order \<subseteq> {..<n}" "length indeg = n" "ready_heap.least_ready rank (g_waiters g) order"
    using K n by auto
  show "\<And>u v. v \<in> set order \<Longrightarrow> (u, v) \<in> E \<Longrightarrow> before order u v" using K e by blast
  show "\<And>v. v < n \<Longrightarrow> v \<in> set order \<longleftrightarrow> indeg ! v = 0" "\<And>v. v < n \<Longrightarrow> indeg ! v \<ge> 0"
    "\<And>v. v < n \<Longrightarrow> indeg ! v = int (indeg_without (g_waiters g) (set order) v)"
    using K n by auto
  show "set order = {..<n} \<longleftrightarrow> acyclic E" using K n E by auto
qed

lemma full_order_length: "distinct order \<Longrightarrow> set order \<subseteq> {..<n} \<Longrightarrow> length order = n \<longleftrightarrow> set order = {..<n}"
  by (metis card_lessThan card_subset_eq distinct_card finite_lessThan)

lemma cycleBlocked_acyclic_iff:
  assumes "dep_graph n g E" "cycleBlocked g = (blocked, ok)"
  shows "ok \<longleftrightarrow> acyclic E"
proof -
  obtain order where k: "kahn (\<lambda>_. 0) g = (order, blocked)" and ok: "ok \<longleftrightarrow> length order = length (g_deps g)"
    using assms(2) by (auto simp: cycleBlocked_def split: prod.splits)
  then show ?thesis
    using kahn_facts(1,2,7) [OF assms(1) k] full_order_length assms(1) by (auto simp: dep_graph_def)
qed

lemma levelOrder_facts:
  assumes "dep_graph n g E" "acyclic E"
  shows "distinct (levelOrder g level)" and "set (levelOrder g level) = {..<n}"
    and "\<And>u v. (u, v) \<in> E \<Longrightarrow> before (levelOrder g level) u v"
proof -
  obtain order indeg where k: "kahn (\<lambda>i. level ! i) g = (order, indeg)" by fastforce
  note F = kahn_facts [OF assms(1) k]
  have all: "set order = {..<n}" using F(7) assms(2) by blast
  then have "length order = n" using full_order_length [OF F(1,2)] by blast
  then have lo: "levelOrder g level = order" using assms(1) k by (simp add: levelOrder_def dep_graph_def)
  show "distinct (levelOrder g level)" "set (levelOrder g level) = {..<n}" using F(1) all lo by auto
  have "E \<subseteq> {..<n} \<times> {..<n}"
    using assms(1) by (auto simp: dep_graph_def counted_graph_def closed_graph_def edges_def edge_def)
  with F(3) all lo show "\<And>u v. (u, v) \<in> E \<Longrightarrow> before (levelOrder g level) u v" by auto
qed

section \<open>Lemmas: the walk\<close>

text \<open>On the path, each op is followed by a blocked dependency of its own.\<close>

definition dep_chain :: "depGraph \<Rightarrow> nat list \<Rightarrow> bool" where
  "dep_chain g path \<longleftrightarrow> (\<forall>k. Suc k < length path \<longrightarrow> path ! Suc k \<in> set (g_deps g ! (path ! k)))"

lemma dep_chain_snoc:
  "dep_chain g path \<Longrightarrow> (path \<noteq> [] \<Longrightarrow> u \<in> set (g_deps g ! last path)) \<Longrightarrow> dep_chain g (path @ [u])"
proof -
  assume c: "dep_chain g path" and u: "path \<noteq> [] \<Longrightarrow> u \<in> set (g_deps g ! last path)"
  show ?thesis unfolding dep_chain_def
  proof (intro allI impI)
    fix k assume k: "Suc k < length (path @ [u])"
    show "(path @ [u]) ! Suc k \<in> set (g_deps g ! ((path @ [u]) ! k))"
    proof (cases "Suc k < length path")
      case True
      then show ?thesis using c by (simp add: dep_chain_def nth_append)
    next
      case False
      with k have "Suc k = length path" "path \<noteq> []" by auto
      then show ?thesis using u by (auto simp: nth_append last_conv_nth simp flip: \<open>Suc k = length path\<close>)
    qed
  qed
qed

lemma dep_chain_drop: "dep_chain g path \<Longrightarrow> dep_chain g (drop m path)"
  by (auto simp: dep_chain_def)

text \<open>What the walk returns: a closed loop of dependencies.\<close>

definition dep_loop :: "depGraph \<Rightarrow> nat list \<Rightarrow> bool" where
  "dep_loop g loop \<longleftrightarrow> 2 \<le> length loop \<and> hd loop = last loop \<and> dep_chain g loop"

lemma cycle_walk_loops:
  assumes "\<And>v. v < n \<Longrightarrow> blocked ! v > 0 \<Longrightarrow> \<exists>d. blockedDep g v blocked = Some d"
    and "\<And>v d. v < n \<Longrightarrow> d \<in> set (g_deps g ! v) \<Longrightarrow> d < n"
    and "u < n" "blocked ! u > 0" "n < fuel + length path"
    and "distinct path" "set path \<subseteq> {..<n}" "dep_chain g path"
    and "path \<noteq> [] \<Longrightarrow> u \<in> set (g_deps g ! last path)"
    and "\<And>v i. seen v = Some i \<longleftrightarrow> i < length path \<and> path ! i = v"
  shows "\<exists>loop. cycle_walk fuel g blocked seen path (Some u) = Some loop \<and> dep_loop g loop \<and> set loop \<subseteq> {..<n}"
  using assms(3-)
proof (induction fuel arbitrary: u path seen)
  case 0
  have "length path \<le> n" using 0 by (metis card_lessThan card_mono distinct_card finite_lessThan)
  with 0 show ?case by simp
next
  case (Suc fuel)
  show ?case
  proof (cases "seen u")
    case (Some start)
    then have s: "start < length path" "path ! start = u" using Suc.prems(8) by auto
    let ?loop = "drop start path @ [u]"
    have "dep_chain g ?loop"
      using Suc.prems(6,7) s by (intro dep_chain_snoc dep_chain_drop) (fastforce simp: last_drop)+
    moreover have "hd ?loop = u" using s by (simp add: hd_drop_conv_nth)
    moreover have "set ?loop \<subseteq> {..<n}" using Suc.prems(1,5) by (auto dest: in_set_dropD)
    ultimately show ?thesis using Some s by (auto simp: dep_loop_def)
  next
    case None
    from assms(1) [OF Suc.prems(1,2)] obtain d where d: "blockedDep g u blocked = Some d" by blast
    then have dd: "d \<in> set (g_deps g ! u)" "blocked ! d > 0"
      by (auto simp: blockedDep_def find_Some_iff)
    have fresh: "u \<notin> set path" using None Suc.prems(8) by (metis in_set_conv_nth not_Some_eq)
    have "\<exists>loop. cycle_walk fuel g blocked (seen(u \<mapsto> length path)) (path @ [u]) (Some d) = Some loop
        \<and> dep_loop g loop \<and> set loop \<subseteq> {..<n}"
    proof (rule Suc.IH)
      show "d < n" using assms(2) [OF Suc.prems(1) dd(1)] .
      show "dep_chain g (path @ [u])" using Suc.prems(6,7) by (rule dep_chain_snoc)
      show "(seen(u \<mapsto> length path)) v = Some i \<longleftrightarrow> i < length (path @ [u]) \<and> (path @ [u]) ! i = v" for v i
        using Suc.prems(8) fresh by (auto simp: nth_append less_Suc_eq)
    qed (use Suc.prems fresh dd in auto)
    with None d show ?thesis by simp
  qed
qed

lemma cycleError_names:
  assumes g: "dep_graph n g E" and b: "cycleBlocked g = (blocked, False)" and n: "n = length body"
  shows "\<exists>loop. cycleError g body blocked = CircularDependency (map (\<lambda>i. op_id (body ! i)) loop)
           \<and> dep_loop g loop \<and> set loop \<subseteq> {..<n}"
proof -
  obtain order where k: "kahn (\<lambda>_. 0) g = (order, blocked)" and short: "length order \<noteq> n"
    using b g by (auto simp: cycleBlocked_def dep_graph_def split: prod.splits)
  note F = kahn_facts [OF g k]
  have E: "edges (g_waiters g) = E" using g by (simp add: dep_graph_def)
  have D: "\<And>i. i < n \<Longrightarrow> set (g_deps g ! i) = {u. (u, i) \<in> E}" and bounds: "\<And>u v. (u, v) \<in> E \<Longrightarrow> u < n"
    using g by (auto simp: dep_graph_def counted_graph_def edges_def edge_def)
  have open_dep: "\<exists>d. blockedDep g v blocked = Some d" if v: "v < n" "blocked ! v > 0" for v
  proof -
    have "indeg_without (g_waiters g) (set order) v \<noteq> 0" using F(9) [OF v(1)] v(2) by simp
    then obtain u where u: "(u, v) \<in> E" "u \<notin> set order"
      using E by (auto simp: indeg_without_0_iff edges_def)
    then have "u \<in> set (g_deps g ! v)" "blocked ! u > 0"
      using D [OF v(1)] bounds [OF u(1)] F(4) [of u] F(5) [of u] by auto
    then show ?thesis by (cases "blockedDep g v blocked") (auto simp: blockedDep_def find_None_iff)
  qed
  have "\<exists>v < n. blocked ! v > 0"
  proof -
    have "set order \<noteq> {..<n}" using short full_order_length [OF F(1,2)] by blast
    with F(2) obtain v where "v < n" "v \<notin> set order" by auto
    with F(4) [of v] F(5) [of v] show ?thesis by (intro exI [of _ v]) auto
  qed
  then obtain u where u: "first_index (\<lambda>m. m > 0) blocked = Some u"
    using first_index_exists [of _ blocked "\<lambda>m. m > 0"] F(6) by (metis nth_mem)
  then have "u < n" "blocked ! u > 0" using first_index_SomeD [OF u] F(6) by auto
  then obtain loop where "cycle_walk (Suc (length body)) g blocked Map.empty [] (Some u) = Some loop"
    "dep_loop g loop" "set loop \<subseteq> {..<n}"
    using cycle_walk_loops [of n blocked g u "Suc (length body)" "[]" Map.empty] open_dep D bounds n
    by (auto simp: dep_chain_def)
  with u show ?thesis by (auto simp: cycleError_def cycleErrorFor_def)
qed

end
