(* ===== verification/ApplyLevels.thy ===== *)
theory ApplyLevels
  imports DepGraph
begin

text \<open>
  The chunk levels of an \<open>api.Apply\<close> body (\<open>api/apply_levels.go\<close>): the constraint graph of the
  levels, its strongly connected components by Tarjan's algorithm, the levels as longest paths over
  the components, and the watches inside one privilege class. A Go map from an op to its watch edges
  is a function that is empty where the map has no entry; the stack's top is the head of its list.
  A visit recurses only into ops with no number yet, so the recursion is never deeper than the
  number of ops, which is the fuel of \<open>visit\<close>.
\<close>

section \<open>The constraint graph\<close>

record watchPair =
  wp_gated :: nat
  wp_watched :: nat

record levelGraph =
  lg_body :: "Op list"
  lg_waiters :: "nat list list"
  lg_incoming :: "nat list list"
  lg_watch :: "nat \<Rightarrow> nat list"

definition addWatch :: "watchPair \<Rightarrow> levelGraph \<Rightarrow> levelGraph" where
  "addWatch p lg =
     (let w = (lg_watch lg)(wp_gated p := lg_watch lg (wp_gated p) @ [wp_watched p])
      in lg\<lparr>lg_watch := w(wp_watched p := w (wp_watched p) @ [wp_gated p])\<rparr>)"

definition removeWatch :: "watchPair \<Rightarrow> levelGraph \<Rightarrow> levelGraph" where
  "removeWatch p lg =
     (let w = (lg_watch lg)(wp_gated p := remove1 (wp_watched p) (lg_watch lg (wp_gated p)))
      in lg\<lparr>lg_watch := w(wp_watched p := remove1 (wp_gated p) (w (wp_watched p)))\<rparr>)"

definition withWatches :: "levelGraph \<Rightarrow> watchPair list \<Rightarrow> levelGraph" where
  "withWatches lg watches = fold addWatch watches (lg\<lparr>lg_watch := \<lambda>_. []\<rparr>)"

definition newLevelGraph :: "depGraph \<Rightarrow> Op list \<Rightarrow> watchPair list \<Rightarrow> levelGraph" where
  "newLevelGraph g body watches =
     withWatches \<lparr>lg_body = body, lg_waiters = g_waiters g, lg_incoming = g_deps g, lg_watch = \<lambda>_. []\<rparr> watches"

text \<open>The ops that \<open>each\<close> visits, in its order.\<close>

definition each :: "levelGraph \<Rightarrow> nat \<Rightarrow> nat list" where
  "each lg u = lg_waiters lg ! u @ lg_watch lg u"

definition class_of :: "levelGraph \<Rightarrow> nat \<Rightarrow> bool" where
  "class_of lg u = op_elevate (lg_body lg ! u)"

section \<open>Strongly connected components\<close>

record tarjan =
  t_index :: "int list"
  t_low :: "int list"
  t_onStack :: "bool list"
  t_stack :: "nat list"
  t_comp :: "nat list"
  t_next :: int
  t_count :: nat

definition enter :: "nat \<Rightarrow> tarjan \<Rightarrow> tarjan" where
  "enter u t =
     t\<lparr>t_index := (t_index t)[u := t_next t], t_low := (t_low t)[u := t_next t],
       t_next := t_next t + 1, t_stack := u # t_stack t, t_onStack := (t_onStack t)[u := True]\<rparr>"

fun pop_component :: "nat \<Rightarrow> nat list \<Rightarrow> tarjan \<Rightarrow> tarjan" where
  "pop_component u [] t = t\<lparr>t_stack := []\<rparr>"
| "pop_component u (w # stack) t =
     (let t' = t\<lparr>t_onStack := (t_onStack t)[w := False], t_comp := (t_comp t)[w := t_count t]\<rparr>
      in if w = u then t'\<lparr>t_stack := stack\<rparr> else pop_component u stack t')"

definition lower :: "nat \<Rightarrow> int \<Rightarrow> tarjan \<Rightarrow> tarjan" where
  "lower u l t = t\<lparr>t_low := (t_low t)[u := min (t_low t ! u) l]\<rparr>"

fun visit :: "nat \<Rightarrow> levelGraph \<Rightarrow> nat \<Rightarrow> tarjan \<Rightarrow> tarjan" where
  "visit 0 lg u t = t"
| "visit (Suc fuel) lg u t =
     (let t' = fold (\<lambda>v s.
                 if t_index s ! v < 0 then
                   let s' = visit fuel lg v s in lower u (t_low s' ! v) s'
                 else if t_onStack s ! v then lower u (t_index s ! v) s
                 else s) (each lg u) (enter u t)
      in if t_low t' ! u \<noteq> t_index t' ! u then t'
         else let t'' = pop_component u (t_stack t') t' in t''\<lparr>t_count := t_count t'' + 1\<rparr>)"

definition components :: "levelGraph \<Rightarrow> nat list \<times> nat" where
  "components lg =
     (let n = length (lg_body lg);
          t = fold (\<lambda>i t. if t_index t ! i < 0 then visit n lg i t else t) [0..<n]
                \<lparr>t_index = replicate n (- 1), t_low = replicate n 0, t_onStack = replicate n False,
                 t_stack = [], t_comp = replicate n 0, t_next = 0, t_count = 0\<rparr>
      in (t_comp t, t_count t))"

section \<open>Levels\<close>

text \<open>The first component found with a cross-class edge; \<open>None\<close> is \<open>ok\<close>.\<close>

definition watchesSatisfiable :: "levelGraph \<Rightarrow> nat option" where
  "watchesSatisfiable lg =
     (let cnum = fst (components lg) in
      map_option (\<lambda>(u, v). cnum ! u)
        (find (\<lambda>(u, v). cnum ! u = cnum ! v \<and> class_of lg u \<noteq> class_of lg v)
           (concat (map (\<lambda>u. map (\<lambda>v. (u, v)) (each lg u)) [0..<length (lg_body lg)]))))"

definition sameClassWatches :: "depGraph \<Rightarrow> Op list \<Rightarrow> watchPair list" where
  "sameClassWatches g body =
     concat (map (\<lambda>(i, op).
       if \<not> op_if_changed op then []
       else concat (map (\<lambda>w. case g_byID g w of
              Some j \<Rightarrow> if j \<noteq> i \<and> op_elevate (body ! j) = op_elevate op
                        then [\<lparr>wp_gated = i, wp_watched = j\<rparr>] else []
            | None \<Rightarrow> []) (op_watch op))) (enumerate 0 body))"

definition class_bit :: "Op list \<Rightarrow> bool \<Rightarrow> nat \<Rightarrow> nat" where
  "class_bit body start i = (if op_elevate (body ! i) = start then 0 else 1)"

text \<open>One component's pass: every edge that leaves it lifts the component it leads to.\<close>

definition lift_component ::
  "levelGraph \<Rightarrow> (nat \<Rightarrow> nat) \<Rightarrow> nat list \<Rightarrow> nat \<Rightarrow> nat list \<Rightarrow> nat list" where
  "lift_component lg b cnum c x =
     fold (\<lambda>u. fold (\<lambda>v x.
             if cnum ! v \<noteq> c then x[cnum ! v := max (x ! (cnum ! v)) (x ! c + b u * (1 - b v))] else x)
           (each lg u))
       (filter (\<lambda>i. cnum ! i = c) [0..<length cnum]) x"

definition chunkLevels :: "depGraph \<Rightarrow> Op list \<Rightarrow> bool \<Rightarrow> watchPair list \<Rightarrow> nat list" where
  "chunkLevels g body start kept =
     (let lg = newLevelGraph g body kept;
          (cnum, count) = components lg;
          b = class_bit body start;
          x = fold (lift_component lg b cnum) (rev [0..<count]) (replicate count 0)
      in map (\<lambda>i. 2 * x ! (cnum ! i) + b i) [0..<length body])"

section \<open>Lemmas\<close>

lemma length_chunkLevels [simp]: "length (chunkLevels g body start kept) = length body"
  by (simp add: chunkLevels_def Let_def split: prod.split)

lemma newLevelGraph_keeps [simp]:
  "lg_body (newLevelGraph g body ws) = body" "lg_waiters (newLevelGraph g body ws) = g_waiters g"
  "lg_incoming (newLevelGraph g body ws) = g_deps g"
proof -
  have "lg_body (fold addWatch ws lg) = lg_body lg \<and> lg_waiters (fold addWatch ws lg) = lg_waiters lg
      \<and> lg_incoming (fold addWatch ws lg) = lg_incoming lg" for lg
    by (induction ws arbitrary: lg) (simp_all add: addWatch_def Let_def)
  then show "lg_body (newLevelGraph g body ws) = body" "lg_waiters (newLevelGraph g body ws) = g_waiters g"
    "lg_incoming (newLevelGraph g body ws) = g_deps g"
    by (simp_all add: newLevelGraph_def withWatches_def)
qed

lemma fold_addWatch_mem:
  "v \<in> set (lg_watch (fold addWatch ws lg) u) \<longleftrightarrow>
     v \<in> set (lg_watch lg u) \<or> (\<exists>p \<in> set ws. (wp_gated p = u \<and> wp_watched p = v) \<or> (wp_gated p = v \<and> wp_watched p = u))"
  by (induction ws arbitrary: lg) (auto simp: addWatch_def Let_def)

lemma each_newLevelGraph:
  "v \<in> set (each (newLevelGraph g body ws) u) \<longleftrightarrow>
     v \<in> set (g_waiters g ! u)
     \<or> (\<exists>p \<in> set ws. (wp_gated p = u \<and> wp_watched p = v) \<or> (wp_gated p = v \<and> wp_watched p = u))"
  by (simp add: each_def) (simp add: newLevelGraph_def withWatches_def fold_addWatch_mem)

lemma sameClassWatches_bounds:
  assumes "g_byID g = body_ids_from 0 body Map.empty" "p \<in> set (sameClassWatches g body)"
  shows "wp_gated p < length body \<and> wp_watched p < length body \<and> wp_gated p \<noteq> wp_watched p
    \<and> op_elevate (body ! wp_gated p) = op_elevate (body ! wp_watched p)"
  using assms
  by (auto simp: sameClassWatches_def in_enumerate_iff body_ids_lookup split: if_splits option.splits
      dest!: first_index_bound [OF sym])

end
