(* ===== verification/ApplyConflicts.thy ===== *)
theory ApplyConflicts
  imports ApplyLevels GoFormat
begin

text \<open>
  Which change watches an \<open>api.Apply\<close> body keeps, and why the others go (\<open>api/apply_conflicts.go\<close> and
  \<open>keptWatches\<close> of \<open>api/apply_levels.go\<close>): the searches over (op, crossed) states, the greedy choice
  of watches, the witness of a conflict and its reduction. The stamped scratch arrays of \<open>pathMarks\<close>
  are, within one search, the list of visited states with how each was reached. A search visits at
  most two states per op and dequeues each once, so \<open>2 * n + 1\<close> steps are enough fuel.
\<close>

section \<open>One search\<close>

record stateSearch =
  ss_queue :: "nat list"
  ss_seen :: "(nat \<times> nat option \<times> bool) list"

definition marked :: "stateSearch \<Rightarrow> nat \<Rightarrow> bool" where
  "marked s st = (map_of (ss_seen s) st \<noteq> None)"

definition visit_state :: "nat \<Rightarrow> nat option \<Rightarrow> bool \<Rightarrow> stateSearch \<Rightarrow> stateSearch" where
  "visit_state st parent byWatch s =
     (if marked s st then s
      else s\<lparr>ss_seen := (st, parent, byWatch) # ss_seen s, ss_queue := ss_queue s @ [st]\<rparr>)"

definition forwardSearch :: "nat \<Rightarrow> stateSearch" where
  "forwardSearch from = visit_state (2 * from) None False \<lparr>ss_queue = [], ss_seen = []\<rparr>"

definition backwardSearch :: "nat \<Rightarrow> stateSearch" where
  "backwardSearch to = visit_state (2 * to + 1) None False \<lparr>ss_queue = [], ss_seen = []\<rparr>"

definition expandForward :: "levelGraph \<Rightarrow> nat \<Rightarrow> stateSearch \<Rightarrow> stateSearch" where
  "expandForward lg st s =
     (let u = st div 2;
          crossed = st mod 2;
          step = (\<lambda>byWatch v s.
            let c = (if class_of lg v \<noteq> class_of lg u then 1 else crossed)
            in if marked s (2 * v + 1) then s else visit_state (2 * v + c) (Some st) byWatch s)
      in fold (step True) (lg_watch lg u) (fold (step False) (lg_waiters lg ! u) s))"

definition expandBackward :: "levelGraph \<Rightarrow> nat \<Rightarrow> stateSearch \<Rightarrow> stateSearch" where
  "expandBackward lg st s =
     (let y = st div 2;
          crossed = st mod 2;
          pred = (\<lambda>x s.
            if class_of lg x = class_of lg y then visit_state (2 * x + crossed) (Some st) False s
            else if crossed = 1
            then visit_state (2 * x + 1) (Some st) False (visit_state (2 * x) (Some st) False s)
            else s)
      in fold pred (lg_watch lg y) (fold pred (lg_incoming lg ! y) s))"

text \<open>One step of a search: \<open>Some found\<close> when it is done.\<close>

definition search_step ::
  "(nat \<Rightarrow> stateSearch \<Rightarrow> stateSearch) \<Rightarrow> nat \<Rightarrow> stateSearch \<Rightarrow> bool option \<times> stateSearch" where
  "search_step expand target s =
     (case ss_queue s of
        [] \<Rightarrow> (Some False, s)
      | st # queue \<Rightarrow>
          let s' = s\<lparr>ss_queue := queue\<rparr>
          in if st = target then (Some True, s') else (None, expand st s'))"

section \<open>Walks that cross the classes\<close>

fun cross_loop :: "nat \<Rightarrow> levelGraph \<Rightarrow> nat \<Rightarrow> nat \<Rightarrow> stateSearch \<Rightarrow> stateSearch \<Rightarrow> bool" where
  "cross_loop 0 lg from to fwd back = False"
| "cross_loop (Suc fuel) lg from to fwd back =
     (case search_step (expandForward lg) (2 * to + 1) fwd of
        (Some found, _) \<Rightarrow> found
      | (None, fwd') \<Rightarrow>
          (case search_step (expandBackward lg) (2 * from) back of
             (Some found, _) \<Rightarrow> found
           | (None, back') \<Rightarrow> cross_loop fuel lg from to fwd' back'))"

definition hasCrossWalk :: "levelGraph \<Rightarrow> nat \<Rightarrow> nat \<Rightarrow> bool" where
  "hasCrossWalk lg from to =
     cross_loop (2 * length (lg_body lg) + 1) lg from to (forwardSearch from) (backwardSearch to)"

definition closesCrossCycle :: "levelGraph \<Rightarrow> watchPair \<Rightarrow> bool" where
  "closesCrossCycle lg p \<longleftrightarrow>
     hasCrossWalk lg (wp_gated p) (wp_watched p) \<or> hasCrossWalk lg (wp_watched p) (wp_gated p)"

fun path_loop :: "nat \<Rightarrow> levelGraph \<Rightarrow> nat \<Rightarrow> stateSearch \<Rightarrow> bool \<times> stateSearch" where
  "path_loop 0 lg to fwd = (False, fwd)"
| "path_loop (Suc fuel) lg to fwd =
     (case search_step (expandForward lg) (2 * to + 1) fwd of
        (Some found, fwd') \<Rightarrow> (found, fwd')
      | (None, fwd') \<Rightarrow> path_loop fuel lg to fwd')"

definition crossPath :: "levelGraph \<Rightarrow> nat \<Rightarrow> nat \<Rightarrow> bool \<times> stateSearch" where
  "crossPath lg from to = path_loop (2 * length (lg_body lg) + 1) lg to (forwardSearch from)"

section \<open>The witness of a conflict\<close>

definition edgeKey :: "watchPair \<Rightarrow> nat \<times> nat" where
  "edgeKey k = (min (wp_gated k) (wp_watched k), max (wp_gated k) (wp_watched k))"

text \<open>The index of the first kept watch on an edge; a Go map gives 0 for an edge it does not have.\<close>

definition keptIndex :: "watchPair list \<Rightarrow> nat \<times> nat \<Rightarrow> nat" where
  "keptIndex kept e = (case first_index (\<lambda>k. edgeKey k = e) kept of Some i \<Rightarrow> i | None \<Rightarrow> 0)"

fun read_back :: "nat \<Rightarrow> stateSearch \<Rightarrow> (nat \<times> nat \<Rightarrow> nat) \<Rightarrow> nat \<Rightarrow> nat list" where
  "read_back 0 m index st = []"
| "read_back (Suc fuel) m index st =
     (case map_of (ss_seen m) st of
        Some (Some parent, byWatch) \<Rightarrow>
          (if byWatch then [index (edgeKey \<lparr>wp_gated = parent div 2, wp_watched = st div 2\<rparr>)] else [])
            @ read_back fuel m index parent
      | _ \<Rightarrow> [])"

definition witness_watches :: "levelGraph \<Rightarrow> watchPair \<Rightarrow> watchPair list \<Rightarrow> watchPair list" where
  "witness_watches lg p kept =
     (let (found, m) = crossPath lg (wp_watched p) (wp_gated p);
          (to, m') = (if found then (wp_gated p, m)
                      else (wp_watched p, snd (crossPath lg (wp_gated p) (wp_watched p))));
          used = read_back (2 * length (lg_body lg)) m' (keptIndex kept) (2 * to + 1)
      in map (\<lambda>k. kept ! k) (remdups_adj (sort used)))"

section \<open>Reducing a conflict\<close>

definition watches_at :: "watchPair list \<Rightarrow> nat \<Rightarrow> nat list" where
  "watches_at ws n =
     concat (map (\<lambda>(i, k). (if wp_gated k = n then [i] else []) @ (if wp_watched k = n then [i] else []))
       (enumerate 0 ws))"

definition plain_op :: "levelGraph \<Rightarrow> watchPair list \<Rightarrow> watchPair \<Rightarrow> nat \<Rightarrow> bool" where
  "plain_op lg ws p n \<longleftrightarrow>
     n \<noteq> wp_gated p \<and> n \<noteq> wp_watched p \<and> length (watches_at ws n) = 2
     \<and> lg_waiters lg ! n = [] \<and> lg_incoming lg ! n = []"

fun follow_run ::
  "nat \<Rightarrow> levelGraph \<Rightarrow> watchPair list \<Rightarrow> watchPair \<Rightarrow> nat \<Rightarrow> bool list \<times> watchPair list
     \<Rightarrow> bool list \<times> watchPair list" where
  "follow_run 0 lg ws p n st = st"
| "follow_run (Suc fuel) lg ws p n (taken, unit) =
     (if \<not> plain_op lg ws p n then (taken, unit)
      else let first = watches_at ws n ! 0;
               nxt = (if taken ! first then watches_at ws n ! 1 else first)
           in if taken ! nxt then (taken, unit)
              else follow_run fuel lg ws p (wp_gated (ws ! nxt) + wp_watched (ws ! nxt) - n)
                     (taken[nxt := True], unit @ [ws ! nxt]))"

definition seriesUnits :: "levelGraph \<Rightarrow> watchPair list \<Rightarrow> watchPair \<Rightarrow> watchPair list list" where
  "seriesUnits lg ws p =
     snd (fold (\<lambda>i (taken, units).
             if taken ! i then (taken, units)
             else let run = follow_run (Suc (length ws)) lg ws p;
                      (taken', unit) = run (wp_watched (ws ! i))
                        (run (wp_gated (ws ! i)) (taken[i := True], [ws ! i]))
                  in (taken', units @ [unit]))
           [0..<length ws] (replicate (length ws) False, []))"

definition shrinkConflict :: "levelGraph \<Rightarrow> watchPair list \<Rightarrow> watchPair \<Rightarrow> watchPair list" where
  "shrinkConflict lg ws p =
     (let (_, removed) = fold (\<lambda>unit (lg', removed).
            let cut = fold removeWatch unit lg'
            in if closesCrossCycle cut p then (cut, unit @ removed)
               else (fold addWatch unit cut, removed))
          (seriesUnits lg ws p) (withWatches lg ws, [])
      in filter (\<lambda>k. k \<notin> set removed) ws)"

definition watch_name :: "Op list \<Rightarrow> watchPair \<Rightarrow> string" where
  "watch_name body k = op_id (body ! wp_gated k) @ '' watching '' @ op_id (body ! wp_watched k)"

type_synonym watchConflicts = "string \<times> string \<rightharpoonup> string list"

definition conflictsOf :: "levelGraph \<Rightarrow> watchPair list \<Rightarrow> watchPair list \<Rightarrow> watchConflicts" where
  "conflictsOf keptGraph kept dropped =
     (let body = lg_body keptGraph;
          lg = withWatches keptGraph []
      in fold (\<lambda>p conflicts.
             if closesCrossCycle lg p then conflicts
             else conflicts((op_id (body ! wp_gated p), op_id (body ! wp_watched p)) \<mapsto>
                    map (watch_name body) (shrinkConflict lg (witness_watches keptGraph p kept) p)))
           dropped Map.empty)"

definition conflictNote :: "string list \<Rightarrow> string" where
  "conflictNote with =
     (case with of
        [w] \<Rightarrow> ''the change watch '' @ w
      | _ \<Rightarrow>
          let ws = (if length with > 3 then take 3 with @ [decimal (length with - 3) @ '' more''] else with)
          in ''the change watches '' @ join '', '' (butlast ws) @ '' and '' @ last ws)"

section \<open>The watches that are kept\<close>

definition keep_watch ::
  "watchPair \<Rightarrow> levelGraph \<times> watchPair list \<times> watchPair list \<Rightarrow> levelGraph \<times> watchPair list \<times> watchPair list"
where
  "keep_watch p = (\<lambda>(lg, kept, dropped).
     if closesCrossCycle lg p then (lg, kept, dropped @ [p])
     else (addWatch p lg, kept @ [p], dropped))"

definition keptWatches :: "depGraph \<Rightarrow> Op list \<Rightarrow> watchPair list \<times> watchConflicts" where
  "keptWatches g body =
     (let all = sameClassWatches g body in
      if watchesSatisfiable (newLevelGraph g body all) = None then (all, Map.empty)
      else case fold keep_watch all (newLevelGraph g body [], [], []) of
             (lg, kept, dropped) \<Rightarrow> (kept, conflictsOf lg kept dropped))"

section \<open>Lemmas\<close>

lemma fold_keep_watch_kept:
  "set (fst (snd (fold keep_watch ws (lg, kept, dropped)))) \<subseteq> set kept \<union> set ws"
proof (induction ws arbitrary: lg kept dropped)
  case (Cons p ws)
  show ?case
    using Cons.IH [of lg kept "dropped @ [p]"] Cons.IH [of "addWatch p lg" "kept @ [p]" dropped]
    by (auto simp: keep_watch_def)
qed simp

lemma keptWatches_subset: "set (fst (keptWatches g body)) \<subseteq> set (sameClassWatches g body)"
  using fold_keep_watch_kept [of "sameClassWatches g body" "newLevelGraph g body []" "[]" "[]"]
  by (auto simp: keptWatches_def Let_def split: prod.splits)

end
