(* ===== verification/ApplyOrder.thy ===== *)
theory ApplyOrder
  imports ApplyConflicts
begin

text \<open>
  The op order of an \<open>api.Apply\<close> plan with elevated ops (\<open>api/apply_order.go\<close>):
  \<open>withParentDirDeps\<close> and \<open>orderForPrivilegeSplit\<close>, over the graph of \<open>DepGraph\<close>, the levels of
  \<open>ApplyLevels\<close> and the kept watches of \<open>ApplyConflicts\<close>. A cyclic plan is refused with a cycle by
  name; every other plan comes back as a permutation with each dependency first, which is what lets
  its privilege chunks pass the dependency pre-flight.
\<close>

section \<open>The order\<close>

definition withParentDirDeps :: "depGraph \<Rightarrow> Op list \<Rightarrow> watchPair list \<Rightarrow> depGraph" where
  "withParentDirDeps g body kept =
     fold (\<lambda>(dep, dependent). link dep dependent)
       (InferParentDirDeps body (each (newLevelGraph g body kept))) g"

definition orderForPrivilegeSplit :: "Op list \<Rightarrow> (order_error, Op list \<times> watchConflicts) result" where
  "orderForPrivilegeSplit ops =
     (if length ops < 2 then Inr (ops, Map.empty)
      else let body = tl ops;
               g = newDepGraph body
           in (case cycleBlocked g of
                (blocked, ok) \<Rightarrow>
                  if \<not> ok then Inl (cycleError g body blocked)
                  else (case keptWatches g body of
                    (kept, conflicts) \<Rightarrow>
                      (let g' = withParentDirDeps g body kept
                       in (case firstReady g' of
                            None \<Rightarrow> Inl NoReadyOp
                          | Some r \<Rightarrow>
                              (let first = op_elevate (body ! r);
                                   order = levelOrder g' (chunkLevels g' body first kept);
                                   other = levelOrder g' (chunkLevels g' body (\<not> first) kept);
                                   chosen = (if chunkCount body other < chunkCount body order then other else order)
                               in Inr (hd ops # map (\<lambda>i. body ! i) chosen, conflicts)))))))"

section \<open>Lemmas\<close>

lemma newDepGraph_byID: "g_byID (newDepGraph body) = body_ids_from 0 body Map.empty"
proof -
  have "g_byID (fold (\<lambda>(at, i). link at i) arcs g) = g_byID g" for arcs g
    by (induction arcs arbitrary: g) (auto simp: link_def)
  then show ?thesis by (simp add: newDepGraph_links)
qed

lemma kept_bounds:
  "p \<in> set (fst (keptWatches (newDepGraph body) body)) \<Longrightarrow> wp_gated p < length body \<and> wp_watched p < length body"
  using keptWatches_subset sameClassWatches_bounds [OF newDepGraph_byID] by blast

lemma each_closed:
  assumes "dep_graph (length body) g E" "\<And>p. p \<in> set kept \<Longrightarrow> wp_gated p < length body \<and> wp_watched p < length body"
  shows "closed_on (length body) (each (newLevelGraph g body kept))"
    and "E \<subseteq> arcs_on (length body) (each (newLevelGraph g body kept))"
proof -
  have G: "length (g_waiters g) = length body" "closed_graph (g_waiters g)" "edges (g_waiters g) = E"
    using assms(1) by (auto simp: dep_graph_def counted_graph_def)
  then show "closed_on (length body) (each (newLevelGraph g body kept))"
    using assms(2) by (fastforce simp: closed_on_def each_newLevelGraph closed_graph_def)
  show "E \<subseteq> arcs_on (length body) (each (newLevelGraph g body kept))"
    using G by (auto simp: arcs_on_def each_newLevelGraph edges_def edge_def)
qed

lemma withParentDirDeps_graph:
  assumes g: "dep_graph (length body) g E" and ac: "acyclic E"
    and kept: "\<And>p. p \<in> set kept \<Longrightarrow> wp_gated p < length body \<and> wp_watched p < length body"
  defines "I \<equiv> set (InferParentDirDeps body (each (newLevelGraph g body kept)))"
  shows "dep_graph (length body) (withParentDirDeps g body kept) (E \<union> I)" and "acyclic (E \<union> I)"
proof -
  note C = each_closed [OF g kept]
  have "\<forall>(d, i) \<in> I. d < length body \<and> i < length body"
    using infer_bounds [OF C(1)] by (auto simp: I_def)
  then show "dep_graph (length body) (withParentDirDeps g body kept) (E \<union> I)"
    unfolding withParentDirDeps_def I_def by (intro dep_graph_fold_link [OF g]) auto
  show "acyclic (E \<union> I)" unfolding I_def by (rule infer_all(1) [OF C(1,2) ac])
qed

lemma acyclic_has_source:
  assumes "dep_graph n g E" "acyclic E" "0 < n"
  shows "\<exists>r. firstReady g = Some r"
proof -
  have D: "length (g_deps g) = n" "\<And>i. i < n \<Longrightarrow> set (g_deps g ! i) = {u. (u, i) \<in> E}"
    and E: "\<And>u v. (u, v) \<in> E \<Longrightarrow> u < n"
    using assms(1) by (auto simp: dep_graph_def counted_graph_def edges_def edge_def)
  have "\<exists>i < n. g_deps g ! i = []"
  proof (rule ccontr)
    assume none: "\<not> (\<exists>i < n. g_deps g ! i = [])"
    have "\<exists>u \<in> {..<n}. (u, v) \<in> E" if "v \<in> {..<n}" for v
    proof -
      from that none obtain u where "u \<in> set (g_deps g ! v)" by (cases "g_deps g ! v") auto
      with D(2) [of v] that have "(u, v) \<in> E" by auto
      with E show ?thesis by blast
    qed
    then have "\<not> acyclic E" using preds_in_set_cycle [of "{..<n}" E] assms(3) by blast
    with assms(2) show False by blast
  qed
  then obtain i where "i < length (g_deps g)" "g_deps g ! i = []" using D(1) by auto
  then show ?thesis
    using first_index_exists [of "g_deps g ! i" "g_deps g" "\<lambda>d. d = []"] nth_mem [of i "g_deps g"]
    by (simp add: firstReady_def)
qed

text \<open>What the function does on a plan with at least one op in its body.\<close>

lemma order_cyclic:
  assumes "2 \<le> length ops" "\<not> acyclic {(at, i). depends_on (tl ops) i at}"
  shows "\<exists>loop. orderForPrivilegeSplit ops = Inl (CircularDependency (map (\<lambda>i. op_id (tl ops ! i)) loop))
    \<and> 2 \<le> length loop \<and> hd loop = last loop
    \<and> (\<forall>k. Suc k < length loop \<longrightarrow> depends_on (tl ops) (loop ! k) (loop ! Suc k))"
proof -
  let ?body = "tl ops"
  let ?g = "newDepGraph ?body"
  note g = newDepGraph_dep_graph [of ?body]
  obtain blocked ok where b: "cycleBlocked ?g = (blocked, ok)" by fastforce
  with cycleBlocked_acyclic_iff [OF g b] assms(2) have b': "cycleBlocked ?g = (blocked, False)" by simp
  from cycleError_names [OF g b' refl] obtain loop where
    loop: "cycleError ?g ?body blocked = CircularDependency (map (\<lambda>i. op_id (?body ! i)) loop)"
      "dep_loop ?g loop" "set loop \<subseteq> {..<length ?body}" by blast
  have "\<forall>k. Suc k < length loop \<longrightarrow> depends_on ?body (loop ! k) (loop ! Suc k)"
  proof (intro allI impI)
    fix k assume k: "Suc k < length loop"
    then have "loop ! Suc k \<in> set (g_deps ?g ! (loop ! k))" "loop ! k \<in> set loop"
      using loop(2) by (auto simp: dep_loop_def dep_chain_def)
    with loop(3) have "loop ! Suc k \<in> set (g_deps ?g ! (loop ! k))" "loop ! k < length ?body" by auto
    with g show "depends_on ?body (loop ! k) (loop ! Suc k)" by (simp add: dep_graph_def)
  qed
  with loop b' assms(1) show ?thesis
    by (intro exI [of _ loop]) (auto simp: orderForPrivilegeSplit_def dep_loop_def)
qed

lemma order_acyclic:
  assumes "2 \<le> length ops" "acyclic {(at, i). depends_on (tl ops) i at}"
  shows "\<exists>order conflicts. orderForPrivilegeSplit ops = Inr (hd ops # map (\<lambda>i. tl ops ! i) order, conflicts)
    \<and> distinct order \<and> set order = {..<length (tl ops)}
    \<and> (\<forall>i at. depends_on (tl ops) i at \<longrightarrow> before order at i)
    \<and> (\<forall>(d, i) \<in> set (InferParentDirDeps (tl ops) (each (newLevelGraph (newDepGraph (tl ops)) (tl ops)
           (fst (keptWatches (newDepGraph (tl ops)) (tl ops)))))). before order d i)"
proof -
  let ?body = "tl ops"
  let ?g = "newDepGraph ?body"
  let ?E = "{(at, i). depends_on ?body i at}"
  obtain kept conflicts where kw: "keptWatches ?g ?body = (kept, conflicts)" by fastforce
  let ?I = "set (InferParentDirDeps ?body (each (newLevelGraph ?g ?body kept)))"
  let ?g' = "withParentDirDeps ?g ?body kept"
  note g = newDepGraph_dep_graph [of ?body]
  have kb: "\<And>p. p \<in> set kept \<Longrightarrow> wp_gated p < length ?body \<and> wp_watched p < length ?body"
    using kept_bounds [of _ ?body] kw by simp
  note W = withParentDirDeps_graph [OF g assms(2), of kept, OF kb]
  obtain blocked ok where b: "cycleBlocked ?g = (blocked, ok)" by fastforce
  with cycleBlocked_acyclic_iff [OF g b] assms(2) have b': "cycleBlocked ?g = (blocked, True)" by simp
  obtain r where r: "firstReady ?g' = Some r" using acyclic_has_source [OF W] assms(1) by auto
  define lo where "lo start = levelOrder ?g' (chunkLevels ?g' ?body start kept)" for start
  define order where "order = (if chunkCount ?body (lo (\<not> op_elevate (?body ! r))) < chunkCount ?body (lo (op_elevate (?body ! r)))
     then lo (\<not> op_elevate (?body ! r)) else lo (op_elevate (?body ! r)))"
  have res: "orderForPrivilegeSplit ops = Inr (hd ops # map (\<lambda>i. ?body ! i) order, conflicts)"
    using assms(1) b' kw r by (simp add: orderForPrivilegeSplit_def order_def lo_def Let_def)
  obtain start where o: "order = lo start" by (metis order_def)
  note L = levelOrder_facts [OF W, where level = "chunkLevels ?g' ?body start kept", folded lo_def, folded o]
  show ?thesis using res L kw by (intro exI [of _ order] exI [of _ conflicts]) auto
qed

section \<open>Lemmas: the chunks of an order\<close>

text \<open>Without blocks there is nothing to hoist, so the chunks are the runs, each under its header.\<close>

lemma flat_no_stubs: "\<forall>op \<in> set ops. op_kind op \<noteq> KindWhenBegin \<Longrightarrow> stub_walk opened ops = []"
  by (induction ops arbitrary: opened) auto

lemma hoist_flat:
  assumes "\<forall>c \<in> set cs. \<forall>op \<in> set (ch_ops c). op_kind op \<noteq> KindWhenBegin"
  shows "hoist cs = (cs, [])"
  using assms
proof (induction cs)
  case (Cons c cs)
  then show ?case by (simp add: prepend_stubs_def requirementStubs_def flat_no_stubs)
qed simp

lemma split_chunks_flat:
  assumes "op_kind header = KindPlan" "body \<noteq> []" "\<forall>op \<in> set body. op_kind op \<noteq> KindWhenBegin"
  shows "map ch_ops (SplitPrivilegeChunks (header # body))
    = map ((#) (chunk_header header)) (map snd (body_runs body))"
proof -
  have b: "split_body (header # body) = body" "split_header (header # body) = header"
    using assms(1) by (simp_all add: split_body_def split_header_def)
  have "op_kind op \<noteq> KindWhenBegin" if "c \<in> set (raw_chunks (header # body))" "op \<in> set (ch_ops c)" for c op
  proof -
    from raw_chunks_ops [OF that(1)] b obtain part where
      "(ch_elevate c, part) \<in> set (body_runs body)" "ch_ops c = chunk_header header # part" by auto
    moreover from this(1) have "set part \<subseteq> set body"
      using body_runs_concat [of body] by (metis (no_types) UN_upper image_eqI set_concat set_map snd_conv)
    moreover have "op_kind (chunk_header header) = KindPlan" using assms(1) by (simp add: chunk_header_def)
    ultimately show ?thesis using that(2) assms(3) by auto
  qed
  then have "hoistRequirements (raw_chunks (header # body)) = raw_chunks (header # body)"
    by (simp add: hoistRequirements_def hoist_flat)
  then show ?thesis using assms(2) b
    by (simp add: SplitPrivilegeChunks_def raw_chunks_def case_prod_beta comp_def)
qed

text \<open>Every dependency is recorded, under a non-empty id, before its op.\<close>

definition deps_recorded_first :: "Op list \<Rightarrow> bool" where
  "deps_recorded_first body \<longleftrightarrow>
     (\<forall>us op vs. body = us @ op # vs \<longrightarrow>
        (\<forall>dep \<in> set (op_deps op). dep \<noteq> [] \<and> (\<exists>op' \<in> set us. op_id op' = dep)))"

lemma concat_nth_split:
  assumes "i < length parts"
  shows "concat parts = concat (take i parts) @ parts ! i @ concat (drop (Suc i) parts)"
  by (metis assms concat.simps(2) concat_append id_take_nth_drop)

lemma deps_first_chunks_ok:
  assumes "deps_recorded_first (concat parts)" "op_deps h = []"
  shows "ValidateChunkDeps (map ((#) h) parts) = Inr ()"
  unfolding chunk_deps_placed_iff
proof (intro allI impI ballI)
  fix i op dep
  assume i: "i < length (map ((#) h) parts)" and op: "op \<in> set (map ((#) h) parts ! i)" and dep: "dep \<in> set (op_deps op)"
  with assms(2) have "op \<in> set (parts ! i)" by auto
  then obtain us vs where part: "parts ! i = us @ op # vs" by (meson split_list)
  let ?pre = "concat (take i parts) @ us"
  have "concat parts = ?pre @ op # (vs @ concat (drop (Suc i) parts))"
    using concat_nth_split [of i parts] i part by simp
  with assms(1) dep have "dep \<noteq> []" "\<exists>op' \<in> set ?pre. op_id op' = dep"
    unfolding deps_recorded_first_def by blast+
  moreover have "\<exists>j \<le> i. op' \<in> set (map ((#) h) parts ! j)" if "op' \<in> set ?pre" for op'
  proof (cases "op' \<in> set us")
    case True
    then show ?thesis using part i by (intro exI [of _ i]) auto
  next
    case False
    with that obtain p where p: "p \<in> set (take i parts)" "op' \<in> set p" by auto
    then obtain j where "j < i" "j < length parts" "p = parts ! j" by (auto simp: in_set_conv_nth [of p])
    with p(2) show ?thesis by (intro exI [of _ j]) auto
  qed
  ultimately show "dep \<noteq> [] \<and> (\<exists>j \<le> i. \<exists>op' \<in> set (map ((#) h) parts ! j). op_id op' = dep)" by blast
qed

lemma ordered_body_deps_first:
  assumes "distinct order" "set order \<subseteq> {..<length body}"
    and "\<forall>i at. depends_on body i at \<longrightarrow> before order at i"
    and "\<forall>op \<in> set body. \<forall>dep \<in> set (op_deps op). dep \<noteq> [] \<and> (\<exists>op' \<in> set body. op_id op' = dep)"
  shows "deps_recorded_first (map (\<lambda>i. body ! i) order)"
  unfolding deps_recorded_first_def
proof (intro allI impI ballI)
  fix us op vs dep
  assume eq: "map (\<lambda>i. body ! i) order = us @ op # vs" and dep: "dep \<in> set (op_deps op)"
  obtain p i q where o: "order = p @ i # q" "us = map (\<lambda>i. body ! i) p" "op = body ! i"
    using eq by (auto simp: map_eq_append_conv map_eq_Cons_conv)
  have i: "i < length body" using assms(2) o(1) by auto
  with assms(4) dep o(3) obtain op' where d: "dep \<noteq> []" "op' \<in> set body" "op_id op' = dep"
    by (metis nth_mem)
  then obtain at where at: "first_index (\<lambda>op. op_id op = dep) body = Some at"
    using first_index_exists [of op' body "\<lambda>op. op_id op = dep"] by auto
  with d(1) dep o(3) i have "depends_on body i at" by (auto simp: depends_on_def)
  with assms(3) have "before order at i" by blast
  then have "at \<in> set p"
    using assms(1) o(1) before_antisym [OF assms(1), of at i]
    by (auto simp: before_def append_eq_append_conv2 Cons_eq_append_conv append_eq_Cons_conv)
  with at show "dep \<noteq> [] \<and> (\<exists>op' \<in> set us. op_id op' = dep)"
    using d(1) o(2) first_index_SomeD [OF at] by auto
qed

section \<open>Properties\<close>

text \<open>
  C6: an apply plan is refused exactly when its recorded dependencies close a cycle, an op that
  depends on itself included, and the refusal then names one such cycle: a list of op ids that ends
  where it starts, each depending on the next.
\<close>

theorem order_refuses_named_cycle:
  assumes "2 \<le> length ops"
  shows "case orderForPrivilegeSplit ops of
      Inr _ \<Rightarrow> acyclic {(at, i). depends_on (tl ops) i at}
    | Inl e \<Rightarrow> \<not> acyclic {(at, i). depends_on (tl ops) i at} \<and>
        (\<exists>loop. e = CircularDependency (map (\<lambda>i. op_id (tl ops ! i)) loop)
           \<and> 2 \<le> length loop \<and> hd loop = last loop
           \<and> (\<forall>k. Suc k < length loop \<longrightarrow> depends_on (tl ops) (loop ! k) (loop ! Suc k)))"
proof (cases "acyclic {(at, i). depends_on (tl ops) i at}")
  case True
  then show ?thesis using order_acyclic [OF assms] by auto
next
  case False
  obtain loop where "orderForPrivilegeSplit ops = Inl (CircularDependency (map (\<lambda>i. op_id (tl ops ! i)) loop))"
    "2 \<le> length loop" "hd loop = last loop"
    "\<forall>k. Suc k < length loop \<longrightarrow> depends_on (tl ops) (loop ! k) (loop ! Suc k)"
    using order_cyclic [OF assms False] by blast
  with False show ?thesis by (auto intro!: exI [of _ loop])
qed

text \<open>
  C5: an accepted apply plan is reordered, never changed: the header stays first, every op of the
  body appears exactly once, and each op comes after every op it depends on, recorded dependencies
  and inferred parent directories alike.
\<close>

theorem order_permutes_deps_first:
  assumes "2 \<le> length ops" and "orderForPrivilegeSplit ops = Inr (out, conflicts)"
  shows "\<exists>order. out = hd ops # map (\<lambda>i. tl ops ! i) order
    \<and> distinct order \<and> set order = {..<length (tl ops)}
    \<and> (\<forall>i at. depends_on (tl ops) i at \<longrightarrow> before order at i)
    \<and> (\<forall>(d, i) \<in> set (InferParentDirDeps (tl ops) (each (newLevelGraph (newDepGraph (tl ops)) (tl ops)
           (fst (keptWatches (newDepGraph (tl ops)) (tl ops)))))). before order d i)"
proof (cases "acyclic {(at, i). depends_on (tl ops) i at}")
  case True
  then show ?thesis using order_acyclic [OF assms(1)] assms(2) by auto
next
  case False
  with order_cyclic [OF assms(1)] assms(2) show ?thesis by auto
qed

text \<open>
  C4: the order always passes the dependency pre-flight of the chunks it is cut into: for a flat
  plan whose dependencies all name ops of the plan, no privilege chunk depends on a later one.
\<close>

theorem ordered_chunks_pass_preflight:
  assumes "2 \<le> length ops" and "orderForPrivilegeSplit ops = Inr (out, conflicts)"
    and "op_kind (hd ops) = KindPlan" and "op_deps (hd ops) = []"
    and "\<forall>op \<in> set (tl ops). op_kind op \<noteq> KindWhenBegin"
    and "\<forall>op \<in> set (tl ops). \<forall>dep \<in> set (op_deps op). dep \<noteq> [] \<and> (\<exists>op' \<in> set (tl ops). op_id op' = dep)"
  shows "ValidateChunkDeps (map ch_ops (SplitPrivilegeChunks out)) = Inr ()"
proof (cases "acyclic {(at, i). depends_on (tl ops) i at}")
  case True
  let ?body = "tl ops"
  from order_acyclic [OF assms(1) True] assms(2) obtain order where
    o: "out = hd ops # map (\<lambda>i. ?body ! i) order" "distinct order" "set order = {..<length ?body}"
      "\<forall>i at. depends_on ?body i at \<longrightarrow> before order at i" by auto
  let ?out = "map (\<lambda>i. ?body ! i) order"
  have flat: "\<forall>op \<in> set ?out. op_kind op \<noteq> KindWhenBegin" using assms(5) o(3) by auto
  have "0 \<in> set order" using o(3) assms(1) by auto
  then have "?out \<noteq> []" by auto
  note chunks = split_chunks_flat [OF assms(3) this flat]
  have "deps_recorded_first ?out"
    by (rule ordered_body_deps_first [OF o(2) _ o(4) assms(6)]) (simp add: o(3))
  then have "ValidateChunkDeps (map ((#) (chunk_header (hd ops))) (map snd (body_runs ?out))) = Inr ()"
    using assms(4) by (intro deps_first_chunks_ok) (simp_all add: body_runs_concat chunk_header_def)
  with chunks o(1) show ?thesis by simp
next
  case False
  with order_cyclic [OF assms(1)] assms(2) show ?thesis by auto
qed

section \<open>Witnesses\<close>

definition sample_apply :: "Op list" where
  "sample_apply =
     [(zero_op KindPlan)\<lparr>op_version := 31\<rparr>,
      (resource_op KindCommand ''Command[c]'')\<lparr>op_elevate := True, op_deps := [''File[f]'']\<rparr>,
      resource_op KindFile ''File[f]'']"

definition sample_loop :: "Op list" where
  "sample_loop =
     [(zero_op KindPlan)\<lparr>op_version := 31\<rparr>,
      (resource_op KindCommand ''Command[c]'')\<lparr>op_deps := [''Command[c]'']\<rparr>]"

lemma sample_apply_order:
  "\<exists>c. orderForPrivilegeSplit sample_apply = Inr ([sample_apply ! 0, sample_apply ! 2, sample_apply ! 1], c)"
proof -
  have "case orderForPrivilegeSplit sample_apply of
      Inr (out, _) \<Rightarrow> out = [sample_apply ! 0, sample_apply ! 2, sample_apply ! 1] | Inl _ \<Rightarrow> False"
    by code_simp
  then show ?thesis by (auto split: sum.splits)
qed

lemma sample_loop_refused: "\<exists>e. orderForPrivilegeSplit sample_loop = Inl e"
proof -
  have "case orderForPrivilegeSplit sample_loop of Inl e \<Rightarrow> True | Inr _ \<Rightarrow> False" by code_simp
  then show ?thesis by (auto split: sum.splits)
qed

theorem order_refuses_named_cycle_witness:
  "\<not> acyclic {(at, i). depends_on (tl sample_loop) i at}"
  using order_refuses_named_cycle [of sample_loop] sample_loop_refused by (auto simp: sample_loop_def)

theorem order_permutes_deps_first_witness:
  "\<exists>order. [sample_apply ! 0, sample_apply ! 2, sample_apply ! 1] = hd sample_apply # map (\<lambda>i. tl sample_apply ! i) order
     \<and> distinct order"
proof -
  have "2 \<le> length sample_apply" by (simp add: sample_apply_def)
  with sample_apply_order order_permutes_deps_first show ?thesis by metis
qed

theorem ordered_chunks_pass_preflight_witness:
  "ValidateChunkDeps (map ch_ops (SplitPrivilegeChunks [sample_apply ! 0, sample_apply ! 2, sample_apply ! 1])) = Inr ()"
proof -
  obtain c where "orderForPrivilegeSplit sample_apply = Inr ([sample_apply ! 0, sample_apply ! 2, sample_apply ! 1], c)"
    using sample_apply_order by blast
  then show ?thesis
    by (rule ordered_chunks_pass_preflight [rotated]) (simp_all add: sample_apply_def zero_op_def resource_op_def)
qed

end
