(* ===== verification/ShellWords.thy ===== *)
theory ShellWords
  imports GoStrings
begin

text \<open>
  Command lines without a shell (\<open>internal/shellwords/shellwords.go\<close>) and the privilege wrapping of
  a gonf command (\<open>internal/privilege/privilege.go\<close>). The scanner's index into the line is the rest of
  the line; the words so far and the one being built are its state.
\<close>

section \<open>Splitting\<close>

datatype shell_error =
    NotSingleLine
  | EmptyCommand
  | TrailingBackslash
  | UnquotedSpecial char
  | UnterminatedSingle
  | UnterminatedDouble
  | ExpansionInDouble char

record splitter =
  sp_words :: "string list"
  sp_cur :: string
  sp_inWord :: bool

definition shellSpecial :: string where
  "shellSpecial = ''|&;<>()$'' @ [BQ] @ ''*?[#~''"

definition add_char :: "char \<Rightarrow> splitter \<Rightarrow> splitter" where
  "add_char c s = s\<lparr>sp_inWord := True, sp_cur := sp_cur s @ [c]\<rparr>"

definition endWord :: "splitter \<Rightarrow> splitter" where
  "endWord s =
     (if \<not> sp_inWord s then s
      else s\<lparr>sp_words := sp_words s @ [sp_cur s], sp_cur := [], sp_inWord := False\<rparr>)"

text \<open>The parts after the opening quote: the rest of the line after the closing one, and the state.\<close>

definition scan_single :: "string \<Rightarrow> splitter \<Rightarrow> (shell_error, string \<times> splitter) result" where
  "scan_single rest s =
     (case index_byte rest SQ of
        None \<Rightarrow> Inl UnterminatedSingle
      | Some e \<Rightarrow> Inr (drop (Suc e) rest, s\<lparr>sp_inWord := True, sp_cur := sp_cur s @ take e rest\<rparr>))"

fun double_loop :: "string \<Rightarrow> splitter \<Rightarrow> (shell_error, string \<times> splitter) result" where
  "double_loop [] s = Inl UnterminatedDouble"
| "double_loop (c # cs) s =
     (if c = DQ then Inr (cs, s)
      else if c = CHR ''$'' \<or> c = BQ then Inl (ExpansionInDouble c)
      else if c = BSL then
        (case cs of
           d # ds \<Rightarrow>
             if d \<in> set [CHR ''$'', BQ, DQ, BSL] then double_loop ds (s\<lparr>sp_cur := sp_cur s @ [d]\<rparr>)
             else double_loop cs (s\<lparr>sp_cur := sp_cur s @ [c]\<rparr>)
         | [] \<Rightarrow> double_loop cs (s\<lparr>sp_cur := sp_cur s @ [c]\<rparr>))
      else double_loop cs (s\<lparr>sp_cur := sp_cur s @ [c]\<rparr>))"

definition scan_double :: "string \<Rightarrow> splitter \<Rightarrow> (shell_error, string \<times> splitter) result" where
  "scan_double rest s = double_loop rest (s\<lparr>sp_inWord := True\<rparr>)"

lemma scan_single_shorter [termination_simp]:
  "scan_single rest s = Inr (rest', s') \<Longrightarrow> length rest' < Suc (length rest)"
  by (auto simp: scan_single_def split: option.splits)

lemma double_loop_shorter: "double_loop rest s = Inr (rest', s') \<Longrightarrow> length rest' < length rest"
  by (induction rest s rule: double_loop.induct) (force split: if_splits list.splits)+

lemma scan_double_shorter [termination_simp]:
  "scan_double rest s = Inr (rest', s') \<Longrightarrow> length rest' < Suc (length rest)"
  using double_loop_shorter by (fastforce simp: scan_double_def)

function run_split :: "string \<Rightarrow> splitter \<Rightarrow> (shell_error, splitter) result" where
  "run_split [] s = Inr (endWord s)"
| "run_split (c # cs) s =
     (if c = SP \<or> c = TAB then run_split cs (endWord s)
      else if c = SQ then
        (case scan_single cs s of Inl e \<Rightarrow> Inl e | Inr (rest, s') \<Rightarrow> run_split rest s')
      else if c = DQ then
        (case scan_double cs s of Inl e \<Rightarrow> Inl e | Inr (rest, s') \<Rightarrow> run_split rest s')
      else if c = BSL then
        (case cs of [] \<Rightarrow> Inl TrailingBackslash | d # ds \<Rightarrow> run_split ds (add_char d s))
      else if (c = CHR ''#'' \<or> c = CHR ''~'') \<and> sp_inWord s then run_split cs (add_char c s)
      else if c \<in> set shellSpecial then Inl (UnquotedSpecial c)
      else run_split cs (add_char c s))"
  by pat_completeness auto
termination by (relation "measure (\<lambda>(line, s). length line)") (auto simp: termination_simp)

definition Split :: "string \<Rightarrow> (shell_error, string list) result" where
  "Split line =
     (if contains_any line [NL, CR] then Inl NotSingleLine
      else bind_res (run_split line \<lparr>sp_words = [], sp_cur = [], sp_inWord = False\<rparr>) (\<lambda>s.
        if sp_words s = [] then Inl EmptyCommand else Inr (sp_words s)))"

section \<open>Quoting\<close>

definition safe_bytes :: string where
  "safe_bytes = ''abcdefghijklmnopqrstuvwxyzABCDEFGHIJKLMNOPQRSTUVWXYZ0123456789/._-+,:=@%''"

definition Quote :: "string \<Rightarrow> string" where
  "Quote s =
     (if s \<noteq> [] \<and> trim_right (trim_left s safe_bytes) safe_bytes = [] then s
      else [SQ] @ replace_all s [SQ] [SQ, BSL, SQ, SQ] @ [SQ])"

section \<open>Privilege modes\<close>

datatype Mode = ModeNone | Sudo | Doas | ModeOther nat

datatype privilege_error =
    UnknownMode string
  | ElevatedModeNone
  | ElevatedNeedsRoot
  | InvalidMode nat

definition ParseMode :: "string \<Rightarrow> (privilege_error, Mode) result" where
  "ParseMode s =
     (let m = to_lower (trim_space s) in
      if m = [] \<or> m = ''none'' then Inr ModeNone
      else if m = ''sudo'' then Inr Sudo
      else if m = ''doas'' then Inr Doas
      else Inl (UnknownMode s))"

fun mode_String :: "Mode \<Rightarrow> string" where
  "mode_String Sudo = ''sudo''"
| "mode_String Doas = ''doas''"
| "mode_String _ = ''none''"

definition WrapApplyBinCmd :: "Mode \<Rightarrow> bool \<Rightarrow> string \<Rightarrow> string \<Rightarrow> (privilege_error, string) result" where
  "WrapApplyBinCmd mode elevate bin applyArgs =
     (let cmd = Quote (if bin = [] then ''gonf'' else bin) @ [SP] @ trim_space applyArgs in
      if \<not> elevate then Inr cmd
      else (case mode of
              ModeNone \<Rightarrow> Inl ElevatedModeNone
            | Sudo \<Rightarrow> Inr (''sudo -n '' @ cmd)
            | Doas \<Rightarrow> Inr (''doas '' @ cmd)
            | ModeOther n \<Rightarrow> Inl (InvalidMode n)))"

definition WrapApplyCmd :: "Mode \<Rightarrow> bool \<Rightarrow> string \<Rightarrow> (privilege_error, string) result" where
  "WrapApplyCmd mode elevate applyArgs = WrapApplyBinCmd mode elevate ''gonf'' applyArgs"

text \<open>The local re-exec: the effective user of this process is an argument.\<close>

definition WrapArgv :: "nat \<Rightarrow> Mode \<Rightarrow> bool \<Rightarrow> string list \<Rightarrow> (privilege_error, string list) result" where
  "WrapArgv euid mode elevate argv =
     (if \<not> elevate then Inr argv
      else (case mode of
              ModeNone \<Rightarrow> if euid = 0 then Inr argv else Inl ElevatedNeedsRoot
            | Sudo \<Rightarrow> Inr ([''sudo'', ''-n''] @ argv)
            | Doas \<Rightarrow> Inr ([''doas''] @ argv)
            | ModeOther n \<Rightarrow> Inl (InvalidMode n)))"

section \<open>Lemmas\<close>

lemma trim_all_iff: "trim_right (trim_left s cs) cs = [] \<longleftrightarrow> set s \<subseteq> set cs"
proof
  assume "trim_right (trim_left s cs) cs = []"
  moreover obtain u where "s = u @ trim_left s cs" "set u \<subseteq> set cs" using trim_left_split by blast
  moreover obtain v where "trim_left s cs = trim_right (trim_left s cs) cs @ v" "set v \<subseteq> set cs"
    using trim_right_split by blast
  ultimately show "set s \<subseteq> set cs" by (metis Un_least append_Nil set_append)
next
  assume "set s \<subseteq> set cs"
  then have "trim_left s cs = []" by (auto simp: trim_left_dropWhile dropWhile_eq_Nil_conv)
  then show "trim_right (trim_left s cs) cs = []" by (simp add: trim_right_def)
qed

text \<open>Safe bytes are read as they are.\<close>

lemma safe_not_special: "c \<in> set safe_bytes \<Longrightarrow>
    c \<noteq> SP \<and> c \<noteq> TAB \<and> c \<noteq> SQ \<and> c \<noteq> DQ \<and> c \<noteq> BSL \<and> c \<notin> set shellSpecial"
  unfolding safe_bytes_def shellSpecial_def by auto

lemma run_split_safe:
  "set w \<subseteq> set safe_bytes \<Longrightarrow> w \<noteq> [] \<Longrightarrow>
     run_split (w @ rest) s = run_split rest (s\<lparr>sp_inWord := True, sp_cur := sp_cur s @ w\<rparr>)"
proof (induction w arbitrary: s)
  case (Cons c w)
  have c: "run_split (c # w @ rest) s = run_split (w @ rest) (add_char c s)"
    using safe_not_special [of c] Cons.prems(1) by (simp add: shellSpecial_def)
  show ?case
  proof (cases "w = []")
    case True
    with c show ?thesis by (simp add: add_char_def)
  next
    case False
    with c Cons.IH [of "add_char c s"] Cons.prems(1) show ?thesis by (simp add: add_char_def)
  qed
qed simp

lemma run_split_single:
  "SQ \<notin> set u \<Longrightarrow>
     run_split (SQ # u @ SQ # rest) s = run_split rest (s\<lparr>sp_inWord := True, sp_cur := sp_cur s @ u\<rparr>)"
  by (simp add: scan_single_def index_byte_append_mid)

text \<open>The first quote of a word splits what is quoted into two quoted parts and an escaped quote.\<close>

lemma replace_all_first_quote:
  assumes "SQ \<notin> set u"
  shows "replace_all (u @ SQ # v) [SQ] q = u @ q @ replace_all v [SQ] q"
proof -
  have "concat (map (\<lambda>x. if x = SQ then q else [x]) u) = u"
    using assms by (induction u) auto
  then show ?thesis by (simp add: replace_all_byte_map)
qed

lemma run_split_quoted:
  "run_split (SQ # replace_all w [SQ] [SQ, BSL, SQ, SQ] @ SQ # rest) s =
     run_split rest (s\<lparr>sp_inWord := True, sp_cur := sp_cur s @ w\<rparr>)"
proof (induction "length w" arbitrary: w s rule: less_induct)
  case less
  show ?case
  proof (cases "SQ \<in> set w")
    case False
    then have "replace_all w [SQ] [SQ, BSL, SQ, SQ] = w" by (intro replace_all_noop) simp_all
    with run_split_single [OF False] show ?thesis by (simp only:)
  next
    case True
    then obtain u v where w: "w = u @ SQ # v" "SQ \<notin> set u" by (meson split_list_first)
    let ?s = "s\<lparr>sp_inWord := True, sp_cur := sp_cur s @ u\<rparr>"
    have rep: "replace_all w [SQ] [SQ, BSL, SQ, SQ] = u @ [SQ, BSL, SQ, SQ] @ replace_all v [SQ] [SQ, BSL, SQ, SQ]"
      unfolding w(1) by (rule replace_all_first_quote [OF w(2)])
    have "run_split (SQ # u @ SQ # BSL # SQ # SQ # replace_all v [SQ] [SQ, BSL, SQ, SQ] @ SQ # rest) s
        = run_split (BSL # SQ # SQ # replace_all v [SQ] [SQ, BSL, SQ, SQ] @ SQ # rest) ?s"
      by (rule run_split_single [OF w(2)])
    also have "\<dots> = run_split (SQ # replace_all v [SQ] [SQ, BSL, SQ, SQ] @ SQ # rest) (add_char SQ ?s)"
      by simp
    also have "\<dots> = run_split rest ((add_char SQ ?s)\<lparr>sp_inWord := True, sp_cur := sp_cur (add_char SQ ?s) @ v\<rparr>)"
      by (rule less.hyps) (simp add: w(1))
    finally show ?thesis unfolding rep by (simp only: append_assoc append_Cons append_Nil) (simp add: w(1) add_char_def)
  qed
qed

lemma run_split_Quote:
  "run_split (Quote w @ rest) s = run_split rest (s\<lparr>sp_inWord := True, sp_cur := sp_cur s @ w\<rparr>)"
proof (cases "w \<noteq> [] \<and> set w \<subseteq> set safe_bytes")
  case True
  then show ?thesis by (simp add: Quote_def trim_all_iff run_split_safe)
next
  case False
  then have "Quote w = [SQ] @ replace_all w [SQ] [SQ, BSL, SQ, SQ] @ [SQ]"
    by (auto simp: Quote_def trim_all_iff)
  then show ?thesis using run_split_quoted [of w rest s] by simp
qed

lemma run_split_quoted_words:
  "sp_cur s = [] \<Longrightarrow> \<not> sp_inWord s \<Longrightarrow> ws \<noteq> [] \<Longrightarrow>
     run_split (join [SP] (map Quote ws)) s = Inr (s\<lparr>sp_words := sp_words s @ ws\<rparr>)"
proof (induction ws arbitrary: s)
  case (Cons w ws)
  show ?case
  proof (cases "ws = []")
    case True
    have "run_split (Quote w @ []) s = Inr (s\<lparr>sp_words := sp_words s @ [w]\<rparr>)"
      using Cons.prems unfolding run_split_Quote by (simp add: endWord_def)
    with True show ?thesis by simp
  next
    case False
    let ?s = "s\<lparr>sp_words := sp_words s @ [w]\<rparr>"
    have "s\<lparr>sp_words := sp_words s @ [w], sp_cur := [], sp_inWord := False\<rparr> = ?s"
      using Cons.prems by (cases s) simp
    moreover have "run_split (Quote w @ SP # join [SP] (map Quote ws)) s
        = run_split (join [SP] (map Quote ws)) (s\<lparr>sp_words := sp_words s @ [w], sp_cur := [], sp_inWord := False\<rparr>)"
      unfolding run_split_Quote using Cons.prems by (simp add: endWord_def)
    ultimately have "run_split (Quote w @ SP # join [SP] (map Quote ws)) s = run_split (join [SP] (map Quote ws)) ?s"
      by simp
    with Cons.IH [of ?s] Cons.prems False show ?thesis by (simp add: join_Cons)
  qed
qed simp

lemma set_Quote: "set (Quote w) \<subseteq> insert SQ (insert BSL (set w))"
  by (auto simp: Quote_def replace_all_byte_map split: if_splits)

lemma set_join: "set (join sep ws) \<subseteq> set sep \<union> \<Union> (set ` set ws)"
  by (induction sep ws rule: join.induct) auto

section \<open>Properties\<close>

text \<open>
  C24: an argv quoted word by word and joined with blanks splits back into the same argv, whatever
  bytes its words hold: quotes, backslashes, metacharacters, spaces and empty words included.
\<close>

theorem Split_Quote:
  assumes "ws \<noteq> []" and "\<forall>w \<in> set ws. NL \<notin> set w \<and> CR \<notin> set w"
  shows "Split (join [SP] (map Quote ws)) = Inr ws"
proof -
  have "\<not> contains_any (join [SP] (map Quote ws)) [NL, CR]"
  proof -
    have "NL \<notin> set (Quote w)" "CR \<notin> set (Quote w)" if "w \<in> set ws" for w
      using set_Quote [of w] assms(2) that by auto
    then show ?thesis using set_join [of "[SP]" "map Quote ws"] by (auto simp: contains_any_iff)
  qed
  then show ?thesis
    using run_split_quoted_words [of "\<lparr>sp_words = [], sp_cur = [], sp_inWord = False\<rparr>" ws] assms(1)
    by (simp add: Split_def)
qed

theorem Split_Quote_witness:
  "Split (join [SP] (map Quote [''echo'', [], [SQ], ''$HOME a'']))
     = Inr [''echo'', [], [SQ], ''$HOME a'']"
  by (rule Split_Quote) simp_all

end
