(* ===== verification/ApplyChunks.thy ===== *)
theory ApplyChunks
  imports ApplyOrder ShellWords
begin

text \<open>
  Applying a whole plan chunk by chunk on the local host: \<open>api/apply_chunks.go\<close>,
  \<open>validateApplyDeps\<close>, \<open>applyPackagedOps\<close> and \<open>applyElevatedOps\<close> of \<open>api/resource.go\<close>, the
  re-worded pre-flight of \<open>api/preflight.go\<close>, and the argument list of the elevated re-exec
  (\<open>internal/applyproto\<close>, \<open>internal/logger\<close>, \<open>internal/exec\<close>). The in-process engine and the
  sudo/doas re-exec are arguments: a runner takes a chunk's ops and the host's state and returns an
  error, or none, and the state it leaves. The process facts (effective user, CLI mark, privilege
  mode) are one record. Contexts and the cancel pipe are not modelled.
\<close>

section \<open>The elevated argument list\<close>

definition LevelFlag :: "nat \<Rightarrow> string" where
  "LevelFlag l = (if l \<ge> 3 then ''-verbose'' else if l \<le> 1 then ''-quiet'' else [])"

text \<open>\<open>time.Duration.String\<close> is an argument; durations are in nanoseconds.\<close>

definition BuiltinDefaultTimeout :: int where
  "BuiltinDefaultTimeout = 5 * 60 * 1000000000"

definition CmdTimeoutFlag :: "(int \<Rightarrow> string) \<Rightarrow> int \<Rightarrow> string" where
  "CmdTimeoutFlag show_duration d =
     (if d \<le> 0 \<or> d = BuiltinDefaultTimeout then [] else ''-cmd-timeout='' @ show_duration d)"

definition ElevatedArgs :: "bool \<Rightarrow> string list" where
  "ElevatedArgs dryRun = ''-cancel-pipe'' # (if dryRun then [''-n''] else [])"

definition elevatedApplyArgv ::
  "(int \<Rightarrow> string) \<Rightarrow> string \<Rightarrow> string \<Rightarrow> bool \<Rightarrow> string \<Rightarrow> int \<Rightarrow> nat \<Rightarrow> string list" where
  "elevatedApplyArgv show_duration exe path dryRun profileOverride cmdTimeout logLevel =
     [exe]
       @ (if LevelFlag logLevel \<noteq> [] then [LevelFlag logLevel] else [])
       @ (if profileOverride \<noteq> [] then [''-profile='' @ profileOverride] else [])
       @ (if CmdTimeoutFlag show_duration cmdTimeout \<noteq> [] then [CmdTimeoutFlag show_duration cmdTimeout] else [])
       @ [''apply''] @ ElevatedArgs dryRun @ [path]"

section \<open>Labels\<close>

definition chunkResourceIDs :: "Chunk \<Rightarrow> string list" where
  "chunkResourceIDs ch =
     map op_id (filter (\<lambda>op. op_id op \<noteq> [] \<and> \<not> IsControlKind (op_kind op)) (ch_ops ch))"

definition elevatedIDs :: "Chunk list \<Rightarrow> string list" where
  "elevatedIDs chunks = concat (map (\<lambda>ch. if ch_elevate ch then chunkResourceIDs ch else []) chunks)"

definition chunkIndexLabel :: "nat \<Rightarrow> Chunk \<Rightarrow> string" where
  "chunkIndexLabel i ch =
     (if ch_elevate ch then ''chunk '' @ decimal i @ '' (elevated)'' else ''chunk '' @ decimal i)"

definition privilegeClass :: "bool \<Rightarrow> string" where
  "privilegeClass elevate = (if elevate then ''elevated'' else ''unprivileged'')"

definition resourceChunkLabel :: "nat \<Rightarrow> Chunk \<Rightarrow> string" where
  "resourceChunkLabel i ch =
     (let ids = chunkResourceIDs ch;
          ids' = (if length ids > 3 then take 3 ids @ [''and '' @ decimal (length ids - 3) @ '' more''] else ids)
      in privilegeClass (ch_elevate ch) @ '' resources '' @ join '', '' ids')"

definition anyElevated :: "Op list \<Rightarrow> bool" where
  "anyElevated ops = list_ex op_elevate ops"

section \<open>Pre-flight\<close>

datatype watch_reason = OtherClass | TogetherWith string | ForcedApart

datatype 'e chunks_error =
    ChunksRefused refusal
  | NeedElevation "string list"
  | NeedCLI "string list"
  | OrderRefused order_error
  | WatchAcross string bool string bool watch_reason  \<comment> \<open>gated op, its class, watched op, its class\<close>
  | ChunkFailed string 'e
  | PlanFailed 'e

record process =
  pr_euid :: nat
  pr_cli :: bool
  pr_mode :: Mode

definition preflightElevation :: "process \<Rightarrow> Chunk list \<Rightarrow> 'e chunks_error check" where
  "preflightElevation p chunks =
     (let ids = elevatedIDs chunks in
      if ids = [] then Inr ()
      else if pr_mode p = ModeNone then (if pr_euid p = 0 then Inr () else Inl (NeedElevation ids))
      else if \<not> pr_cli p then Inl (NeedCLI ids)
      else Inr ())"

definition watchAcrossChunks :: "bool \<Rightarrow> bool \<Rightarrow> string list \<Rightarrow> watch_reason" where
  "watchAcrossChunks gatedElevate watchedElevate together =
     (if gatedElevate \<noteq> watchedElevate then OtherClass
      else if together \<noteq> [] then TogetherWith (conflictNote together)
      else ForcedApart)"

text \<open>The first chunk of each resource id; control ops are skipped.\<close>

definition chunkOf :: "Chunk list \<Rightarrow> (string \<rightharpoonup> nat)" where
  "chunkOf chunks = firstChunkOf (map (\<lambda>ch. filter (\<lambda>op. \<not> IsControlKind (op_kind op)) (ch_ops ch)) chunks)"

text \<open>
  The loops return at the first gate they can say something about: \<open>None\<close> goes on, \<open>Some None\<close> leaves
  the wording to the plan's own check, \<open>Some (Some e)\<close> refuses.
\<close>

fun cross_watches ::
  "watchConflicts \<Rightarrow> Chunk list \<Rightarrow> nat \<Rightarrow> Op \<Rightarrow> string list \<Rightarrow> 'e chunks_error option option" where
  "cross_watches conflicts chunks i op [] = None"
| "cross_watches conflicts chunks i op (w # ws) =
     (case chunkOf chunks w of
        None \<Rightarrow> Some None
      | Some j \<Rightarrow>
          if j \<noteq> i then
            Some (Some (WatchAcross (op_id op) (ch_elevate (chunks ! i)) w (ch_elevate (chunks ! j))
              (watchAcrossChunks (ch_elevate (chunks ! i)) (ch_elevate (chunks ! j))
                 (case conflicts (op_id op, w) of Some t \<Rightarrow> t | None \<Rightarrow> []))))
          else cross_watches conflicts chunks i op ws)"

fun cross_ops ::
  "watchConflicts \<Rightarrow> Chunk list \<Rightarrow> (nat \<times> Op) list \<Rightarrow> 'e chunks_error option option" where
  "cross_ops conflicts chunks [] = None"
| "cross_ops conflicts chunks ((i, op) # rest) =
     (if \<not> op_if_changed op then cross_ops conflicts chunks rest
      else if op_watch op = [] then Some None
      else case cross_watches conflicts chunks i op (op_watch op) of
             Some r \<Rightarrow> Some r
           | None \<Rightarrow> cross_ops conflicts chunks rest)"

definition ops_of_chunks :: "Chunk list \<Rightarrow> (nat \<times> Op) list" where
  "ops_of_chunks chunks = concat (map (\<lambda>(i, ch). map (\<lambda>op. (i, op)) (ch_ops ch)) (enumerate 0 chunks))"

definition crossChunkWatchRefusal :: "watchConflicts \<Rightarrow> Chunk list \<Rightarrow> 'e chunks_error option" where
  "crossChunkWatchRefusal conflicts chunks =
     (if ValidateChunkDeps (map ch_ops chunks) \<noteq> Inr () then None
      else case cross_ops conflicts chunks (ops_of_chunks chunks) of Some r \<Rightarrow> r | None \<Rightarrow> None)"

definition preflightChunks :: "Chunk list \<Rightarrow> 'e chunks_error check" where
  "preflightChunks chunks = map_err ChunksRefused (ValidateChunks chunks)"

definition validateApplyDeps :: "Chunk list \<Rightarrow> watchConflicts \<Rightarrow> 'e chunks_error check" where
  "validateApplyDeps chunks conflicts =
     (case crossChunkWatchRefusal conflicts chunks of
        Some e \<Rightarrow> Inl e
      | None \<Rightarrow> preflightChunks chunks)"

section \<open>Applying the chunks\<close>

type_synonym ('s, 'e) runner = "Op list \<Rightarrow> 's \<Rightarrow> 'e option \<times> 's"

fun apply_from ::
  "process \<Rightarrow> ('s, 'e) runner \<Rightarrow> ('s, 'e) runner \<Rightarrow> (nat \<Rightarrow> Chunk \<Rightarrow> string) \<Rightarrow> nat \<Rightarrow> Chunk list \<Rightarrow> 's
     \<Rightarrow> 'e chunks_error option \<times> 's" where
  "apply_from p inproc elevated label i [] s = (None, s)"
| "apply_from p inproc elevated label i (ch # chs) s =
     (case (if \<not> ch_elevate ch \<or> (pr_mode p = ModeNone \<and> pr_euid p = 0) then inproc (ch_ops ch) s
            else elevated (ch_ops ch) s) of
        (Some e, s') \<Rightarrow> (Some (ChunkFailed (label i ch) e), s')
      | (None, s') \<Rightarrow> apply_from p inproc elevated label (Suc i) chs s')"

definition applySplitChunks ::
  "process \<Rightarrow> ('s, 'e) runner \<Rightarrow> ('s, 'e) runner \<Rightarrow> (nat \<Rightarrow> Chunk \<Rightarrow> string) \<Rightarrow> Chunk list \<Rightarrow> 's
     \<Rightarrow> 'e chunks_error option \<times> 's" where
  "applySplitChunks p inproc elevated label chunks s = apply_from p inproc elevated label 0 chunks s"

definition ApplyChunksContext ::
  "process \<Rightarrow> ('s, 'e) runner \<Rightarrow> ('s, 'e) runner \<Rightarrow> Op list \<Rightarrow> 's \<Rightarrow> 'e chunks_error option \<times> 's" where
  "ApplyChunksContext p inproc elevated ops s =
     (let chunks = SplitPrivilegeChunks ops in
      case ValidateChunks chunks of
        Inl e \<Rightarrow> (Some (ChunksRefused e), s)
      | Inr _ \<Rightarrow>
          (case preflightElevation p chunks of
             Inl e \<Rightarrow> (Some e, s)
           | Inr _ \<Rightarrow> applySplitChunks p inproc elevated chunkIndexLabel chunks s))"

definition applyElevatedOps ::
  "process \<Rightarrow> ('s, 'e) runner \<Rightarrow> ('s, 'e) runner \<Rightarrow> Op list \<Rightarrow> 's \<Rightarrow> 'e chunks_error option \<times> 's" where
  "applyElevatedOps p inproc elevated ops s =
     (case orderForPrivilegeSplit ops of
        Inl e \<Rightarrow> (Some (OrderRefused e), s)
      | Inr (ordered, conflicts) \<Rightarrow>
          (let chunks = SplitPrivilegeChunks ordered in
           case validateApplyDeps chunks conflicts of
             Inl e \<Rightarrow> (Some e, s)
           | Inr _ \<Rightarrow>
               (case preflightElevation p chunks of
                  Inl e \<Rightarrow> (Some e, s)
                | Inr _ \<Rightarrow> applySplitChunks p inproc elevated resourceChunkLabel chunks s)))"

definition applyPackagedOps ::
  "process \<Rightarrow> ('s, 'e) runner \<Rightarrow> ('s, 'e) runner \<Rightarrow> Op list \<Rightarrow> 's \<Rightarrow> 'e chunks_error option \<times> 's" where
  "applyPackagedOps p inproc elevated ops s =
     (if anyElevated ops then applyElevatedOps p inproc elevated ops s
      else (case validateApplyDeps (SplitPrivilegeChunks ops) Map.empty of
              Inl e \<Rightarrow> (Some e, s)
            | Inr _ \<Rightarrow> (case inproc ops s of (e, s') \<Rightarrow> (map_option PlanFailed e, s'))))"

section \<open>Lemmas\<close>

lemma apply_from_cong:
  assumes "\<And>ch s. ch \<in> set chunks \<Longrightarrow> \<not> ch_elevate ch \<Longrightarrow> inproc (ch_ops ch) s = inproc' (ch_ops ch) s"
    and "\<not> (pr_mode p = ModeNone \<and> pr_euid p = 0)"
  shows "apply_from p inproc elevated label i chunks s = apply_from p inproc' elevated label i chunks s"
  using assms(1)
proof (induction chunks arbitrary: i s)
  case (Cons ch chs)
  have IH: "apply_from p inproc elevated label j chs t = apply_from p inproc' elevated label j chs t" for j t
    using Cons.prems by (intro Cons.IH) simp
  show ?case using Cons.prems [of ch] assms(2) by (auto simp: IH split: prod.split option.split)
qed simp

lemma unprivileged_chunk_ops:
  assumes "ch \<in> set (SplitPrivilegeChunks ops)" "\<not> ch_elevate ch" "op \<in> set (ch_ops ch)" "is_resource op"
  shows "\<not> op_elevate op"
  using assms by (rule split_unprivileged_ops)

lemma cross_watches_SomeD:
  "cross_watches conflicts chunks i op ws = Some (Some e) \<Longrightarrow>
     \<exists>w \<in> set ws. \<exists>j. chunkOf chunks w = Some j \<and> j \<noteq> i"
  by (induction ws) (auto split: option.splits if_splits)

lemma cross_ops_SomeD:
  "cross_ops conflicts chunks iops = Some (Some e) \<Longrightarrow>
     \<exists>(i, op) \<in> set iops. op_if_changed op \<and> (\<exists>w \<in> set (op_watch op). \<exists>j. chunkOf chunks w = Some j \<and> j \<noteq> i)"
proof (induction iops)
  case (Cons x iops)
  then show ?case
    by (cases x) (auto split: if_splits option.splits dest: cross_watches_SomeD)
qed simp

lemma in_ops_of_chunks: "(i, op) \<in> set (ops_of_chunks chunks) \<longleftrightarrow> i < length chunks \<and> op \<in> set (ch_ops (chunks ! i))"
  by (auto simp: ops_of_chunks_def in_enumerate_iff image_iff)

text \<open>No resource carries the id of a control op, so both maps of first chunks agree on its id.\<close>

definition ids_apart :: "Chunk list \<Rightarrow> bool" where
  "ids_apart chunks \<longleftrightarrow>
     (\<forall>op \<in> \<Union> (set ` ch_ops ` set chunks). \<forall>op' \<in> \<Union> (set ` ch_ops ` set chunks).
        IsControlKind (op_kind op) \<longrightarrow> is_resource op' \<longrightarrow> op_id op' \<noteq> [] \<longrightarrow> op_id op \<noteq> op_id op')"

lemma chunkOf_firstChunkOf:
  assumes "ids_apart chunks" "chunkOf chunks w = Some j"
  shows "firstChunkOf (map ch_ops chunks) w = Some j"
proof -
  let ?res = "map (\<lambda>ch. filter (\<lambda>op. is_resource op) (ch_ops ch)) chunks"
  have j: "j < length chunks" "w \<noteq> []" "carries w (?res ! j)" "\<forall>l < j. \<not> carries w (?res ! l)"
    using firstChunkOf_SomeD [OF assms(2) [unfolded chunkOf_def]] by auto
  then obtain r where r: "r \<in> set (ch_ops (chunks ! j))" "is_resource r" "op_id r = w"
    by (auto simp: carries_iff)
  have "\<not> carries w (ch_ops (chunks ! l))" if "l < j" for l
  proof
    assume "carries w (ch_ops (chunks ! l))"
    then obtain c where c: "c \<in> set (ch_ops (chunks ! l))" "op_id c = w" by (auto simp: carries_iff)
    moreover have "l < length chunks" using that j(1) by simp
    moreover have "is_resource c"
    proof (rule ccontr)
      assume "\<not> is_resource c"
      moreover have "chunks ! l \<in> set chunks" "chunks ! j \<in> set chunks" using j(1) that by auto
      ultimately show False using assms(1) c r j(2) unfolding ids_apart_def by (metis UN_I image_eqI)
    qed
    ultimately have "carries w (?res ! l)" by (auto simp: carries_iff)
    with j(4) that show False by blast
  qed
  moreover have "carries w (ch_ops (chunks ! j))" using r by (auto simp: carries_iff)
  ultimately have "first_index (carries w) (map ch_ops chunks) = Some j"
    using j(1) by (intro first_index_Some_intro) auto
  with j(2) show ?thesis by (simp add: firstChunkOf_eq)
qed

lemma check_gates_watch:
  assumes "ValidateChangeGates chunks = Inr ()" "i < length chunks" "op \<in> set (chunks ! i)" "op_if_changed op"
    "w \<in> set (op_watch op)"
  shows "firstChunkOf chunks w = Some i"
proof -
  have "check_gate (firstChunkOf chunks) i op = Inr ()"
    using assms(1-3) check_enumerate_iff [of "check_gate (firstChunkOf chunks)" chunks]
    by (simp add: ValidateChangeGates_def)
  with assms(4,5) have "check_watch (firstChunkOf chunks) i op w = Inr ()"
    by (auto simp: check_gate_def check_all_Inr_iff split: if_splits)
  then show ?thesis by (auto simp: check_watch_def split: option.splits if_splits)
qed

section \<open>Properties\<close>

text \<open>
  The re-worded pre-flight of \<open>Apply\<close> refuses exactly the plans the plan engine's own pre-flight
  refuses: wording a cross-chunk watch in terms of privilege classes never changes the verdict.
\<close>

theorem validateApplyDeps_iff_ValidateChunks:
  assumes "ids_apart chunks"
  shows "validateApplyDeps chunks conflicts = (Inr () :: 'e chunks_error check) \<longleftrightarrow> ValidateChunks chunks = Inr ()"
proof -
  have "crossChunkWatchRefusal conflicts chunks = (None :: 'e chunks_error option)" if ok: "ValidateChunks chunks = Inr ()"
  proof (rule ccontr)
    assume "\<not> ?thesis"
    then obtain e :: "'e chunks_error" where "cross_ops conflicts chunks (ops_of_chunks chunks) = Some (Some e)"
      by (auto simp: crossChunkWatchRefusal_def split: if_splits option.splits)
    from cross_ops_SomeD [OF this] obtain i op w j where x: "i < length chunks" "op \<in> set (ch_ops (chunks ! i))"
      "op_if_changed op" "w \<in> set (op_watch op)" "chunkOf chunks w = Some j" "j \<noteq> i"
      by (auto simp: in_ops_of_chunks)
    have "ValidateChangeGates (map ch_ops chunks) = Inr ()" using ok by (auto simp: ValidateChunks_def Let_def res_simps)
    from check_gates_watch [OF this, of i op w] x have "firstChunkOf (map ch_ops chunks) w = Some i" by simp
    with chunkOf_firstChunkOf [OF assms x(5)] x(6) show False by simp
  qed
  then show ?thesis
    by (auto simp: validateApplyDeps_def preflightChunks_def map_err_Inr_iff split: option.splits)
qed

text \<open>
  C7: a process that cannot apply elevated chunks itself never hands an elevated op to its in-process
  engine: what that engine would do with one makes no difference to the whole apply.
\<close>

theorem engine_never_sees_elevated:
  assumes "\<not> (pr_mode p = ModeNone \<and> pr_euid p = 0)"
    and "\<And>ops s. \<forall>op \<in> set ops. is_resource op \<longrightarrow> \<not> op_elevate op \<Longrightarrow> inproc ops s = inproc' ops s"
  shows "applyPackagedOps p inproc elevated ops s = applyPackagedOps p inproc' elevated ops s"
proof -
  have "applySplitChunks p inproc elevated label (SplitPrivilegeChunks ops) s
      = applySplitChunks p inproc' elevated label (SplitPrivilegeChunks ops) s" for label ops s
    unfolding applySplitChunks_def
    by (rule apply_from_cong [OF assms(2) assms(1)]) (auto dest: split_unprivileged_ops)
  moreover have "inproc ops s = inproc' ops s" if "\<not> anyElevated ops"
    using that by (intro assms(2)) (auto simp: anyElevated_def list_ex_iff)
  ultimately show ?thesis
    by (simp add: applyPackagedOps_def applyElevatedOps_def Let_def split: sum.split prod.split)
qed

section \<open>Witnesses\<close>

definition sample_chunks :: "Chunk list" where
  "sample_chunks =
     [\<lparr>ch_elevate = False, ch_ops = [resource_op KindFile ''File[f]'']\<rparr>,
      \<lparr>ch_elevate = True,
       ch_ops = [(resource_op KindCommand ''Command[c]'')\<lparr>op_if_changed := True, op_watch := [''File[f]'']\<rparr>]\<rparr>]"

theorem validateApplyDeps_iff_ValidateChunks_witness:
  "validateApplyDeps sample_chunks Map.empty \<noteq> (Inr () :: unit chunks_error check)"
proof -
  have "ids_apart sample_chunks"
    by (auto simp: ids_apart_def sample_chunks_def resource_op_def zero_op_def)
  moreover have "ValidateChunks sample_chunks \<noteq> Inr ()" by code_simp
  ultimately show ?thesis using validateApplyDeps_iff_ValidateChunks by blast
qed

definition careless :: "(string list, unit) runner" where
  "careless ops s = (None, s @ map op_id ops)"

definition strict :: "(string list, unit) runner" where
  "strict ops s =
     (if list_ex (\<lambda>op. is_resource op \<and> op_elevate op) ops then (Some (), []) else (None, s @ map op_id ops))"

theorem engine_never_sees_elevated_witness:
  "applyPackagedOps \<lparr>pr_euid = 1000, pr_cli = True, pr_mode = Sudo\<rparr> careless careless sample_apply []
     = applyPackagedOps \<lparr>pr_euid = 1000, pr_cli = True, pr_mode = Sudo\<rparr> strict careless sample_apply []"
  by (rule engine_never_sees_elevated) (auto simp: careless_def strict_def list_ex_iff)

end
