(* ===== verification/Report.thy ===== *)
theory Report
  imports PathToken PlanTypes
begin

text \<open>
  The outcome log of an apply (\<open>resource/report.go\<close>), the two helpers every mutation goes through
  (\<open>resource/mutate.go\<close>, \<open>resource/converge.go\<close>) and the change gate (\<open>resource/embed/embed.go\<close>). The
  package variables \<open>dryRun\<close> and \<open>notes\<close> and the host an action works on are one state; the host's
  type is a parameter, and an action returns the host it leaves behind together with its error. The
  mutex, log lines and the printed summary are not modelled.
\<close>

section \<open>Outcomes\<close>

datatype Status = StatusOK | StatusChanged | StatusSkipped | StatusWouldChange

text \<open>The number \<open>iota\<close> gives a status; it orders them as Go's ints are ordered.\<close>

fun status_int :: "Status \<Rightarrow> nat" where
  "status_int StatusOK = 0"
| "status_int StatusChanged = 1"
| "status_int StatusSkipped = 2"
| "status_int StatusWouldChange = 3"

instantiation Status :: linorder
begin

definition less_eq_Status :: "Status \<Rightarrow> Status \<Rightarrow> bool" where
  "less_eq_Status a b \<longleftrightarrow> status_int a \<le> status_int b"

definition less_Status :: "Status \<Rightarrow> Status \<Rightarrow> bool" where
  "less_Status a b \<longleftrightarrow> status_int a < status_int b"

instance
proof
  fix a b :: Status
  show "a \<le> b \<Longrightarrow> b \<le> a \<Longrightarrow> a = b" by (cases a; cases b) (simp_all add: less_eq_Status_def)
qed (auto simp: less_eq_Status_def less_Status_def)

end

fun status_String :: "Status \<Rightarrow> string" where
  "status_String StatusOK = ''ok''"
| "status_String StatusChanged = ''changed''"
| "status_String StatusSkipped = ''skipped''"
| "status_String StatusWouldChange = ''would-change''"

record run_note =
  nt_id :: string
  nt_st :: Status

record 'h run_state =
  rs_dryRun :: bool
  rs_notes :: "run_note list"
  rs_host :: 'h

definition Note :: "string \<Rightarrow> Status \<Rightarrow> 'h run_state \<Rightarrow> 'h run_state" where
  "Note i st s = s\<lparr>rs_notes := rs_notes s @ [\<lparr>nt_id = i, nt_st = st\<rparr>]\<rparr>"

definition NoteResult :: "string \<Rightarrow> bool \<Rightarrow> 'h run_state \<Rightarrow> 'h run_state" where
  "NoteResult i changed s =
     Note i (if changed then (if rs_dryRun s then StatusWouldChange else StatusChanged) else StatusOK) s"

definition NoteIdle :: "string \<Rightarrow> bool \<Rightarrow> 'h run_state \<Rightarrow> 'h run_state" where
  "NoteIdle i held s = (if held then Note i StatusSkipped s else NoteResult i False s)"

definition ResetReport :: "'h run_state \<Rightarrow> 'h run_state" where
  "ResetReport s = s\<lparr>rs_notes := []\<rparr>"

section \<open>Ids and watches\<close>

definition idPrefix :: "string \<Rightarrow> string" where
  "idPrefix typeName = typeName @ ''[''"

definition FormatID :: "string \<Rightarrow> string \<Rightarrow> string" where
  "FormatID typeName name = idPrefix typeName @ name @ '']''"

definition isChangeStatus :: "Status \<Rightarrow> bool" where
  "isChangeStatus st \<longleftrightarrow> st = StatusChanged \<or> st = StatusWouldChange"

definition directoryNotePath :: "string \<Rightarrow> string option" where
  "directoryNotePath i =
     (if \<not> has_prefix i (idPrefix ''Directory'') \<or> \<not> has_suffix i '']'' then None
      else Some (take (length i - 1 - length (idPrefix ''Directory'')) (drop (length (idPrefix ''Directory'')) i)))"

definition watchCovers :: "string \<Rightarrow> string \<Rightarrow> bool" where
  "watchCovers watch i \<longleftrightarrow>
     i = watch
     \<or> (case directoryNotePath watch of
          None \<Rightarrow> False
        | Some dir \<Rightarrow>
            (let pre = idPrefix ''File'' @ dir
             in i = pre @ '']'' \<or> has_prefix i (pre @ [SLASH]) \<or> has_prefix i (pre @ [BSL])))"

definition watchForms :: "home_env \<Rightarrow> string \<Rightarrow> string list" where
  "watchForms env i =
     (if \<not> HasToken i then [i]
      else case Expand env i of
        Inl _ \<Rightarrow> [i]
      | Inr e \<Rightarrow> if e = i then [i] else [i, e])"

definition note_fires :: "string \<Rightarrow> run_note \<Rightarrow> bool" where
  "note_fires i n \<longleftrightarrow>
     isChangeStatus (nt_st n)
     \<and> (nt_id n = i \<or> (directoryNotePath i \<noteq> None \<and> watchCovers i (nt_id n)))"

definition anyChangedIn :: "home_env \<Rightarrow> run_note list \<Rightarrow> string list \<Rightarrow> bool" where
  "anyChangedIn env log ids \<longleftrightarrow>
     list_ex (\<lambda>watch. list_ex (\<lambda>i. list_ex (note_fires i) log) (watchForms env watch)) ids"

definition AnyChanged :: "home_env \<Rightarrow> 'h run_state \<Rightarrow> string list \<Rightarrow> bool" where
  "AnyChanged env s ids = anyChangedIn env (rs_notes s) ids"

text \<open>The notes after the last change note of \<open>anchor\<close>.\<close>

definition notes_since :: "string \<Rightarrow> run_note list \<Rightarrow> run_note list" where
  "notes_since anchor log =
     rev (takeWhile (\<lambda>n. \<not> (nt_id n = anchor \<and> isChangeStatus (nt_st n))) (rev log))"

definition ChangedSince :: "home_env \<Rightarrow> 'h run_state \<Rightarrow> string \<Rightarrow> string list \<Rightarrow> bool" where
  "ChangedSince env s anchor ids = anyChangedIn env (notes_since anchor (rs_notes s)) ids"

section \<open>Mutations\<close>

text \<open>An action on the host: the host it leaves, and its error if it failed.\<close>

type_synonym ('h, 'e) host_action = "'h \<Rightarrow> 'h \<times> 'e option"

definition Mutate :: "string \<Rightarrow> ('h, 'e) host_action \<Rightarrow> 'h run_state \<Rightarrow> 'h run_state \<times> 'e option" where
  "Mutate i act s =
     (if rs_dryRun s then (Note i StatusWouldChange s, None)
      else case act (rs_host s) of
        (h, Some e) \<Rightarrow> (s\<lparr>rs_host := h\<rparr>, Some e)
      | (h, None) \<Rightarrow> (Note i StatusChanged (s\<lparr>rs_host := h\<rparr>), None))"

text \<open>The loop of \<open>Converge\<close>: it stops at the first action that fails.\<close>

fun do_actions :: "('h, 'e) host_action list \<Rightarrow> ('h, 'e) host_action" where
  "do_actions [] h = (h, None)"
| "do_actions (a # as) h = (case a h of (h', Some e) \<Rightarrow> (h', Some e) | (h', None) \<Rightarrow> do_actions as h')"

definition Converge ::
  "string \<Rightarrow> ('h, 'e) host_action list \<Rightarrow> bool \<Rightarrow> 'h run_state \<Rightarrow> 'h run_state \<times> 'e option" where
  "Converge i actions held s =
     (if List.null actions then (NoteIdle i held s, None)
      else if rs_dryRun s then (NoteResult i True s, None)
      else case do_actions actions (rs_host s) of
        (h, Some e) \<Rightarrow> (s\<lparr>rs_host := h\<rparr>, Some e)
      | (h, None) \<Rightarrow> (NoteResult i True (s\<lparr>rs_host := h\<rparr>), None))"

section \<open>Gates\<close>

record ChangeGate =
  cg_gated :: bool
  cg_watch :: "string list"

fun AddWatch :: "string list \<Rightarrow> ChangeGate \<Rightarrow> ChangeGate" where
  "AddWatch [] c = c"
| "AddWatch (i # ids) c = AddWatch ids (if i \<in> set (cg_watch c) then c else c\<lparr>cg_watch := cg_watch c @ [i]\<rparr>)"

definition SetChangeWatch :: "string list \<Rightarrow> ChangeGate \<Rightarrow> ChangeGate" where
  "SetChangeWatch ids c = AddWatch ids (c\<lparr>cg_gated := True\<rparr>)"

definition CheckWatch :: "ChangeGate \<Rightarrow> bool" where
  "CheckWatch c \<longleftrightarrow> \<not> (cg_gated c \<and> cg_watch c = [])"

definition Holds :: "ChangeGate \<Rightarrow> (string list \<Rightarrow> bool) \<Rightarrow> bool" where
  "Holds c changed \<longleftrightarrow> cg_gated c \<and> \<not> changed (cg_watch c)"

section \<open>Lemmas: frames\<close>

lemma Note_frame [simp]:
  "rs_dryRun (Note i st s) = rs_dryRun s" "rs_host (Note i st s) = rs_host s"
  "rs_dryRun (NoteResult i changed s) = rs_dryRun s" "rs_host (NoteResult i changed s) = rs_host s"
  "rs_dryRun (NoteIdle i held s) = rs_dryRun s" "rs_host (NoteIdle i held s) = rs_host s"
  by (simp_all add: Note_def NoteResult_def NoteIdle_def)

section \<open>Lemmas: the dry run's view of a log\<close>

text \<open>What a dry run notes where a real run notes a status.\<close>

fun would_status :: "Status \<Rightarrow> Status" where
  "would_status StatusChanged = StatusWouldChange"
| "would_status st = st"

definition would :: "run_note \<Rightarrow> run_note" where
  "would n = n\<lparr>nt_st := would_status (nt_st n)\<rparr>"

lemma would_simps [simp]: "nt_id (would n) = nt_id n" "isChangeStatus (nt_st (would n)) = isChangeStatus (nt_st n)"
  "would \<lparr>nt_id = i, nt_st = st\<rparr> = \<lparr>nt_id = i, nt_st = would_status st\<rparr>"
  by (cases "nt_st n"; simp add: would_def isChangeStatus_def)+

lemma note_fires_would [simp]: "note_fires i (would n) = note_fires i n"
  by (simp add: note_fires_def)

lemma anyChangedIn_would [simp]: "anyChangedIn env (map would log) ids = anyChangedIn env log ids"
  by (simp add: anyChangedIn_def list_ex_iff)

lemma notes_since_would [simp]: "notes_since a (map would log) = map would (notes_since a log)"
  by (simp add: notes_since_def rev_map takeWhile_map comp_def)

text \<open>The state of a dry run that stands where a real run stands, on the host it started from.\<close>

definition as_dry :: "'h \<Rightarrow> 'h run_state \<Rightarrow> 'h run_state" where
  "as_dry h s = \<lparr>rs_dryRun = True, rs_notes = map would (rs_notes s), rs_host = h\<rparr>"

lemma as_dry_sel [simp]: "rs_dryRun (as_dry h s)" "rs_notes (as_dry h s) = map would (rs_notes s)" "rs_host (as_dry h s) = h"
  by (simp_all add: as_dry_def)

lemma oracle_as_dry [simp]:
  "AnyChanged env (as_dry h s) = AnyChanged env s"
  "ChangedSince env (as_dry h s) = ChangedSince env s"
  by (simp_all add: AnyChanged_def ChangedSince_def fun_eq_iff)

lemma Note_as_dry: "Note i (would_status st) (as_dry h s) = as_dry h (Note i st s)"
  by (simp add: Note_def as_dry_def)

lemma as_dry_host [simp]:
  "as_dry h (s\<lparr>rs_host := h'\<rparr>) = as_dry h s" "as_dry h (Note i st (s\<lparr>rs_host := h'\<rparr>)) = as_dry h (Note i st s)"
  by (simp_all add: as_dry_def Note_def)

lemma NoteIdle_as_dry: "NoteIdle i held (as_dry h s) = as_dry h (NoteIdle i held s)"
  by (simp add: NoteIdle_def NoteResult_def flip: Note_as_dry)

end
