(* ===== verification/RcLex.thy ===== *)
theory RcLex
  imports GoStrings
begin

text \<open>
  The sh(1) lexer for rc.conf-style files (\<open>resource/service/rcconf_lex.go\<close>). Offsets are byte
  positions in the source. The closures that \<open>until\<close> runs are the functions \<open>step_...\<close>, one per
  construct: they look at one character and say how the scan goes on, so that one recursive function
  \<open>scan\<close> is \<open>until\<close> and \<open>untilEscaping\<close> for every construct, nested ones included. Every round
  moves past a character, so a scan never needs more rounds than the source has characters left:
  the fuel of \<open>scan\<close>, \<open>word_loop\<close> and \<open>lex_loop\<close>, and \<open>lexRc_total\<close> shows it never runs out.
\<close>

section \<open>Tokens and errors\<close>

datatype rcTokenKind = rcWord | rcOperator | rcNewline

record rcToken =
  tk_kind :: rcTokenKind
  tk_text :: string
  tk_joined :: string
  tk_start :: nat
  tk_end :: nat

record rcHeredoc =
  hd_delim :: string
  hd_stripTabs :: bool
  hd_quoted :: bool
  hd_start :: nat

record rcLexer =
  lx_pos :: nat
  lx_tokens :: "rcToken list"
  lx_heredocs :: "rcHeredoc list"

datatype rc_what =
    CRLFEnding
  | HeredocUnclosed string
  | HeredocNoDelimiter
  | HeredocContinued
  | UnknownOperator
  | UnterminatedSingleQuote
  | UnterminatedDollarQuote
  | UnterminatedDoubleQuote
  | UnterminatedBackquote
  | UnterminatedParameter
  | UnterminatedCommand
  | CaseInCommand
  | HeredocInCommand
  | EndsInContinuation
  | EndsAfterOperator string
  | OutOfFuel

text \<open>A refused text: the line, counted from 1, and what is wrong there.\<close>

datatype rc_syntax = RcSyntax nat rc_what

definition fail_at :: "string \<Rightarrow> nat \<Rightarrow> rc_what \<Rightarrow> rc_syntax" where
  "fail_at src off what = RcSyntax (count_list (take off src) NL + 1) what"

definition rcOperators :: "string list" where
  "rcOperators = [''<<-'', '';;'', ''&&'', ''||'', ''<<'', ''>>'', ''<&'', ''>&'', ''<>'', ''>|'',
     '';'', ''&'', ''|'', ''<'', ''>'', ''('', '')'']"

definition isRcOperatorChar :: "char \<Rightarrow> bool" where
  "isRcOperatorChar c \<longleftrightarrow> c \<in> set '';&|<>()''"

definition isRcBlank :: "char \<Rightarrow> bool" where
  "isRcBlank c \<longleftrightarrow> c = SP \<or> c = TAB"

definition slice_of :: "string \<Rightarrow> nat \<Rightarrow> nat \<Rightarrow> string" where
  "slice_of src i j = take (j - i) (drop i src)"

definition join_lines :: "string \<Rightarrow> string" where
  "join_lines text = replace_all text [BSL, NL] []"

section \<open>Scanning one construct\<close>

text \<open>
  \<open>InCommand arithmetic depth wordStart commandPosition\<close> is \<open>$(...)\<close> with the variables its closure
  keeps between characters.
\<close>

datatype rc_mode =
    InDollarQuote
  | InDouble
  | InBackquote
  | InParameter bool
  | InCommand bool nat bool bool

fun unterminated :: "rc_mode \<Rightarrow> rc_what" where
  "unterminated InDollarQuote = UnterminatedDollarQuote"
| "unterminated InDouble = UnterminatedDoubleQuote"
| "unterminated InBackquote = UnterminatedBackquote"
| "unterminated (InParameter d) = UnterminatedParameter"
| "unterminated (InCommand a d w c) = UnterminatedCommand"

text \<open>
  What a character does to a scan: close the construct, go on at an offset, go through a nested
  construct (its mode and the offset its own text starts at) first, or refuse.
\<close>

datatype action =
    Finish nat
  | Continue rc_mode nat
  | Nested rc_mode nat rc_mode
  | Refuse rc_syntax

definition singleQuoted :: "string \<Rightarrow> nat \<Rightarrow> (rc_syntax, nat) result" where
  "singleQuoted src pos =
     (case index_byte (drop (pos + 1) src) SQ of
        None \<Rightarrow> Inl (fail_at src pos UnterminatedSingleQuote)
      | Some e \<Rightarrow> Inr (pos + e + 2))"

text \<open>The construct a \<open>$\<close> starts, if any, and where its text starts.\<close>

definition dollar :: "string \<Rightarrow> bool \<Rightarrow> nat \<Rightarrow> (rc_mode \<times> nat) option" where
  "dollar src inDouble pos =
     (let rest = drop pos src in
      if has_prefix rest ''$('' then Some (InCommand (has_prefix rest ''$(('') 1 True True, pos + 2)
      else if has_prefix rest ''${'' then Some (InParameter inDouble, pos + 2)
      else if \<not> inDouble \<and> has_prefix rest [CHR ''$'', SQ] then Some (InDollarQuote, pos + 2)
      else None)"

definition through_dollar :: "string \<Rightarrow> bool \<Rightarrow> nat \<Rightarrow> rc_mode \<Rightarrow> action" where
  "through_dollar src inDouble pos m =
     (case dollar src inDouble pos of
        Some (m', from) \<Rightarrow> Nested m' from m
      | None \<Rightarrow> Continue m (pos + 1))"

definition through_single :: "string \<Rightarrow> nat \<Rightarrow> rc_mode \<Rightarrow> action" where
  "through_single src pos m =
     (case singleQuoted src pos of Inl e \<Rightarrow> Refuse e | Inr p \<Rightarrow> Continue m p)"

definition step_dollarQuote :: "char \<Rightarrow> nat \<Rightarrow> action" where
  "step_dollarQuote c pos = (if c = SQ then Finish (pos + 1) else Continue InDollarQuote (pos + 1))"

definition step_double :: "string \<Rightarrow> char \<Rightarrow> nat \<Rightarrow> action" where
  "step_double src c pos =
     (if c = DQ then Finish (pos + 1)
      else if c = BQ then Nested InBackquote (pos + 1) InDouble
      else if c = CHR ''$'' then through_dollar src True pos InDouble
      else Continue InDouble (pos + 1))"

definition step_backquote :: "char \<Rightarrow> nat \<Rightarrow> action" where
  "step_backquote c pos = (if c = BQ then Finish (pos + 1) else Continue InBackquote (pos + 1))"

definition step_parameter :: "string \<Rightarrow> bool \<Rightarrow> char \<Rightarrow> nat \<Rightarrow> action" where
  "step_parameter src inDouble c pos =
     (let m = InParameter inDouble in
      if c = CHR ''}'' then Finish (pos + 1)
      else if c = SQ then (if inDouble then Continue m (pos + 1) else through_single src pos m)
      else if c = DQ then Nested InDouble (pos + 1) m
      else if c = BQ then Nested InBackquote (pos + 1) m
      else if c = CHR ''$'' then through_dollar src inDouble pos m
      else Continue m (pos + 1))"

definition rcCommandPrefixWords :: "string list" where
  "rcCommandPrefixWords = [''if'', ''then'', ''else'', ''elif'', ''do'', ''while'', ''until'', ''{'', ''!'']"

definition rcBareWord :: "string \<Rightarrow> string" where
  "rcBareWord s = takeWhile (\<lambda>c. \<not> (isRcBlank c \<or> c = NL \<or> isRcOperatorChar c)) s"

text \<open>The offset \<open>skipComment\<close> moves to: the next newline or the end.\<close>

definition comment_end :: "string \<Rightarrow> nat \<Rightarrow> nat" where
  "comment_end src pos =
     (case index_byte (drop pos src) NL of Some e \<Rightarrow> pos + e | None \<Rightarrow> length src)"

definition step_command ::
  "string \<Rightarrow> bool \<Rightarrow> nat \<Rightarrow> bool \<Rightarrow> bool \<Rightarrow> char \<Rightarrow> nat \<Rightarrow> action" where
  "step_command src arithmetic depth wordStart commandPosition c pos =
     (let atWord = wordStart;
          wordStart' = (isRcBlank c \<or> c \<in> set (NL # '';&|()''));
          word = rcBareWord (drop pos src);
          reads_word = (atWord \<and> \<not> wordStart' \<and> \<not> arithmetic);
          position = (if reads_word then commandPosition \<and> word \<in> set rcCommandPrefixWords else commandPosition);
          position' = (if c \<in> set (NL # '';&|('') then True else position);
          m = InCommand arithmetic depth wordStart' position'
      in if reads_word \<and> commandPosition \<and> word = ''case'' then Refuse (fail_at src pos CaseInCommand)
         else if c = CHR ''('' then Continue (InCommand arithmetic (depth + 1) wordStart' position') (pos + 1)
         else if c = CHR '')'' then
           (if depth - 1 = 0 then Finish (pos + 1)
            else Continue (InCommand arithmetic (depth - 1) wordStart' position') (pos + 1))
         else if c = SQ then through_single src pos m
         else if c = DQ then Nested InDouble (pos + 1) m
         else if c = BQ then Nested InBackquote (pos + 1) m
         else if c = CHR ''$'' then through_dollar src False pos m
         else if c = CHR ''#'' then
           (if atWord \<and> \<not> arithmetic then Continue m (comment_end src pos) else Continue m (pos + 1))
         else if c = CHR ''<'' then
           (if \<not> arithmetic \<and> has_prefix (drop pos src) ''<<'' then Refuse (fail_at src pos HeredocInCommand)
            else Continue m (pos + 1))
         else Continue m (pos + 1))"

fun step_mode :: "string \<Rightarrow> rc_mode \<Rightarrow> char \<Rightarrow> nat \<Rightarrow> action" where
  "step_mode src InDollarQuote c pos = step_dollarQuote c pos"
| "step_mode src InDouble c pos = step_double src c pos"
| "step_mode src InBackquote c pos = step_backquote c pos"
| "step_mode src (InParameter d) c pos = step_parameter src d c pos"
| "step_mode src (InCommand a d w p) c pos = step_command src a d w p c pos"

text \<open>The character a backslash escapes, as \<open>commandSubstitution\<close> sees it.\<close>

fun escaped :: "string \<Rightarrow> rc_mode \<Rightarrow> nat \<Rightarrow> rc_mode" where
  "escaped src (InCommand a d wordStart commandPosition) pos =
     (if pos + 1 < length src \<and> src ! (pos + 1) \<noteq> NL
      then InCommand a d False (if wordStart then False else commandPosition)
      else InCommand a d wordStart commandPosition)"
| "escaped src m pos = m"

fun scan :: "nat \<Rightarrow> string \<Rightarrow> nat \<Rightarrow> rc_mode \<Rightarrow> nat \<Rightarrow> (rc_syntax, nat) result" where
  "scan 0 src start m pos = Inl (fail_at src start OutOfFuel)"
| "scan (Suc fuel) src start m pos =
     (if pos \<ge> length src then Inl (fail_at src start (unterminated m))
      else if src ! pos = BSL then scan fuel src start (escaped src m pos) (pos + 2)
      else (case step_mode src m (src ! pos) pos of
              Finish p \<Rightarrow> Inr p
            | Continue m' p \<Rightarrow> scan fuel src start m' p
            | Nested m' from m'' \<Rightarrow>
                bind_res (scan fuel src pos m' from) (\<lambda>p. scan fuel src start m'' p)
            | Refuse e \<Rightarrow> Inl e))"

section \<open>Words\<close>

definition continuation :: "string \<Rightarrow> nat \<Rightarrow> (rc_syntax, nat) result" where
  "continuation src pos =
     (if pos + 1 = length src \<or> (src ! (pos + 1) = NL \<and> pos + 2 = length src)
      then Inl (fail_at src pos EndsInContinuation)
      else Inr (pos + 2))"

definition wordUnit :: "string \<Rightarrow> nat \<Rightarrow> (rc_syntax, nat) result" where
  "wordUnit src pos =
     (let c = src ! pos; fuel = Suc (length src) in
      if c = BSL then continuation src pos
      else if c = SQ then singleQuoted src pos
      else if c = DQ then scan fuel src pos InDouble (pos + 1)
      else if c = BQ then scan fuel src pos InBackquote (pos + 1)
      else if c = CHR ''$'' then
        (case dollar src False pos of
           Some (m, from) \<Rightarrow> scan fuel src pos m from
         | None \<Rightarrow> Inr (pos + 1))
      else Inr (pos + 1))"

fun word_loop :: "nat \<Rightarrow> string \<Rightarrow> nat \<Rightarrow> (rc_syntax, nat) result" where
  "word_loop 0 src pos = Inl (fail_at src pos OutOfFuel)"
| "word_loop (Suc fuel) src pos =
     (if pos \<ge> length src \<or> isRcBlank (src ! pos) \<or> src ! pos = NL \<or> isRcOperatorChar (src ! pos) then Inr pos
      else bind_res (wordUnit src pos) (\<lambda>p. word_loop fuel src p))"

section \<open>The lexer\<close>

definition emit :: "string \<Rightarrow> rcTokenKind \<Rightarrow> nat \<Rightarrow> rcLexer \<Rightarrow> rcLexer" where
  "emit src k start l =
     (let text = slice_of src start (lx_pos l)
      in l\<lparr>lx_tokens := lx_tokens l @
            [\<lparr>tk_kind = k, tk_text = text, tk_joined = join_lines text, tk_start = start, tk_end = lx_pos l\<rparr>]\<rparr>)"

definition word :: "string \<Rightarrow> rcLexer \<Rightarrow> (rc_syntax, rcLexer) result" where
  "word src l =
     bind_res (word_loop (Suc (length src)) src (lx_pos l)) (\<lambda>p.
       Inr (emit src rcWord (lx_pos l) (l\<lparr>lx_pos := p\<rparr>)))"

fun skip_blanks :: "string \<Rightarrow> nat" where
  "skip_blanks [] = 0"
| "skip_blanks (c # cs) = (if isRcBlank c then Suc (skip_blanks cs) else 0)"

definition heredocDelimiter :: "string \<Rightarrow> nat \<Rightarrow> bool \<Rightarrow> rcLexer \<Rightarrow> (rc_syntax, rcLexer) result" where
  "heredocDelimiter src start stripTabs l =
     (let p = lx_pos l + skip_blanks (drop (lx_pos l) src) in
      if p \<ge> length src \<or> src ! p = NL \<or> isRcOperatorChar (src ! p)
      then Inl (fail_at src start HeredocNoDelimiter)
      else bind_res (word src (l\<lparr>lx_pos := p\<rparr>)) (\<lambda>l'.
        let w = tk_text (last (lx_tokens l'));
            delim = remove_bytes w [BSL, SQ, DQ]
        in Inr (l'\<lparr>lx_heredocs := lx_heredocs l' @
             [\<lparr>hd_delim = delim, hd_stripTabs = stripTabs, hd_quoted = (delim \<noteq> w), hd_start = start\<rparr>]\<rparr>)))"

definition operator :: "string \<Rightarrow> rcLexer \<Rightarrow> (rc_syntax, rcLexer) result" where
  "operator src l =
     (let start = lx_pos l in
      case find (\<lambda>oper. has_prefix (drop start src) oper) rcOperators of
        None \<Rightarrow> Inl (fail_at src start UnknownOperator)
      | Some oper \<Rightarrow>
          (let l' = emit src rcOperator start (l\<lparr>lx_pos := start + length oper\<rparr>)
           in if oper = ''<<'' \<or> oper = ''<<-'' then heredocDelimiter src start (oper = ''<<-'') l'
              else Inr l'))"

text \<open>One here-document body: the offset after its closing line.\<close>

fun body_end :: "nat \<Rightarrow> string \<Rightarrow> rcHeredoc \<Rightarrow> nat \<Rightarrow> (rc_syntax, nat) result" where
  "body_end 0 src h pos = Inl (fail_at src (hd_start h) OutOfFuel)"
| "body_end (Suc fuel) src h pos =
     (if pos = length src then Inl (fail_at src (hd_start h) (HeredocUnclosed (hd_delim h)))
      else (case cut (drop pos src) NL of
        (line, rest, found) \<Rightarrow>
          (let pos' = (if found then length src - length rest else length src) in
           if \<not> hd_quoted h \<and> has_suffix line [BSL] then Inl (fail_at src (pos' - 1) HeredocContinued)
           else if (if hd_stripTabs h then trim_left line [TAB] else line) = hd_delim h then Inr pos'
           else body_end fuel src h pos')))"

definition extend_last :: "nat \<Rightarrow> rcToken list \<Rightarrow> rcToken list" where
  "extend_last e tokens = butlast tokens @ [(last tokens)\<lparr>tk_end := e\<rparr>]"

definition skipHeredocBodies :: "string \<Rightarrow> rcLexer \<Rightarrow> (rc_syntax, rcLexer) result" where
  "skipHeredocBodies src l =
     bind_res (fold_res (body_end (Suc (length src)) src) (lx_heredocs l) (lx_pos l)) (\<lambda>p.
       Inr (l\<lparr>lx_pos := p, lx_heredocs := [], lx_tokens := extend_last p (lx_tokens l)\<rparr>))"

definition lex_next :: "string \<Rightarrow> rcLexer \<Rightarrow> (rc_syntax, rcLexer) result" where
  "lex_next src l =
     (let pos = lx_pos l; c = src ! pos in
      if isRcBlank c then Inr (l\<lparr>lx_pos := pos + 1\<rparr>)
      else if has_prefix (drop pos src) [BSL, NL] then
        bind_res (continuation src pos) (\<lambda>p. Inr (l\<lparr>lx_pos := p\<rparr>))
      else if c = CHR ''#'' then Inr (l\<lparr>lx_pos := comment_end src pos\<rparr>)
      else if c = NL then skipHeredocBodies src (emit src rcNewline pos (l\<lparr>lx_pos := pos + 1\<rparr>))
      else if isRcOperatorChar c then operator src l
      else word src l)"

fun lex_loop :: "nat \<Rightarrow> string \<Rightarrow> rcLexer \<Rightarrow> (rc_syntax, rcLexer) result" where
  "lex_loop 0 src l = Inl (fail_at src (lx_pos l) OutOfFuel)"
| "lex_loop (Suc fuel) src l =
     (if lx_pos l < length src then bind_res (lex_next src l) (lex_loop fuel src) else Inr l)"

definition lexRc :: "string \<Rightarrow> (rc_syntax, rcToken list) result" where
  "lexRc src =
     (case index_str src [CR, NL] of
        Some i \<Rightarrow> Inl (fail_at src i CRLFEnding)
      | None \<Rightarrow>
          bind_res (lex_loop (Suc (length src)) src \<lparr>lx_pos = 0, lx_tokens = [], lx_heredocs = []\<rparr>) (\<lambda>l.
            case lx_heredocs l of
              h # _ \<Rightarrow> Inl (fail_at src (hd_start h) (HeredocUnclosed (hd_delim h)))
            | [] \<Rightarrow> Inr (lx_tokens l)))"

section \<open>Lines\<close>

fun line_starts :: "nat \<Rightarrow> string \<Rightarrow> nat list" where
  "line_starts i [] = []"
| "line_starts i (c # cs) = (if c = NL then [i + 1] else []) @ line_starts (Suc i) cs"

definition newRcLineIndex :: "string \<Rightarrow> nat list" where
  "newRcLineIndex src = 0 # line_starts 0 src"

text \<open>\<open>sort.Search\<close> over the ascending starts: how many are at most the offset, minus one.\<close>

definition line_of :: "nat list \<Rightarrow> nat \<Rightarrow> nat" where
  "line_of x off = length (takeWhile (\<lambda>s. s \<le> off) x) - 1"

definition line_start :: "nat list \<Rightarrow> nat \<Rightarrow> string \<Rightarrow> nat" where
  "line_start x k src = (if k < length x then x ! k else length src)"

section \<open>Lemmas: progress\<close>

definition out_of_fuel :: "rc_syntax \<Rightarrow> bool" where
  "out_of_fuel e \<longleftrightarrow> (\<exists>n. e = RcSyntax n OutOfFuel)"

lemma out_of_fuel_fail [simp]: "out_of_fuel (fail_at src off what) \<longleftrightarrow> what = OutOfFuel"
  by (auto simp: out_of_fuel_def fail_at_def)

lemma unterminated_not_fuel [simp]: "unterminated m \<noteq> OutOfFuel"
  by (cases m) simp_all

lemma singleQuoted_facts:
  "singleQuoted src pos = Inr p \<Longrightarrow> pos + 1 < p \<and> p \<le> length src"
  "singleQuoted src pos = Inl e \<Longrightarrow> \<not> out_of_fuel e"
  by (auto simp: singleQuoted_def index_byte_def split: option.splits dest!: first_index_bound)

lemma dollar_from: "dollar src d pos = Some (m, from) \<Longrightarrow> from = pos + 2"
  by (auto simp: dollar_def Let_def split: if_splits)

lemma comment_end_bounds: "pos \<le> length src \<Longrightarrow> pos \<le> comment_end src pos \<and> comment_end src pos \<le> length src"
  by (auto simp: comment_end_def index_byte_def split: option.splits dest!: first_index_bound)

lemma comment_end_progress:
  assumes "pos < length src" "src ! pos \<noteq> NL"
  shows "pos < comment_end src pos"
proof (cases "index_byte (drop pos src) NL")
  case (Some e)
  then have "drop pos src ! e = NL" by (auto simp: index_byte_def dest: first_index_SomeD)
  with assms have "e \<noteq> 0" by (intro notI) simp
  with Some show ?thesis by (simp add: comment_end_def)
qed (use assms in \<open>simp add: comment_end_def\<close>)

text \<open>Where a step leads: forward, and within the source when it ends the construct.\<close>

definition goes_on :: "string \<Rightarrow> nat \<Rightarrow> action \<Rightarrow> bool" where
  "goes_on src pos a =
     (case a of
        Finish p \<Rightarrow> pos < p \<and> p \<le> length src
      | Continue m p \<Rightarrow> pos < p
      | Nested m from m' \<Rightarrow> pos < from
      | Refuse e \<Rightarrow> \<not> out_of_fuel e)"

lemma goes_on_simps [simp]:
  "goes_on src pos (Finish p) \<longleftrightarrow> pos < p \<and> p \<le> length src"
  "goes_on src pos (Continue m p) \<longleftrightarrow> pos < p"
  "goes_on src pos (Nested m from m') \<longleftrightarrow> pos < from"
  "goes_on src pos (Refuse e) \<longleftrightarrow> \<not> out_of_fuel e"
  by (simp_all add: goes_on_def)

lemma goes_on_through [simp]: "goes_on src pos (through_dollar src d pos m)" "goes_on src pos (through_single src pos m)"
  by (auto simp: through_dollar_def through_single_def split: option.split sum.split
      dest: dollar_from singleQuoted_facts)

lemma step_mode_goes_on:
  assumes "pos < length src"
  shows "goes_on src pos (step_mode src m (src ! pos) pos)"
proof (cases m)
  case (InCommand a d w p)
  then show ?thesis
    using assms comment_end_progress [OF assms] by (simp add: step_command_def Let_def)
qed (use assms in \<open>simp_all add: step_dollarQuote_def step_double_def step_backquote_def step_parameter_def Let_def\<close>)

lemma scan_progress: "scan fuel src start m pos = Inr p \<Longrightarrow> pos < p \<and> p \<le> length src"
proof (induction fuel arbitrary: start m pos p)
  case (Suc fuel)
  from Suc.prems have pos: "pos < length src" by (auto split: if_splits)
  note step = step_mode_goes_on [OF pos, of m]
  show ?case
  proof (cases "src ! pos = BSL")
    case True
    with Suc.prems pos Suc.IH show ?thesis by fastforce
  next
    case False
    show ?thesis
    proof (cases "step_mode src m (src ! pos) pos")
      case (Finish q)
      with False Suc.prems pos step show ?thesis by simp
    next
      case (Continue m' q)
      with False Suc.prems pos have "scan fuel src start m' q = Inr p" by simp
      from Suc.IH [OF this] Continue step show ?thesis by simp
    next
      case (Nested m' f m'')
      with False Suc.prems pos obtain q where q: "scan fuel src pos m' f = Inr q" "scan fuel src start m'' q = Inr p"
        by (auto simp: res_simps)
      from Suc.IH [OF q(1)] Suc.IH [OF q(2)] Nested step show ?thesis by simp
    qed (use False Suc.prems pos in simp)
  qed
qed simp

lemma scan_enough_fuel:
  "length src - pos < fuel \<Longrightarrow> scan fuel src start m pos = Inl e \<Longrightarrow> \<not> out_of_fuel e"
proof (induction fuel arbitrary: start m pos)
  case (Suc fuel)
  show ?case
  proof (cases "pos < length src")
    case False
    with Suc.prems(2) show ?thesis by auto
  next
    case pos: True
    note step = step_mode_goes_on [OF pos, of m]
    have less: "length src - q < fuel" if "pos < q" for q using Suc.prems(1) pos that by linarith
    show ?thesis
    proof (cases "src ! pos = BSL")
      case True
      then have "scan fuel src start (escaped src m pos) (pos + 2) = Inl e" using Suc.prems(2) pos by simp
      then show ?thesis by (rule Suc.IH [rotated]) (simp add: less)
    next
      case False
      show ?thesis
      proof (cases "step_mode src m (src ! pos) pos")
        case (Continue m' q)
        with False Suc.prems(2) pos have "scan fuel src start m' q = Inl e" by simp
        then show ?thesis by (rule Suc.IH [rotated]) (use Continue step less in simp)
      next
        case (Nested m' f m'')
        then have f: "pos < f" using step by simp
        with False Nested Suc.prems(2) pos consider "scan fuel src pos m' f = Inl e"
          | q where "scan fuel src pos m' f = Inr q" "scan fuel src start m'' q = Inl e"
          by (auto simp: res_simps)
        then show ?thesis
        proof cases
          case 1
          then show ?thesis by (rule Suc.IH [rotated]) (simp add: less f)
        next
          case 2
          have "pos < q" using scan_progress [OF 2(1)] f by simp
          from Suc.IH [OF less [OF this] 2(2)] show ?thesis .
        qed
      qed (use False Suc.prems(2) pos step in simp_all)
    qed
  qed
qed simp

lemma continuation_facts:
  "pos < length src \<Longrightarrow> continuation src pos = Inr p \<Longrightarrow> pos < p \<and> p \<le> length src"
  "continuation src pos = Inl e \<Longrightarrow> \<not> out_of_fuel e"
  by (auto simp: continuation_def split: if_splits)

lemma wordUnit_progress:
  "pos < length src \<Longrightarrow> wordUnit src pos = Inr p \<Longrightarrow> pos < p \<and> p \<le> length src"
  by (auto simp: wordUnit_def Let_def split: if_splits option.splits
      dest: continuation_facts(1) singleQuoted_facts(1) dollar_from dest!: scan_progress simp del: scan.simps)

lemma wordUnit_enough_fuel: "wordUnit src pos = Inl e \<Longrightarrow> \<not> out_of_fuel e"
  by (auto simp: wordUnit_def Let_def split: if_splits option.splits
      dest: continuation_facts(2) singleQuoted_facts(2) scan_enough_fuel [rotated] simp del: scan.simps)

lemma word_loop_progress:
  "pos \<le> length src \<Longrightarrow> word_loop fuel src pos = Inr p \<Longrightarrow> pos \<le> p \<and> p \<le> length src"
proof (induction fuel arbitrary: pos)
  case (Suc fuel)
  show ?case
  proof (cases "pos \<ge> length src \<or> isRcBlank (src ! pos) \<or> src ! pos = NL \<or> isRcOperatorChar (src ! pos)")
    case True
    with Suc.prems show ?thesis by simp
  next
    case False
    with Suc.prems(2) obtain q where q: "wordUnit src pos = Inr q" "word_loop fuel src q = Inr p"
      by (auto simp: res_simps)
    have "pos < q" "q \<le> length src" using wordUnit_progress [OF _ q(1)] False by auto
    with Suc.IH [OF _ q(2)] show ?thesis by simp
  qed
qed simp

lemma word_loop_enough_fuel:
  "length src - pos < fuel \<Longrightarrow> word_loop fuel src pos = Inl e \<Longrightarrow> \<not> out_of_fuel e"
proof (induction fuel arbitrary: pos)
  case (Suc fuel)
  show ?case
  proof (cases "wordUnit src pos")
    case (Inl e')
    with Suc.prems(2) have "e' = e" by (auto split: if_splits)
    with Inl wordUnit_enough_fuel show ?thesis by blast
  next
    case (Inr p)
    with Suc.prems(2) have "pos < length src" "word_loop fuel src p = Inl e" by (auto split: if_splits)
    moreover from this have "length src - p < fuel" using wordUnit_progress [OF _ Inr] Suc.prems(1) by auto
    ultimately show ?thesis using Suc.IH by blast
  qed
qed simp

section \<open>Lemmas: tokens\<close>

text \<open>
  The tokens found so far: in source order, not overlapping, each with the text of its span (a
  newline's span may go on over here-document bodies), all before the position.
\<close>

definition token_ok :: "string \<Rightarrow> rcToken \<Rightarrow> bool" where
  "token_ok src t \<longleftrightarrow>
     tk_start t < tk_end t \<and> tk_joined t = join_lines (tk_text t)
     \<and> (tk_kind t \<noteq> rcNewline \<longrightarrow> tk_text t = slice_of src (tk_start t) (tk_end t))
     \<and> (tk_kind t = rcNewline \<longrightarrow> tk_text t = [NL])"

definition tokens_ok :: "string \<Rightarrow> nat \<Rightarrow> rcToken list \<Rightarrow> bool" where
  "tokens_ok src pos ts \<longleftrightarrow>
     sorted_wrt (\<lambda>a b. tk_end a \<le> tk_start b) ts \<and> (\<forall>t \<in> set ts. token_ok src t \<and> tk_end t \<le> pos)"

lemma tokens_ok_mono: "tokens_ok src pos ts \<Longrightarrow> pos \<le> pos' \<Longrightarrow> tokens_ok src pos' ts"
  by (fastforce simp: tokens_ok_def)

lemma tokens_ok_emit:
  assumes "tokens_ok src start (lx_tokens l)" "start < lx_pos l"
    and "k = rcNewline \<Longrightarrow> slice_of src start (lx_pos l) = [NL]"
  shows "tokens_ok src (lx_pos l) (lx_tokens (emit src k start l))"
  using assms by (fastforce simp: tokens_ok_def emit_def Let_def sorted_wrt_append token_ok_def)

lemma lx_pos_emit [simp]: "lx_pos (emit src k start l) = lx_pos l" "lx_heredocs (emit src k start l) = lx_heredocs l"
  by (simp_all add: emit_def Let_def)

definition lexer_ok :: "string \<Rightarrow> rcLexer \<Rightarrow> bool" where
  "lexer_ok src l \<longleftrightarrow> lx_pos l \<le> length src \<and> tokens_ok src (lx_pos l) (lx_tokens l)"

lemma word_ok:
  assumes "lexer_ok src l" "word src l = Inr l'"
    and "lx_pos l < length src" "\<not> isRcBlank (src ! lx_pos l)" "src ! lx_pos l \<noteq> NL" "\<not> isRcOperatorChar (src ! lx_pos l)"
  shows "lexer_ok src l' \<and> lx_pos l < lx_pos l'"
proof -
  obtain p where p: "word_loop (Suc (length src)) src (lx_pos l) = Inr p" "l' = emit src rcWord (lx_pos l) (l\<lparr>lx_pos := p\<rparr>)"
    using assms(2) by (auto simp: word_def res_simps)
  have "lx_pos l < p \<and> p \<le> length src"
  proof -
    obtain q where q: "wordUnit src (lx_pos l) = Inr q" "word_loop (length src) src q = Inr p"
      using p(1) assms(3-6) by (auto simp: res_simps)
    have "lx_pos l < q" "q \<le> length src" using wordUnit_progress [OF assms(3) q(1)] by auto
    with word_loop_progress [OF _ q(2)] show ?thesis by simp
  qed
  moreover from this have "tokens_ok src p (lx_tokens l')"
    using assms(1) tokens_ok_emit [of src "lx_pos l" "l\<lparr>lx_pos := p\<rparr>" rcWord] p(2) by (simp add: lexer_ok_def)
  ultimately show ?thesis using p(2) by (simp add: lexer_ok_def)
qed

lemma skip_blanks_le: "skip_blanks cs \<le> length cs"
  by (induction cs) auto

lemma skip_blanks_stop: "skip_blanks cs < length cs \<Longrightarrow> \<not> isRcBlank (cs ! skip_blanks cs)"
  by (induction cs) auto

lemma heredocDelimiter_ok:
  assumes "lexer_ok src l" "heredocDelimiter src start tabs l = Inr l'"
  shows "lexer_ok src l' \<and> lx_pos l < lx_pos l'"
proof -
  define p where "p = lx_pos l + skip_blanks (drop (lx_pos l) src)"
  have p: "lx_pos l \<le> p" "p \<le> length src"
    using skip_blanks_le [of "drop (lx_pos l) src"] assms(1) by (auto simp: p_def lexer_ok_def)
  from assms(2) obtain l1 where stop: "p < length src" "src ! p \<noteq> NL" "\<not> isRcOperatorChar (src ! p)"
    and w: "word src (l\<lparr>lx_pos := p\<rparr>) = Inr l1"
    and l': "lx_pos l' = lx_pos l1" "lx_tokens l' = lx_tokens l1"
    by (auto simp: heredocDelimiter_def Let_def p_def res_simps split: if_splits)
  have "\<not> isRcBlank (src ! p)"
    using skip_blanks_stop [of "drop (lx_pos l) src"] stop(1) assms(1) by (auto simp: p_def lexer_ok_def)
  moreover have "lexer_ok src (l\<lparr>lx_pos := p\<rparr>)"
    using assms(1) p tokens_ok_mono by (auto simp: lexer_ok_def)
  ultimately have "lexer_ok src l1 \<and> p < lx_pos l1" using word_ok [OF _ w] stop by simp
  with l' p show ?thesis by (auto simp: lexer_ok_def)
qed

lemma rcOperators_nonempty: "oper \<in> set rcOperators \<Longrightarrow> oper \<noteq> []"
  by (auto simp: rcOperators_def)

lemma operator_ok:
  assumes "lexer_ok src l" "operator src l = Inr l'"
  shows "lexer_ok src l' \<and> lx_pos l < lx_pos l'"
proof -
  let ?start = "lx_pos l"
  obtain oper where o: "find (\<lambda>oper. has_prefix (drop ?start src) oper) rcOperators = Some oper"
    using assms(2) by (auto simp: operator_def Let_def split: option.splits)
  then have oper: "oper \<in> set rcOperators" "has_prefix (drop ?start src) oper"
    by (auto simp: find_Some_iff)
  then obtain t where "drop ?start src = oper @ t" by (auto simp: has_prefix_iff)
  then have "length oper \<le> length src - ?start" by (metis length_append length_drop le_add1)
  with rcOperators_nonempty [OF oper(1)] assms(1) have b: "?start < ?start + length oper" "?start + length oper \<le> length src"
    by (auto simp: lexer_ok_def)
  let ?l1 = "emit src rcOperator ?start (l\<lparr>lx_pos := ?start + length oper\<rparr>)"
  have ok1: "lexer_ok src ?l1"
    using assms(1) b tokens_ok_emit [of src ?start "l\<lparr>lx_pos := ?start + length oper\<rparr>" rcOperator]
    by (simp add: lexer_ok_def)
  show ?thesis
  proof (cases "oper = ''<<'' \<or> oper = ''<<-''")
    case True
    with assms(2) o have "heredocDelimiter src ?start (oper = ''<<-'') ?l1 = Inr l'" by (auto simp: operator_def Let_def)
    from heredocDelimiter_ok [OF ok1 this] b show ?thesis by simp
  next
    case False
    with assms(2) o have "l' = ?l1" by (simp add: operator_def Let_def)
    with ok1 b show ?thesis by simp
  qed
qed

lemma body_end_progress: "body_end fuel src h pos = Inr p \<Longrightarrow> pos \<le> length src \<Longrightarrow> pos \<le> p \<and> p \<le> length src"
proof (induction fuel arbitrary: pos)
  case (Suc fuel)
  obtain line rest found where c: "cut (drop pos src) NL = (line, rest, found)" by (metis prod_cases3)
  let ?p = "if found then length src - length rest else length src"
  have rest: "length rest \<le> length src - pos"
    using c by (auto simp: cut_def split: option.splits)
  then have "pos \<le> ?p" using Suc.prems(2) by auto
  moreover have "?p \<le> length src" by simp
  moreover have "p = ?p \<or> body_end fuel src h ?p = Inr p"
    using Suc.prems(1) c by (auto simp: Let_def split: if_splits)
  ultimately show ?case using Suc.IH [of ?p] by fastforce
qed simp

lemma skipHeredocBodies_ok:
  assumes "lx_pos l \<le> length src" "lx_tokens l = ts @ [t]" "tokens_ok src (lx_pos l) (ts @ [t])" "tk_kind t = rcNewline"
    and "skipHeredocBodies src l = Inr l'"
  shows "lexer_ok src l' \<and> lx_pos l \<le> lx_pos l'"
proof -
  from assms(5) obtain p where p: "fold_res (body_end (Suc (length src)) src) (lx_heredocs l) (lx_pos l) = Inr p"
    "lx_pos l' = p" "lx_tokens l' = ts @ [t\<lparr>tk_end := p\<rparr>]"
    using assms(2) by (auto simp: skipHeredocBodies_def res_simps extend_last_def)
  have "lx_pos l \<le> p \<and> p \<le> length src"
    by (rule fold_res_invariant [OF p(1)]) (use assms(1) body_end_progress in \<open>fastforce+\<close>)
  with assms(3,4) p(2,3) show ?thesis
    by (fastforce simp: lexer_ok_def tokens_ok_def sorted_wrt_append token_ok_def)
qed

lemma lex_next_ok:
  assumes "lexer_ok src l" "lx_pos l < length src" "lex_next src l = Inr l'"
  shows "lexer_ok src l' \<and> lx_pos l < lx_pos l'"
proof -
  let ?pos = "lx_pos l"
  let ?c = "src ! ?pos"
  have move: "lexer_ok src (l\<lparr>lx_pos := p\<rparr>)" if "?pos \<le> p" "p \<le> length src" for p
    using assms(1) that tokens_ok_mono by (auto simp: lexer_ok_def)
  consider "isRcBlank ?c" "l' = l\<lparr>lx_pos := ?pos + 1\<rparr>"
    | p where "continuation src ?pos = Inr p" "l' = l\<lparr>lx_pos := p\<rparr>"
    | "?c \<noteq> NL" "l' = l\<lparr>lx_pos := comment_end src ?pos\<rparr>"
    | "?c = NL" "skipHeredocBodies src (emit src rcNewline ?pos (l\<lparr>lx_pos := ?pos + 1\<rparr>)) = Inr l'"
    | "operator src l = Inr l'"
    | "\<not> isRcBlank ?c" "?c \<noteq> NL" "\<not> isRcOperatorChar ?c" "word src l = Inr l'"
  proof -
    assume c: "isRcBlank ?c \<Longrightarrow> l' = l\<lparr>lx_pos := ?pos + 1\<rparr> \<Longrightarrow> thesis"
      "\<And>p. continuation src ?pos = Inr p \<Longrightarrow> l' = l\<lparr>lx_pos := p\<rparr> \<Longrightarrow> thesis"
      "?c \<noteq> NL \<Longrightarrow> l' = l\<lparr>lx_pos := comment_end src ?pos\<rparr> \<Longrightarrow> thesis"
      "?c = NL \<Longrightarrow> skipHeredocBodies src (emit src rcNewline ?pos (l\<lparr>lx_pos := ?pos + 1\<rparr>)) = Inr l' \<Longrightarrow> thesis"
      "operator src l = Inr l' \<Longrightarrow> thesis"
      "\<not> isRcBlank ?c \<Longrightarrow> ?c \<noteq> NL \<Longrightarrow> \<not> isRcOperatorChar ?c \<Longrightarrow> word src l = Inr l' \<Longrightarrow> thesis"
    have hash: "CHR ''#'' \<noteq> NL" by simp
    show thesis
    proof (cases "isRcBlank ?c \<or> has_prefix (drop ?pos src) [BSL, NL]")
      case True
      with assms(3) c(1,2) show ?thesis by (auto simp: lex_next_def Let_def bind_res_Inr_iff split: if_splits)
    next
      case False
      with assms(3) have r: "(if ?c = CHR ''#'' then Inr (l\<lparr>lx_pos := comment_end src ?pos\<rparr>)
          else if ?c = NL then skipHeredocBodies src (emit src rcNewline ?pos (l\<lparr>lx_pos := ?pos + 1\<rparr>))
          else if isRcOperatorChar ?c then operator src l else word src l) = Inr l'"
        by (simp add: lex_next_def Let_def)
      consider "?c = CHR ''#''" | "?c = NL" | "isRcOperatorChar ?c" "?c \<noteq> CHR ''#''" "?c \<noteq> NL"
        | "\<not> isRcOperatorChar ?c" "?c \<noteq> CHR ''#''" "?c \<noteq> NL" by blast
      then show ?thesis
      proof cases
        case 1
        with r have "l' = l\<lparr>lx_pos := comment_end src ?pos\<rparr>" by simp
        with 1 show ?thesis by (intro c(3)) simp_all
      next
        case 2
        with r show ?thesis by (intro c(4)) simp_all
      next
        case 3
        with r show ?thesis by (intro c(5)) simp_all
      next
        case 4
        with r False show ?thesis by (intro c(6)) simp_all
      qed
    qed
  qed
  then show ?thesis
  proof cases
    case 4
    let ?l1 = "l\<lparr>lx_pos := ?pos + 1\<rparr>"
    have nl: "slice_of src ?pos (?pos + 1) = [NL]"
      using 4(1) assms(2) by (simp add: slice_of_def hd_drop_conv_nth take_Suc)
    then have ok: "tokens_ok src (?pos + 1) (lx_tokens (emit src rcNewline ?pos ?l1))"
      using assms(1) tokens_ok_emit [of src ?pos ?l1 rcNewline] by (simp add: lexer_ok_def)
    obtain t where "lx_tokens (emit src rcNewline ?pos ?l1) = lx_tokens l @ [t]" "tk_kind t = rcNewline"
      by (simp add: emit_def Let_def)
    then show ?thesis using skipHeredocBodies_ok [OF _ _ _ _ 4(2)] ok assms(2) by fastforce
  next
    case 1
    then show ?thesis using move [of "?pos + 1"] assms(2) by simp
  next
    case (2 p)
    then show ?thesis using move [of p] continuation_facts(1) [OF assms(2)] by simp
  next
    case 3
    then show ?thesis
      using move [of "comment_end src ?pos"] comment_end_progress [OF assms(2)] comment_end_bounds [of ?pos src] assms(2)
      by simp
  next
    case 5
    then show ?thesis by (rule operator_ok [OF assms(1)])
  next
    case 6
    then show ?thesis using word_ok [OF assms(1) _ assms(2)] by blast
  qed
qed

lemma lex_loop_ok: "lexer_ok src l \<Longrightarrow> lex_loop fuel src l = Inr l' \<Longrightarrow> lexer_ok src l' \<and> lx_pos l' = length src"
proof (induction fuel arbitrary: l)
  case (Suc fuel)
  show ?case
  proof (cases "lx_pos l < length src")
    case True
    with Suc.prems(2) obtain l1 where "lex_next src l = Inr l1" "lex_loop fuel src l1 = Inr l'" by (auto simp: res_simps)
    with Suc.IH lex_next_ok [OF Suc.prems(1) True] show ?thesis by blast
  next
    case False
    with Suc.prems show ?thesis by (auto simp: lexer_ok_def)
  qed
qed simp

lemma lexRc_tokens_ok: "lexRc src = Inr ts \<Longrightarrow> tokens_ok src (length src) ts"
proof -
  assume "lexRc src = Inr ts"
  then obtain l where l: "lex_loop (Suc (length src)) src \<lparr>lx_pos = 0, lx_tokens = [], lx_heredocs = []\<rparr> = Inr l"
    "ts = lx_tokens l"
    by (auto simp: lexRc_def res_simps simp del: lex_loop.simps split: option.splits list.splits) (metis list.exhaust)
  have "lexer_ok src \<lparr>lx_pos = 0, lx_tokens = [], lx_heredocs = []\<rparr>" by (simp add: lexer_ok_def tokens_ok_def)
  from lex_loop_ok [OF this l(1)] l(2) show ?thesis by (auto simp: lexer_ok_def)
qed

section \<open>Lemmas: enough fuel\<close>

lemma word_enough_fuel: "word src l = Inl e \<Longrightarrow> \<not> out_of_fuel e"
  by (auto simp: word_def res_simps simp del: word_loop.simps dest: word_loop_enough_fuel [rotated])

lemma heredocDelimiter_enough_fuel: "heredocDelimiter src start tabs l = Inl e \<Longrightarrow> \<not> out_of_fuel e"
  by (auto simp: heredocDelimiter_def Let_def res_simps split: if_splits dest: word_enough_fuel)

lemma operator_enough_fuel: "operator src l = Inl e \<Longrightarrow> \<not> out_of_fuel e"
  by (auto simp: operator_def Let_def split: option.splits if_splits dest: heredocDelimiter_enough_fuel)

lemma cut_rest_shorter: "cut s c = (line, rest, True) \<Longrightarrow> length rest < length s"
  by (auto simp: cut_def index_byte_def split: option.splits dest!: first_index_bound)

lemma body_end_enough_fuel:
  "length src - pos < fuel \<Longrightarrow> pos \<le> length src \<Longrightarrow> body_end fuel src h pos = Inl e \<Longrightarrow> \<not> out_of_fuel e"
proof (induction fuel arbitrary: pos)
  case (Suc fuel)
  obtain line rest found where c: "cut (drop pos src) NL = (line, rest, found)" by (metis prod_cases3)
  let ?p = "if found then length src - length rest else length src"
  show ?case
  proof (cases "pos = length src \<or> body_end fuel src h ?p \<noteq> Inl e")
    case True
    with Suc.prems(3) c show ?thesis by (auto simp: Let_def split: if_splits)
  next
    case False
    have "found \<Longrightarrow> length rest < length src - pos" using cut_rest_shorter c by fastforce
    then have "pos < ?p" using False Suc.prems(2) by auto
    moreover have "?p \<le> length src" by simp
    ultimately have "length src - ?p < fuel" using Suc.prems(1) by (simp only: less_diff_conv2)
    with False Suc.IH [of ?p] show ?thesis by simp
  qed
qed simp

lemma bodies_enough_fuel:
  "pos \<le> length src \<Longrightarrow> fold_res (body_end (Suc (length src)) src) hs pos = Inl e \<Longrightarrow> \<not> out_of_fuel e"
proof (induction hs arbitrary: pos)
  case (Cons h hs)
  then consider "body_end (Suc (length src)) src h pos = Inl e"
    | p where "body_end (Suc (length src)) src h pos = Inr p" "fold_res (body_end (Suc (length src)) src) hs p = Inl e"
    by (auto simp: res_simps simp del: body_end.simps)
  then show ?case
  proof cases
    case 1
    with Cons.prems(1) show ?thesis using body_end_enough_fuel [of src pos "Suc (length src)"] by simp
  next
    case 2
    with Cons.IH body_end_progress [OF 2(1) Cons.prems(1)] show ?thesis by blast
  qed
qed simp

lemma lex_next_enough_fuel:
  assumes "lx_pos l < length src" "lex_next src l = Inl e"
  shows "\<not> out_of_fuel e"
proof -
  have "\<not> out_of_fuel e" if "skipHeredocBodies src (emit src rcNewline (lx_pos l) (l\<lparr>lx_pos := lx_pos l + 1\<rparr>)) = Inl e"
    using that assms(1) bodies_enough_fuel [of "Suc (lx_pos l)" src "lx_heredocs l" e]
    by (auto simp: skipHeredocBodies_def res_simps)
  then show ?thesis
    using assms(2) continuation_facts(2) operator_enough_fuel word_enough_fuel
    unfolding lex_next_def Let_def by (auto simp only: bind_res_Inl_iff sum.simps simp_thms split: if_splits)
qed

lemma lex_loop_enough_fuel:
  "length src - lx_pos l < fuel \<Longrightarrow> lexer_ok src l \<Longrightarrow> lex_loop fuel src l = Inl e \<Longrightarrow> \<not> out_of_fuel e"
proof (induction fuel arbitrary: l)
  case (Suc fuel)
  from Suc.prems(3) have pos: "lx_pos l < length src" by (auto split: if_splits)
  with Suc.prems(3) consider "lex_next src l = Inl e" | l1 where "lex_next src l = Inr l1" "lex_loop fuel src l1 = Inl e"
    by (auto simp: res_simps)
  then show ?case
  proof cases
    case 1
    with pos lex_next_enough_fuel show ?thesis by blast
  next
    case 2
    with lex_next_ok [OF Suc.prems(2) pos 2(1)] have l1: "lexer_ok src l1" "lx_pos l < lx_pos l1" by auto
    then have "length src - lx_pos l1 < fuel" using Suc.prems(1) pos by linarith
    from Suc.IH [OF this l1(1) 2(2)] show ?thesis .
  qed
qed simp

section \<open>Properties\<close>

text \<open>
  C35: the lexer always ends: whatever the file holds, unbalanced or deeply nested, it comes back
  with tokens or with a refusal that names a line, never because a loop ran out of its bound.
\<close>

theorem lexRc_total: "lexRc src \<noteq> Inl (RcSyntax n OutOfFuel)"
proof
  assume "lexRc src = Inl (RcSyntax n OutOfFuel)"
  moreover have "\<not> out_of_fuel e" if "lexRc src = Inl e" for e
  proof -
    let ?l0 = "\<lparr>lx_pos = 0, lx_tokens = [], lx_heredocs = []\<rparr>"
    have ok: "lexer_ok src ?l0" by (simp add: lexer_ok_def tokens_ok_def)
    have "\<not> out_of_fuel e'" if "lex_loop (Suc (length src)) src ?l0 = Inl e'" for e'
      using lex_loop_enough_fuel [OF _ ok that] by simp
    moreover have "\<not> out_of_fuel (case lx_heredocs l of h # _ \<Rightarrow> fail_at src (hd_start h) (HeredocUnclosed (hd_delim h)) | [] \<Rightarrow> fail_at src 0 CRLFEnding)" for l
      by (simp split: list.split)
    ultimately show ?thesis
      using \<open>lexRc src = Inl e\<close>
      by (cases "lex_loop (Suc (length src)) src ?l0")
        (auto simp: lexRc_def simp del: lex_loop.simps split: option.splits list.splits)
  qed
  ultimately show False by (auto simp: out_of_fuel_def)
qed

text \<open>
  The tokens of a file come in order and do not overlap, and every word and operator token is
  exactly the text of its span, so replacing a token's span replaces that token and nothing else.
\<close>

theorem lexRc_spans:
  assumes "lexRc src = Inr ts"
  shows "sorted_wrt (\<lambda>a b. tk_end a \<le> tk_start b) ts \<and>
    (\<forall>t \<in> set ts. tk_start t < tk_end t \<and> tk_end t \<le> length src
       \<and> (tk_kind t \<noteq> rcNewline \<longrightarrow> slice_of src (tk_start t) (tk_end t) = tk_text t))"
  using lexRc_tokens_ok [OF assms] by (auto simp: tokens_ok_def token_ok_def)

theorem lexRc_spans_witness:
  "\<exists>ts. lexRc (''a=$(b)'' @ [NL]) = Inr ts \<and> sorted_wrt (\<lambda>a b. tk_end a \<le> tk_start b) ts"
proof -
  have "case lexRc (''a=$(b)'' @ [NL]) of Inr _ \<Rightarrow> True | Inl _ \<Rightarrow> False" by code_simp
  then obtain ts where "lexRc (''a=$(b)'' @ [NL]) = Inr ts" by (auto split: sum.splits)
  with lexRc_spans show ?thesis by blast
qed

end
