(* ===== verification/RcConf.thy ===== *)
theory RcConf
  imports RcLex ShellWords
begin

text \<open>
  Finding and rewriting one variable's assignments in an rc.conf-style file
  (\<open>resource/service/rcconf.go\<close>), the shell words they hold, and the NetBSD flags support on top
  (\<open>resource/service/netbsd_flags.go\<close>, \<open>flagsVar\<close> of \<open>flags.go\<close>). Files are their contents, a
  missing file being empty as \<open>readRcFile\<close> reads it; I/O errors are not modelled. The walker's name and
  line index, which never change, are arguments.
\<close>

section \<open>Shell words\<close>

definition shellQuote :: "string \<Rightarrow> string" where
  "shellQuote s = [SQ] @ replace_all s [SQ] [SQ, BSL, SQ, SQ] @ [SQ]"

text \<open>The rest after the closing quote, and the text so far.\<close>

fun parseDoubleQuoted :: "string \<Rightarrow> string \<Rightarrow> (string \<times> string) option" where
  "parseDoubleQuoted [] b = None"
| "parseDoubleQuoted (c # cs) b =
     (if c = DQ then Some (cs, b)
      else if c = CHR ''$'' \<or> c = BQ then None
      else if c = BSL then
        (case cs of
           d # ds \<Rightarrow>
             if d = NL then parseDoubleQuoted ds b
             else if d \<in> set [CHR ''$'', BQ, DQ, BSL] then parseDoubleQuoted ds (b @ [d])
             else parseDoubleQuoted cs (b @ [c])
         | [] \<Rightarrow> parseDoubleQuoted cs (b @ [c]))
      else parseDoubleQuoted cs (b @ [c]))"

lemma parseDoubleQuoted_shorter [termination_simp]:
  "parseDoubleQuoted s b = Some (rest, b') \<Longrightarrow> length rest < Suc (length s)"
proof -
  have "parseDoubleQuoted s b = Some (rest, b') \<Longrightarrow> length rest < length s"
    by (induction s b rule: parseDoubleQuoted.induct) (force split: if_splits list.splits)+
  then show "parseDoubleQuoted s b = Some (rest, b') \<Longrightarrow> length rest < Suc (length s)" by simp
qed

function word_value :: "string \<Rightarrow> string \<Rightarrow> bool \<Rightarrow> string option" where
  "word_value [] b tilde = Some b"
| "word_value (c # cs) b tilde =
     (if c = CHR ''~'' \<and> tilde then None
      else if c = SP \<or> c = TAB then
        (case trim_left (c # cs) [SP, TAB] of
           [] \<Rightarrow> Some b
         | r # _ \<Rightarrow> if r = CHR ''#'' then Some b else None)
      else if c = SQ then
        (case index_byte cs SQ of
           None \<Rightarrow> None
         | Some e \<Rightarrow> word_value (drop (Suc e) cs) (b @ take e cs) False)
      else if c = DQ then
        (case parseDoubleQuoted cs b of None \<Rightarrow> None | Some (rest, b') \<Rightarrow> word_value rest b' False)
      else if c = BSL then
        (case cs of
           [] \<Rightarrow> None
         | d # ds \<Rightarrow> if d \<noteq> NL then word_value ds (b @ [d]) False else word_value ds b tilde)
      else if c \<in> set (BQ # ''$;&|<>()'') then None
      else word_value cs (b @ [c]) (c = CHR '':''))"
  by pat_completeness auto
termination by (relation "measure (\<lambda>(s, b, t). length s)") (auto simp: termination_simp)

definition parseShellWord :: "string \<Rightarrow> string option" where
  "parseShellWord raw = word_value raw [] True"

section \<open>Names and mentions\<close>

definition isShellDigit :: "char \<Rightarrow> bool" where
  "isShellDigit c = is_digit c"

definition isShellNameChar :: "char \<Rightarrow> bool" where
  "isShellNameChar c \<longleftrightarrow>
     c = CHR ''_'' \<or> isShellDigit c
     \<or> (97 \<le> (of_char (lower_byte c) :: nat) \<and> (of_char (lower_byte c) :: nat) \<le> 122)"

definition isShellName :: "string \<Rightarrow> bool" where
  "isShellName s = (case s of [] \<Rightarrow> False | c # _ \<Rightarrow> \<not> isShellDigit c \<and> list_all isShellNameChar s)"

definition rcAssignedName :: "string \<Rightarrow> string" where
  "rcAssignedName wd =
     (case cut wd (CHR ''='') of (name, _, ok) \<Rightarrow> if \<not> ok \<or> \<not> isShellName name then [] else name)"

definition rcUnquote :: "string \<Rightarrow> string" where
  "rcUnquote wd = remove_bytes wd [BSL, SQ, DQ]"

text \<open>The loop over every occurrence of the name; the byte before the text is its first argument.\<close>

fun mentions_from :: "char option \<Rightarrow> string \<Rightarrow> string \<Rightarrow> bool" where
  "mentions_from prev [] name = False"
| "mentions_from prev (c # cs) name =
     ((has_prefix (c # cs) name
        \<and> (case prev of Some p \<Rightarrow> \<not> isShellNameChar p | None \<Rightarrow> True)
        \<and> (let after = drop (length name) (c # cs)
           in has_prefix (trim_left after '':+-*/%&|^<>'') ''='' \<and> \<not> has_prefix after ''==''))
      \<or> mentions_from (Some c) cs name)"

definition rcMentionsAssign :: "string \<Rightarrow> string \<Rightarrow> bool" where
  "rcMentionsAssign text name = mentions_from None text name"

section \<open>The walker\<close>

record rcFoundAssignment =
  fa_value :: string
  fa_start :: nat
  fa_end :: nat
  fa_line :: nat
  fa_first :: nat
  fa_lastEnd :: nat
  fa_alone :: bool

record rcScan =
  sc_found :: "rcFoundAssignment list"
  sc_includesOther :: bool
  sc_namedHazard :: bool
  sc_includesDefaults :: bool

definition unseen :: "rcScan \<Rightarrow> bool" where
  "unseen s \<longleftrightarrow> sc_includesOther s \<or> sc_namedHazard s"

record rcWalker =
  rw_depth :: nat
  rw_opaque :: bool
  rw_hazards :: "rcToken list"
  rw_includesOther :: bool
  rw_namedHazard :: bool
  rw_includesDefaults :: bool
  rw_found :: "rcFoundAssignment list"

record rcCommandAt =
  at_first :: nat
  at_lastEnd :: nat
  at_alone :: bool
  at_listed :: bool

datatype rc_why =
    InsideConstruct
  | AfterOpaque
  | InList
  | OnlyForCommand
  | MentionedInside
  | ChangedAfter string nat
  | ReadBetween nat nat
  | SpansLines string
  | NotReadBack
  | ReadsBackOther string

datatype rc_error =
    Syntax rc_syntax
  | Unmanaged nat rc_why
  | RewriteUnreadable rc_error
  | NoReadBack

definition unmanaged :: "nat list \<Rightarrow> rcToken \<Rightarrow> rc_why \<Rightarrow> rc_error" where
  "unmanaged ls t why = Unmanaged (line_of ls (tk_start t) + 1) why"

definition refuseMentionsAfter :: "string \<Rightarrow> nat list \<Rightarrow> rcToken \<Rightarrow> nat \<Rightarrow> rc_error check" where
  "refuseMentionsAfter name ls t from =
     guard_res (\<not> rcMentionsAssign (drop from (tk_joined t)) name) (unmanaged ls t MentionedInside)"

definition refuseMentions :: "string \<Rightarrow> nat list \<Rightarrow> rcToken list \<Rightarrow> rc_error check" where
  "refuseMentions name ls words = check_all (\<lambda>t. refuseMentionsAfter name ls t 0) words"

definition rcDefaultsInclude :: string where
  "rcDefaultsInclude = ''/etc/defaults/rc.conf''"

fun reservedWords :: "string \<Rightarrow> rcToken list \<Rightarrow> rcWalker \<Rightarrow> rcWalker \<times> rcToken list \<times> bool" where
  "reservedWords name [] w = (w, [], False)"
| "reservedWords name (t # ts) w =
     (let j = tk_joined t in
      if j \<in> set [''if'', ''while'', ''until'', ''{'']
      then reservedWords name ts (w\<lparr>rw_depth := rw_depth w + 1\<rparr>)
      else if j \<in> set [''fi'', ''done'', ''}'']
      then reservedWords name ts (w\<lparr>rw_depth := rw_depth w - 1\<rparr>)
      else if j = ''for'' then
        (let w' = w\<lparr>rw_depth := rw_depth w + 1\<rparr> in
         ((case ts of
             u # _ \<Rightarrow> if rcUnquote (tk_joined u) = name
                      then w'\<lparr>rw_hazards := rw_hazards w' @ [t], rw_namedHazard := True\<rparr> else w'
           | [] \<Rightarrow> w'), ts, True))
      else if j \<in> set [''case'', ''esac'', ''!''] then
        (let w' = w\<lparr>rw_opaque := True\<rparr> in
         if j = ''case'' then (w', ts, True) else reservedWords name ts w')
      else if j \<in> set [''then'', ''do'', ''else'', ''elif''] then reservedWords name ts w
      else (w, t # ts, False))"

text \<open>The word a command starts with, behind \<open>command\<close> and its options.\<close>

fun skip_options :: "rcToken list \<Rightarrow> rcToken list" where
  "skip_options (t # u # ts) =
     (if has_prefix (rcUnquote (tk_joined t)) ''-'' then skip_options (u # ts) else t # u # ts)"
| "skip_options ts = ts"

lemma skip_options_shorter [termination_simp]: "length (skip_options ts) \<le> length ts"
  by (induction ts rule: skip_options.induct) auto

function behind_command :: "rcToken list \<Rightarrow> rcToken list" where
  "behind_command (t # u # ts) =
     (if rcUnquote (tk_joined t) = ''command'' then behind_command (skip_options (u # ts)) else t # u # ts)"
| "behind_command [] = []"
| "behind_command [t] = [t]"
  by pat_completeness auto
termination
proof (relation "measure length", goal_cases)
  case (2 t u ts)
  then show ?case using skip_options_shorter [of "u # ts"] by simp
qed simp

definition noteCommand :: "string \<Rightarrow> rcToken list \<Rightarrow> rcWalker \<Rightarrow> rcWalker" where
  "noteCommand name command w =
     (case behind_command command of
        [] \<Rightarrow> w
      | t # args \<Rightarrow>
          let c = rcUnquote (tk_joined t) in
          if c \<in> set [''.'', ''source'', ''eval''] then
            (let w' = w\<lparr>rw_hazards := rw_hazards w @ [t]\<rparr> in
             if (case args of [a] \<Rightarrow> rcUnquote (tk_joined a) = rcDefaultsInclude | _ \<Rightarrow> False) \<and> c = ''.''
             then w'\<lparr>rw_includesDefaults := True\<rparr> else w'\<lparr>rw_includesOther := True\<rparr>)
          else if c \<in> set [''unset'', ''read'', ''getopts''] \<and> list_ex (\<lambda>a. rcUnquote (tk_joined a) = name) args
          then w\<lparr>rw_hazards := rw_hazards w @ [t], rw_namedHazard := True\<rparr>
          else w)"

definition assignment ::
  "string \<Rightarrow> nat list \<Rightarrow> rcCommandAt \<Rightarrow> rcToken \<Rightarrow> rcWalker \<Rightarrow> (rc_error, rcWalker) result" where
  "assignment name ls at t w =
     (if rcAssignedName (tk_joined t) \<noteq> name then Inr w
      else if rw_depth w > 0 then Inl (unmanaged ls t InsideConstruct)
      else if rw_opaque w then Inl (unmanaged ls t AfterOpaque)
      else if at_listed at then Inl (unmanaged ls t InList)
      else Inr (w\<lparr>rw_found := rw_found w @
             [\<lparr>fa_value = (case index_byte (tk_text t) (CHR ''='') of
                            Some i \<Rightarrow> drop (i + 1) (tk_text t) | None \<Rightarrow> tk_text t),
               fa_start = tk_start t, fa_end = tk_end t, fa_line = line_of ls (tk_start t),
               fa_first = at_first at, fa_lastEnd = at_lastEnd at, fa_alone = at_alone at\<rparr>]\<rparr>))"

text \<open>The arguments of \<open>export\<close> and \<open>readonly\<close>: those that assign, and no other may mention the name.\<close>

definition check_export_arg :: "string \<Rightarrow> nat list \<Rightarrow> rcToken \<Rightarrow> rc_error check" where
  "check_export_arg name ls arg =
     (if rcAssignedName (tk_joined arg) = [] then refuseMentions name ls [arg]
      else refuseMentionsAfter name ls arg (length (rcAssignedName (tk_joined arg)) + 1))"

abbreviation assigns :: "rcToken \<Rightarrow> bool" where
  "assigns t \<equiv> rcAssignedName (tk_joined t) \<noteq> []"

definition record_assignments ::
  "string \<Rightarrow> nat list \<Rightarrow> rcToken list \<Rightarrow> rcCommandAt \<Rightarrow> rcWalker \<Rightarrow> (rc_error, rcWalker) result" where
  "record_assignments name ls assignments at w =
     fold_res (assignment name ls (at\<lparr>at_alone := at_alone at \<and> length assignments = 1\<rparr>)) assignments w"

definition command ::
  "string \<Rightarrow> nat list \<Rightarrow> rcToken list \<Rightarrow> rcCommandAt \<Rightarrow> rcWalker \<Rightarrow> (rc_error, rcWalker) result" where
  "command name ls words at w0 =
     (case reservedWords name words w0 of
        (w, words', finished) \<Rightarrow>
          if finished then bind_res (refuseMentions name ls words') (\<lambda>_. Inr w)
          else
            (let assignments = takeWhile assigns words';
                 rest = dropWhile assigns words'
             in bind_res (check_all (\<lambda>a. refuseMentionsAfter name ls a (length (rcAssignedName (tk_joined a)) + 1)) assignments)
                  (\<lambda>_. case rest of
                     [] \<Rightarrow> record_assignments name ls assignments at w
                   | c # args \<Rightarrow>
                       if rcUnquote (tk_joined c) \<in> set [''export'', ''readonly''] then
                         bind_res (check_all (check_export_arg name ls) args) (\<lambda>_.
                           record_assignments name ls (assignments @ filter assigns args) (at\<lparr>at_alone := False\<rparr>) w)
                       else
                         bind_res (check_all (\<lambda>a. guard_res (rcAssignedName (tk_joined a) \<noteq> name)
                                      (unmanaged ls a OnlyForCommand)) assignments) (\<lambda>_.
                           bind_res (refuseMentions name ls rest) (\<lambda>_. Inr (noteCommand name rest w))))))"

definition isRcListOperator :: "string \<Rightarrow> bool" where
  "isRcListOperator oper \<longleftrightarrow> oper \<in> set [''&&'', ''||'', ''|'', ''&'']"

record line_state =
  ls_walker :: rcWalker
  ls_words :: "rcToken list"
  ls_redirect :: bool
  ls_prevOp :: string

definition line_token ::
  "string \<Rightarrow> nat list \<Rightarrow> rcCommandAt \<Rightarrow> rcToken \<Rightarrow> line_state \<Rightarrow> (rc_error, line_state) result" where
  "line_token name ls at t s =
     (if tk_kind t = rcWord \<and> ls_redirect s then Inr (s\<lparr>ls_redirect := False\<rparr>)
      else if tk_kind t = rcWord then Inr (s\<lparr>ls_words := ls_words s @ [t]\<rparr>)
      else if contains_any (tk_text t) ''<>'' then Inr (s\<lparr>ls_redirect := True\<rparr>)
      else bind_res (command name ls (ls_words s)
               (at\<lparr>at_listed := isRcListOperator (ls_prevOp s) \<or> isRcListOperator (tk_text t)\<rparr>) (ls_walker s)) (\<lambda>w.
             Inr (s\<lparr>ls_walker := (if tk_text t \<in> set [''('', '')'', '';;''] then w\<lparr>rw_opaque := True\<rparr> else w),
                    ls_words := [], ls_prevOp := tk_text t\<rparr>)))"

definition logicalLine ::
  "string \<Rightarrow> nat list \<Rightarrow> rcToken list \<Rightarrow> nat \<Rightarrow> nat \<Rightarrow> rcWalker \<Rightarrow> (rc_error, rcWalker) result" where
  "logicalLine name ls tokens start last_off w =
     (let at = \<lparr>at_first = line_of ls start, at_lastEnd = line_of ls last_off + 1,
                at_alone = (length tokens = 1), at_listed = False\<rparr>
      in bind_res (fold_res (line_token name ls at) tokens
             \<lparr>ls_walker = w, ls_words = [], ls_redirect = False, ls_prevOp = []\<rparr>) (\<lambda>s.
           command name ls (ls_words s) (at\<lparr>at_listed := isRcListOperator (ls_prevOp s)\<rparr>) (ls_walker s)))"

definition endsInListOperator :: "rcToken list \<Rightarrow> bool" where
  "endsInListOperator tokens \<longleftrightarrow>
     tokens \<noteq> [] \<and> tk_kind (last tokens) = rcOperator \<and> tk_text (last tokens) \<in> set [''&&'', ''||'', ''|'']"

definition checkHazards :: "nat list \<Rightarrow> rcWalker \<Rightarrow> rc_error check" where
  "checkHazards ls w =
     (if rw_found w = [] then Inr ()
      else check_all (\<lambda>h. guard_res (\<not> tk_start h > fa_start (last (rw_found w)))
             (unmanaged ls h (ChangedAfter (rcUnquote (tk_joined h)) (fa_line (last (rw_found w)) + 1))))
             (rw_hazards w))"

record scan_state =
  ss_walker :: rcWalker
  ss_start :: nat
  ss_logical :: "rcToken list"

definition scan_token :: "string \<Rightarrow> nat list \<Rightarrow> rcToken \<Rightarrow> scan_state \<Rightarrow> (rc_error, scan_state) result" where
  "scan_token name ls t s =
     (if tk_kind t \<noteq> rcNewline then Inr (s\<lparr>ss_logical := ss_logical s @ [t]\<rparr>)
      else if endsInListOperator (ss_logical s) then Inr s
      else bind_res (logicalLine name ls (ss_logical s) (ss_start s) (tk_start t) (ss_walker s)) (\<lambda>w.
             Inr \<lparr>ss_walker = w, ss_start = tk_end t, ss_logical = []\<rparr>))"

definition new_walker :: rcWalker where
  "new_walker =
     \<lparr>rw_depth = 0, rw_opaque = False, rw_hazards = [], rw_includesOther = False, rw_namedHazard = False,
      rw_includesDefaults = False, rw_found = []\<rparr>"

definition finish_scan :: "nat list \<Rightarrow> rcWalker \<Rightarrow> (rc_error, rcScan) result" where
  "finish_scan ls w =
     bind_res (checkHazards ls w) (\<lambda>_.
       Inr \<lparr>sc_found = rw_found w, sc_includesOther = rw_includesOther w,
            sc_namedHazard = rw_namedHazard w, sc_includesDefaults = rw_includesDefaults w\<rparr>)"

definition scanRcAssignments :: "string \<Rightarrow> string \<Rightarrow> (rc_error, rcScan) result" where
  "scanRcAssignments src name =
     bind_res (map_err Syntax (lexRc src)) (\<lambda>tokens.
       let ls = newRcLineIndex src in
       bind_res (fold_res (scan_token name ls) tokens \<lparr>ss_walker = new_walker, ss_start = 0, ss_logical = []\<rparr>) (\<lambda>s.
         if endsInListOperator (ss_logical s) then
           (let t = last (ss_logical s)
            in Inl (Syntax (RcSyntax (line_of ls (tk_start t) + 1) (EndsAfterOperator (tk_text t)))))
         else if ss_logical s \<noteq> [] then
           bind_res (logicalLine name ls (ss_logical s) (ss_start s) (length src - 1) (ss_walker s)) (finish_scan ls)
         else finish_scan ls (ss_walker s)))"

section \<open>Rewriting\<close>

text \<open>The offset of the first \<open>$name\<close> or \<open>${name\<close>.\<close>

fun reference_from :: "nat \<Rightarrow> string \<Rightarrow> string \<Rightarrow> nat option" where
  "reference_from i [] name = None"
| "reference_from i (c # cs) name =
     (let rest = trim_prefix cs ''{'' in
      if c = CHR ''$'' \<and> has_prefix rest name
         \<and> (length rest = length name \<or> \<not> isShellNameChar (rest ! length name))
      then Some i else reference_from (Suc i) cs name)"

definition rcReference :: "string \<Rightarrow> string \<Rightarrow> nat option" where
  "rcReference text name = reference_from 0 text name"

definition refuseIntermediateReads :: "string \<Rightarrow> string \<Rightarrow> rcFoundAssignment list \<Rightarrow> rc_error check" where
  "refuseIntermediateReads content name found =
     check_all (\<lambda>(a, b).
       case rcReference (slice_of content (fa_end a) (fa_start b)) name of
         None \<Rightarrow> Inr ()
       | Some off \<Rightarrow>
           Inl (Unmanaged (line_of (newRcLineIndex content) (fa_end a + off) + 1)
                 (ReadBetween (fa_line (hd found) + 1) (fa_line (last found) + 1))))
       (zip found (tl found))"

record rcEdit =
  ed_start :: nat
  ed_end :: nat
  ed_text :: string

fun edits_from :: "string \<Rightarrow> string \<Rightarrow> bool \<Rightarrow> rcFoundAssignment list \<Rightarrow> (rc_error, rcEdit list) result" where
  "edits_from content new first [] = Inr []"
| "edits_from content new first (a # found) =
     (let ls = newRcLineIndex content; raw = slice_of content (fa_start a) (fa_end a) in
      if parseShellWord (fa_value a) = None \<and> NL \<in> set raw
      then Inl (Unmanaged (fa_line a + 1) (SpansLines (rcAssignedName (join_lines raw))))
      else bind_res (edits_from content new False found) (\<lambda>es.
             Inr ((if \<not> first \<and> fa_alone a
                   then \<lparr>ed_start = line_start ls (fa_first a) content,
                         ed_end = line_start ls (fa_lastEnd a) content, ed_text = []\<rparr>
                   else \<lparr>ed_start = fa_start a, ed_end = fa_end a, ed_text = new\<rparr>) # es)))"

definition rcAssignmentEdits :: "string \<Rightarrow> rcFoundAssignment list \<Rightarrow> string \<Rightarrow> (rc_error, rcEdit list) result" where
  "rcAssignmentEdits content found new = edits_from content new True found"

fun apply_from_edit :: "string \<Rightarrow> nat \<Rightarrow> rcEdit list \<Rightarrow> string" where
  "apply_from_edit src pos [] = drop pos src"
| "apply_from_edit src pos (e # es) =
     slice_of src pos (ed_start e) @ ed_text e @ apply_from_edit src (ed_end e) es"

definition applyRcEdits :: "string \<Rightarrow> rcEdit list \<Rightarrow> string" where
  "applyRcEdits src edits = apply_from_edit src 0 edits"

definition checkRcRewrite :: "string \<Rightarrow> string \<Rightarrow> string \<Rightarrow> rc_error check" where
  "checkRcRewrite updated name value =
     bind_res (map_err RewriteUnreadable (scanRcAssignments updated name)) (\<lambda>scan.
       if sc_found scan = [] then Inl NoReadBack
       else check_all (\<lambda>a. guard_res (parseShellWord (fa_value a) = Some value)
              (Unmanaged (fa_line a + 1) (ReadsBackOther (fa_value a)))) (sc_found scan))"

definition replaceRcAssignment :: "string \<Rightarrow> string \<Rightarrow> string \<Rightarrow> (rc_error, string) result" where
  "replaceRcAssignment content name value =
     bind_res (scanRcAssignments content name) (\<lambda>scan.
       let found = sc_found scan; new = name @ ''='' @ shellQuote value in
       bind_res (refuseIntermediateReads content name found) (\<lambda>_.
         bind_res (if found = [] then
                     Inr ((if content \<noteq> [] \<and> \<not> has_suffix content [NL] then content @ [NL] else content)
                            @ new @ [NL])
                   else bind_res (rcAssignmentEdits content found new) (\<lambda>edits. Inr (applyRcEdits content edits)))
           (\<lambda>updated. bind_res (checkRcRewrite updated name value) (\<lambda>_. Inr updated))))"

section \<open>NetBSD flags\<close>

text \<open>The contents of \<open>rc.conf.d/NAME\<close>, \<open>rc.conf\<close> and \<open>defaults/rc.conf\<close>.\<close>

record netbsd_files =
  nb_override :: string
  nb_rcConf :: string
  nb_defaults :: string

record rcValue =
  rv_value :: "string option"    \<comment> \<open>\<open>None\<close> when it is not \<open>parsed\<close>\<close>
  rv_found :: bool
  rv_unseen :: bool
  rv_includesDefaults :: bool

datatype flags_error =
    NotShellIdentifier string
  | ParseFailed rc_error
  | OverrideDiffers
  | OverrideUnseen
  | RewriteFailed rc_error

definition flagsVar :: "string \<Rightarrow> (flags_error, string) result" where
  "flagsVar name = (if \<not> isShellName name then Inl (NotShellIdentifier name) else Inr (name @ ''_flags''))"

definition readRcAssignment :: "string \<Rightarrow> string \<Rightarrow> (flags_error, rcValue) result" where
  "readRcAssignment content name =
     bind_res (map_err ParseFailed (scanRcAssignments content name)) (\<lambda>scan.
       Inr \<lparr>rv_value = (if sc_found scan = [] then None else parseShellWord (fa_value (last (sc_found scan)))),
            rv_found = (sc_found scan \<noteq> []), rv_unseen = unseen scan,
            rv_includesDefaults = sc_includesDefaults scan\<rparr>)"

definition flagsMatch :: "netbsd_files \<Rightarrow> string \<Rightarrow> string \<Rightarrow> (flags_error, bool) result" where
  "flagsMatch files svc want =
     bind_res (flagsVar svc) (\<lambda>name.
     bind_res (readRcAssignment (nb_override files) name) (\<lambda>v.
       if rv_found v \<and> rv_value v = Some want then Inr True
       else if rv_found v then Inl OverrideDiffers
       else if rv_unseen v then Inl OverrideUnseen
       else bind_res (readRcAssignment (nb_rcConf files) name) (\<lambda>rc.
         if rv_found rc then Inr (rv_value rc = Some want)
         else if rv_unseen rc then Inr False
         else if \<not> rv_includesDefaults rc then Inr (want = [])
         else bind_res (readRcAssignment (nb_defaults files) name) (\<lambda>d.
           if rv_found d then Inr (rv_value d = Some want)
           else if rv_unseen d then Inr False
           else Inr (want = [])))))"

definition setFlags :: "netbsd_files \<Rightarrow> string \<Rightarrow> string \<Rightarrow> (flags_error, netbsd_files) result" where
  "setFlags files svc flags =
     bind_res (flagsVar svc) (\<lambda>name.
     bind_res (map_err RewriteFailed (replaceRcAssignment (nb_rcConf files) name flags)) (\<lambda>updated.
       Inr (files\<lparr>nb_rcConf := updated\<rparr>)))"

section \<open>Lemmas: quoting\<close>

lemma word_value_quoted:
  "word_value (SQ # replace_all w [SQ] [SQ, BSL, SQ, SQ] @ SQ # rest) b t = word_value rest (b @ w) False"
proof (induction "length w" arbitrary: w b t rule: less_induct)
  case less
  show ?case
  proof (cases "SQ \<in> set w")
    case False
    then have "replace_all w [SQ] [SQ, BSL, SQ, SQ] = w" by (intro replace_all_noop) simp_all
    with False show ?thesis by (simp add: index_byte_append_mid)
  next
    case True
    then obtain u v where w: "w = u @ SQ # v" "SQ \<notin> set u" by (meson split_list_first)
    have rep: "replace_all w [SQ] [SQ, BSL, SQ, SQ] = u @ [SQ, BSL, SQ, SQ] @ replace_all v [SQ] [SQ, BSL, SQ, SQ]"
      unfolding w(1) by (rule replace_all_first_quote [OF w(2)])
    have "word_value (SQ # u @ SQ # BSL # SQ # SQ # replace_all v [SQ] [SQ, BSL, SQ, SQ] @ SQ # rest) b t
        = word_value (SQ # replace_all v [SQ] [SQ, BSL, SQ, SQ] @ SQ # rest) (b @ u @ [SQ]) False"
      using w(2) by (simp add: index_byte_append_mid)
    also have "\<dots> = word_value rest ((b @ u @ [SQ]) @ v) False"
      by (rule less.hyps) (simp add: w(1))
    finally show ?thesis unfolding rep by (simp only: append_assoc append_Cons append_Nil) (simp add: w(1))
  qed
qed

lemma parseShellWord_shellQuote: "parseShellWord (shellQuote v) = Some v"
  using word_value_quoted [of v "[]" "[]" True] by (simp add: parseShellWord_def shellQuote_def)

section \<open>Lemmas: what a rewrite guarantees\<close>

lemma replace_reads_back:
  assumes "replaceRcAssignment content name value = Inr updated"
  obtains scan where "scanRcAssignments updated name = Inr scan" "sc_found scan \<noteq> []"
    "\<forall>a \<in> set (sc_found scan). parseShellWord (fa_value a) = Some value"
proof -
  have "checkRcRewrite updated name value = Inr ()"
    using assms by (auto simp: replaceRcAssignment_def Let_def res_simps)
  with that show thesis by (auto simp: checkRcRewrite_def res_simps split: if_splits)
qed

section \<open>Properties\<close>

text \<open>
  C25: setting the flags of a NetBSD service settles them: after a successful \<open>setFlags\<close>, and as
  long as the service's own \<open>rc.conf.d\<close> file says nothing about them, \<open>flagsMatch\<close> finds exactly those
  flags, so a second run changes nothing.
\<close>

theorem setFlags_converges:
  assumes "setFlags files svc flags = Inr files'" and "flagsVar svc = Inr name"
    and "readRcAssignment (nb_override files) name = Inr ov" and "\<not> rv_found ov" and "\<not> rv_unseen ov"
  shows "flagsMatch files' svc flags = Inr True"
proof -
  obtain updated where u: "replaceRcAssignment (nb_rcConf files) name flags = Inr updated"
    "files' = files\<lparr>nb_rcConf := updated\<rparr>"
    using assms(1,2) by (auto simp: setFlags_def res_simps)
  obtain scan where scan: "scanRcAssignments updated name = Inr scan" "sc_found scan \<noteq> []"
    "\<forall>a \<in> set (sc_found scan). parseShellWord (fa_value a) = Some flags"
    using replace_reads_back [OF u(1)] by blast
  then have "parseShellWord (fa_value (last (sc_found scan))) = Some flags" by simp
  with scan have "\<exists>rc. readRcAssignment updated name = Inr rc \<and> rv_found rc \<and> rv_value rc = Some flags"
    by (simp add: readRcAssignment_def)
  with assms(2-5) u(2) show ?thesis by (auto simp: flagsMatch_def)
qed

theorem setFlags_converges_witness:
  "flagsMatch \<lparr>nb_override = [], nb_rcConf = ''sshd_flags='' @ [SQ] @ ''-4'' @ [SQ, NL], nb_defaults = []\<rparr>
     ''sshd'' ''-4'' = Inr True"
proof (rule setFlags_converges)
  show "setFlags \<lparr>nb_override = [], nb_rcConf = ''sshd_flags=x'' @ [NL], nb_defaults = []\<rparr> ''sshd'' ''-4''
    = Inr \<lparr>nb_override = [], nb_rcConf = ''sshd_flags='' @ [SQ] @ ''-4'' @ [SQ, NL], nb_defaults = []\<rparr>"
    by code_simp
  show "flagsVar ''sshd'' = Inr ''sshd_flags''" by code_simp
  show "readRcAssignment (nb_override \<lparr>nb_override = [], nb_rcConf = ''sshd_flags=x'' @ [NL], nb_defaults = []\<rparr>) ''sshd_flags''
    = Inr \<lparr>rv_value = None, rv_found = False, rv_unseen = False, rv_includesDefaults = False\<rparr>"
    by code_simp
qed simp_all

end
