(* ===== verification/Services.thy ===== *)
theory Services
  imports Report RcConf
begin

text \<open>
  Services: the backends that talk to a service manager (\<open>resource/service/backend.go\<close>, \<open>rcctl.go\<close>,
  \<open>freebsd.go\<close>, \<open>netbsd.go\<close>, \<open>systemd.go\<close> and the client of \<open>resource/systemd/client.go\<close>), WithFlags
  (\<open>flags.go\<close>) and the policy that turns what the probes found into a sequence of verbs
  (\<open>converge.go\<close>). A backend reaches the manager through its runner, a parameter: what a program does
  to the host and what it prints. A probe's effect on the host is dropped. For NetBSD the host also
  holds the rc.conf files the backend writes itself.
\<close>

section \<open>Backends\<close>

type_synonym ('h, 'x) runner = "string \<Rightarrow> string list \<Rightarrow> 'h \<Rightarrow> 'h \<times> ('x, string \<times> string \<times> int) result"

datatype verb = verbStart | verbStop | verbEnable | verbDisable | verbRestart | verbReload | verbDisableRuntime

fun verb_string :: "verb \<Rightarrow> string" where
  "verb_string verbStart = ''start''"
| "verb_string verbStop = ''stop''"
| "verb_string verbEnable = ''enable''"
| "verb_string verbDisable = ''disable''"
| "verb_string verbRestart = ''restart''"
| "verb_string verbReload = ''reload''"
| "verb_string verbDisableRuntime = ''disable --runtime''"

record srv_unit =
  un_name :: string
  un_user :: bool

datatype 'x svc_error =
    ProbeFailed string 'x
  | RunFailed string "string list" 'x
  | RunExited string "string list" int string string
  | UserNeedsSystemd
  | FlagsUnsupported string
  | FlagsFailed flags_error
  | ForService string "'x svc_error"

record ('h, 'x) flagger =
  fg_match :: "srv_unit \<Rightarrow> string \<Rightarrow> 'h \<Rightarrow> ('x svc_error, bool) result"
  fg_set :: "srv_unit \<Rightarrow> string \<Rightarrow> ('h, 'x svc_error) host_action"

text \<open>\<open>bk_prober\<close> is the optional \<open>enablementProber\<close>, \<open>bk_flagger\<close> the optional \<open>flagger\<close>.\<close>

record ('h, 'x) backend =
  bk_userSupport :: "'x svc_error option"
  bk_running :: "srv_unit \<Rightarrow> 'h \<Rightarrow> ('x svc_error, bool) result"
  bk_enabled :: "srv_unit \<Rightarrow> 'h \<Rightarrow> ('x svc_error, bool) result"
  bk_prober :: "(srv_unit \<Rightarrow> 'h \<Rightarrow> ('x svc_error, bool \<times> verb option) result) option"
  bk_do :: "srv_unit \<Rightarrow> verb \<Rightarrow> ('h, 'x svc_error) host_action"
  bk_flagger :: "('h, 'x) flagger option"

definition probeEnablement ::
  "('h, 'x) backend \<Rightarrow> srv_unit \<Rightarrow> 'h \<Rightarrow> ('x svc_error, bool \<times> verb option) result" where
  "probeEnablement b u h =
     (case bk_prober b of
        Some p \<Rightarrow> p u h
      | None \<Rightarrow> bind_res (bk_enabled b u h) (\<lambda>enabled. Inr (enabled, if enabled then Some verbDisable else None)))"

definition probeExitZero ::
  "('h, 'x) runner \<Rightarrow> string \<Rightarrow> string \<Rightarrow> string list \<Rightarrow> 'h \<Rightarrow> ('x svc_error, bool) result" where
  "probeExitZero run what bin args h =
     bind_res (map_err (ProbeFailed what) (snd (run bin args h))) (\<lambda>(stdout, stderr, code). Inr (code = 0))"

definition runChecked :: "('h, 'x) runner \<Rightarrow> string \<Rightarrow> string list \<Rightarrow> ('h, 'x svc_error) host_action" where
  "runChecked run bin args h =
     (case run bin args h of
        (h', Inl e) \<Rightarrow> (h', Some (RunFailed bin args e))
      | (h', Inr (stdout, stderr, code)) \<Rightarrow>
          (h', if code \<noteq> 0 then Some (RunExited bin args code stdout stderr) else None))"

text \<open>The text a program prints, as the flags a manager reports.\<close>

definition printed_matches ::
  "('h, 'x) runner \<Rightarrow> string \<Rightarrow> string list \<Rightarrow> string \<Rightarrow> 'h \<Rightarrow> ('x svc_error, bool) result" where
  "printed_matches run bin args want h =
     bind_res (map_err (RunFailed bin args) (snd (run bin args h))) (\<lambda>(stdout, stderr, code).
       if code \<noteq> 0 then Inl (RunExited bin args code stdout stderr)
       else Inr (trim_suffix stdout [NL] = want))"

definition rcctlSetFlagsArgs :: "srv_unit \<Rightarrow> string \<Rightarrow> string list" where
  "rcctlSetFlagsArgs u flags = [''set'', un_name u, ''flags''] @ (if flags \<noteq> [] then [flags] else [])"

definition rcctlBackend :: "('h, 'x) runner \<Rightarrow> ('h, 'x) backend" where
  "rcctlBackend run =
     \<lparr>bk_userSupport = Some UserNeedsSystemd,
      bk_running = (\<lambda>u. probeExitZero run (''rcctl check '' @ un_name u) ''rcctl'' [''check'', un_name u]),
      bk_enabled = (\<lambda>u. probeExitZero run (''rcctl get '' @ un_name u @ '' status'') ''rcctl'' [''get'', un_name u, ''status'']),
      bk_prober = None,
      bk_do = (\<lambda>u v. runChecked run ''rcctl'' [verb_string v, un_name u]),
      bk_flagger = Some
        \<lparr>fg_match = (\<lambda>u want. printed_matches run ''rcctl'' [''get'', un_name u, ''flags''] want),
         fg_set = (\<lambda>u flags. runChecked run ''rcctl'' (rcctlSetFlagsArgs u flags))\<rparr>\<rparr>"

definition freebsdBackend :: "('h, 'x) runner \<Rightarrow> ('h, 'x) backend" where
  "freebsdBackend run =
     \<lparr>bk_userSupport = Some UserNeedsSystemd,
      bk_running = (\<lambda>u. probeExitZero run (''service '' @ un_name u @ '' status'') ''service'' [un_name u, ''status'']),
      bk_enabled = (\<lambda>u. probeExitZero run (''service '' @ un_name u @ '' enabled'') ''service'' [un_name u, ''enabled'']),
      bk_prober = None,
      bk_do = (\<lambda>u v. runChecked run ''service'' [un_name u, verb_string v]),
      bk_flagger = Some
        \<lparr>fg_match = (\<lambda>u want h. bind_res (map_err FlagsFailed (flagsVar (un_name u))) (\<lambda>name.
             printed_matches run ''sysrc'' [''-n'', ''-i'', name] want h)),
         fg_set = (\<lambda>u flags h. case flagsVar (un_name u) of
             Inl e \<Rightarrow> (h, Some (FlagsFailed e))
           | Inr name \<Rightarrow> runChecked run ''sysrc'' [name @ ''='' @ flags] h)\<rparr>\<rparr>"

text \<open>systemd: the state \<open>is-enabled\<close> prints, and the way to disable a unit in that state.\<close>

record Enablement =
  en_state :: string
  en_enabled :: bool

definition DisableOp :: "Enablement \<Rightarrow> string list option" where
  "DisableOp e =
     (if \<not> en_enabled e then None
      else if en_state e \<in> set [''static'', ''indirect'', ''generated'', ''alias'', ''transient''] then None
      else if en_state e = ''enabled-runtime'' then Some [''disable'', ''--runtime'']
      else Some [''disable''])"

definition systemd_Args :: "bool \<Rightarrow> string list \<Rightarrow> string list" where
  "systemd_Args user args = (if user then ''--user'' # args else args)"

definition client_Enablement :: "('h, 'x) runner \<Rightarrow> string \<Rightarrow> bool \<Rightarrow> 'h \<Rightarrow> ('x svc_error, Enablement) result" where
  "client_Enablement run name user h =
     bind_res (map_err (ProbeFailed (''systemctl is-enabled '' @ name))
                 (snd (run ''systemctl'' (systemd_Args user [''is-enabled'', name]) h))) (\<lambda>(stdout, stderr, code).
       Inr \<lparr>en_state = trim_space (fst (cut (trim_space stdout) NL)), en_enabled = (code = 0)\<rparr>)"

definition systemd_enablement ::
  "('h, 'x) runner \<Rightarrow> srv_unit \<Rightarrow> 'h \<Rightarrow> ('x svc_error, bool \<times> verb option) result" where
  "systemd_enablement run u h =
     bind_res (client_Enablement run (un_name u) (un_user u) h) (\<lambda>e.
       case DisableOp e of
         None \<Rightarrow> Inr (en_enabled e, None)
       | Some oper \<Rightarrow>
           Inr (en_enabled e, Some (if oper = [''disable'', ''--runtime''] then verbDisableRuntime else verbDisable)))"

definition systemdBackend :: "('h, 'x) runner \<Rightarrow> ('h, 'x) backend" where
  "systemdBackend run =
     \<lparr>bk_userSupport = None,
      bk_running = (\<lambda>u. probeExitZero run (''systemctl is-active '' @ un_name u)
          ''systemctl'' (systemd_Args (un_user u) [''is-active'', ''--quiet'', un_name u])),
      bk_enabled = (\<lambda>u h. bind_res (client_Enablement run (un_name u) (un_user u) h) (\<lambda>e. Inr (en_enabled e))),
      bk_prober = Some (systemd_enablement run),
      bk_do = (\<lambda>u v. runChecked run ''systemctl'' (systemd_Args (un_user u) (fields_on [SP] (verb_string v) @ [un_name u]))),
      bk_flagger = None\<rparr>"

text \<open>NetBSD: \<open>rc.conf.d/NAME\<close> by service name, \<open>rc.conf\<close> and the defaults, beside the rest of the host.\<close>

record 'h netbsd_host =
  nh_override :: "string \<Rightarrow> string"
  nh_rcConf :: string
  nh_defaults :: string
  nh_rest :: 'h

definition files_of :: "string \<Rightarrow> 'h netbsd_host \<Rightarrow> netbsd_files" where
  "files_of name h = \<lparr>nb_override = nh_override h name, nb_rcConf = nh_rcConf h, nb_defaults = nh_defaults h\<rparr>"

definition setEnabled :: "string \<Rightarrow> bool \<Rightarrow> ('h netbsd_host, 'x svc_error) host_action" where
  "setEnabled name enabled h =
     (h\<lparr>nh_override := (nh_override h)(name := name @ ''='' @ (if enabled then ''YES'' else ''NO'') @ [NL])\<rparr>, None)"

definition rcAction :: "verb \<Rightarrow> string" where
  "rcAction v = ''one'' @ verb_string v"

definition netbsdService :: string where
  "netbsdService = ''/usr/sbin/service''"

definition netbsdBackend :: "('h netbsd_host, 'x) runner \<Rightarrow> ('h netbsd_host, 'x) backend" where
  "netbsdBackend run =
     \<lparr>bk_userSupport = Some UserNeedsSystemd,
      bk_running = (\<lambda>u. probeExitZero run (''service '' @ un_name u @ '' onestatus'') netbsdService [un_name u, ''onestatus'']),
      bk_enabled = (\<lambda>u. probeExitZero run (''service -e '' @ un_name u) netbsdService [''-e'', un_name u]),
      bk_prober = None,
      bk_do = (\<lambda>u v.
         if v = verbEnable then setEnabled (un_name u) True
         else if v = verbDisable then setEnabled (un_name u) False
         else runChecked run netbsdService [un_name u, rcAction v]),
      bk_flagger = Some
        \<lparr>fg_match = (\<lambda>u want h. map_err FlagsFailed (flagsMatch (files_of (un_name u) h) (un_name u) want)),
         fg_set = (\<lambda>u flags h. case setFlags (files_of (un_name u) h) (un_name u) flags of
             Inl e \<Rightarrow> (h, Some (FlagsFailed e))
           | Inr files \<Rightarrow> (h\<lparr>nh_rcConf := nb_rcConf files\<rparr>, None))\<rparr>\<rparr>"

section \<open>The service resource\<close>

record Service =
  svc_name :: string
  svc_gate :: ChangeGate
  svc_absent :: bool
  svc_enableOnly :: bool
  svc_restart :: bool
  svc_reload :: bool
  svc_user :: bool
  svc_flags :: string
  svc_hasFlags :: bool

definition unit_of :: "Service \<Rightarrow> srv_unit" where
  "unit_of s = \<lparr>un_name = svc_name s, un_user = svc_user s\<rparr>"

definition service_id :: "Service \<Rightarrow> string" where
  "service_id s = FormatID ''Service'' (svc_name s)"

definition declarationErr :: "Service \<Rightarrow> bool" where
  "declarationErr s \<longleftrightarrow>
     (svc_enableOnly s \<and> (svc_restart s \<or> svc_reload s \<or> cg_gated (svc_gate s))) \<or> (svc_hasFlags s \<and> svc_absent s)"

definition checkFlagsSupport :: "Service \<Rightarrow> ('h, 'x) backend \<Rightarrow> 'x svc_error option" where
  "checkFlagsSupport s b =
     (if svc_hasFlags s \<and> Option.is_none (bk_flagger b) then Some (FlagsUnsupported (svc_name s)) else None)"

text \<open>The verbs, and whether the gate held a restart or reload. \<open>changed\<close> is the gate's oracle.\<close>

definition actions ::
  "Service \<Rightarrow> (string list \<Rightarrow> bool) \<Rightarrow> bool \<Rightarrow> bool \<Rightarrow> verb option \<Rightarrow> bool \<Rightarrow> verb list \<times> bool" where
  "actions s changed running enabled disable flagsChanged =
     (if svc_absent s then
        ((if running \<and> \<not> svc_enableOnly s then [verbStop] else []) @ (case disable of Some v \<Rightarrow> [v] | None \<Rightarrow> []), False)
      else
        let verbs = (if \<not> enabled then [verbEnable] else []) in
        if svc_enableOnly s then (verbs, False)
        else if \<not> running then (verbs @ [verbStart], False)
        else if \<not> svc_reload s \<and> \<not> svc_restart s then (verbs, False)
        else if \<not> flagsChanged \<and> Holds (svc_gate s) changed then (verbs, True)
        else if svc_reload s then (verbs @ [verbReload], False)
        else (verbs @ [verbRestart], False))"

text \<open>The loop of \<open>sequence\<close>: the flags action goes before the first verb that is not \<open>enable\<close>.\<close>

fun sequence :: "('h, 'x) backend \<Rightarrow> srv_unit \<Rightarrow> verb list \<Rightarrow> ('h, 'x svc_error) host_action option
    \<Rightarrow> ('h, 'x svc_error) host_action list" where
  "sequence b u [] flags = (case flags of Some f \<Rightarrow> [f] | None \<Rightarrow> [])"
| "sequence b u (v # vs) flags =
     (case flags of
        Some f \<Rightarrow> if v \<noteq> verbEnable then f # bk_do b u v # sequence b u vs None
                  else bk_do b u v # sequence b u vs flags
      | None \<Rightarrow> bk_do b u v # sequence b u vs None)"

definition flagsUpdate ::
  "Service \<Rightarrow> ('h, 'x) backend \<Rightarrow> bool \<Rightarrow> 'h \<Rightarrow> ('x svc_error, ('h, 'x svc_error) host_action option) result" where
  "flagsUpdate s b enabled h =
     (if \<not> svc_hasFlags s then Inr None
      else case bk_flagger b of
        None \<Rightarrow> Inl (FlagsUnsupported (svc_name s))
      | Some f \<Rightarrow>
          (if enabled then
             bind_res (fg_match f (unit_of s) (svc_flags s) h) (\<lambda>same.
               Inr (if same then None else Some (fg_set f (unit_of s) (svc_flags s))))
           else Inr (Some (fg_set f (unit_of s) (svc_flags s)))))"

text \<open>What the probes find: running, enabled, the verb that disables, and the flags action.\<close>

definition service_probe ::
  "Service \<Rightarrow> ('h, 'x) backend \<Rightarrow> 'h
   \<Rightarrow> ('x svc_error, bool \<times> bool \<times> verb option \<times> ('h, 'x svc_error) host_action option) result" where
  "service_probe s b h =
     (case (if svc_user s then bk_userSupport b else None) of
        Some e \<Rightarrow> Inl (ForService (svc_name s) e)
      | None \<Rightarrow>
          (case checkFlagsSupport s b of
             Some e \<Rightarrow> Inl e
           | None \<Rightarrow>
               bind_res (if svc_enableOnly s then Inr False else bk_running b (unit_of s) h) (\<lambda>running.
               bind_res (probeEnablement b (unit_of s) h) (\<lambda>(enabled, disable).
               bind_res (flagsUpdate s b enabled h) (\<lambda>flags. Inr (running, enabled, disable, flags))))))"

definition applyWith ::
  "home_env \<Rightarrow> Service \<Rightarrow> ('h, 'x) backend \<Rightarrow> 'h run_state \<Rightarrow> 'h run_state \<times> 'x svc_error option" where
  "applyWith env s b st =
     (case service_probe s b (rs_host st) of
        Inl e \<Rightarrow> (st, Some e)
      | Inr (running, enabled, disable, flags) \<Rightarrow>
          (case actions s (AnyChanged env st) running enabled disable (\<not> Option.is_none flags) of
             (verbs, held) \<Rightarrow> Converge (service_id s) (sequence b (unit_of s) verbs flags) held st))"

section \<open>What a manager documents\<close>

text \<open>
  A verb that succeeds does what its name says and leaves the rest alone; setting the flags settles
  them. \<open>match\<close> is the flagger's answer for the flags the service declares.
\<close>

definition matches :: "('h, 'x) backend \<Rightarrow> srv_unit \<Rightarrow> string \<Rightarrow> 'h \<Rightarrow> bool" where
  "matches b u want h \<longleftrightarrow> (case bk_flagger b of None \<Rightarrow> False | Some f \<Rightarrow> fg_match f u want h = Inr True)"

definition after_verb :: "('h, 'x) backend \<Rightarrow> srv_unit \<Rightarrow> string \<Rightarrow> verb \<Rightarrow> 'h \<Rightarrow> 'h \<Rightarrow> bool" where
  "after_verb b u want v h h' \<longleftrightarrow>
     matches b u want h' = matches b u want h
     \<and> (if v = verbEnable then \<exists>d. probeEnablement b u h' = Inr (True, d)
        else if v = verbDisable \<or> v = verbDisableRuntime then probeEnablement b u h' = Inr (False, None)
        else probeEnablement b u h' = probeEnablement b u h)
     \<and> (if v = verbStart \<or> v = verbRestart \<or> v = verbReload then bk_running b u h' = Inr True
        else if v = verbStop then bk_running b u h' = Inr False
        else bk_running b u h' = bk_running b u h)"

definition obeys :: "('h, 'x) backend \<Rightarrow> srv_unit \<Rightarrow> string \<Rightarrow> bool" where
  "obeys b u want \<longleftrightarrow>
     (\<forall>v h h'. bk_do b u v h = (h', None) \<longrightarrow> after_verb b u want v h h')
     \<and> (\<forall>f h h'. bk_flagger b = Some f \<longrightarrow> fg_set f u want h = (h', None) \<longrightarrow>
          matches b u want h' \<and> probeEnablement b u h' = probeEnablement b u h \<and> bk_running b u h' = bk_running b u h)
     \<and> (\<forall>h enabled v. probeEnablement b u h = Inr (enabled, Some v) \<longrightarrow> v = verbDisable \<or> v = verbDisableRuntime)"

section \<open>Lemmas: one apply\<close>

lemma do_actions_Cons_iff:
  "do_actions (a # as) h = (h', None) \<longleftrightarrow> (\<exists>h1. a h = (h1, None) \<and> do_actions as h1 = (h', None))"
  by (auto split: prod.splits option.splits)

lemma obeys_verb: "obeys b u want \<Longrightarrow> bk_do b u v h = (h', None) \<Longrightarrow> after_verb b u want v h h'"
  by (auto simp: obeys_def)

lemma obeys_flags:
  assumes "obeys b u want" "bk_flagger b = Some f" "fg_set f u want h = (h', None)"
  shows "matches b u want h'" "probeEnablement b u h' = probeEnablement b u h" "bk_running b u h' = bk_running b u h"
  using assms by (auto simp: obeys_def)

lemma keep_matches:
  assumes "obeys b u want"
  shows "matches b u want h \<Longrightarrow> do_actions (sequence b u vs None) h = (h', None) \<Longrightarrow> matches b u want h'"
proof (induction vs arbitrary: h)
  case (Cons w ws)
  then obtain h3 where "bk_do b u w h = (h3, None)" "do_actions (sequence b u ws None) h3 = (h', None)"
    by (auto simp: do_actions_Cons_iff simp del: do_actions.simps)
  with obeys_verb [OF assms] Cons show ?case by (auto simp: after_verb_def)
qed simp

text \<open>A run of verbs with the flags action among them, seen through the probes.\<close>

lemma sequence_flags:
  assumes "obeys b u want" "do_actions (sequence b u vs flags) h = (h', None)"
    "flags = Some (fg_set f u want)" "bk_flagger b = Some f"
  shows "matches b u want h'"
  using assms(2,3)
proof (induction vs arbitrary: h flags)
  case Nil
  then have "fg_set f u want h = (h', None)"
    by (auto simp: do_actions_Cons_iff simp del: do_actions.simps(2))
  then show ?case by (rule obeys_flags(1) [OF assms(1,4)])
next
  case (Cons v vs)
  show ?case
  proof (cases "v = verbEnable")
    case True
    with Cons.prems obtain h1 where "do_actions (sequence b u vs flags) h1 = (h', None)"
      by (auto simp: do_actions_Cons_iff simp del: do_actions.simps)
    with Cons.IH Cons.prems(2) show ?thesis by blast
  next
    case False
    with Cons.prems obtain h1 h2 where s: "fg_set f u want h = (h1, None)" "bk_do b u v h1 = (h2, None)"
      "do_actions (sequence b u vs None) h2 = (h', None)"
      by (auto simp: do_actions_Cons_iff simp del: do_actions.simps)
    have "matches b u want h1" by (rule obeys_flags(1) [OF assms(1,4) s(1)])
    with obeys_verb [OF assms(1) s(2)] have "matches b u want h2" by (simp add: after_verb_def)
    with s(3) show ?thesis by (rule keep_matches [OF assms(1), rotated])
  qed
qed

text \<open>The steps a sequence takes through what the probes see.\<close>

type_synonym 'x view = "('x svc_error, bool) result \<times> ('x svc_error, bool \<times> verb option) result"

definition view :: "('h, 'x) backend \<Rightarrow> srv_unit \<Rightarrow> 'h \<Rightarrow> 'x view" where
  "view b u h = (bk_running b u h, probeEnablement b u h)"

fun path :: "verb list \<Rightarrow> 'x view \<Rightarrow> 'x view \<Rightarrow> bool" where
  "path [] x y = (y = x)"
| "path (v # vs) (r, e) y =
     (\<exists>r' e'. path vs (r', e') y
        \<and> (if v = verbEnable then \<exists>d. e' = Inr (True, d)
           else if v = verbDisable \<or> v = verbDisableRuntime then e' = Inr (False, None) else e' = e)
        \<and> (if v = verbStart \<or> v = verbRestart \<or> v = verbReload then r' = Inr True
           else if v = verbStop then r' = Inr False else r' = r))"

lemma sequence_path:
  assumes "obeys b u want" "do_actions (sequence b u vs flags) h = (h', None)"
    "flags = None \<or> (\<exists>f. bk_flagger b = Some f \<and> flags = Some (fg_set f u want))"
  shows "path vs (view b u h) (view b u h')"
  using assms(2,3)
proof (induction vs arbitrary: h flags)
  case Nil
  then show ?case
    using obeys_flags(2,3) [OF assms(1)]
    by (auto simp: view_def do_actions_Cons_iff simp del: do_actions.simps(2))
next
  case (Cons v vs)
  have step: "path (v # vs) (view b u h1) (view b u h')"
    if "bk_do b u v h1 = (h2, None)" "do_actions (sequence b u vs fl) h2 = (h', None)"
      "fl = None \<or> (\<exists>f. bk_flagger b = Some f \<and> fl = Some (fg_set f u want))" for h1 h2 fl
    using Cons.IH [OF that(2,3)] obeys_verb [OF assms(1) that(1)]
    unfolding view_def path.simps after_verb_def by blast
  show ?case
  proof (cases "flags = None \<or> v = verbEnable")
    case True
    with Cons.prems obtain h2 where "bk_do b u v h = (h2, None)" "do_actions (sequence b u vs flags) h2 = (h', None)"
      by (auto simp: do_actions_Cons_iff simp del: do_actions.simps(2))
    with step Cons.prems(2) show ?thesis by blast
  next
    case False
    with Cons.prems obtain f h1 h2 where "bk_flagger b = Some f" "fg_set f u want h = (h1, None)"
      "bk_do b u v h1 = (h2, None)" "do_actions (sequence b u vs None) h2 = (h', None)"
      by (auto simp: do_actions_Cons_iff simp del: do_actions.simps(2))
    with step [of h1 h2 None] obeys_flags(2,3) [OF assms(1)] show ?thesis by (simp add: view_def)
  qed
qed

section \<open>Lemmas: applying again\<close>

lemma Converge_real:
  assumes "Converge i as held st = (st', None)" "\<not> rs_dryRun st"
  shows "do_actions as (rs_host st) = (rs_host st', None) \<and> \<not> rs_dryRun st'"
  using assms
  by (cases as) (auto simp: Converge_def split: prod.splits option.splits)

lemma service_probe_InrD:
  assumes "service_probe s b h = Inr (running, enabled, disable, flags)"
  shows "(if svc_user s then bk_userSupport b else None) = None" "checkFlagsSupport s b = None"
    "if svc_enableOnly s then running = False else bk_running b (unit_of s) h = Inr running"
    "probeEnablement b (unit_of s) h = Inr (enabled, disable)" "flagsUpdate s b enabled h = Inr flags"
  using assms by (auto simp: service_probe_def res_simps split: option.splits if_splits)

lemma service_probe_InrI:
  assumes "(if svc_user s then bk_userSupport b else None) = None" "checkFlagsSupport s b = None"
    "if svc_enableOnly s then running = False else bk_running b (unit_of s) h = Inr running"
    "probeEnablement b (unit_of s) h = Inr (enabled, disable)" "flagsUpdate s b enabled h = Inr flags"
  shows "service_probe s b h = Inr (running, enabled, disable, flags)"
  using assms by (auto simp: service_probe_def)

lemma flagsUpdate_cases:
  assumes "flagsUpdate s b enabled h = Inr flags"
  shows "(\<not> svc_hasFlags s \<and> flags = None)
    \<or> (svc_hasFlags s \<and> enabled \<and> flags = None \<and> matches b (unit_of s) (svc_flags s) h)
    \<or> (svc_hasFlags s \<and> (\<exists>f. bk_flagger b = Some f \<and> flags = Some (fg_set f (unit_of s) (svc_flags s))))"
  using assms by (auto simp: flagsUpdate_def matches_def res_simps split: if_splits option.splits)

lemma flagsUpdate_settled:
  "\<not> svc_hasFlags s \<or> matches b (unit_of s) (svc_flags s) h \<Longrightarrow> flagsUpdate s b True h = Inr None"
  by (auto simp: flagsUpdate_def matches_def split: option.splits)

lemma gate_holds_fresh: "cg_gated g \<Longrightarrow> Holds g (AnyChanged env (ResetReport st))"
  by (simp add: Holds_def AnyChanged_def ResetReport_def anyChangedIn_def list_ex_iff)

text \<open>What a successful apply leaves for the probes of the next one.\<close>

lemma apply_settles:
  assumes ob: "obeys b (unit_of s) (svc_flags s)" and decl: "\<not> declarationErr s"
    and p: "service_probe s b h = Inr (running, enabled, disable, flags)"
    and v: "actions s changed running enabled disable fc = (verbs, held)"
    and run: "do_actions (sequence b (unit_of s) verbs flags) h = (h', None)"
  shows "if svc_absent s
    then \<exists>r e. service_probe s b h' = Inr (r, e, None, None) \<and> \<not> r
    else \<exists>r d. service_probe s b h' = Inr (r, True, d, None) \<and> r = (\<not> svc_enableOnly s)"
proof -
  note pr = service_probe_InrD [OF p]
  have fl: "flags = None \<or> (\<exists>f. bk_flagger b = Some f \<and> flags = Some (fg_set f (unit_of s) (svc_flags s)))"
    using flagsUpdate_cases [OF pr(5)] by blast
  have path: "path verbs (view b (unit_of s) h) (view b (unit_of s) h')" by (rule sequence_path [OF ob run fl])
  have m: "\<not> svc_hasFlags s \<or> matches b (unit_of s) (svc_flags s) h'"
    using flagsUpdate_cases [OF pr(5)] sequence_flags [OF ob run] keep_matches [OF ob] run by blast
  show ?thesis
  proof (cases "svc_absent s")
    case True
    then have nf: "\<not> svc_hasFlags s" using decl by (simp add: declarationErr_def)
    have "disable = None \<or> disable = Some verbDisable \<or> disable = Some verbDisableRuntime"
      using ob pr(4) unfolding obeys_def by (cases disable) blast+
    then have "\<exists>e. probeEnablement b (unit_of s) h' = Inr (e, None)"
      and "svc_enableOnly s \<or> bk_running b (unit_of s) h' = Inr False"
      using path v pr(3,4) True by (auto simp: actions_def view_def split: if_splits)
    then obtain e where "probeEnablement b (unit_of s) h' = Inr (e, None)"
      "svc_enableOnly s \<or> bk_running b (unit_of s) h' = Inr False" by blast
    then have "service_probe s b h' = Inr (False, e, None, None)"
      using pr(1,2) nf by (intro service_probe_InrI) (auto simp: flagsUpdate_def)
    with True show ?thesis by auto
  next
    case False
    have "\<exists>d. probeEnablement b (unit_of s) h' = Inr (True, d)"
      and "svc_enableOnly s \<or> bk_running b (unit_of s) h' = Inr True"
      using path v pr(3,4) False by (auto simp: actions_def view_def Let_def split: if_splits)
    then obtain d where "probeEnablement b (unit_of s) h' = Inr (True, d)"
      "svc_enableOnly s \<or> bk_running b (unit_of s) h' = Inr True" by blast
    then have "service_probe s b h' = Inr (\<not> svc_enableOnly s, True, d, None)"
      using pr(1,2) m by (intro service_probe_InrI flagsUpdate_settled) auto
    with False show ?thesis by auto
  qed
qed

section \<open>Properties\<close>


text \<open>
  An instance: one service of a host as rcctl(8) documents it. The host is whether the service is
  enabled, whether it runs, and its flags.
\<close>

definition rcctl_doc :: "(bool \<times> bool \<times> string, unit) runner" where
  "rcctl_doc bin args = (\<lambda>(enabled, running, flags).
     (let oper = hd (args @ [[]]); code = (\<lambda>c. Inr ([], [], if c then 0 else 1)) in
      if oper = ''check'' then ((enabled, running, flags), code running)
      else if oper = ''get'' then
        ((enabled, running, flags), if args ! 2 = ''status'' then code enabled else Inr (flags @ [NL], [], 0))
      else if oper = ''set'' then ((enabled, running, concat (drop 3 args)), code True)
      else if oper = ''enable'' then ((True, running, flags), code True)
      else if oper = ''disable'' then ((False, running, flags), code True)
      else if oper = ''start'' \<or> oper = ''restart'' \<or> oper = ''reload'' then ((enabled, True, flags), code True)
      else if oper = ''stop'' then ((enabled, False, flags), code True)
      else ((enabled, running, flags), code False)))"

lemma rcctl_doc_obeys: "obeys (rcctlBackend rcctl_doc) u want"
proof -
  have "after_verb (rcctlBackend rcctl_doc) u want v h h'"
    if "bk_do (rcctlBackend rcctl_doc) u v h = (h', None)" for v h h'
    using that
    by (cases v; cases h)
      (auto simp: rcctlBackend_def rcctl_doc_def runChecked_def after_verb_def matches_def probeEnablement_def
         probeExitZero_def printed_matches_def Let_def)
  moreover have "matches (rcctlBackend rcctl_doc) u want h'
      \<and> probeEnablement (rcctlBackend rcctl_doc) u h' = probeEnablement (rcctlBackend rcctl_doc) u h
      \<and> bk_running (rcctlBackend rcctl_doc) u h' = bk_running (rcctlBackend rcctl_doc) u h"
    if "bk_flagger (rcctlBackend rcctl_doc) = Some f" "fg_set f u want h = (h', None)" for f h h'
    using that
    by (cases h) (auto simp: rcctlBackend_def rcctl_doc_def runChecked_def matches_def probeEnablement_def
         probeExitZero_def printed_matches_def Let_def rcctlSetFlagsArgs_def)
  moreover have "v = verbDisable \<or> v = verbDisableRuntime"
    if "probeEnablement (rcctlBackend rcctl_doc) u h = Inr (e, Some v)" for h e v
    using that by (auto simp: probeEnablement_def rcctlBackend_def res_simps split: if_splits)
  ultimately show ?thesis by (simp add: obeys_def)
qed


end
