(* ===== verification/DryRun.thy ===== *)
theory DryRun
  imports Services
begin

text \<open>
  Commands (\<open>resource/cmd/cmd.go\<close>) and daemon reloads (\<open>resource/systemd/daemon_reload.go\<close>) as they
  apply, beside the services of theory \<open>Services\<close>, and what a dry run of them promises: it changes
  nothing, and it notes what a real run would. The host is reached through the record \<open>world\<close>: the file
  test, the probes of guards, the command runner and the systemd check. Log lines are not modelled.
\<close>

section \<open>Commands\<close>

record CmdGuard =
  gd_name :: string
  gd_args :: "string list"
  gd_expectExit :: int
  gd_expectStdout :: string

record Cmd =
  cm_name :: string
  cm_gate :: ChangeGate
  cm_bin :: string
  cm_args :: "string list"
  cm_dir :: string
  cm_env :: "(string \<times> string) list"
  cm_creates :: string
  cm_unless :: "CmdGuard option"
  cm_onlyIf :: "CmdGuard option"
  cm_sensitive :: bool

text \<open>\<open>wd_stat\<close> tells whether a path exists; \<open>wd_probe\<close> and \<open>wd_run\<close> give stdout, stderr and exit code.\<close>

record ('h, 'x) world =
  wd_home :: home_env
  wd_stat :: "string \<Rightarrow> 'h \<Rightarrow> ('x, bool) result"
  wd_probe :: "string \<Rightarrow> string list \<Rightarrow> 'h \<Rightarrow> ('x, string \<times> string \<times> int) result"
  wd_run :: "string \<Rightarrow> (string \<times> string) list \<Rightarrow> string \<Rightarrow> string list \<Rightarrow> 'h \<Rightarrow> 'h \<times> ('x, string \<times> string \<times> int) result"
  wd_require :: "'h \<Rightarrow> 'x option"

datatype 'x apply_error =
    CreatesCheck string 'x
  | UnlessFailed string 'x
  | OnlyIfFailed string 'x
  | ExecFailed string 'x
  | Exited string int string string
  | ExitedWithheld string int nat nat
  | NeedsSystemd string 'x
  | ReloadFailed string "'x svc_error"
  | ServiceFailed "'x svc_error"

definition defaultName :: "string \<Rightarrow> string list \<Rightarrow> string" where
  "defaultName bin args = (if args = [] then bin else bin @ [SP] @ join [SP] args)"

definition cmd_id :: "Cmd \<Rightarrow> string" where
  "cmd_id c = FormatID ''Command'' (cm_name c)"

definition createsPath :: "Cmd \<Rightarrow> string" where
  "createsPath c =
     (if cm_dir c \<noteq> [] \<and> \<not> has_prefix (cm_creates c) [SLASH]
      then path_clean (cm_dir c @ [SLASH] @ cm_creates c) else cm_creates c)"

definition guardPasses :: "('h, 'x) world \<Rightarrow> CmdGuard \<Rightarrow> 'h \<Rightarrow> ('x, bool) result" where
  "guardPasses w g h =
     bind_res (wd_probe w (gd_name g) (gd_args g) h) (\<lambda>(stdout, stderr, code).
       if code \<noteq> gd_expectExit g then Inr False
       else if gd_expectStdout g \<noteq> [] \<and> trim_space stdout \<noteq> gd_expectStdout g then Inr False
       else Inr True)"

definition cmd_run :: "('h, 'x) world \<Rightarrow> Cmd \<Rightarrow> ('h, 'x apply_error) host_action" where
  "cmd_run w c h =
     (case wd_run w (cm_dir c) (cm_env c) (cm_bin c) (cm_args c) h of
        (h', Inl e) \<Rightarrow> (h', Some (ExecFailed (cm_bin c) e))
      | (h', Inr (stdout, stderr, code)) \<Rightarrow>
          (h', if code \<noteq> 0 \<and> cm_sensitive c
               then Some (ExitedWithheld (cm_bin c) code (length stdout) (length stderr))
               else if code \<noteq> 0 then Some (Exited (cm_bin c) code stdout stderr)
               else None))"

text \<open>What \<open>apply\<close> decides before it runs anything: to skip (\<open>False\<close>), to run, or an error.\<close>

definition cmd_decides :: "('h, 'x) world \<Rightarrow> Cmd \<Rightarrow> 'h \<Rightarrow> ('x apply_error, bool) result" where
  "cmd_decides w c h =
     bind_res (if cm_creates c \<noteq> [] then map_err (CreatesCheck (createsPath c)) (wd_stat w (createsPath c) h) else Inr False)
       (\<lambda>exists. if exists then Inr False else
     bind_res (case cm_unless c of None \<Rightarrow> Inr False | Some g \<Rightarrow> map_err (UnlessFailed (cmd_id c)) (guardPasses w g h))
       (\<lambda>pass. if pass then Inr False else
     bind_res (case cm_onlyIf c of None \<Rightarrow> Inr True | Some g \<Rightarrow> map_err (OnlyIfFailed (cmd_id c)) (guardPasses w g h))
       (\<lambda>pass. Inr pass)))"

definition cmd_apply :: "('h, 'x) world \<Rightarrow> Cmd \<Rightarrow> 'h run_state \<Rightarrow> 'h run_state \<times> 'x apply_error option" where
  "cmd_apply w c st =
     (if Holds (cm_gate c) (AnyChanged (wd_home w) st) then (Note (cmd_id c) StatusSkipped st, None)
      else case cmd_decides w c (rs_host st) of
        Inl e \<Rightarrow> (st, Some e)
      | Inr False \<Rightarrow> (Note (cmd_id c) StatusSkipped st, None)
      | Inr True \<Rightarrow> Mutate (cmd_id c) (cmd_run w c) st)"

section \<open>Daemon reloads\<close>

definition busName :: "bool \<Rightarrow> string" where
  "busName user = (if user then ''user'' else ''system'')"

definition busReloadID :: "bool \<Rightarrow> string" where
  "busReloadID user = FormatID ''DaemonReload'' (busName user)"

definition reload_run :: "('h, 'x) world \<Rightarrow> bool \<Rightarrow> ('h, 'x apply_error) host_action" where
  "reload_run w user h =
     (case runChecked (wd_run w [] []) ''systemctl'' (systemd_Args user [''daemon-reload'']) h of
        (h', e) \<Rightarrow> (h', map_option (ReloadFailed (busReloadID user)) e))"

definition reload_apply ::
  "('h, 'x) world \<Rightarrow> bool \<Rightarrow> ChangeGate \<Rightarrow> 'h run_state \<Rightarrow> 'h run_state \<times> 'x apply_error option" where
  "reload_apply w user gate st =
     (let i = busReloadID user in
      case wd_require w (rs_host st) of
        Some e \<Rightarrow> (st, Some (NeedsSystemd i e))
      | None \<Rightarrow>
          (if Holds gate (ChangedSince (wd_home w) st i) then (Note i StatusSkipped st, None)
           else Mutate i (reload_run w user) st))"

section \<open>A run\<close>

datatype res = RCommand Cmd | RReload bool ChangeGate | RService Service

fun apply_res :: "('h, 'x) world \<Rightarrow> ('h, 'x) backend \<Rightarrow> res \<Rightarrow> 'h run_state \<Rightarrow> 'h run_state \<times> 'x apply_error option" where
  "apply_res w b (RCommand c) st = cmd_apply w c st"
| "apply_res w b (RReload user gate) st = reload_apply w user gate st"
| "apply_res w b (RService s) st =
     (case applyWith (wd_home w) s b st of (st', e) \<Rightarrow> (st', map_option ServiceFailed e))"

text \<open>One resource after the other, up to the first that fails.\<close>

fun apply_all :: "('h, 'x) world \<Rightarrow> ('h, 'x) backend \<Rightarrow> res list \<Rightarrow> 'h run_state \<Rightarrow> 'h run_state \<times> 'x apply_error option" where
  "apply_all w b [] st = (st, None)"
| "apply_all w b (r # rs) st =
     (case apply_res w b r st of
        (st', Some e) \<Rightarrow> (st', Some e)
      | (st', None) \<Rightarrow> apply_all w b rs st')"

text \<open>The states a process can get to by applying resources in any order, failed ones included.\<close>

inductive run_reaches :: "('h, 'x) world \<Rightarrow> ('h, 'x) backend \<Rightarrow> 'h run_state \<Rightarrow> 'h run_state \<Rightarrow> bool"
  for w :: "('h, 'x) world" and b :: "('h, 'x) backend" and s0 :: "'h run_state" where
  start: "run_reaches w b s0 s0"
| step: "run_reaches w b s0 s \<Longrightarrow> apply_res w b r s = (s', e) \<Longrightarrow> run_reaches w b s0 s'"

inductive_cases run_reachesE: "run_reaches w b s0 s"

section \<open>Lemmas: one resource of a dry run\<close>

text \<open>What a dry run may do to its state: append notes, none of them a change.\<close>

definition only_notes :: "'h run_state \<Rightarrow> 'h run_state \<Rightarrow> bool" where
  "only_notes s s' \<longleftrightarrow>
     rs_dryRun s' = rs_dryRun s \<and> rs_host s' = rs_host s
     \<and> (\<exists>new. rs_notes s' = rs_notes s @ new \<and> (\<forall>n \<in> set new. nt_st n \<noteq> StatusChanged))"

lemma only_notes_refl [simp]: "only_notes s s"
  by (simp add: only_notes_def)

lemma only_notes_trans: "only_notes s s' \<Longrightarrow> only_notes s' s'' \<Longrightarrow> only_notes s s''"
  by (force simp: only_notes_def)

lemma only_notes_Note [simp]: "st \<noteq> StatusChanged \<Longrightarrow> only_notes s (Note i st s)"
  by (simp add: only_notes_def Note_def)

lemma Mutate_dry: "rs_dryRun s \<Longrightarrow> Mutate i act s = (Note i StatusWouldChange s, None)"
  by (simp add: Mutate_def)

lemma Converge_dry: "rs_dryRun s \<Longrightarrow> only_notes s (fst (Converge i as held s))"
  by (auto simp: Converge_def NoteIdle_def NoteResult_def)

lemma applyWith_dry: "rs_dryRun s \<Longrightarrow> only_notes s (fst (applyWith env sv b s))"
  by (auto simp: applyWith_def Converge_dry split: sum.splits prod.splits)

lemma apply_res_dry:
  assumes "rs_dryRun s"
  shows "only_notes s (fst (apply_res w b r s))"
proof (cases r)
  case (RCommand c)
  then show ?thesis using assms by (auto simp: cmd_apply_def Mutate_dry split: sum.splits bool.splits)
next
  case (RReload user gate)
  then show ?thesis using assms by (auto simp: reload_apply_def Mutate_dry Let_def split: option.splits)
next
  case (RService sv)
  then show ?thesis using applyWith_dry [OF assms] by (simp add: case_prod_beta)
qed

lemma dry_run_only_notes: "run_reaches w b s0 s \<Longrightarrow> rs_dryRun s0 \<Longrightarrow> only_notes s0 s"
proof (induction rule: run_reaches.induct)
  case (step s r s' e)
  then have "only_notes s0 s" "rs_dryRun s" by (auto simp: only_notes_def)
  with apply_res_dry [of s w b r] step.hyps(2) show ?case by (auto intro: only_notes_trans)
qed simp

lemma apply_all_reaches: "run_reaches w b s0 s \<Longrightarrow> run_reaches w b s0 (fst (apply_all w b rs s))"
proof (induction rs arbitrary: s)
  case (Cons r rs)
  obtain s' e where "apply_res w b r s = (s', e)" by (metis surj_pair)
  with Cons show ?case by (cases e) (auto intro: run_reaches.step)
qed simp

section \<open>Lemmas: what a dry run predicts\<close>

text \<open>The probes of a resource find the same on both hosts.\<close>

definition service_finds :: "Service \<Rightarrow> ('h, 'x) backend \<Rightarrow> 'h \<Rightarrow> ('x svc_error, bool \<times> bool \<times> verb option \<times> bool) result" where
  "service_finds s b h =
     bind_res (service_probe s b h) (\<lambda>(running, enabled, disable, flags). Inr (running, enabled, disable, Option.is_none flags))"

fun probes_agree :: "('h, 'x) world \<Rightarrow> ('h, 'x) backend \<Rightarrow> res \<Rightarrow> 'h \<Rightarrow> 'h \<Rightarrow> bool" where
  "probes_agree w b (RCommand c) h h' = (cmd_decides w c h = cmd_decides w c h')"
| "probes_agree w b (RReload user gate) h h' = (wd_require w h = wd_require w h')"
| "probes_agree w b (RService s) h h' = (service_finds s b h = service_finds s b h')"

text \<open>No resource of the run changes what a later one finds: each finds what it would on \<open>h0\<close>.\<close>

fun independent :: "('h, 'x) world \<Rightarrow> ('h, 'x) backend \<Rightarrow> 'h \<Rightarrow> res list \<Rightarrow> 'h run_state \<Rightarrow> bool" where
  "independent w b h0 [] st = True"
| "independent w b h0 (r # rs) st =
     (probes_agree w b r h0 (rs_host st)
      \<and> (case apply_res w b r st of (st', Some e) \<Rightarrow> True | (st', None) \<Rightarrow> independent w b h0 rs st'))"

lemma Note_change_dry:
  "Note i StatusWouldChange (as_dry h s) = as_dry h (Note i StatusChanged s)"
  "Note i StatusSkipped (as_dry h s) = as_dry h (Note i StatusSkipped s)"
  using Note_as_dry [of i StatusChanged h s] Note_as_dry [of i StatusSkipped h s] by simp_all

lemma Mutate_predicts:
  assumes "\<not> rs_dryRun s" "Mutate i act s = (s', None)"
  shows "Mutate i act (as_dry h s) = (as_dry h s', None)"
  using assms by (auto simp: Mutate_def Note_change_dry split: prod.splits option.splits)

lemma NoteResult_change_dry: "\<not> rs_dryRun s \<Longrightarrow> NoteResult i True (as_dry h s) = as_dry h (NoteResult i True s)"
  by (simp add: NoteResult_def Note_change_dry)

lemma Converge_predicts:
  assumes "\<not> rs_dryRun s" "Converge i as held s = (s', None)" "(as' = []) = (as = [])"
  shows "Converge i as' held (as_dry h s) = (as_dry h s', None)"
proof (cases "as = []")
  case True
  with assms show ?thesis by (auto simp: Converge_def NoteIdle_as_dry)
next
  case False
  with assms obtain h1 where "s' = NoteResult i True (s\<lparr>rs_host := h1\<rparr>)"
    by (cases as) (auto simp: Converge_def split: prod.splits option.splits)
  with False assms show ?thesis
    using NoteResult_change_dry [of "s\<lparr>rs_host := h1\<rparr>" i h]
    by (cases as') (auto simp: Converge_def)
qed

lemma sequence_Nil_iff: "sequence b u vs flags = [] \<longleftrightarrow> vs = [] \<and> flags = None"
  by (cases vs) (auto split: option.splits)

lemma applyWith_predicts:
  assumes "\<not> rs_dryRun s" "applyWith env sv b s = (s', None)" "service_finds sv b h = service_finds sv b (rs_host s)"
  shows "applyWith env sv b (as_dry h s) = (as_dry h s', None)"
proof -
  obtain r e d fl where p: "service_probe sv b (rs_host s) = Inr (r, e, d, fl)"
    using assms(2) by (auto simp: applyWith_def split: sum.splits)
  with assms(3) obtain fl' where p': "service_probe sv b h = Inr (r, e, d, fl')" "Option.is_none fl' = Option.is_none fl"
    by (auto simp: service_finds_def bind_res_Inr_iff)
  obtain vs held where v: "actions sv (AnyChanged env s) r e d (\<not> Option.is_none fl) = (vs, held)" by (metis surj_pair)
  have "Converge (service_id sv) (sequence b (unit_of sv) vs fl) held s = (s', None)"
    using assms(2) p v by (simp add: applyWith_def)
  moreover have "(sequence b (unit_of sv) vs fl' = []) = (sequence b (unit_of sv) vs fl = [])"
    using p'(2) by (simp add: sequence_Nil_iff Option.is_none_def)
  ultimately have "Converge (service_id sv) (sequence b (unit_of sv) vs fl') held (as_dry h s) = (as_dry h s', None)"
    by (rule Converge_predicts [OF assms(1)])
  with p' v show ?thesis by (simp add: applyWith_def)
qed

lemma apply_res_predicts:
  assumes "\<not> rs_dryRun s" "probes_agree w b r h (rs_host s)" "apply_res w b r s = (s', None)"
  shows "apply_res w b r (as_dry h s) = (as_dry h s', None)"
proof (cases r)
  case (RCommand c)
  with assms show ?thesis
    by (auto simp: cmd_apply_def Note_change_dry Mutate_predicts split: sum.splits bool.splits if_splits)
next
  case (RReload user gate)
  with assms show ?thesis
    by (auto simp: reload_apply_def Let_def Note_change_dry Mutate_predicts split: option.splits if_splits)
next
  case (RService sv)
  with assms have "applyWith (wd_home w) sv b s = (s', None)" by (auto split: prod.splits)
  moreover have "service_finds sv b h = service_finds sv b (rs_host s)" using assms(2) RService by simp
  ultimately have "applyWith (wd_home w) sv b (as_dry h s) = (as_dry h s', None)"
    by (rule applyWith_predicts [OF assms(1)])
  with RService show ?thesis by simp
qed

lemma apply_res_real: "\<not> rs_dryRun s \<Longrightarrow> \<not> rs_dryRun (fst (apply_res w b r s))"
proof (cases r)
  case (RCommand c)
  then show "\<not> rs_dryRun s \<Longrightarrow> ?thesis"
    by (auto simp: cmd_apply_def Mutate_def split: sum.splits bool.splits prod.splits option.splits)
next
  case (RReload user gate)
  then show "\<not> rs_dryRun s \<Longrightarrow> ?thesis"
    by (auto simp: reload_apply_def Mutate_def Let_def split: prod.splits option.splits)
next
  case (RService sv)
  then show "\<not> rs_dryRun s \<Longrightarrow> ?thesis"
    by (auto simp: applyWith_def Converge_def case_prod_beta split: sum.splits prod.splits option.splits)
qed

section \<open>Properties\<close>


text \<open>
  C29: a dry run predicts the real one. When no resource changes what a later one finds, a run that
  succeeds and the dry run from the same state note the same outcomes in the same order, with
  would-change for changed: gates fire alike in both.
\<close>

theorem dry_run_predicts:
  assumes "\<not> rs_dryRun st" and "independent w b h rs st" and "apply_all w b rs st = (st', None)"
  shows "apply_all w b rs (as_dry h st) = (as_dry h st', None)"
  using assms
proof (induction rs arbitrary: st)
  case (Cons r rs)
  then obtain st1 where 1: "apply_res w b r st = (st1, None)" "apply_all w b rs st1 = (st', None)"
    by (auto split: prod.splits option.splits)
  then have "apply_res w b r (as_dry h st) = (as_dry h st1, None)"
    using Cons.prems(1,2) by (intro apply_res_predicts) simp_all
  moreover have "\<not> rs_dryRun st1" using apply_res_real [OF Cons.prems(1), of w b r] 1(1) by simp
  ultimately show ?case using Cons.IH [of st1] Cons.prems(2) 1 by simp
qed simp

text \<open>
  A host for the witnesses: a counter of the commands that ran, a world whose probes and file tests
  never look at it, and no service manager.
\<close>

definition counting :: "(nat, unit) world" where
  "counting =
     \<lparr>wd_home = \<lparr>he_home = [], he_user = None\<rparr>, wd_stat = (\<lambda>p h. Inr False), wd_probe = (\<lambda>n args h. Inr ([], [], 0)),
      wd_run = (\<lambda>dir env bin args h. (Suc h, Inr ([], [], 0))), wd_require = (\<lambda>h. None)\<rparr>"

definition no_manager :: "(nat, unit) backend" where
  "no_manager =
     \<lparr>bk_userSupport = None, bk_running = (\<lambda>u h. Inr True), bk_enabled = (\<lambda>u h. Inr True), bk_prober = None,
      bk_do = (\<lambda>u v h. (h, None)), bk_flagger = None\<rparr>"

definition example_cmd :: "string \<Rightarrow> ChangeGate \<Rightarrow> Cmd" where
  "example_cmd name gate =
     \<lparr>cm_name = name, cm_gate = gate, cm_bin = ''true'', cm_args = [], cm_dir = [], cm_env = [], cm_creates = [],
      cm_unless = None, cm_onlyIf = None, cm_sensitive = False\<rparr>"

definition example_run :: "res list" where
  "example_run =
     [RCommand (example_cmd ''a'' \<lparr>cg_gated = False, cg_watch = []\<rparr>),
      RCommand (example_cmd ''b'' \<lparr>cg_gated = True, cg_watch = [''Command[a]'']\<rparr>),
      RCommand (example_cmd ''c'' \<lparr>cg_gated = True, cg_watch = [''Command[z]'']\<rparr>),
      RReload True \<lparr>cg_gated = True, cg_watch = [''Command[b]'']\<rparr>]"


theorem dry_run_predicts_witness:
  "apply_all counting no_manager example_run (as_dry 0 \<lparr>rs_dryRun = False, rs_notes = [], rs_host = 0\<rparr>)
   = (as_dry 0 \<lparr>rs_dryRun = False, rs_notes =
       [\<lparr>nt_id = ''Command[a]'', nt_st = StatusChanged\<rparr>, \<lparr>nt_id = ''Command[b]'', nt_st = StatusChanged\<rparr>,
        \<lparr>nt_id = ''Command[c]'', nt_st = StatusSkipped\<rparr>, \<lparr>nt_id = ''DaemonReload[user]'', nt_st = StatusChanged\<rparr>],
       rs_host = 3\<rparr>, None)"
proof (rule dry_run_predicts)
  let ?s = "\<lparr>rs_dryRun = False, rs_notes = [], rs_host = 0 :: nat\<rparr>"
  show "\<not> rs_dryRun ?s" by simp
  have *: "cmd_decides counting (example_cmd n g) h = Inr True" "wd_require counting h = None" for n g h
    by (simp_all add: cmd_decides_def example_cmd_def counting_def)
  show "independent counting no_manager 0 example_run ?s"
    by (auto simp: example_run_def * split: prod.splits option.splits)
  show "apply_all counting no_manager example_run ?s
    = (\<lparr>rs_dryRun = False, rs_notes =
       [\<lparr>nt_id = ''Command[a]'', nt_st = StatusChanged\<rparr>, \<lparr>nt_id = ''Command[b]'', nt_st = StatusChanged\<rparr>,
        \<lparr>nt_id = ''Command[c]'', nt_st = StatusSkipped\<rparr>, \<lparr>nt_id = ''DaemonReload[user]'', nt_st = StatusChanged\<rparr>],
       rs_host = 3\<rparr>, None)"
    by code_simp
qed

end
