(* ===== verification/LineEdit.thy ===== *)
theory LineEdit
  imports PlanTypes
begin

text \<open>
  Line edits of a shared file (\<open>resource/file/lineedit.go\<close>): reading its lines, keyed lines, removed
  and added lines, and the declaration checks. A file is its content, \<open>None\<close> when it is missing; the
  non-blocking read and the logging of a keyed line's counts are not modelled. \<open>resource.KeyedLine\<close> and
  \<open>resource.Block\<close> are twins of the plan's structs, so the plan's records stand for both.

  Every edit owns some lines of the file. The locale \<open>line_editor\<close> says what the edits have in
  common: stretches of lines an edit does not own stay together and in order, and an edit that left
  its own lines settled does nothing when it runs again.
\<close>

section \<open>Reading a file's lines\<close>

text \<open>\<open>bufio.ScanLines\<close>: the last line may lack its newline, and one trailing CR is dropped.\<close>

definition drop_cr :: "string \<Rightarrow> string" where
  "drop_cr l = trim_suffix l [CR]"

definition scan_lines :: "string \<Rightarrow> string list" where
  "scan_lines raw =
     (let ws = split_on NL raw in map drop_cr (if last ws = [] then butlast ws else ws))"

text \<open>\<open>bytes.Count\<close> with a non-empty separator: occurrences that do not overlap.\<close>

function count_str :: "string \<Rightarrow> string \<Rightarrow> nat" where
  "count_str [] p = 0"
| "count_str (c # s) p =
     (if p \<noteq> [] \<and> has_prefix (c # s) p then Suc (count_str (drop (length p) (c # s)) p)
      else count_str s p)"
  by pat_completeness auto
termination
proof (relation "measure (\<lambda>(s, p). length s)", goal_cases)
  case (2 c s p)
  then show ?case by (cases p) auto
qed auto

definition dominantTerminator :: "string \<Rightarrow> string" where
  "dominantTerminator raw =
     (let crlf = count_str raw [CR, NL]; lf = count_str raw [NL] - crlf
      in if crlf > lf then [CR, NL] else [NL])"

text \<open>The lines, the terminator they are written back with, and whether the file exists.\<close>

definition currentLines :: "string option \<Rightarrow> string list \<times> string \<times> bool" where
  "currentLines file =
     (case file of
        None \<Rightarrow> ([], [NL], False)
      | Some raw \<Rightarrow> (scan_lines raw, dominantTerminator raw, True))"

section \<open>The edits\<close>

record FileEdits =
  fe_addLines :: "string list"
  fe_removeLines :: "string list"
  fe_keyedLines :: "KeyedLine list"
  fe_blocks :: "Block list"

definition lineEdit :: "FileEdits \<Rightarrow> bool" where
  "lineEdit f \<longleftrightarrow> fe_addLines f \<noteq> [] \<or> fe_removeLines f \<noteq> [] \<or> fe_keyedLines f \<noteq> [] \<or> fe_blocks f \<noteq> []"

fun appendUniqueLines :: "string list \<Rightarrow> string list \<Rightarrow> string list" where
  "appendUniqueLines dst [] = dst"
| "appendUniqueLines dst (l # ls) =
     (if l = [] \<or> l \<in> set dst then appendUniqueLines dst ls else appendUniqueLines (dst @ [l]) ls)"

definition AddLines :: "string list \<Rightarrow> FileEdits \<Rightarrow> FileEdits" where
  "AddLines ls f = f\<lparr>fe_addLines := appendUniqueLines (fe_addLines f) ls\<rparr>"

definition RemoveLines :: "string list \<Rightarrow> FileEdits \<Rightarrow> FileEdits" where
  "RemoveLines ls f = f\<lparr>fe_removeLines := appendUniqueLines (fe_removeLines f) ls\<rparr>"

definition SetKeyedLine :: "string \<Rightarrow> string \<Rightarrow> FileEdits \<Rightarrow> FileEdits" where
  "SetKeyedLine key line f =
     (let edit = \<lparr>kl_key = key, kl_line = line\<rparr> in
      if edit \<in> set (fe_keyedLines f) then f else f\<lparr>fe_keyedLines := fe_keyedLines f @ [edit]\<rparr>)"

definition SetBlock :: "string \<Rightarrow> string list \<Rightarrow> FileEdits \<Rightarrow> FileEdits" where
  "SetBlock name ls f =
     (if list_ex (\<lambda>b. bl_name b = name \<and> bl_lines b = ls) (fe_blocks f) then f
      else f\<lparr>fe_blocks := fe_blocks f @ [\<lparr>bl_name = name, bl_lines = ls\<rparr>]\<rparr>)"

abbreviation trim_blanks :: "string \<Rightarrow> string" where
  "trim_blanks l \<equiv> trim_left l [SP, TAB]"

text \<open>The lines a key owns.\<close>

definition keyed_owns :: "KeyedLine \<Rightarrow> string \<Rightarrow> bool" where
  "keyed_owns e l = has_prefix (trim_blanks l) (kl_key e)"

text \<open>The loop of \<open>applyKeyedLine\<close>: \<open>found\<close>, and the lines that are left.\<close>

fun keyed_loop :: "KeyedLine \<Rightarrow> bool \<Rightarrow> string list \<Rightarrow> string list" where
  "keyed_loop e found [] = (if found then [] else [kl_line e])"
| "keyed_loop e found (l # ls) =
     (if \<not> has_prefix (trim_blanks l) (kl_key e) then l # keyed_loop e found ls
      else if found then keyed_loop e found ls
      else kl_line e # keyed_loop e True ls)"

definition applyKeyedLine :: "KeyedLine \<Rightarrow> string list \<Rightarrow> string list" where
  "applyKeyedLine e ls = keyed_loop e False ls"

text \<open>The loops of \<open>resolveLine\<close> over the removed and the added lines.\<close>

definition remove_lines :: "string list \<Rightarrow> string list \<Rightarrow> string list" where
  "remove_lines rem ls = filter (\<lambda>l. l \<notin> set rem) ls"

definition add_line :: "string \<Rightarrow> string list \<Rightarrow> string list" where
  "add_line l ls = (if l \<in> set ls then ls else ls @ [l])"

section \<open>Declaration checks of keyed lines\<close>

datatype edit_error =
    KeyEmpty
  | KeyIndented string
  | KeyedLineBreak string
  | LineWithoutKey string
  | KeyTwice string
  | KeysOverlap string string
  | LineOwnedByKey string string
  | BlockNameEmpty
  | BlockNameBreak string
  | BlockNameBlanks string
  | BlockTwice string
  | BlockLineBreak string string
  | BlockLineIsMarker string string string
  | LineOwnedByBlock string string
  | LineIsMarker string string
  | KeyPrefixesBlock string string string
  | NestedBlocks string string
  | MarkerLayout string nat nat bool

definition validateKeyedLine :: "KeyedLine \<Rightarrow> edit_error check" where
  "validateKeyedLine e =
     (if kl_key e = [] then Inl KeyEmpty
      else if kl_key e \<noteq> trim_blanks (kl_key e) then Inl (KeyIndented (kl_key e))
      else if contains_any (kl_line e) [CR, NL] then Inl (KeyedLineBreak (kl_key e))
      else if \<not> has_prefix (kl_line e) (kl_key e) then Inl (LineWithoutKey (kl_key e))
      else Inr ())"

definition keys_apart :: "KeyedLine \<Rightarrow> KeyedLine \<Rightarrow> edit_error check" where
  "keys_apart e e' =
     (if kl_key e' = kl_key e then Inl (KeyTwice (kl_key e))
      else guard_res (\<not> (has_prefix (kl_key e') (kl_key e) \<or> has_prefix (kl_key e) (kl_key e')))
             (KeysOverlap (kl_key e) (kl_key e')))"

fun validate_keyed_from :: "FileEdits \<Rightarrow> KeyedLine list \<Rightarrow> edit_error check" where
  "validate_keyed_from f [] = Inr ()"
| "validate_keyed_from f (e # es) =
     bind_res (validateKeyedLine e) (\<lambda>_.
     bind_res (check_all (keys_apart e) es) (\<lambda>_.
     bind_res (check_all (\<lambda>l. guard_res (\<not> has_prefix (trim_blanks l) (kl_key e)) (LineOwnedByKey l (kl_key e)))
                 (fe_addLines f @ fe_removeLines f)) (\<lambda>_.
     validate_keyed_from f es)))"

definition validateKeyedLines :: "FileEdits \<Rightarrow> edit_error check" where
  "validateKeyedLines f = validate_keyed_from f (fe_keyedLines f)"

section \<open>Editors that own lines\<close>

abbreviation unowned :: "('a \<Rightarrow> bool) \<Rightarrow> 'a list \<Rightarrow> 'a list" where
  "unowned P ls \<equiv> filter (\<lambda>l. \<not> P l) ls"

lemma unowned_or:
  "unowned (\<lambda>l. P l \<or> Q l) xs = unowned P (unowned Q xs)" "unowned (\<lambda>l. P l \<or> Q l) xs = unowned Q (unowned P xs)"
  by (induction xs) auto

lemma unowned_step:
  assumes "unowned P x1 = unowned P x" "unowned Q x2 = unowned Q x1"
  shows "unowned (\<lambda>l. P l \<or> Q l) x2 = unowned (\<lambda>l. P l \<or> Q l) x"
  using assms unowned_or(1) [of P Q] unowned_or(2) [of P Q] by metis

text \<open>
  A family of edits: which declarations are valid, the lines each owns, what it does to a file, and
  what its own lines look like once it ran.
\<close>

locale line_editor =
  fixes valid :: "'e \<Rightarrow> bool"
    and owns :: "'e \<Rightarrow> 'l \<Rightarrow> bool"
    and edit :: "'e \<Rightarrow> 'l list \<Rightarrow> 'l list"
    and settled :: "'e \<Rightarrow> 'l list \<Rightarrow> bool"
  assumes keeps: "valid e \<Longrightarrow> \<forall>l \<in> set mid. \<not> owns e l \<Longrightarrow>
      \<exists>u' v'. edit e (u @ mid @ v) = u' @ mid @ v' \<and> unowned (owns e) u' = unowned (owns e) u
        \<and> unowned (owns e) v' = unowned (owns e) v"
    and settles: "valid e \<Longrightarrow> settled e (filter (owns e) (edit e ls))"
    and stays: "valid e \<Longrightarrow> settled e (filter (owns e) ls) \<Longrightarrow> edit e ls = ls"
begin

lemma others: "valid e \<Longrightarrow> unowned (owns e) (edit e ls) = unowned (owns e) ls"
  using keeps [of e "[]" ls "[]"] by auto

lemma converges: "valid e \<Longrightarrow> edit e (edit e ls) = edit e ls"
  by (simp add: settles stays)

text \<open>Lines of another owner are left alone.\<close>

lemma apart:
  assumes "valid e" "\<forall>l. \<not> (P l \<and> owns e l)"
  shows "filter P (edit e ls) = filter P ls"
proof -
  have "filter P xs = filter P (unowned (owns e) xs)" for xs
    using assms(2) by (induction xs) auto
  then show ?thesis by (metis assms(1) others)
qed

lemma fold_apart:
  assumes "\<forall>e \<in> set es. valid e \<and> (\<forall>l. \<not> (P l \<and> owns e l))"
  shows "filter P (fold edit es ls) = filter P ls"
  using assms by (induction es arbitrary: ls) (simp_all add: apart)

lemma fold_keeps:
  assumes "\<forall>e \<in> set es. valid e" "\<forall>l \<in> set mid. \<not> (\<exists>e \<in> set es. owns e l)"
  shows "\<exists>u' v'. fold edit es (u @ mid @ v) = u' @ mid @ v'
    \<and> unowned (\<lambda>l. \<exists>e \<in> set es. owns e l) u' = unowned (\<lambda>l. \<exists>e \<in> set es. owns e l) u
    \<and> unowned (\<lambda>l. \<exists>e \<in> set es. owns e l) v' = unowned (\<lambda>l. \<exists>e \<in> set es. owns e l) v"
  using assms
proof (induction es arbitrary: u v)
  case (Cons e es)
  obtain u1 v1 where 1: "edit e (u @ mid @ v) = u1 @ mid @ v1"
    "unowned (owns e) u1 = unowned (owns e) u" "unowned (owns e) v1 = unowned (owns e) v"
    using keeps [of e mid u v] Cons.prems by auto
  obtain u2 v2 where 2: "fold edit es (u1 @ mid @ v1) = u2 @ mid @ v2"
    "unowned (\<lambda>l. \<exists>e \<in> set es. owns e l) u2 = unowned (\<lambda>l. \<exists>e \<in> set es. owns e l) u1"
    "unowned (\<lambda>l. \<exists>e \<in> set es. owns e l) v2 = unowned (\<lambda>l. \<exists>e \<in> set es. owns e l) v1"
    using Cons.IH [of u1 v1] Cons.prems by auto
  show ?case
    using 1(1) 2(1) unowned_step [OF 1(2) 2(2)] unowned_step [OF 1(3) 2(3)] by auto
qed auto

text \<open>Edits that own different lines, one after the other, are one edit.\<close>

lemma many:
  "line_editor (\<lambda>es. (\<forall>e \<in> set es. valid e) \<and> sorted_wrt (\<lambda>a b. \<forall>l. \<not> (owns a l \<and> owns b l)) es)
     (\<lambda>es l. \<exists>e \<in> set es. owns e l) (fold edit) (\<lambda>es xs. \<forall>e \<in> set es. settled e (filter (owns e) xs))"
proof (unfold_locales, goal_cases)
  case (1 es mid u v)
  then show ?case by (intro fold_keeps) auto
next
  case (2 es ls)
  have own: "e \<in> set es \<Longrightarrow> filter (owns e) (filter (\<lambda>l. \<exists>e \<in> set es. owns e l) xs) = filter (owns e) xs" for e xs
    by (induction xs) auto
  have "\<forall>e \<in> set es. settled e (filter (owns e) (fold edit es ls))"
    using 2
  proof (induction es arbitrary: ls)
    case (Cons a es)
    have "filter (owns a) (fold edit es (edit a ls)) = filter (owns a) (edit a ls)"
      using Cons.prems by (intro fold_apart) auto
    then show ?case using Cons settles [of a ls] by simp
  qed simp
  with own show ?case by simp
next
  case (3 es ls)
  have "e \<in> set es \<Longrightarrow> filter (owns e) (filter (\<lambda>l. \<exists>e \<in> set es. owns e l) xs) = filter (owns e) xs" for e xs
    by (induction xs) auto
  with 3 have "\<forall>e \<in> set es. valid e \<and> settled e (filter (owns e) ls)" by simp
  then show ?case by (induction es) (simp_all add: stays)
qed

end

text \<open>Two families of edits, and the pairs of declarations that own different lines.\<close>

locale two_editors =
  one: line_editor valid1 owns1 edit1 settled1 + two: line_editor valid2 owns2 edit2 settled2
  for valid1 :: "'e \<Rightarrow> bool" and owns1 :: "'e \<Rightarrow> 'l \<Rightarrow> bool" and edit1 settled1
  and valid2 :: "'f \<Rightarrow> bool" and owns2 :: "'f \<Rightarrow> 'l \<Rightarrow> bool" and edit2 settled2

sublocale two_editors \<subseteq> both: line_editor
  "\<lambda>(a, b). valid1 a \<and> valid2 b \<and> (\<forall>l. \<not> (owns1 a l \<and> owns2 b l))"
  "\<lambda>(a, b) l. owns1 a l \<or> owns2 b l"
  "\<lambda>(a, b) ls. edit2 b (edit1 a ls)"
  "\<lambda>(a, b) xs. settled1 a (filter (owns1 a) xs) \<and> settled2 b (filter (owns2 b) xs)"
proof (unfold_locales, goal_cases)
  case (1 e mid u v)
  obtain a b where e: "e = (a, b)" by (cases e)
  obtain u1 v1 where u1: "edit1 a (u @ mid @ v) = u1 @ mid @ v1"
    "unowned (owns1 a) u1 = unowned (owns1 a) u" "unowned (owns1 a) v1 = unowned (owns1 a) v"
    using one.keeps [of a mid u v] 1 e by auto
  obtain u2 v2 where u2: "edit2 b (u1 @ mid @ v1) = u2 @ mid @ v2"
    "unowned (owns2 b) u2 = unowned (owns2 b) u1" "unowned (owns2 b) v2 = unowned (owns2 b) v1"
    using two.keeps [of b mid u1 v1] 1 e by auto
  show ?case
    using e u1(1) u2(1) unowned_step [OF u1(2) u2(2)] unowned_step [OF u1(3) u2(3)] by auto
next
  case (2 e ls)
  obtain a b where e: "e = (a, b)" by (cases e)
  have "filter (owns1 a) (filter (\<lambda>l. owns1 a l \<or> owns2 b l) xs) = filter (owns1 a) xs"
    "filter (owns2 b) (filter (\<lambda>l. owns1 a l \<or> owns2 b l) xs) = filter (owns2 b) xs" for xs
    by (induction xs) auto
  with 2 e show ?case by (simp add: one.settles two.settles two.apart)
next
  case (3 e ls)
  obtain a b where e: "e = (a, b)" by (cases e)
  have "filter (owns1 a) (filter (\<lambda>l. owns1 a l \<or> owns2 b l) xs) = filter (owns1 a) xs"
    "filter (owns2 b) (filter (\<lambda>l. owns1 a l \<or> owns2 b l) xs) = filter (owns2 b) xs" for xs
    by (induction xs) auto
  with 3 e show ?case by (simp add: one.stays two.stays)
qed

section \<open>The line edits are editors\<close>

lemma unowned_id: "\<forall>l \<in> set mid. \<not> P l \<Longrightarrow> unowned P mid = mid"
  by (induction mid) auto

interpretation removing: line_editor "\<lambda>_. True" "\<lambda>rem l. l \<in> set rem" remove_lines "\<lambda>_ xs. xs = []"
proof (unfold_locales, goal_cases)
  case (1 rem mid u v)
  then show ?case
    by (intro exI [of _ "remove_lines rem u"] exI [of _ "remove_lines rem v"])
      (simp add: remove_lines_def unowned_id)
qed (auto simp: remove_lines_def filter_id_conv filter_empty_conv)

lemma keyed_loop_append:
  "keyed_loop e found (u @ v) =
     (let k = keyed_loop e True u; hit = (\<exists>l \<in> set u. keyed_owns e l)
      in if found then k @ keyed_loop e True v
         else if hit then keyed_loop e False u @ keyed_loop e True v
         else u @ keyed_loop e False v)"
  by (induction u arbitrary: found) (auto simp: Let_def keyed_owns_def)

lemma keyed_loop_unowned: "\<forall>l \<in> set u. \<not> keyed_owns e l \<Longrightarrow> keyed_loop e True u = u"
  by (induction u) (auto simp: keyed_owns_def)

lemma unblank_prefix:
  "k \<noteq> [] \<Longrightarrow> k = trim_left k cs \<Longrightarrow> has_prefix l k \<Longrightarrow> trim_left l cs = l"
  by (metis append_is_Nil_conv has_prefix_iff hd_append2 hd_dropWhile trim_left_dropWhile trim_left_id)

lemma valid_line_owned: "validateKeyedLine e = Inr () \<Longrightarrow> keyed_owns e (kl_line e)"
  by (auto simp: validateKeyedLine_def keyed_owns_def unblank_prefix split: if_splits)

lemma unowned_keyed_loop:
  "validateKeyedLine e = Inr () \<Longrightarrow> unowned (keyed_owns e) (keyed_loop e found ls) = unowned (keyed_owns e) ls"
  using valid_line_owned [of e] by (induction e found ls rule: keyed_loop.induct) (auto simp: keyed_owns_def)

lemma owned_keyed_loop:
  assumes "validateKeyedLine e = Inr ()"
  shows "filter (keyed_owns e) (keyed_loop e found ls) = (if found then [] else [kl_line e])"
  using valid_line_owned [OF assms] by (induction ls arbitrary: found) (auto simp: keyed_owns_def)

interpretation keyed: line_editor
  "\<lambda>e. validateKeyedLine e = Inr ()" keyed_owns applyKeyedLine "\<lambda>e xs. xs = [kl_line e]"
proof (unfold_locales, goal_cases)
  case (1 e mid u v)
  show ?case
  proof (cases "\<exists>l \<in> set u. keyed_owns e l")
    case True
    then have "applyKeyedLine e (u @ mid @ v) = keyed_loop e False u @ mid @ keyed_loop e True v"
      using 1 by (auto simp: applyKeyedLine_def keyed_loop_append keyed_loop_unowned Let_def)
    moreover have "unowned (keyed_owns e) (keyed_loop e False u) = unowned (keyed_owns e) u"
      using True unowned_keyed_loop [OF 1(1)] by auto
    ultimately show ?thesis
      using unowned_keyed_loop [OF 1(1)] by blast
  next
    case False
    then have "applyKeyedLine e (u @ mid @ v) = u @ mid @ keyed_loop e False v"
      using 1 by (auto simp: applyKeyedLine_def keyed_loop_append keyed_loop_unowned Let_def)
    then show ?thesis using unowned_keyed_loop [OF 1(1)] by blast
  qed
next
  case (2 e ls)
  then show ?case by (simp add: applyKeyedLine_def owned_keyed_loop)
next
  case (3 e ls)
  have "filter (keyed_owns e) ls = [] \<Longrightarrow> keyed_loop e True ls = ls" for ls
    by (rule keyed_loop_unowned) (simp add: filter_empty_conv)
  then have "filter (keyed_owns e) ls = [kl_line e] \<Longrightarrow> keyed_loop e False ls = ls" for ls
    by (induction ls) (auto simp: keyed_owns_def split: if_splits)
  with 3 show ?case by (simp add: applyKeyedLine_def)
qed

lemma fold_add_line:
  "\<exists>ws. fold add_line adds ls = ls @ ws \<and> set ws \<subseteq> set adds \<and> set adds \<subseteq> set (ls @ ws)"
proof (induction adds arbitrary: ls)
  case (Cons a adds)
  obtain ws where "fold add_line adds (add_line a ls) = add_line a ls @ ws" "set ws \<subseteq> set adds"
    "set adds \<subseteq> set (add_line a ls @ ws)"
    using Cons.IH [of "add_line a ls"] by blast
  then show ?case by (cases "a \<in> set ls") (auto simp: add_line_def [of a ls])
qed simp

lemma fold_add_line_id: "set adds \<subseteq> set ls \<Longrightarrow> fold add_line adds ls = ls"
  by (induction adds) (simp_all add: add_line_def)

interpretation adding: line_editor
  "\<lambda>_. True" "\<lambda>adds l. l \<in> set adds" "fold add_line" "\<lambda>adds xs. set adds \<subseteq> set xs"
proof (unfold_locales, goal_cases)
  case (1 adds mid u v)
  obtain ws where "fold add_line adds (u @ mid @ v) = (u @ mid @ v) @ ws" "set ws \<subseteq> set adds"
    using fold_add_line by blast
  then show ?case by (intro exI [of _ u] exI [of _ "v @ ws"]) (auto simp: filter_empty_conv)
next
  case (2 adds ls)
  obtain ws where "fold add_line adds ls = ls @ ws" "set adds \<subseteq> set (ls @ ws)"
    using fold_add_line by blast
  then show ?case by auto
next
  case (3 adds ls)
  then show ?case by (intro fold_add_line_id) auto
qed

text \<open>Any number of keyed lines; then removed lines before them and added lines after them.\<close>

abbreviation keys_valid :: "KeyedLine list \<Rightarrow> bool" where
  "keys_valid es \<equiv> (\<forall>e \<in> set es. validateKeyedLine e = Inr ())
     \<and> sorted_wrt (\<lambda>a b. \<forall>l. \<not> (keyed_owns a l \<and> keyed_owns b l)) es"

abbreviation keys_own :: "KeyedLine list \<Rightarrow> string \<Rightarrow> bool" where
  "keys_own es l \<equiv> \<exists>e \<in> set es. keyed_owns e l"

abbreviation keys_settled :: "KeyedLine list \<Rightarrow> string list \<Rightarrow> bool" where
  "keys_settled es xs \<equiv> \<forall>e \<in> set es. filter (keyed_owns e) xs = [kl_line e]"

interpretation keyed_all: line_editor keys_valid keys_own "fold applyKeyedLine" keys_settled
  by (rule keyed.many)

interpretation cleaned: two_editors
  "\<lambda>_. True" "\<lambda>rem l. l \<in> set rem" remove_lines "\<lambda>_ xs. xs = []"
  keys_valid keys_own "fold applyKeyedLine" keys_settled ..

definition edit_valid :: "(string list \<times> KeyedLine list) \<times> string list \<Rightarrow> bool" where
  "edit_valid = (\<lambda>((rem, keys), adds). keys_valid keys
     \<and> (\<forall>l. \<not> (l \<in> set rem \<and> keys_own keys l)) \<and> (\<forall>l. \<not> ((l \<in> set rem \<or> keys_own keys l) \<and> l \<in> set adds)))"

definition edit_owns :: "(string list \<times> KeyedLine list) \<times> string list \<Rightarrow> string \<Rightarrow> bool" where
  "edit_owns = (\<lambda>((rem, keys), adds) l. (l \<in> set rem \<or> keys_own keys l) \<or> l \<in> set adds)"

definition edit_lines :: "(string list \<times> KeyedLine list) \<times> string list \<Rightarrow> string list \<Rightarrow> string list" where
  "edit_lines = (\<lambda>((rem, keys), adds) ls. fold add_line adds (fold applyKeyedLine keys (remove_lines rem ls)))"

interpretation edited: two_editors
  "\<lambda>(rem, keys). True \<and> keys_valid keys \<and> (\<forall>l. \<not> (l \<in> set rem \<and> keys_own keys l))"
  "\<lambda>(rem, keys) l. l \<in> set rem \<or> keys_own keys l"
  "\<lambda>(rem, keys) ls. fold applyKeyedLine keys (remove_lines rem ls)"
  "\<lambda>(rem, keys) xs. filter (\<lambda>l. l \<in> set rem) xs = [] \<and> keys_settled keys (filter (keys_own keys) xs)"
  "\<lambda>_. True" "\<lambda>adds l. l \<in> set adds" "fold add_line" "\<lambda>adds xs. set adds \<subseteq> set xs" ..

text \<open>What the three edits together promise.\<close>

lemma edit_lines_keeps:
  assumes "edit_valid f" "\<forall>l \<in> set mid. \<not> edit_owns f l"
  shows "\<exists>u' v'. edit_lines f (u @ mid @ v) = u' @ mid @ v' \<and> unowned (edit_owns f) u' = unowned (edit_owns f) u
    \<and> unowned (edit_owns f) v' = unowned (edit_owns f) v"
proof -
  obtain rem keys adds where f: "f = ((rem, keys), adds)" by (metis surj_pair)
  show ?thesis
    using edited.both.keeps [of f mid u v] assms
    unfolding f edit_valid_def edit_owns_def edit_lines_def prod.case simp_thms by blast
qed

lemma edit_lines_converges:
  assumes "edit_valid f"
  shows "edit_lines f (edit_lines f ls) = edit_lines f ls"
proof -
  obtain rem keys adds where f: "f = ((rem, keys), adds)" by (metis surj_pair)
  show ?thesis
    using edited.both.converges [of f ls] assms
    unfolding f edit_valid_def edit_lines_def prod.case simp_thms by blast
qed

end
