(* ===== verification/BlockEdit.thy ===== *)
theory BlockEdit
  imports LineEdit
begin

text \<open>
  Managed blocks (\<open>resource/file/blockedit.go\<close>) and the whole line edit of a file,
  \<open>resolveLine\<close> of \<open>resource/file/lineedit.go\<close>: blocks first, then removed, keyed and added lines.
  \<open>converged\<close> names what the declaration checks leave open; under it one pass is a fixed point.
\<close>

section \<open>Blocks\<close>

definition blockMarkers :: "string \<Rightarrow> string \<times> string" where
  "blockMarkers name = (''# BEGIN GONF '' @ name, ''# END GONF '' @ name)"

abbreviation bm :: "Block \<Rightarrow> string" where "bm b \<equiv> fst (blockMarkers (bl_name b))"
abbreviation em :: "Block \<Rightarrow> string" where "em b \<equiv> snd (blockMarkers (bl_name b))"

text \<open>The indices of the lines that read as a marker.\<close>

fun positions :: "('a \<Rightarrow> bool) \<Rightarrow> nat \<Rightarrow> 'a list \<Rightarrow> nat list" where
  "positions P k [] = []"
| "positions P k (l # ls) = (if P l then k # positions P (Suc k) ls else positions P (Suc k) ls)"

definition begins :: "Block \<Rightarrow> string list \<Rightarrow> nat list" where
  "begins b ls = positions (\<lambda>l. trim_space l = bm b) 0 ls"

definition ends :: "Block \<Rightarrow> string list \<Rightarrow> nat list" where
  "ends b ls = positions (\<lambda>l. trim_space l = em b) 0 ls"

definition endBeforeBegin :: "nat list \<Rightarrow> nat list \<Rightarrow> bool" where
  "endBeforeBegin bs es \<longleftrightarrow> length bs = 1 \<and> length es = 1"

definition applyBlock :: "Block \<Rightarrow> string list \<Rightarrow> (edit_error, string list) result" where
  "applyBlock b ls =
     (let bs = begins b ls; es = ends b ls in
      if length bs = 0 \<and> length es = 0 then Inr (ls @ [bm b] @ bl_lines b @ [em b])
      else if length bs = 1 \<and> length es = 1 \<and> bs ! 0 < es ! 0
      then Inr (take (bs ! 0 + 1) ls @ bl_lines b @ drop (es ! 0) ls)
      else Inl (MarkerLayout (bl_name b) (length bs) (length es) (endBeforeBegin bs es)))"

definition block_region :: "string list \<Rightarrow> Block \<Rightarrow> (nat \<times> nat) option" where
  "block_region ls b =
     (let bs = begins b ls; es = ends b ls in
      if length bs = 1 \<and> length es = 1 \<and> bs ! 0 < es ! 0 then Some (bs ! 0, es ! 0) else None)"

definition refuseNestedBlocks :: "string list \<Rightarrow> Block list \<Rightarrow> edit_error check" where
  "refuseNestedBlocks ls blocks =
     check_all (\<lambda>outer.
       case block_region ls outer of
         None \<Rightarrow> Inr ()
       | Some (b, e) \<Rightarrow>
           check_all (\<lambda>inner.
             if bl_name inner = bl_name outer then Inr ()
             else check_all (\<lambda>i. guard_res (\<not> (b < i \<and> i < e)) (NestedBlocks (bl_name outer) (bl_name inner)))
                    (begins inner ls @ ends inner ls)) blocks) blocks"

section \<open>Declaration checks of blocks\<close>

definition validateBlockName :: "string \<Rightarrow> edit_error check" where
  "validateBlockName name =
     (if name = [] then Inl BlockNameEmpty
      else if contains_any name [CR, NL] then Inl (BlockNameBreak name)
      else if trim_space name \<noteq> name then Inl (BlockNameBlanks name)
      else Inr ())"

text \<open>The maps \<open>markers\<close> and \<open>owned\<close> as their entries in the order they are set.\<close>

definition marker_entries :: "Block list \<Rightarrow> (string \<times> string) list" where
  "marker_entries blocks = concat (map (\<lambda>b. [(bm b, bl_name b), (em b, bl_name b)]) blocks)"

definition owned_entries :: "Block list \<Rightarrow> (string \<times> string) list" where
  "owned_entries blocks = marker_entries blocks @ concat (map (\<lambda>b. map (\<lambda>l. (l, bl_name b)) (bl_lines b)) blocks)"

definition entry_of :: "(string \<times> string) list \<Rightarrow> string \<Rightarrow> string option" where
  "entry_of es = map_of (rev es)"

text \<open>The last loop ranges over a Go map: the model reports the first clash in declaration order.\<close>

definition validateBlockOverlap :: "FileEdits \<Rightarrow> edit_error check" where
  "validateBlockOverlap f =
     (let markers = marker_entries (fe_blocks f); owned = owned_entries (fe_blocks f) in
      bind_res (check_all (\<lambda>l.
          case entry_of owned l of
            Some name \<Rightarrow> Inl (LineOwnedByBlock l name)
          | None \<Rightarrow> (case entry_of markers (trim_space l) of
                       Some name \<Rightarrow> Inl (LineIsMarker l name)
                     | None \<Rightarrow> Inr ())) (fe_addLines f @ fe_removeLines f)) (\<lambda>_.
        check_all (\<lambda>e. check_all (\<lambda>(l, name).
          guard_res (\<not> has_prefix (trim_blanks l) (kl_key e)) (KeyPrefixesBlock (kl_key e) l name)) owned)
          (fe_keyedLines f)))"

fun validate_names :: "Block list \<Rightarrow> Block list \<Rightarrow> edit_error check" where
  "validate_names seen [] = Inr ()"
| "validate_names seen (b # bs) =
     bind_res (validateBlockName (bl_name b)) (\<lambda>_.
     bind_res (check_all (\<lambda>other. guard_res (bl_name other \<noteq> bl_name b) (BlockTwice (bl_name b))) seen) (\<lambda>_.
     validate_names (seen @ [b]) bs))"

definition validateBlocks :: "FileEdits \<Rightarrow> edit_error check" where
  "validateBlocks f =
     bind_res (validate_names [] (fe_blocks f)) (\<lambda>_.
     bind_res (check_all (\<lambda>b. check_all (\<lambda>l.
         if contains_any l [CR, NL] then Inl (BlockLineBreak (bl_name b) l)
         else case entry_of (marker_entries (fe_blocks f)) (trim_space l) of
           Some owner \<Rightarrow> Inl (BlockLineIsMarker (bl_name b) l owner)
         | None \<Rightarrow> Inr ()) (bl_lines b)) (fe_blocks f)) (\<lambda>_.
     validateBlockOverlap f))"

section \<open>The whole edit\<close>

text \<open>\<open>None\<close> is the \<open>noop\<close> of a missing file from which lines were only to be removed.\<close>

definition resolveLine :: "FileEdits \<Rightarrow> string option \<Rightarrow> (edit_error, string option) result" where
  "resolveLine f file =
     (case currentLines file of (ls, term, exists) \<Rightarrow>
        if \<not> exists \<and> fe_keyedLines f = [] \<and> fe_addLines f = [] \<and> fe_blocks f = [] then Inr None
        else bind_res (refuseNestedBlocks ls (fe_blocks f)) (\<lambda>_.
          bind_res (fold_res applyBlock (fe_blocks f) ls) (\<lambda>ls.
            let kept = fold add_line (fe_addLines f)
                         (fold applyKeyedLine (fe_keyedLines f) (remove_lines (fe_removeLines f) ls))
            in Inr (Some (if kept = [] then [] else join term kept @ term)))))"

section \<open>Lemmas: writing and reading lines\<close>

definition clean_line :: "string \<Rightarrow> bool" where
  "clean_line l \<longleftrightarrow> NL \<notin> set l \<and> \<not> has_suffix l [CR]"

lemma join_terminated: "ls \<noteq> [] \<Longrightarrow> join t ls @ t = concat (map (\<lambda>l. l @ t) ls)"
  by (induction t ls rule: join.induct) auto

lemma split_terminated:
  "\<forall>l \<in> set ls. NL \<notin> set l \<Longrightarrow> split_on NL (concat (map (\<lambda>l. l @ [NL]) ls)) = ls @ [[]]"
  by (induction ls) (simp_all add: split_on_append)

lemma split_terminated_crlf:
  "\<forall>l \<in> set ls. NL \<notin> set l \<Longrightarrow>
   split_on NL (concat (map (\<lambda>l. l @ [CR, NL]) ls)) = map (\<lambda>l. l @ [CR]) ls @ [[]]"
proof (induction ls)
  case (Cons l ls)
  then show ?case using split_on_append [of NL "l @ [CR]"] by simp
qed simp

lemma drop_cr_clean: "clean_line l \<Longrightarrow> drop_cr l = l"
  by (simp add: clean_line_def drop_cr_def trim_suffix_def)

lemma scan_terminated:
  assumes "\<forall>l \<in> set ls. clean_line l" "t = [NL] \<or> t = [CR, NL]"
  shows "scan_lines (concat (map (\<lambda>l. l @ t) ls)) = ls"
proof -
  have nl: "\<forall>l \<in> set ls. NL \<notin> set l" using assms(1) by (simp add: clean_line_def)
  have "map drop_cr ls = ls" using assms(1) drop_cr_clean by (simp add: map_idI)
  with assms(2) show ?thesis
    by (auto simp: scan_lines_def split_terminated [OF nl] split_terminated_crlf [OF nl] drop_cr_def comp_def)
qed

lemma count_str_byte: "count_str s [c] = count_list s c"
  by (induction s "[c]" rule: count_str.induct) auto

lemma count_lf: "\<forall>l \<in> set ls. NL \<notin> set l \<Longrightarrow> count_list (concat (map (\<lambda>l. l @ t) ls)) NL = length ls * count_list t NL"
  by (induction ls) (simp_all add: count_list_append count_notin)

lemma count_crlf_line: "NL \<notin> set l \<Longrightarrow> count_str (l @ CR # NL # s) [CR, NL] = Suc (count_str s [CR, NL])"
proof (induction l)
  case (Cons c l)
  then show ?case by (cases l) auto
qed simp

lemma clean_line_simps [simp]:
  "clean_line []" "clean_line (c # l) \<longleftrightarrow> c \<noteq> NL \<and> (if l = [] then c \<noteq> CR else clean_line l)"
  by (auto simp: clean_line_def has_suffix_def) (cases l rule: rev_cases; auto)+

lemma has_prefix_byte: "has_prefix s [c] \<longleftrightarrow> s \<noteq> [] \<and> hd s = c"
  by (cases s) auto

lemma count_lf_line: "clean_line l \<Longrightarrow> count_str (l @ NL # s) [CR, NL] = count_str s [CR, NL]"
proof (induction l)
  case (Cons c l)
  then have "l \<noteq> [] \<Longrightarrow> hd l \<noteq> NL" by (cases l) (auto split: if_splits)
  with Cons show ?case by (auto simp: has_prefix_byte hd_append split: if_splits)
qed simp

lemma terminator_terminated:
  assumes "\<forall>l \<in> set ls. clean_line l" "t = [NL] \<or> t = [CR, NL]" "ls \<noteq> []"
  shows "dominantTerminator (concat (map (\<lambda>l. l @ t) ls)) = t"
proof -
  have nl: "\<forall>l \<in> set ls. NL \<notin> set l" using assms(1) by (simp add: clean_line_def)
  have "count_str (concat (map (\<lambda>l. l @ [NL]) ls)) [CR, NL] = 0"
    using assms(1) by (induction ls) (simp_all add: count_lf_line)
  moreover have "count_str (concat (map (\<lambda>l. l @ [CR, NL]) ls)) [CR, NL] = length ls"
    using nl by (induction ls) (simp_all add: count_crlf_line)
  ultimately show ?thesis
    using assms(2,3) by (auto simp: dominantTerminator_def Let_def count_str_byte count_lf [OF nl])
qed

lemma dominantTerminator_cases: "dominantTerminator raw = [NL] \<or> dominantTerminator raw = [CR, NL]"
  by (simp add: dominantTerminator_def Let_def)

lemma scan_lines_no_newline: "l \<in> set (scan_lines raw) \<Longrightarrow> NL \<notin> set l"
proof -
  assume "l \<in> set (scan_lines raw)"
  then obtain w where "w \<in> set (split_on NL raw)" "l = drop_cr w"
    by (auto simp: scan_lines_def Let_def split: if_splits dest: in_set_butlastD)
  then show ?thesis
    using split_on_no_sep by (auto simp: drop_cr_def trim_suffix_def dest: in_set_takeD)
qed

section \<open>Lemmas: marker positions and regions\<close>

lemma positions_empty: "positions P k ls = [] \<longleftrightarrow> (\<forall>l \<in> set ls. \<not> P l)"
  by (induction ls arbitrary: k) auto

lemma positions_append: "positions P k (u @ v) = positions P k u @ positions P (k + length u) v"
  by (induction u arbitrary: k) auto

lemma positions_mem: "i \<in> set (positions P k ls) \<longleftrightarrow> k \<le> i \<and> i < k + length ls \<and> P (ls ! (i - k))"
proof (induction ls arbitrary: k)
  case (Cons l ls)
  have "i = k \<or> i < k \<or> (\<exists>m. i = Suc k + m)" by presburger
  then show ?case by (auto simp: Cons)
qed simp

lemma positions_one:
  "positions P k ls = [i] \<longleftrightarrow>
   (\<exists>u l v. ls = u @ l # v \<and> i = k + length u \<and> P l \<and> (\<forall>x \<in> set u \<union> set v. \<not> P x))"
proof
  assume one: "positions P k ls = [i]"
  then have i: "k \<le> i" "i < k + length ls" "P (ls ! (i - k))"
    using positions_mem [of i P k ls] by auto
  define u l v where "u = take (i - k) ls" and "l = ls ! (i - k)" and "v = drop (Suc (i - k)) ls"
  have ls: "ls = u @ l # v" unfolding u_def l_def v_def using i by (intro id_take_nth_drop) simp
  have len: "i = k + length u" using i by (simp add: u_def)
  have "positions P k u @ i # positions P (Suc i) v = [i]"
    using one i len unfolding ls by (simp add: positions_append l_def [symmetric] nth_append)
  then have "positions P k u = []" "positions P (Suc i) v = []"
    by (simp_all add: append_eq_Cons_conv)
  then have "\<forall>x \<in> set u \<union> set v. \<not> P x" by (auto simp: positions_empty)
  with ls len i show "\<exists>u l v. ls = u @ l # v \<and> i = k + length u \<and> P l \<and> (\<forall>x \<in> set u \<union> set v. \<not> P x)"
    by (intro exI [of _ u] exI [of _ l] exI [of _ v]) (simp add: l_def)
next
  assume "\<exists>u l v. ls = u @ l # v \<and> i = k + length u \<and> P l \<and> (\<forall>x \<in> set u \<union> set v. \<not> P x)"
  then obtain u l v where *: "ls = u @ l # v" "i = k + length u" "P l" "\<forall>x \<in> set u \<union> set v. \<not> P x" by blast
  then have "positions P k u = []" "positions P (Suc i) v = []" by (simp_all add: positions_empty)
  with * show "positions P k ls = [i]" by (simp add: positions_append)
qed

lemma markers_differ: "bm b \<noteq> em c" "bm b = bm c \<longleftrightarrow> bl_name b = bl_name c" "em b = em c \<longleftrightarrow> bl_name b = bl_name c"
  by (simp_all add: blockMarkers_def)

definition is_marker :: "Block \<Rightarrow> string \<Rightarrow> bool" where
  "is_marker b l \<longleftrightarrow> trim_space l = bm b \<or> trim_space l = em b"

text \<open>The one region of a block: its two marker lines, what stands between, and the rest.\<close>

definition region :: "Block \<Rightarrow> string list \<Rightarrow> string list \<Rightarrow> string \<Rightarrow> string list \<Rightarrow> string \<Rightarrow> string list \<Rightarrow> bool" where
  "region b ls u m R m' v \<longleftrightarrow>
     ls = u @ m # R @ m' # v \<and> trim_space m = bm b \<and> trim_space m' = em b
     \<and> (\<forall>l \<in> set u \<union> set R \<union> set v. \<not> is_marker b l)"

lemma region_positions:
  assumes "region b ls u m R m' v"
  shows "begins b ls = [length u]" "ends b ls = [Suc (length u + length R)]"
proof -
  have none: "positions (\<lambda>l. trim_space l = bm b) k xs = []" "positions (\<lambda>l. trim_space l = em b) k xs = []"
    if "set xs \<subseteq> set u \<union> set R \<union> set v" for k xs
    using assms that by (auto simp: region_def is_marker_def positions_empty)
  have sub: "set u \<subseteq> set u \<union> set R \<union> set v" "set R \<subseteq> set u \<union> set R \<union> set v" "set v \<subseteq> set u \<union> set R \<union> set v"
    by auto
  show "begins b ls = [length u]" "ends b ls = [Suc (length u + length R)]"
    using assms none [OF sub(1)] none [OF sub(2)] none [OF sub(3)]
    by (auto simp: region_def begins_def ends_def positions_append markers_differ markers_differ(1) [symmetric])
qed

lemma positions_region:
  assumes "begins b ls = [i]" "ends b ls = [j]" "i < j"
  obtains u m R m' v where "region b ls u m R m' v" "i = length u" "j = Suc (length u + length R)"
proof -
  obtain u m x where u: "ls = u @ m # x" "i = length u" "trim_space m = bm b"
    "\<forall>l \<in> set u \<union> set x. trim_space l \<noteq> bm b"
    using assms(1) by (auto simp: begins_def positions_one)
  obtain y m' v where y: "ls = y @ m' # v" "j = length y" "trim_space m' = em b"
    "\<forall>l \<in> set y \<union> set v. trim_space l \<noteq> em b"
    using assms(2) by (auto simp: ends_def positions_one)
  have "take (Suc i) ls = u @ [m]" using u by simp
  moreover have "take (Suc i) ls = take (Suc i) y" using y assms(3) by simp
  ultimately obtain R where R: "y = u @ m # R"
    by (metis append_Cons append_Nil append_assoc append_take_drop_id)
  with u(1) y(1) have "x = R @ m' # v" by simp
  with u y R have "region b ls u m R m' v" by (auto simp: region_def is_marker_def)
  with u(2) y(2) R that show thesis by simp
qed

lemma applyBlock_region:
  assumes "region b ls u m R m' v"
  shows "applyBlock b ls = Inr (u @ m # bl_lines b @ m' # v)"
  using region_positions [OF assms] assms by (simp add: applyBlock_def region_def)

lemma applyBlock_cases:
  assumes "applyBlock b ls = Inr ls'"
  obtains (append) "\<forall>l \<in> set ls. \<not> is_marker b l" "ls' = ls @ [bm b] @ bl_lines b @ [em b]"
  | (replace) u m R m' v where "region b ls u m R m' v" "ls' = u @ m # bl_lines b @ m' # v"
proof (cases "begins b ls = [] \<and> ends b ls = []")
  case True
  with assms append show thesis
    by (auto simp: applyBlock_def begins_def ends_def positions_empty is_marker_def)
next
  case False
  then have one: "length (begins b ls) = 1" "length (ends b ls) = 1" "begins b ls ! 0 < ends b ls ! 0"
    using assms unfolding applyBlock_def Let_def by (metis (no_types, lifting) Inl_Inr_False length_0_conv)+
  obtain i where i: "begins b ls = [i]" using one(1) by (cases "begins b ls") simp_all
  obtain j where j: "ends b ls = [j]" using one(2) by (cases "ends b ls") simp_all
  have ij: "i < j" using one(3) i j by simp
  obtain u m R m' v where r: "region b ls u m R m' v" "i = length u" "j = Suc (length u + length R)"
    by (rule positions_region [OF i j ij])
  have "ls' = u @ m # bl_lines b @ m' # v"
    using assms unfolding applyBlock_region [OF r(1)] by (rule Inr_inject [symmetric])
  with r(1) show thesis by (rule replace)
qed

definition settled_block :: "Block \<Rightarrow> string list \<Rightarrow> bool" where
  "settled_block b ls \<longleftrightarrow> (\<exists>u m m' v. region b ls u m (bl_lines b) m' v)"

lemma settled_stays:
  assumes "settled_block b ls"
  shows "applyBlock b ls = Inr ls"
proof -
  obtain u m m' v where r: "region b ls u m (bl_lines b) m' v" using assms by (auto simp: settled_block_def)
  then have "ls = u @ m # bl_lines b @ m' # v" by (simp add: region_def)
  with applyBlock_region [OF r] show ?thesis by simp
qed

section \<open>Lemmas: applying every block\<close>

definition any_marker :: "Block list \<Rightarrow> string \<Rightarrow> bool" where
  "any_marker bs l \<longleftrightarrow> (\<exists>b \<in> set bs. is_marker b l)"

abbreviation marks :: "Block list \<Rightarrow> string list \<Rightarrow> string list" where
  "marks bs ls \<equiv> filter (any_marker bs) ls"

definition blocks_ok :: "Block list \<Rightarrow> bool" where
  "blocks_ok bs \<longleftrightarrow> distinct (map bl_name bs)
     \<and> (\<forall>b \<in> set bs. trim_space (bm b) = bm b \<and> trim_space (em b) = em b
          \<and> (\<forall>l \<in> set (bl_lines b). \<not> any_marker bs l))"

text \<open>No marker stands inside a region: the two markers of a block are neighbours among the markers.\<close>

definition flat :: "Block list \<Rightarrow> string list \<Rightarrow> bool" where
  "flat bs ms \<longleftrightarrow> (\<forall>b \<in> set bs. \<forall>u m R m' v. region b ms u m R m' v \<longrightarrow> R = [])"

lemma is_marker_same: "bl_name b = bl_name c \<Longrightarrow> is_marker b l = is_marker c l"
  by (simp add: is_marker_def)

lemma is_marker_own: "trim_space m = bm b \<Longrightarrow> is_marker b m" "trim_space m = em b \<Longrightarrow> is_marker b m"
  by (simp_all add: is_marker_def)

lemma is_marker_other: "is_marker b l \<Longrightarrow> is_marker c l \<Longrightarrow> bl_name b = bl_name c"
  using markers_differ [of b c] markers_differ(1) [of c b] by (auto simp: is_marker_def)

lemma marker_between:
  assumes "refuseNestedBlocks ls bs = Inr ()" "b \<in> set bs" "region b ls u m R m' v" "l \<in> set R"
  shows "\<not> any_marker bs l"
proof
  assume "any_marker bs l"
  then obtain c where c: "c \<in> set bs" "is_marker c l" by (auto simp: any_marker_def)
  have "\<not> is_marker b l" using assms(3,4) by (simp add: region_def)
  with c(2) have name: "bl_name c \<noteq> bl_name b" using is_marker_same by blast
  obtain k where k: "k < length R" "l = R ! k" using assms(4) by (metis in_set_conv_nth)
  let ?i = "Suc (length u) + k"
  have "ls ! ?i = l" "?i < length ls" using assms(3) k by (simp_all add: region_def nth_append)
  with c(2) have "?i \<in> set (begins c ls @ ends c ls)"
    by (auto simp: begins_def ends_def positions_mem is_marker_def)
  moreover have "block_region ls b = Some (length u, Suc (length u + length R))"
    using region_positions [OF assms(3)] by (simp add: block_region_def)
  moreover have "\<forall>outer \<in> set bs. \<forall>x e. block_region ls outer = Some (x, e) \<longrightarrow>
      (\<forall>inner \<in> set bs. bl_name inner \<noteq> bl_name outer \<longrightarrow>
         (\<forall>i \<in> set (begins inner ls @ ends inner ls). \<not> (x < i \<and> i < e)))"
  proof (intro ballI allI impI)
    fix outer x e inner i
    assume o: "outer \<in> set bs" "block_region ls outer = Some (x, e)"
      and i: "inner \<in> set bs" "bl_name inner \<noteq> bl_name outer" "i \<in> set (begins inner ls @ ends inner ls)"
    have "check_all (\<lambda>inner.
        if bl_name inner = bl_name outer then Inr ()
        else check_all (\<lambda>i. guard_res (\<not> (x < i \<and> i < e)) (NestedBlocks (bl_name outer) (bl_name inner)))
               (begins inner ls @ ends inner ls)) bs = Inr ()"
      using bspec [OF assms(1) [unfolded refuseNestedBlocks_def check_all_Inr_iff] o(1)]
      unfolding o(2) option.case prod.case by (simp only: check_all_Inr_iff)
    from bspec [OF this [unfolded check_all_Inr_iff] i(1)]
    have "check_all (\<lambda>i. guard_res (\<not> (x < i \<and> i < e)) (NestedBlocks (bl_name outer) (bl_name inner)))
        (begins inner ls @ ends inner ls) = Inr ()"
      using i(2) by simp
    from bspec [OF this [unfolded check_all_Inr_iff] i(3)] show "\<not> (x < i \<and> i < e)"
      by (rule guard_res_Inr_iff [THEN iffD1])
  qed
  ultimately have "\<not> (length u < ?i \<and> ?i < Suc (length u + length R))"
    using assms(2) c(1) name by blast
  then show False using k(1) by simp
qed

lemma filter_appendD:
  "filter P ls = xs @ ys \<Longrightarrow> \<exists>u v. ls = u @ v \<and> filter P u = xs \<and> filter P v = ys"
proof (induction ls arbitrary: xs)
  case (Cons l ls)
  show ?case
  proof (cases "P l \<and> xs \<noteq> []")
    case True
    then obtain xs' where xs: "xs = l # xs'" "filter P ls = xs' @ ys" using Cons.prems by (cases xs) auto
    from Cons.IH [OF xs(2)] obtain u v where "ls = u @ v" "filter P u = xs'" "filter P v = ys" by blast
    with True xs show ?thesis by (intro exI [of _ "l # u"] exI [of _ v]) simp
  next
    case False
    show ?thesis
    proof (cases "P l")
      case True
      with False Cons.prems show ?thesis by (intro exI [of _ "[]"] exI [of _ "l # ls"]) simp
    next
      case False
      with Cons obtain u v where "ls = u @ v" "filter P u = xs" "filter P v = ys" by auto
      with False show ?thesis by (intro exI [of _ "l # u"] exI [of _ v]) simp
    qed
  qed
qed simp

lemma filter_region:
  assumes "filter P ls = xs @ m # ys @ m' # zs"
  obtains u R v where "ls = u @ m # R @ m' # v" "filter P u = xs" "filter P R = ys" "filter P v = zs"
proof -
  obtain u x where u: "ls = u @ x" "filter P u = xs" "filter P x = m # ys @ m' # zs"
    using filter_appendD [OF assms] by blast
  from filter_eq_ConsD [OF u(3)] obtain w x' where w: "x = w @ m # x'" "\<forall>l \<in> set w. \<not> P l" "filter P x' = ys @ m' # zs"
    by metis
  obtain R y where R: "x' = R @ y" "filter P R = ys" "filter P y = m' # zs"
    using filter_appendD [OF w(3)] by blast
  from filter_eq_ConsD [OF R(3)] obtain w' v where v: "y = w' @ m' # v" "\<forall>l \<in> set w'. \<not> P l" "filter P v = zs"
    by metis
  show thesis using u w R v that [of "u @ w" "R @ w'" v] by simp
qed

lemma refuseNested_flat:
  assumes "refuseNestedBlocks ls bs = Inr ()"
  shows "flat bs (marks bs ls)"
  unfolding flat_def
proof (intro ballI allI impI)
  fix b u m R m' v
  assume b: "b \<in> set bs" and r: "region b (marks bs ls) u m R m' v"
  then obtain u0 R0 v0 where ls: "ls = u0 @ m # R0 @ m' # v0" "marks bs u0 = u" "marks bs R0 = R" "marks bs v0 = v"
    using filter_region [of "any_marker bs" ls u m R m' v] by (auto simp: region_def)
  have "\<not> is_marker b l" if "l \<in> set u0 \<union> set R0 \<union> set v0" for l
  proof
    assume "is_marker b l"
    with b that ls have "l \<in> set u \<union> set R \<union> set v" by (auto simp: any_marker_def)
    with r \<open>is_marker b l\<close> show False by (simp add: region_def)
  qed
  with r ls(1) have "region b ls u0 m R0 m' v0" by (simp add: region_def)
  with marker_between [OF assms b] ls(3) show "R = []" by (auto simp: filter_empty_conv)
qed

lemma after_segment:
  assumes "m # B @ m' # v = w @ n # t" "n \<notin> set B" "m \<noteq> n" "m' \<noteq> n"
  obtains x where "w = m # B @ m' # x" "v = x @ n # t"
proof -
  obtain w' where w: "w = m # w'" "B @ m' # v = w' @ n # t"
    using assms(1,3) by (cases w) auto
  from w(2) obtain y where "B = w' @ y \<and> y @ m' # v = n # t \<or> B @ y = w' \<and> m' # v = y @ n # t"
    by (auto simp: append_eq_append_conv2)
  with assms(2,4) that w(1) show thesis by (cases y) auto
qed

text \<open>Regions of two blocks without markers inside do not overlap.\<close>

lemma settled_other:
  assumes c: "settled_block c ls" and ok: "blocks_ok bs" "c \<in> set bs" "b \<in> set bs" "bl_name b \<noteq> bl_name c"
    and r: "region b ls u m R m' v" and R: "\<forall>l \<in> set R. \<not> any_marker bs l"
  shows "settled_block c (u @ m # bl_lines b @ m' # v)"
proof -
  obtain u2 n n' v2 where rc: "region c ls u2 n (bl_lines c) n' v2"
    using c by (auto simp: settled_block_def)
  have own: "is_marker b m" "is_marker b m'" "is_marker c n" "is_marker c n'"
    using r rc is_marker_own by (auto simp: region_def)
  have ne: "m \<noteq> n" "m \<noteq> n'" "m' \<noteq> n" "m' \<noteq> n'"
    using own ok(4) is_marker_other by metis+
  have inside: "n \<notin> set R" "n' \<notin> set R" "m \<notin> set (bl_lines c)" "m' \<notin> set (bl_lines c)"
    "\<forall>l \<in> set (bl_lines b). \<not> is_marker c l"
    using R ok own by (auto simp: blocks_ok_def any_marker_def)
  have mc: "\<not> is_marker c m" "\<not> is_marker c m'" using own ok(4) is_marker_other by metis+
  have eq: "u @ m # R @ m' # v = u2 @ n # bl_lines c @ n' # v2" using r rc by (simp add: region_def)
  then obtain w where "u = u2 @ w \<and> w @ m # R @ m' # v = n # bl_lines c @ n' # v2
      \<or> u @ w = u2 \<and> m # R @ m' # v = w @ n # bl_lines c @ n' # v2"
    by (auto simp: append_eq_append_conv2)
  then show ?thesis
  proof
    assume w: "u = u2 @ w \<and> w @ m # R @ m' # v = n # bl_lines c @ n' # v2"
    then have "n # bl_lines c @ n' # v2 = w @ m # (R @ m' # v)" by simp
    then obtain x where x: "w = n # bl_lines c @ n' # x" "v2 = x @ m # R @ m' # v"
      by (rule after_segment) (use ne inside in auto)
    have "region c (u @ m # bl_lines b @ m' # v) u2 n (bl_lines c) n' (x @ m # bl_lines b @ m' # v)"
      using rc w x inside mc by (auto simp: region_def)
    then show ?thesis by (auto simp: settled_block_def)
  next
    assume w: "u @ w = u2 \<and> m # R @ m' # v = w @ n # bl_lines c @ n' # v2"
    then have "m # R @ m' # v = w @ n # (bl_lines c @ n' # v2)" by simp
    then obtain x where x: "w = m # R @ m' # x" "v = x @ n # bl_lines c @ n' # v2"
      by (rule after_segment) (use ne inside in auto)
    have "region c (u @ m # bl_lines b @ m' # v) (u @ m # bl_lines b @ m' # x) n (bl_lines c) n' v2"
      using rc w x inside mc by (auto simp: region_def)
    then show ?thesis by (auto simp: settled_block_def)
  qed
qed

lemma flat_append:
  assumes flat: "flat bs ms" and ok: "trim_space (bm b) = bm b" "trim_space (em b) = em b"
    and none: "\<forall>l \<in> set ms. \<not> is_marker b l"
  shows "flat bs (ms @ [bm b, em b])"
  unfolding flat_def
proof (intro ballI allI impI)
  fix d u m R m' v
  assume d: "d \<in> set bs" and r: "region d (ms @ [bm b, em b]) u m R m' v"
  then have eq: "u @ m # R @ m' # v = ms @ [bm b, em b]" by (simp add: region_def)
  have md: "is_marker d m" "is_marker d m'" "trim_space m' = em d" using r is_marker_own by (auto simp: region_def)
  show "R = []"
  proof (cases "bl_name d = bl_name b")
    case True
    have eb: "is_marker d (em b)" "is_marker d (bm b)" using ok True by (auto simp: is_marker_def blockMarkers_def)
    show ?thesis
    proof (cases v rule: rev_cases)
      case Nil
      with eq have "u @ m # R = ms @ [bm b]" by (simp flip: append_Cons append_assoc)
      then show ?thesis using r eb(2) by (cases R rule: rev_cases) (auto simp: region_def)
    next
      case (snoc v' x)
      with eq have "x = em b" by simp
      with snoc r eb(1) show ?thesis by (auto simp: region_def)
    qed
  next
    case False
    have "v \<noteq> []"
    proof
      assume "v = []"
      with eq have "is_marker b m'" using ok(2) by (simp add: is_marker_def)
      from is_marker_other [OF this md(2)] False show False by simp
    qed
    with eq obtain v1 where v1: "v = v1 @ [em b]" "u @ m # R @ m' # v1 = ms @ [bm b]"
      by (cases v rule: rev_cases) auto
    have "v1 \<noteq> []"
    proof
      assume "v1 = []"
      with v1 have "is_marker b m'" using ok(1) by (simp add: is_marker_def)
      from is_marker_other [OF this md(2)] False show False by simp
    qed
    with v1 obtain v2 where v2: "v1 = v2 @ [bm b]" "u @ m # R @ m' # v2 = ms"
      by (cases v1 rule: rev_cases) auto
    have "region d ms u m R m' v2" using r v1(1) v2 by (auto simp: region_def)
    with flat d show ?thesis unfolding flat_def by blast
  qed
qed

lemma region_marks:
  assumes "region b ls u m R m' v" "b \<in> set bs"
  shows "region b (marks bs ls) (marks bs u) m (marks bs R) m' (marks bs v)"
  using assms is_marker_own by (auto simp: region_def any_marker_def)

lemma blocks_ok_marks: "blocks_ok bs \<Longrightarrow> b \<in> set bs \<Longrightarrow> marks bs (bl_lines b) = []"
  by (simp add: blocks_ok_def filter_empty_conv)

lemma applyBlock_step:
  assumes ok: "blocks_ok bs" and b: "b \<in> set bs" and flat: "flat bs (marks bs ls)"
    and ap: "applyBlock b ls = Inr ls'"
  shows "flat bs (marks bs ls') \<and> settled_block b ls'
    \<and> (\<forall>c \<in> set bs. bl_name c \<noteq> bl_name b \<longrightarrow> settled_block c ls \<longrightarrow> settled_block c ls')"
  using ap
proof (cases rule: applyBlock_cases)
  case append
  have t: "trim_space (bm b) = bm b" "trim_space (em b) = em b" using ok b by (auto simp: blocks_ok_def)
  then have mk: "is_marker b (bm b)" "is_marker b (em b)" by (simp_all add: is_marker_def)
  have lines: "\<forall>l \<in> set (bl_lines b). \<not> any_marker bs l" using ok b by (simp add: blocks_ok_def)
  have "marks bs ls' = marks bs ls @ [bm b, em b]"
    using append(2) mk b blocks_ok_marks [OF ok b] by (auto simp: any_marker_def)
  moreover have "flat bs (marks bs ls @ [bm b, em b])"
    using flat t append(1) by (intro flat_append) auto
  moreover have "region b ls' ls (bm b) (bl_lines b) (em b) []"
    using append t lines b by (auto simp: region_def any_marker_def)
  moreover have "settled_block c ls'" if c: "c \<in> set bs" "bl_name c \<noteq> bl_name b" "settled_block c ls" for c
  proof -
    obtain u m m' v where "region c ls u m (bl_lines c) m' v" using c by (auto simp: settled_block_def)
    moreover have "\<not> is_marker c (bm b)" "\<not> is_marker c (em b)"
      using is_marker_other [OF mk(1)] is_marker_other [OF mk(2)] c(2) by metis+
    then have "\<forall>l \<in> set (bm b # bl_lines b @ [em b]). \<not> is_marker c l"
      using lines c(1) by (simp add: any_marker_def)
    ultimately have "region c ls' u m (bl_lines c) m' (v @ bm b # bl_lines b @ [em b])"
      using append(2) by (auto simp: region_def)
    then show ?thesis by (auto simp: settled_block_def)
  qed
  ultimately show ?thesis by (auto simp: settled_block_def)
next
  case (replace u m R m' v)
  have R: "marks bs R = []" using flat b region_marks [OF replace(1) b] unfolding flat_def by blast
  then have "\<forall>l \<in> set R. \<not> any_marker bs l" by (simp add: filter_empty_conv)
  with replace ok b have "\<forall>c \<in> set bs. bl_name c \<noteq> bl_name b \<longrightarrow> settled_block c ls \<longrightarrow> settled_block c ls'"
    using settled_other by metis
  moreover have "marks bs ls' = marks bs ls"
    using replace R blocks_ok_marks [OF ok b] by (simp add: region_def)
  moreover have "region b ls' u m (bl_lines b) m' v"
    using replace ok b by (auto simp: region_def blocks_ok_def any_marker_def)
  ultimately show ?thesis using flat by (auto simp: settled_block_def)
qed

lemma fold_blocks_settled:
  assumes ok: "blocks_ok bs" and "set todo \<subseteq> set bs" "set did \<subseteq> set bs" "distinct (map bl_name (did @ todo))"
    and "flat bs (marks bs ls)" "\<forall>c \<in> set did. settled_block c ls" "fold_res applyBlock todo ls = Inr ls'"
  shows "\<forall>c \<in> set (did @ todo). settled_block c ls'"
  using assms(2-)
proof (induction todo arbitrary: did ls)
  case (Cons b todo)
  obtain ls1 where ls1: "applyBlock b ls = Inr ls1" "fold_res applyBlock todo ls1 = Inr ls'"
    using Cons.prems by (auto simp: res_simps)
  have st: "flat bs (marks bs ls1)" "settled_block b ls1"
    "\<And>c. c \<in> set did \<Longrightarrow> settled_block c ls1"
  proof -
    have b: "b \<in> set bs" and fl: "flat bs (marks bs ls)" using Cons.prems by auto
    note step = applyBlock_step [OF ok b fl ls1(1)]
    show "flat bs (marks bs ls1)" "settled_block b ls1" using step by blast+
    show "settled_block c ls1" if "c \<in> set did" for c
    proof -
      have "c \<in> set bs" "bl_name c \<noteq> bl_name b" "settled_block c ls" using that Cons.prems by (auto simp: image_iff)
      with step show ?thesis by blast
    qed
  qed
  have "\<forall>c \<in> set ((did @ [b]) @ todo). settled_block c ls'"
    using Cons.prems st ls1(2) by (intro Cons.IH) auto
  then show ?case by simp
qed simp

lemma fold_blocks_id:
  "\<forall>b \<in> set bs. settled_block b ls \<Longrightarrow> fold_res applyBlock bs ls = Inr ls"
  by (induction bs) (simp_all add: settled_stays)

section \<open>Lemmas: what the declaration checks give\<close>

lemma entry_of_None: "entry_of es l = None \<longleftrightarrow> (\<forall>e \<in> set es. fst e \<noteq> l)"
  by (auto simp: entry_of_def map_of_eq_None_iff image_iff)

lemma marker_entries_iff:
  "(\<exists>e \<in> set (marker_entries bs). fst e = trim_space l) \<longleftrightarrow> any_marker bs l"
  by (auto simp: marker_entries_def any_marker_def is_marker_def eq_commute [of "trim_space l"])

lemma validate_names_ok:
  "validate_names seen bs = Inr () \<Longrightarrow>
   (\<forall>b \<in> set bs. validateBlockName (bl_name b) = Inr ())
   \<and> (distinct (map bl_name seen) \<longrightarrow> distinct (map bl_name (seen @ bs)))"
proof (induction bs arbitrary: seen)
  case (Cons b bs)
  then have "validate_names (seen @ [b]) bs = Inr ()" "validateBlockName (bl_name b) = Inr ()"
    "\<forall>x \<in> set seen. bl_name x \<noteq> bl_name b" by (auto simp: res_simps)
  with Cons.IH [of "seen @ [b]"] show ?case by auto
qed simp

lemma space_sequences_start: "w \<in> set go_spaces \<Longrightarrow> hd w \<noteq> CHR ''#''"
  by (auto simp: go_spaces_def)

lemma space_only_last: "w \<in> set go_spaces \<Longrightarrow> w \<noteq> [SP] \<Longrightarrow> SP \<notin> set w"
  by (auto simp: go_spaces_def)

lemma strip_front_start:
  "(\<forall>w \<in> set ws. w \<noteq> [] \<longrightarrow> hd w \<noteq> c) \<Longrightarrow> strip_front ws (c # s) = c # s"
  by (rule strip_front_stop) (metis hd_append2 has_prefix_iff list.sel(1))

text \<open>A marker is its own trimmed text.\<close>

lemma trim_space_marker:
  assumes "trim_space name = name" "name \<noteq> []" "p = CHR ''#'' # q @ [SP]"
  shows "trim_space (p @ name) = p @ name"
proof -
  have "strip_front go_spaces (p @ name) = p @ name"
    using assms(3) space_sequences_start by (simp add: strip_front_start)
  moreover have "strip_front (map rev go_spaces) (rev (p @ name)) = rev (p @ name)"
  proof (rule strip_front_stop)
    fix w assume "w \<in> set (map rev go_spaces)" "w \<noteq> []"
    then obtain w' where w: "w' \<in> set go_spaces" "w = rev w'" by auto
    show "\<not> has_prefix (rev (p @ name)) w"
    proof
      assume "has_prefix (rev (p @ name)) w"
      then have "has_suffix (p @ name) w'" using w(2) by (simp add: has_suffix_def)
      then obtain t where t: "p @ name = t @ w'" by (auto simp: has_suffix_iff)
      have no: "\<not> has_suffix name w'" using trim_space_back [OF w(1), of name] assms(1) by simp
      from t obtain y where y: "p @ y = t \<and> name = y @ w' \<or> p = t @ y \<and> y @ name = w'"
        by (auto simp: append_eq_append_conv2)
      with no have "p = t @ y" "y @ name = w'" "y \<noteq> []" by (auto simp: has_suffix_iff)
      then have "last y = SP" "y \<noteq> []" using assms(3) by (metis last_appendR last_snoc append_Cons)+
      then have "SP \<in> set w'" using \<open>y @ name = w'\<close> by (metis UnCI last_in_set set_append)
      moreover have "w' \<noteq> [SP]" using \<open>y @ name = w'\<close> \<open>y \<noteq> []\<close> assms(2) by (cases y) auto
      ultimately show False using space_only_last w(1) by blast
    qed
  qed
  ultimately show ?thesis by (simp add: trim_space_def)
qed

lemma blocks_ok_declared:
  assumes "validateBlocks f = Inr ()"
  shows "blocks_ok (fe_blocks f)"
proof -
  let ?bs = "fe_blocks f"
  have v: "validate_names [] ?bs = Inr ()"
    and l: "\<forall>b \<in> set ?bs. \<forall>l \<in> set (bl_lines b). entry_of (marker_entries ?bs) (trim_space l) = None"
    using assms by (auto simp: validateBlocks_def res_simps split: if_splits option.splits)
  from validate_names_ok [OF v] have d: "distinct (map bl_name ?bs)"
    and n: "\<forall>b \<in> set ?bs. validateBlockName (bl_name b) = Inr ()" by simp_all
  have "trim_space (bm b) = bm b \<and> trim_space (em b) = em b" if "b \<in> set ?bs" for b
    using n that trim_space_marker [of "bl_name b" "''# BEGIN GONF ''" "'' BEGIN GONF''"]
      trim_space_marker [of "bl_name b" "''# END GONF ''" "'' END GONF''"]
    by (auto simp: validateBlockName_def blockMarkers_def split: if_splits)
  with d l show ?thesis by (simp add: blocks_ok_def entry_of_None flip: marker_entries_iff)
qed

text \<open>The removed, keyed and added lines of a declaration, as one edit.\<close>

definition edits_of :: "FileEdits \<Rightarrow> (string list \<times> KeyedLine list) \<times> string list" where
  "edits_of f = ((fe_removeLines f, fe_keyedLines f), fe_addLines f)"

text \<open>
  What the checks leave open: a line both added and removed, an added line that is no line of a
  file, and a key that matches a marker line although it is no prefix of the marker.
\<close>

definition keys_clear :: "FileEdits \<Rightarrow> bool" where
  "keys_clear f \<longleftrightarrow> (\<forall>e \<in> set (fe_keyedLines f). \<forall>b \<in> set (fe_blocks f).
     (\<forall>w \<in> set go_spaces. hd w \<noteq> hd (kl_key e))
     \<and> \<not> has_prefix (kl_key e) (bm b) \<and> \<not> has_prefix (kl_key e) (em b))"

definition one_pass :: "FileEdits \<Rightarrow> bool" where
  "one_pass f \<longleftrightarrow> set (fe_addLines f) \<inter> set (fe_removeLines f) = {}
     \<and> (\<forall>l \<in> set (fe_addLines f). clean_line l) \<and> keys_clear f"

lemma has_prefix_comparable: "has_prefix s a \<Longrightarrow> has_prefix s b \<Longrightarrow> has_prefix a b \<or> has_prefix b a"
  by (auto simp: has_prefix_iff append_eq_append_conv2)

lemma validate_keyed_ok:
  "validate_keyed_from f es = Inr () \<Longrightarrow>
   keys_valid es \<and> (\<forall>l \<in> set (fe_addLines f) \<union> set (fe_removeLines f). \<not> keys_own es l)"
proof (induction es)
  case (Cons e es)
  then have *: "validateKeyedLine e = Inr ()" "\<forall>e' \<in> set es. keys_apart e e' = Inr ()"
    "\<forall>l \<in> set (fe_addLines f) \<union> set (fe_removeLines f). \<not> keyed_owns e l" "validate_keyed_from f es = Inr ()"
    by (auto simp: res_simps keyed_owns_def)
  have "\<not> (keyed_owns e l \<and> keyed_owns e' l)" if "e' \<in> set es" for e' l
  proof -
    have "\<not> (has_prefix (kl_key e') (kl_key e) \<or> has_prefix (kl_key e) (kl_key e'))"
      using *(2) that by (auto simp: keys_apart_def res_simps split: if_splits)
    then show ?thesis using has_prefix_comparable unfolding keyed_owns_def by blast
  qed
  with * Cons.IH show ?case by auto
qed simp

lemma keyed_declared:
  "validateKeyedLines f = Inr () \<Longrightarrow> e \<in> set (fe_keyedLines f) \<Longrightarrow> validateKeyedLine e = Inr ()"
  using validate_keyed_ok [of f "fe_keyedLines f"] by (simp add: validateKeyedLines_def)

lemma edits_valid:
  assumes "validateKeyedLines f = Inr ()" "one_pass f"
  shows "edit_valid (edits_of f)"
proof -
  have k: "keys_valid (fe_keyedLines f)"
    "\<forall>l \<in> set (fe_addLines f) \<union> set (fe_removeLines f). \<not> keys_own (fe_keyedLines f) l"
    using validate_keyed_ok [of f "fe_keyedLines f"] assms(1) unfolding validateKeyedLines_def by blast+
  have d: "set (fe_addLines f) \<inter> set (fe_removeLines f) = {}" using assms(2) by (simp add: one_pass_def)
  have a: "\<forall>l. \<not> (l \<in> set (fe_removeLines f) \<and> keys_own (fe_keyedLines f) l)" using k(2) by blast
  have b: "\<forall>l. \<not> ((l \<in> set (fe_removeLines f) \<or> keys_own (fe_keyedLines f) l) \<and> l \<in> set (fe_addLines f))"
  proof (intro allI notI)
    fix l assume h: "(l \<in> set (fe_removeLines f) \<or> keys_own (fe_keyedLines f) l) \<and> l \<in> set (fe_addLines f)"
    then have "l \<notin> set (fe_removeLines f)" using d by auto
    with h k(2) show False by auto
  qed
  show ?thesis
    unfolding edits_of_def edit_valid_def prod.case by (rule conjI [OF k(1) conjI [OF a b]])
qed

lemma strip_front_blank: "c = SP \<or> c = TAB \<Longrightarrow> strip_front go_spaces (c # s) = strip_front go_spaces s"
proof -
  assume c: "c = SP \<or> c = TAB"
  have "find (\<lambda>w. w \<noteq> [] \<and> has_prefix (c # s) w) go_spaces = Some [c]"
    using c by (elim disjE) (simp_all add: go_spaces_def)
  then show ?thesis by (subst strip_front.simps) simp
qed

lemma strip_front_blanks: "strip_front go_spaces (trim_blanks l) = strip_front go_spaces l"
  by (induction l) (auto simp: strip_front_blank)

lemma trim_space_prefix: "\<exists>t. strip_front go_spaces s = trim_space s @ t"
  using strip_front_suffix [of "rev (strip_front go_spaces s)" "map rev go_spaces"]
  unfolding trim_space_def by (metis rev_append rev_rev_ident)

text \<open>A line that reads as the marker \<open>m\<close> is not owned by a key that is clear of \<open>m\<close>.\<close>

lemma key_clear_of_marker:
  assumes e: "validateKeyedLine e = Inr ()" and sp: "\<forall>w \<in> set go_spaces. hd w \<noteq> hd (kl_key e)"
    and m: "\<not> has_prefix (kl_key e) m" "\<not> has_prefix m (kl_key e)" and l: "trim_space l = m"
  shows "\<not> keyed_owns e l"
proof
  assume "keyed_owns e l"
  then obtain t where t: "trim_blanks l = kl_key e @ t" by (auto simp: keyed_owns_def has_prefix_iff)
  obtain c k where k: "kl_key e = c # k" using e by (cases "kl_key e") (auto simp: validateKeyedLine_def)
  have "strip_front go_spaces (trim_blanks l) = kl_key e @ t"
    using sp unfolding t k append_Cons by (intro strip_front_start) auto
  then have "strip_front go_spaces l = kl_key e @ t" by (simp add: strip_front_blanks)
  with trim_space_prefix [of l] l obtain x where x: "kl_key e @ t = m @ x" by metis
  have "has_prefix (m @ x) (kl_key e)" unfolding x [symmetric] by simp
  with m show False using has_prefix_comparable [of "m @ x" "kl_key e" m] by simp
qed

lemma owned_entries_mem:
  assumes "b \<in> set bs"
  shows "(bm b, bl_name b) \<in> set (owned_entries bs)" "(em b, bl_name b) \<in> set (owned_entries bs)"
    "l \<in> set (bl_lines b) \<Longrightarrow> (l, bl_name b) \<in> set (owned_entries bs)"
  using assms by (auto simp: owned_entries_def marker_entries_def)

lemma overlap_ok:
  assumes "validateBlockOverlap f = Inr ()"
  shows "\<forall>l \<in> set (fe_addLines f) \<union> set (fe_removeLines f).
           \<not> any_marker (fe_blocks f) l \<and> (\<forall>b \<in> set (fe_blocks f). l \<notin> set (bl_lines b))"
    and "\<forall>e \<in> set (fe_keyedLines f). \<forall>b \<in> set (fe_blocks f).
           \<not> has_prefix (bm b) (kl_key e) \<and> \<not> has_prefix (em b) (kl_key e) \<and> (\<forall>l \<in> set (bl_lines b). \<not> keyed_owns e l)"
proof -
  have 1: "\<forall>l \<in> set (fe_addLines f) \<union> set (fe_removeLines f).
      entry_of (owned_entries (fe_blocks f)) l = None \<and> entry_of (marker_entries (fe_blocks f)) (trim_space l) = None"
    using assms by (auto simp: validateBlockOverlap_def Let_def res_simps split: option.splits)
  have "\<forall>e \<in> set (fe_keyedLines f). \<forall>x \<in> set (owned_entries (fe_blocks f)).
      (case x of (l, name) \<Rightarrow> guard_res (\<not> has_prefix (trim_blanks l) (kl_key e)) (KeyPrefixesBlock (kl_key e) l name)) = Inr ()"
    using assms unfolding validateBlockOverlap_def Let_def bind_res_Inr_iff check_all_Inr_iff by blast
  then have 2: "\<forall>e \<in> set (fe_keyedLines f). \<forall>x \<in> set (owned_entries (fe_blocks f)). \<not> keyed_owns e (fst x)"
    unfolding case_prod_unfold guard_res_Inr_iff keyed_owns_def .
  show "\<forall>l \<in> set (fe_addLines f) \<union> set (fe_removeLines f).
      \<not> any_marker (fe_blocks f) l \<and> (\<forall>b \<in> set (fe_blocks f). l \<notin> set (bl_lines b))"
  proof (intro ballI conjI)
    fix l assume l: "l \<in> set (fe_addLines f) \<union> set (fe_removeLines f)"
    show "\<not> any_marker (fe_blocks f) l"
      using bspec [OF 1 l] unfolding entry_of_None by (simp flip: marker_entries_iff)
    show "l \<notin> set (bl_lines b)" if "b \<in> set (fe_blocks f)" for b
      using bspec [OF 1 l] owned_entries_mem(3) [OF that, of l] unfolding entry_of_None by force
  qed
  show "\<forall>e \<in> set (fe_keyedLines f). \<forall>b \<in> set (fe_blocks f).
      \<not> has_prefix (bm b) (kl_key e) \<and> \<not> has_prefix (em b) (kl_key e) \<and> (\<forall>l \<in> set (bl_lines b). \<not> keyed_owns e l)"
  proof (intro ballI conjI)
    fix e b assume e: "e \<in> set (fe_keyedLines f)" and b: "b \<in> set (fe_blocks f)"
    note own = owned_entries_mem [OF b]
    show "\<not> has_prefix (bm b) (kl_key e)" "\<not> has_prefix (em b) (kl_key e)"
      using bspec [OF bspec [OF 2 e] own(1)] bspec [OF bspec [OF 2 e] own(2)]
      by (simp_all add: keyed_owns_def blockMarkers_def)
    show "\<not> keyed_owns e l" if "l \<in> set (bl_lines b)" for l
      using bspec [OF bspec [OF 2 e] own(3) [OF that]] by simp
  qed
qed

lemma blocks_unowned:
  assumes "validateKeyedLines f = Inr ()" "validateBlocks f = Inr ()" "one_pass f" "b \<in> set (fe_blocks f)"
  shows "\<forall>l. is_marker b l \<or> l \<in> set (bl_lines b) \<longrightarrow> \<not> edit_owns (edits_of f) l"
proof (intro allI impI)
  fix l assume l: "is_marker b l \<or> l \<in> set (bl_lines b)"
  have ov: "validateBlockOverlap f = Inr ()" using assms(2) by (auto simp: validateBlocks_def res_simps)
  have "\<not> keyed_owns e l" if e: "e \<in> set (fe_keyedLines f)" for e
  proof (cases "is_marker b l")
    case True
    have "validateKeyedLine e = Inr ()" by (rule keyed_declared [OF assms(1) e])
    moreover have "\<forall>w \<in> set go_spaces. hd w \<noteq> hd (kl_key e)" "\<not> has_prefix (kl_key e) (trim_space l)"
      "\<not> has_prefix (trim_space l) (kl_key e)"
      using True assms(3,4) e overlap_ok(2) [OF ov] by (auto simp: is_marker_def one_pass_def keys_clear_def)
    ultimately show ?thesis by (intro key_clear_of_marker) auto
  next
    case False
    with l overlap_ok(2) [OF ov] e assms(4) show ?thesis by blast
  qed
  moreover have "l \<notin> set (fe_addLines f) \<union> set (fe_removeLines f)"
    using l overlap_ok(1) [OF ov] assms(4) by (auto simp: any_marker_def)
  ultimately show "\<not> edit_owns (edits_of f) l" by (simp add: edit_owns_def edits_of_def)
qed

section \<open>Lemmas: one pass\<close>

lemma set_keyed_loop: "set (keyed_loop e found ls) \<subseteq> insert (kl_line e) (set ls)"
  by (induction ls arbitrary: found) auto

lemma set_edit_lines:
  "set (edit_lines (edits_of f) ls) \<subseteq> set ls \<union> kl_line ` set (fe_keyedLines f) \<union> set (fe_addLines f)"
proof -
  have keys: "set (fold applyKeyedLine es ls) \<subseteq> set ls \<union> kl_line ` set es" for es ls
  proof (induction es arbitrary: ls)
    case (Cons e es)
    show ?case using Cons.IH [of "applyKeyedLine e ls"] set_keyed_loop [of e False ls] by (auto simp: applyKeyedLine_def)
  qed simp
  have adds: "set (fold add_line ws ls) \<subseteq> set ls \<union> set ws" for ws ls
    using fold_add_line [of ws ls] by auto
  show ?thesis
    using keys [of "fe_keyedLines f" "remove_lines (fe_removeLines f) ls"]
      adds [of "fe_addLines f" "fold applyKeyedLine (fe_keyedLines f) (remove_lines (fe_removeLines f) ls)"]
    by (auto simp: edit_lines_def edits_of_def remove_lines_def)
qed

lemma applyBlock_lines:
  "applyBlock b ls = Inr ls' \<Longrightarrow> set ls' \<subseteq> set ls \<union> {bm b, em b} \<union> set (bl_lines b)"
  by (erule applyBlock_cases) (auto simp: region_def)

lemma fold_blocks_lines:
  "fold_res applyBlock bs ls = Inr ls' \<Longrightarrow>
   set ls' \<subseteq> set ls \<union> (\<Union>b \<in> set bs. {bm b, em b} \<union> set (bl_lines b))"
proof (induction bs arbitrary: ls)
  case (Cons b bs)
  then obtain ls1 where "applyBlock b ls = Inr ls1" "fold_res applyBlock bs ls1 = Inr ls'"
    by (auto simp: res_simps)
  with Cons.IH applyBlock_lines [of b ls ls1] show ?case by fastforce
qed simp

text \<open>An edit that leaves a block's lines alone leaves the block settled.\<close>

lemma edit_keeps_settled:
  assumes "edit_valid f" "settled_block b ls" "\<forall>l. is_marker b l \<or> l \<in> set (bl_lines b) \<longrightarrow> \<not> edit_owns f l"
  shows "settled_block b (edit_lines f ls)"
proof -
  obtain u m m' v where r: "region b ls u m (bl_lines b) m' v" using assms(2) by (auto simp: settled_block_def)
  then have mk: "is_marker b m" "is_marker b m'" using is_marker_own by (auto simp: region_def)
  have "\<forall>l \<in> set (m # bl_lines b @ [m']). \<not> edit_owns f l" using assms(3) mk by auto
  then obtain u' v' where e: "edit_lines f (u @ (m # bl_lines b @ [m']) @ v) = u' @ (m # bl_lines b @ [m']) @ v'"
    "unowned (edit_owns f) u' = unowned (edit_owns f) u" "unowned (edit_owns f) v' = unowned (edit_owns f) v"
    using edit_lines_keeps [OF assms(1)] by blast
  have "\<not> is_marker b l" if "l \<in> set u' \<union> set v'" for l
  proof
    assume "is_marker b l"
    with assms(3) that have "l \<in> set (unowned (edit_owns f) u') \<union> set (unowned (edit_owns f) v')" by auto
    then have "l \<in> set u \<union> set v" unfolding e(2,3) by auto
    with r \<open>is_marker b l\<close> show False by (auto simp: region_def)
  qed
  with r e(1) have "region b (edit_lines f ls) u' m (bl_lines b) m' v'" by (auto simp: region_def)
  then show ?thesis by (auto simp: settled_block_def)
qed

lemma settled_not_nested:
  assumes "\<forall>b \<in> set bs. settled_block b ls" "blocks_ok bs"
  shows "refuseNestedBlocks ls bs = Inr ()"
  unfolding refuseNestedBlocks_def check_all_Inr_iff
proof
  fix outer assume o: "outer \<in> set bs"
  then obtain u m m' v where r: "region outer ls u m (bl_lines outer) m' v"
    using assms(1) by (auto simp: settled_block_def)
  have inside: "\<not> (length u < i \<and> i < Suc (length u + length (bl_lines outer)))"
    if i: "inner \<in> set bs" "i \<in> set (begins inner ls @ ends inner ls)" for inner i
  proof
    assume k: "length u < i \<and> i < Suc (length u + length (bl_lines outer))"
    then have "ls ! i = bl_lines outer ! (i - Suc (length u))" "i - Suc (length u) < length (bl_lines outer)"
      using r by (auto simp: region_def nth_append nth_Cons')
    then have "ls ! i \<in> set (bl_lines outer)" by simp
    moreover have "is_marker inner (ls ! i)"
      using i(2) by (auto simp: begins_def ends_def positions_mem is_marker_def)
    ultimately show False using assms(2) o i(1) by (auto simp: blocks_ok_def any_marker_def)
  qed
  have "block_region ls outer = Some (length u, Suc (length u + length (bl_lines outer)))"
    using region_positions [OF r] by (simp add: block_region_def)
  then show "(case block_region ls outer of None \<Rightarrow> Inr ()
     | Some (b, e) \<Rightarrow> check_all (\<lambda>inner. if bl_name inner = bl_name outer then Inr ()
         else check_all (\<lambda>i. guard_res (\<not> (b < i \<and> i < e)) (NestedBlocks (bl_name outer) (bl_name inner)))
                (begins inner ls @ ends inner ls)) bs) = Inr ()"
    using inside by (simp add: check_all_Inr_iff guard_res_Inr_iff)
qed

text \<open>The accepting runs of \<open>resolveLine\<close>.\<close>

lemma resolveLine_InrD:
  assumes "resolveLine f file = Inr (Some content)" "currentLines file = (ls, term, exist)"
  obtains ls1 kept where "refuseNestedBlocks ls (fe_blocks f) = Inr ()"
    "fold_res applyBlock (fe_blocks f) ls = Inr ls1" "kept = edit_lines (edits_of f) ls1"
    "content = (if kept = [] then [] else join term kept @ term)"
proof -
  have "\<not> (\<not> exist \<and> fe_keyedLines f = [] \<and> fe_addLines f = [] \<and> fe_blocks f = [])"
    using assms by (auto simp: resolveLine_def)
  then have "bind_res (refuseNestedBlocks ls (fe_blocks f)) (\<lambda>_.
      bind_res (fold_res applyBlock (fe_blocks f) ls) (\<lambda>ls1.
        let kept = edit_lines (edits_of f) ls1
        in Inr (Some (if kept = [] then [] else join term kept @ term)))) = Inr (Some content)"
    using assms unfolding resolveLine_def edit_lines_def edits_of_def by (simp only: prod.case if_False)
  then obtain u ls1 where "refuseNestedBlocks ls (fe_blocks f) = Inr u" "fold_res applyBlock (fe_blocks f) ls = Inr ls1"
    "(if edit_lines (edits_of f) ls1 = [] then [] else join term (edit_lines (edits_of f) ls1) @ term) = content"
    unfolding bind_res_Inr_iff Let_def by (elim exE conjE) (rule that, assumption+, simp)
  then show thesis
    by (intro that [of ls1 "edit_lines (edits_of f) ls1"]) simp_all
qed

lemma resolveLine_again:
  assumes "currentLines (Some content) = (kept, term, True)" "refuseNestedBlocks kept (fe_blocks f) = Inr ()"
    "fold_res applyBlock (fe_blocks f) kept = Inr kept" "edit_lines (edits_of f) kept = kept"
  shows "resolveLine f (Some content) = Inr (Some (if kept = [] then [] else join term kept @ term))"
  using assms by (simp add: resolveLine_def edit_lines_def edits_of_def)

lemma declared_lines_clean:
  assumes "validateKeyedLines f = Inr ()" "validateBlocks f = Inr ()" "one_pass f"
  shows "\<forall>l \<in> kl_line ` set (fe_keyedLines f) \<union> set (fe_addLines f)
           \<union> (\<Union>b \<in> set (fe_blocks f). {bm b, em b} \<union> set (bl_lines b)). clean_line l"
proof -
  have no_break: "clean_line l" if "\<not> contains_any l [CR, NL]" for l
  proof -
    have "NL \<notin> set l" "CR \<notin> set l" using that by (simp_all add: contains_any_iff) blast+
    then show ?thesis by (auto simp: clean_line_def has_suffix_iff)
  qed
  have k: "\<forall>e \<in> set (fe_keyedLines f). clean_line (kl_line e)"
  proof
    fix e assume e: "e \<in> set (fe_keyedLines f)"
    have "validateKeyedLine e = Inr ()" by (rule keyed_declared [OF assms(1) e])
    then have "\<not> contains_any (kl_line e) [CR, NL]" by (auto simp: validateKeyedLine_def split: if_splits)
    then show "clean_line (kl_line e)" by (rule no_break)
  qed
  have b: "clean_line (bm b) \<and> clean_line (em b) \<and> (\<forall>l \<in> set (bl_lines b). clean_line l)"
    if "b \<in> set (fe_blocks f)" for b
  proof -
    have "validate_names [] (fe_blocks f) = Inr ()"
      and l: "\<forall>l \<in> set (bl_lines b). \<not> contains_any l [CR, NL]"
      using assms(2) that by (auto simp: validateBlocks_def res_simps split: if_splits)
    with validate_names_ok that have "validateBlockName (bl_name b) = Inr ()" by blast
    then have "\<not> contains_any (bl_name b) [CR, NL]" by (auto simp: validateBlockName_def split: if_splits)
    then have "\<not> contains_any (bm b) [CR, NL]" "\<not> contains_any (em b) [CR, NL]"
      by (auto simp: contains_any_iff blockMarkers_def)
    with l no_break show ?thesis by blast
  qed
  from k b assms(3) show ?thesis by (auto simp: one_pass_def)
qed

section \<open>Properties\<close>



text \<open>
  C27: apart from managed blocks, a line edit leaves every line it does not own alone: the lines of
  the file it produces that are neither added, removed nor keyed are those of the old file, in the
  same order.
\<close>

theorem resolveLine_leaves_others:
  assumes "validateKeyedLines f = Inr ()" and "one_pass f" and "fe_blocks f = []"
    and "\<forall>l \<in> set (fst (currentLines file)). clean_line l"
    and "resolveLine f file = Inr (Some content)"
  shows "unowned (edit_owns (edits_of f)) (scan_lines content) = unowned (edit_owns (edits_of f)) (fst (currentLines file))"
proof -
  obtain ls t0 exist where cur: "currentLines file = (ls, t0, exist)" by (metis surj_pair)
  then have t0: "t0 = [NL] \<or> t0 = [CR, NL]"
    using dominantTerminator_cases by (auto simp: currentLines_def split: option.splits)
  obtain ls1 kept where run: "fold_res applyBlock (fe_blocks f) ls = Inr ls1"
    "kept = edit_lines (edits_of f) ls1" "content = (if kept = [] then [] else join t0 kept @ t0)"
    by (rule resolveLine_InrD [OF assms(5) cur])
  have valid: "edit_valid (edits_of f)" by (rule edits_valid [OF assms(1,2)])
  have "validateBlocks f = Inr ()"
    using assms(3) by (auto simp: validateBlocks_def validateBlockOverlap_def owned_entries_def marker_entries_def
        entry_of_def res_simps)
  then have "\<forall>l \<in> set kept. clean_line l"
    using declared_lines_clean [OF assms(1) _ assms(2)] set_edit_lines [of f ls1] run(1,2) assms(3,4) cur by auto
  then have "scan_lines content = kept"
    using scan_terminated [OF _ t0] run(3) by (simp add: join_terminated scan_lines_def)
  with edit_lines_keeps [OF valid, of "[]" ls "[]"] run(1,2) assms(3) cur show ?thesis by auto
qed

theorem resolveLine_leaves_others_witness:
  "unowned (edit_owns (edits_of \<lparr>fe_addLines = [''z''], fe_removeLines = [''old''], fe_keyedLines = [\<lparr>kl_key = ''k='', kl_line = ''k=1''\<rparr>],
       fe_blocks = []\<rparr>)) (scan_lines (''a'' @ [NL] @ ''k=1'' @ [NL] @ ''b'' @ [NL] @ ''z'' @ [NL])) = [''a'', ''b'']"
proof -
  let ?f = "\<lparr>fe_addLines = [''z''], fe_removeLines = [''old''], fe_keyedLines = [\<lparr>kl_key = ''k='', kl_line = ''k=1''\<rparr>], fe_blocks = []\<rparr>"
  let ?file = "Some (''a'' @ [NL] @ ''old'' @ [NL] @ ''  k=0'' @ [NL] @ ''b'')"
  have "unowned (edit_owns (edits_of ?f)) (fst (currentLines ?file)) = [''a'', ''b'']" by code_simp
  moreover have "unowned (edit_owns (edits_of ?f)) (scan_lines (''a'' @ [NL] @ ''k=1'' @ [NL] @ ''b'' @ [NL] @ ''z'' @ [NL]))
      = unowned (edit_owns (edits_of ?f)) (fst (currentLines ?file))"
    by (rule resolveLine_leaves_others) code_simp+
  ultimately show ?thesis by simp
qed

section \<open>Declarations the checks accept although they do not converge\<close>

text \<open>An added line with a line break is appended again by every run.\<close>

lemma added_line_break_grows:
  "let f = \<lparr>fe_addLines = [[CHR ''x'', NL, CHR ''y'']], fe_removeLines = [], fe_keyedLines = [], fe_blocks = []\<rparr>;
       once = [CHR ''x'', NL, CHR ''y'', NL]
   in validateKeyedLines f = Inr () \<and> validateBlocks f = Inr ()
      \<and> resolveLine f None = Inr (Some once) \<and> resolveLine f (Some once) = Inr (Some (once @ once))"
  by code_simp

text \<open>A line both added and removed moves behind the other added lines on the second run.\<close>

lemma added_and_removed_moves:
  "let f = \<lparr>fe_addLines = [''a'', ''b''], fe_removeLines = [''a''], fe_keyedLines = [], fe_blocks = []\<rparr>
   in validateKeyedLines f = Inr () \<and> validateBlocks f = Inr ()
      \<and> resolveLine f None = Inr (Some (''a'' @ [NL] @ ''b'' @ [NL]))
      \<and> resolveLine f (Some (''a'' @ [NL] @ ''b'' @ [NL])) = Inr (Some (''b'' @ [NL] @ ''a'' @ [NL]))"
  by code_simp

text \<open>A keyed line that is a marker followed by a blank passes the checks; the file it produces is refused.\<close>

lemma keyed_marker_refused:
  "let mk = ''# BEGIN GONF b '';
       f = \<lparr>fe_addLines = [], fe_removeLines = [], fe_keyedLines = [\<lparr>kl_key = mk, kl_line = mk\<rparr>],
            fe_blocks = [\<lparr>bl_name = ''b'', bl_lines = []\<rparr>]\<rparr>;
       once = ''# BEGIN GONF b'' @ [NL] @ ''# END GONF b'' @ [NL] @ mk @ [NL]
   in validateKeyedLines f = Inr () \<and> validateBlocks f = Inr ()
      \<and> resolveLine f None = Inr (Some once) \<and> resolveLine f (Some once) = Inl (MarkerLayout ''b'' 2 1 False)"
  by code_simp

end
