(* ===== verification/Graphs.thy ===== *)
theory Graphs
  imports Main
begin

text \<open>
  Facts on relations the components that refuse cycles share: the relation of a graph given as a list
  of nodes with their successors, and when edges around one node keep a relation acyclic.
\<close>

definition edge_rel :: "('a \<times> 'a list) list \<Rightarrow> ('a \<times> 'a) set" where
  "edge_rel edges = {(i, d). \<exists>deps. map_of edges i = Some deps \<and> d \<in> set deps}"

lemma edge_rel_iff: "(i, d) \<in> edge_rel edges \<longleftrightarrow> (\<exists>deps. map_of edges i = Some deps \<and> d \<in> set deps)"
  by (simp add: edge_rel_def)

lemma map_of_SomeK: "map_of al k = Some v \<Longrightarrow> k \<in> fst ` set al"
  by (metis domI dom_map_of_conv_image_fst)

lemma acyclic_none [simp]: "acyclic {}"
  by (simp add: acyclic_def)

text \<open>A node closed under the edges that never lead to a target cannot reach it.\<close>

lemma closed_never_reaches:
  assumes "a \<in> S" "\<And>u v. u \<in> S \<Longrightarrow> (u, v) \<in> R \<Longrightarrow> v \<noteq> t \<and> ((\<exists>w. (v, w) \<in> R) \<longrightarrow> v \<in> S)"
  shows "(a, t) \<notin> R\<^sup>+"
proof
  assume "(a, t) \<in> R\<^sup>+"
  then show False using assms(1)
  proof (induction rule: converse_trancl_induct)
    case (base y)
    then show False using assms(2) by blast
  next
    case (step y z)
    then have "\<exists>w. (z, w) \<in> R" by (meson tranclD)
    with step show False using assms(2) [of y z] by blast
  qed
qed

lemma reach_source_unchanged:
  "(a, i) \<in> (R \<union> {i} \<times> D)\<^sup>* \<Longrightarrow> (a, i) \<in> R\<^sup>*"
  by (induction rule: converse_rtrancl_induct) (auto intro: converse_rtrancl_into_rtrancl)

lemma acyclic_add_edges:
  assumes "acyclic R" "finite D" "\<And>d. d \<in> D \<Longrightarrow> (d, i) \<notin> R\<^sup>*"
  shows "acyclic (R \<union> {i} \<times> D)"
  using assms(2,3)
proof (induction rule: finite_induct)
  case (insert d D)
  have "R \<union> {i} \<times> insert d D = insert (i, d) (R \<union> {i} \<times> D)" by auto
  moreover have "(d, i) \<notin> (R \<union> {i} \<times> D)\<^sup>*" using insert.prems reach_source_unchanged [of d i R D] by blast
  ultimately show ?case using insert by (simp add: acyclic_insert)
qed (simp add: assms(1))

lemma acyclic_new_node:
  assumes "acyclic R" "i \<notin> D" "finite D" "\<And>x. (x, i) \<notin> R" "\<And>x. (i, x) \<notin> R"
  shows "acyclic (R \<union> {i} \<times> D)"
proof (rule acyclic_add_edges [OF assms(1,3)])
  fix d assume "d \<in> D"
  then have "d \<noteq> i" using assms(2) by auto
  then show "(d, i) \<notin> R\<^sup>*" using assms(4) by (auto elim: rtranclE)
qed

lemma cycle_through: "x \<in> D \<Longrightarrow> (x, i) \<in> R\<^sup>* \<Longrightarrow> \<not> acyclic (R \<union> {i} \<times> D)"
proof -
  assume x: "x \<in> D" and r: "(x, i) \<in> R\<^sup>*"
  have "(x, i) \<in> (R \<union> {i} \<times> D)\<^sup>*" by (rule rtrancl_mono [THEN subsetD, OF _ r]) auto
  moreover have "(i, x) \<in> R \<union> {i} \<times> D" using x by auto
  ultimately have "(i, i) \<in> (R \<union> {i} \<times> D)\<^sup>+" by (rule rtrancl_into_trancl2 [rotated])
  then show ?thesis by (auto simp: acyclic_def)
qed

text \<open>New edges that all start or end at one node can only close cycles through that node.\<close>

lemma new_cycle_passes:
  assumes "acyclic R" "\<And>a b. (a, b) \<in> R' \<Longrightarrow> (a, b) \<in> R \<or> a = c \<or> b = c" "(c, c) \<notin> R'\<^sup>+"
  shows "acyclic R'"
proof -
  have split: "(x, y) \<in> R\<^sup>+ \<or> (x, c) \<in> R'\<^sup>* \<and> (c, y) \<in> R'\<^sup>*" if "(x, y) \<in> R'\<^sup>+" for x y
    using that
  proof (induction rule: trancl_induct)
    case (base y)
    then show ?case using assms(2) [of x y] by auto
  next
    case (step y z)
    then have "(x, y) \<in> R'\<^sup>*" by (simp add: trancl_into_rtrancl)
    with step assms(2) [of y z] show ?case
      by (auto intro: trancl_into_trancl rtrancl_into_rtrancl)
  qed
  have "(x, x) \<notin> R'\<^sup>+" for x
  proof
    assume x: "(x, x) \<in> R'\<^sup>+"
    have "(x, x) \<notin> R\<^sup>+" using assms(1) by (simp add: acyclic_def)
    with split [OF x] have "(x, c) \<in> R'\<^sup>*" "(c, x) \<in> R'\<^sup>*" by auto
    with x have "(c, c) \<in> R'\<^sup>+" by (meson rtrancl_trancl_trancl trancl_rtrancl_trancl)
    with assms(3) show False by contradiction
  qed
  then show ?thesis by (simp add: acyclic_def)
qed

end
