(* ===== verification/Repository.thy ===== *)
theory Repository
  imports Report Graphs "HOL-Library.AList" "HOL-Library.Char_ord" "HOL-Library.List_Lexorder"
begin

text \<open>
  The registry of one recipe scope (\<open>resource/repository.go\<close>, \<open>resource/resource.go\<close>, \<open>resource/multi.go\<close>)
  and amendments of a registered resource (\<open>resource/amend.go\<close>). Go's maps are association lists
  with distinct keys. The registered value is Go's \<open>any\<close>, a type parameter. A plan draft is read here
  only for its id; the fields a daemon reload fills stand by name, the others are one parameter.
  Locks and log lines are not modelled.
\<close>

section \<open>Resources\<close>

text \<open>\<open>rc_dependsOn\<close> lists the keys of the Go set in the order an iteration visits them.\<close>

record 'v Resource =
  rc_Type :: string
  rc_Name :: string
  rc_registered :: "'v option"
  rc_dependsOn :: "string list"

definition ID :: "'v Resource \<Rightarrow> string" where
  "ID r = FormatID (rc_Type r) (rc_Name r)"

definition Dependencies :: "'v Resource \<Rightarrow> string list" where
  "Dependencies r = [ID r]"

definition sortedDependsOn :: "'v Resource \<Rightarrow> string list" where
  "sortedDependsOn r = sort (rc_dependsOn r)"

definition Multi_String :: "'v Resource list \<Rightarrow> string" where
  "Multi_String m = join '', '' (map ID m)"

definition Multi_ID :: "'v Resource list \<Rightarrow> string" where
  "Multi_ID m = join ''+'' (map ID m)"

definition Multi_Dependencies :: "'v Resource list \<Rightarrow> string list" where
  "Multi_Dependencies m = concat (map Dependencies m)"

text \<open>A key added to a Go set.\<close>

definition add_key :: "string \<Rightarrow> string list \<Rightarrow> string list" where
  "add_key k ks = (if k \<in> set ks then ks else ks @ [k])"

definition new_resource :: "string \<Rightarrow> string \<Rightarrow> 'v option \<Rightarrow> string list \<Rightarrow> 'v Resource" where
  "new_resource typ name v deps =
     \<lparr>rc_Type = typ, rc_Name = name, rc_registered = v, rc_dependsOn = fold add_key deps []\<rparr>"

section \<open>The repository\<close>

text \<open>\<open>pd_rest\<close> holds the fields no operation here reads; \<open>None\<close> is their zero value.\<close>

record 'o PlanDraft =
  pd_Kind :: string
  pd_ID :: string
  pd_User :: bool
  pd_IfChanged :: bool
  pd_Watch :: "string list"
  pd_Deps :: "string list"
  pd_rest :: "'o option"

text \<open>\<open>DependsOn.SortedIDs\<close> of \<open>embed/embed.go\<close>: the ids of a dependency set, sorted.\<close>

definition SortedIDs :: "string list \<Rightarrow> string list" where
  "SortedIDs ids = sort (remdups ids)"

record ('v, 'o) repository =
  rp_registered :: "(string \<times> 'v Resource) list"
  rp_drafts :: "(string \<times> 'o PlanDraft) list"
  rp_declaredUnder :: "(string \<times> string) list"
  rp_whenStack :: "string list"

definition newRepository :: "('v, 'o) repository" where
  "newRepository = \<lparr>rp_registered = [], rp_drafts = [], rp_declaredUnder = [], rp_whenStack = []\<rparr>"

datatype collision =
    CollisionBoth string string string
  | CollisionSecond string string
  | CollisionFirst string string
  | CollisionPlain string

definition collisionError :: "string \<Rightarrow> string \<Rightarrow> string \<Rightarrow> collision" where
  "collisionError i first second =
     (if first \<noteq> [] \<and> second \<noteq> [] then CollisionBoth i first second
      else if second \<noteq> [] then CollisionSecond i second
      else if first \<noteq> [] then CollisionFirst i first
      else CollisionPlain i)"

definition currentWhenContext :: "('v, 'o) repository \<Rightarrow> string" where
  "currentWhenContext r = (if rp_whenStack r = [] then [] else last (rp_whenStack r))"

text \<open>A missing key of a Go map of strings reads as the empty string.\<close>

definition declared_under :: "('v, 'o) repository \<Rightarrow> string \<Rightarrow> string" where
  "declared_under r i = (case map_of (rp_declaredUnder r) i of Some d \<Rightarrow> d | None \<Rightarrow> [])"

definition register :: "'v Resource \<Rightarrow> ('v, 'o) repository \<Rightarrow> (collision, ('v, 'o) repository) result" where
  "register res r =
     (if map_of (rp_registered r) (ID res) \<noteq> None
      then Inl (collisionError (ID res) (declared_under r (ID res)) (currentWhenContext r))
      else Inr (r\<lparr>rp_registered := AList.update (ID res) res (rp_registered r),
                  rp_declaredUnder := AList.update (ID res) (currentWhenContext r) (rp_declaredUnder r)\<rparr>))"

definition registeredIDs :: "('v, 'o) repository \<Rightarrow> string list" where
  "registeredIDs r = sort (map fst (rp_registered r))"

definition recordDraft :: "'o PlanDraft \<Rightarrow> ('v, 'o) repository \<Rightarrow> ('v, 'o) repository" where
  "recordDraft d r =
     (if pd_ID d = [] then r
      else if map_of (rp_registered r) (pd_ID d) = None then r
      else r\<lparr>rp_drafts := AList.update (pd_ID d) d (rp_drafts r)\<rparr>)"

definition draftsSnapshot :: "('v, 'o) repository \<Rightarrow> 'o PlanDraft list" where
  "draftsSnapshot r = map (\<lambda>i. the (map_of (rp_drafts r) i)) (sort (map fst (rp_drafts r)))"

definition Registered :: "string \<Rightarrow> ('v, 'o) repository \<Rightarrow> ('v Resource \<times> 'v option) option" where
  "Registered i r = map_option (\<lambda>res. (res, rc_registered res)) (map_of (rp_registered r) i)"

text \<open>
  \<open>pushWhenContext\<close> also returns the index the pop it hands out keeps. A pop after an enclosing one
  would slice past the end of the stack; callers defer their pops, so that is \<open>None\<close> here.
\<close>

definition pushWhenContext :: "string \<Rightarrow> ('v, 'o) repository \<Rightarrow> ('v, 'o) repository \<times> nat" where
  "pushWhenContext desc r =
     (let stack = rp_whenStack r @ [desc] in (r\<lparr>rp_whenStack := stack\<rparr>, length stack - 1))"

definition popWhenContext :: "nat \<Rightarrow> ('v, 'o) repository \<Rightarrow> ('v, 'o) repository option" where
  "popWhenContext i r =
     (if i \<le> length (rp_whenStack r) then Some (r\<lparr>rp_whenStack := take i (rp_whenStack r)\<rparr>) else None)"

section \<open>Watch targets\<close>

definition add_targets :: "string list \<Rightarrow> string \<Rightarrow> string list \<Rightarrow> string list" where
  "add_targets ids w out =
     (let out1 = (if w \<in> set ids then add_key w out else out) in
      if directoryNotePath w = None then out1
      else fold (\<lambda>i out. if i \<noteq> w \<and> watchCovers w i then add_key i out else out) ids out1)"

definition RegisteredWatchTargets :: "string list \<Rightarrow> ('v, 'o) repository \<Rightarrow> string list" where
  "RegisteredWatchTargets watch r = fold (add_targets (registeredIDs r)) watch []"

section \<open>Amending a registered resource\<close>

definition deps_of :: "('v, 'o) repository \<Rightarrow> string \<Rightarrow> string list" where
  "deps_of r i = (case map_of (rp_registered r) i of Some res \<Rightarrow> rc_dependsOn res | None \<Rightarrow> [])"

text \<open>
  The loop of \<open>repository.reaches\<close>; the stack's top is the list's head. The loop over one node's
  dependencies returns as soon as it meets the target and otherwise pushes them all.
\<close>

lemma reach_measure: "i \<notin> set seen \<Longrightarrow> i \<in> set keys \<Longrightarrow>
    card (set keys - insert i (set seen)) < card (set keys - set seen)"
  by (rule psubset_card_mono) auto

function reach_walk :: "(string \<times> string list) list \<Rightarrow> string \<Rightarrow> string list \<Rightarrow> string list \<Rightarrow> bool" where
  "reach_walk edges target seen [] = False"
| "reach_walk edges target seen (i # stack) =
     (if i \<in> set seen then reach_walk edges target seen stack
      else case map_of edges i of
        None \<Rightarrow> reach_walk edges target (i # seen) stack
      | Some deps \<Rightarrow>
          if target \<in> set deps then True else reach_walk edges target (i # seen) (rev deps @ stack))"
  by pat_completeness auto
termination
proof (relation "measures [\<lambda>(edges, target, seen, stack). card (fst ` set edges - set seen),
    \<lambda>(edges, target, seen, stack). length stack]", goal_cases)
  case (3 edges target seen i stack)
  have "card (fst ` set edges - set (i # seen)) \<le> card (fst ` set edges - set seen)"
    by (rule card_mono) auto
  then show ?case by auto
next
  case (4 edges target seen i stack deps)
  then have "i \<in> set (map fst edges)" by (auto simp: rev_image_eqI dest!: map_of_SomeD)
  with reach_measure [of i seen "map fst edges"] 4 show ?case by simp
qed auto

definition repo_edges :: "('v, 'o) repository \<Rightarrow> (string \<times> string list) list" where
  "repo_edges r = map (\<lambda>(i, res). (i, rc_dependsOn res)) (rp_registered r)"

definition repo_reaches :: "('v, 'o) repository \<Rightarrow> string \<Rightarrow> string \<Rightarrow> bool" where
  "repo_reaches r start target = reach_walk (repo_edges r) target [] [start]"

datatype 'e amend_error =
    NotRegistered string
  | DependsOnItself string
  | AlreadyDepends string string
  | SinkRefuses 'e

definition checkAmendable :: "('v, 'o) repository \<Rightarrow> string \<Rightarrow> string list \<Rightarrow> ('e amend_error, 'v Resource) result" where
  "checkAmendable r i deps =
     (case map_of (rp_registered r) i of
        None \<Rightarrow> Inl (NotRegistered i)
      | Some res \<Rightarrow>
          bind_res (check_all (\<lambda>dep. guard_res (dep \<noteq> i) (DependsOnItself i)) deps) (\<lambda>_.
          bind_res (check_all (\<lambda>dep. guard_res (\<not> repo_reaches r dep i) (AlreadyDepends dep i)) deps) (\<lambda>_.
          Inr res)))"

text \<open>\<open>sink\<close> is the installed draft amender, if any; it works on the recorded plan \<open>p\<close>.\<close>

definition AmendRegistered ::
  "('o PlanDraft \<Rightarrow> 'p \<Rightarrow> ('e, 'p) result) option \<Rightarrow> 'o PlanDraft \<Rightarrow> string list
   \<Rightarrow> ('v, 'o) repository \<times> 'p \<Rightarrow> ('e amend_error, ('v, 'o) repository \<times> 'p) result" where
  "AmendRegistered sink d deps = (\<lambda>(r, p).
     bind_res (checkAmendable r (pd_ID d) deps) (\<lambda>res.
     bind_res (case sink of None \<Rightarrow> Inr p | Some f \<Rightarrow> map_err SinkRefuses (f d p)) (\<lambda>p'.
     Inr (r\<lparr>rp_registered := AList.update (pd_ID d)
               (res\<lparr>rc_dependsOn := fold add_key deps (rc_dependsOn res)\<rparr>) (rp_registered r),
            rp_drafts := AList.update (pd_ID d) d (rp_drafts r)\<rparr>, p'))))"

section \<open>Declaration errors\<close>

text \<open>
  \<open>internal/declerr\<close>: the first report, kept until it is taken, or the sink a recording installs,
  which keeps the first error it gets. The call site's location is not modelled.
\<close>

record 'e declerr =
  de_first :: "'e option"
  de_sink :: "'e option option"

definition first_of :: "'e option \<Rightarrow> 'e \<Rightarrow> 'e option" where
  "first_of old e = (case old of None \<Rightarrow> Some e | Some _ \<Rightarrow> old)"

definition Report :: "'e \<Rightarrow> 'e declerr \<Rightarrow> 'e declerr" where
  "Report e d =
     (case de_sink d of
        Some stash \<Rightarrow> d\<lparr>de_sink := Some (first_of stash e)\<rparr>
      | None \<Rightarrow> d\<lparr>de_first := first_of (de_first d) e\<rparr>)"

definition TakeFirst :: "'e declerr \<Rightarrow> 'e option \<times> 'e declerr" where
  "TakeFirst d = (de_first d, d\<lparr>de_first := None\<rparr>)"

section \<open>Lemmas: keys and targets\<close>

lemma set_add_key [simp]: "set (add_key k ks) = insert k (set ks)"
  by (auto simp: add_key_def)

lemma set_fold_add_key [simp]: "set (fold add_key ks s) = set ks \<union> set s"
  by (induction ks arbitrary: s) auto

lemma distinct_add_key [simp]: "distinct ks \<Longrightarrow> distinct (add_key k ks)"
  by (simp add: add_key_def)

lemma distinct_fold_add_key [simp]: "distinct s \<Longrightarrow> distinct (fold add_key ks s)"
  by (induction ks arbitrary: s) auto

lemma set_registeredIDs [simp]: "set (registeredIDs r) = fst ` set (rp_registered r)"
  by (simp add: registeredIDs_def)

lemma set_fold_if:
  "set (fold (\<lambda>i out. if P i then add_key i out else out) ids out) = set out \<union> {i \<in> set ids. P i}"
  by (induction ids arbitrary: out) auto

lemma watchCovers_self [simp]: "watchCovers w w"
  by (simp add: watchCovers_def)

lemma watchCovers_plain: "directoryNotePath w = None \<Longrightarrow> watchCovers w i \<longleftrightarrow> i = w"
  by (auto simp: watchCovers_def)

lemma set_add_targets: "set (add_targets ids w out) = set out \<union> {i \<in> set ids. watchCovers w i}"
  by (auto simp: add_targets_def Let_def set_fold_if watchCovers_plain)

lemma set_RegisteredWatchTargets:
  "set (RegisteredWatchTargets watch r) = {i \<in> fst ` set (rp_registered r). \<exists>w \<in> set watch. watchCovers w i}"
proof -
  have "set (fold (add_targets ids) watch out) = set out \<union> {i \<in> set ids. \<exists>w \<in> set watch. watchCovers w i}"
    for ids out
    by (induction watch arbitrary: out) (auto simp: set_add_targets)
  then show ?thesis by (simp add: RegisteredWatchTargets_def)
qed

section \<open>Lemmas: the walk decides reachability\<close>

declare reach_walk.simps(2) [simp del]

lemma reach_walk_sound:
  "reach_walk edges target seen stack \<Longrightarrow> \<exists>s \<in> set stack. (s, target) \<in> (edge_rel edges)\<^sup>+"
proof (induction edges target seen stack rule: reach_walk.induct)
  case (2 edges target seen i stack)
  show ?case
  proof (cases "i \<in> set seen \<or> map_of edges i = None")
    case True
    with 2 show ?thesis by (auto simp: reach_walk.simps(2) split: if_splits)
  next
    case False
    then obtain deps where d: "i \<notin> set seen" "map_of edges i = Some deps" by auto
    then have e: "(i, x) \<in> edge_rel edges" if "x \<in> set deps" for x using that by (auto simp: edge_rel_def)
    from 2 d consider "target \<in> set deps"
      | s where "s \<in> set deps \<or> s \<in> set stack" "(s, target) \<in> (edge_rel edges)\<^sup>+"
      by (auto simp: reach_walk.simps(2) split: if_splits)
    then show ?thesis using e by cases (auto intro: trancl_into_trancl2)
  qed
qed simp

text \<open>A walk that finds nothing has closed its stack under the edges without meeting the target.\<close>

lemma reach_walk_complete:
  assumes "\<not> reach_walk edges target seen stack"
    and "\<forall>u \<in> set seen. \<forall>v. (u, v) \<in> edge_rel edges \<longrightarrow> v \<noteq> target \<and> v \<in> set seen \<union> set stack"
  shows "\<exists>S. set seen \<union> set stack \<subseteq> S \<and> (\<forall>u \<in> S. \<forall>v. (u, v) \<in> edge_rel edges \<longrightarrow> v \<noteq> target \<and> v \<in> S)"
  using assms
proof (induction edges target seen stack rule: reach_walk.induct)
  case (1 edges target seen)
  then show ?case by auto
next
  case (2 edges target seen i stack)
  show ?case
  proof (cases "i \<in> set seen")
    case True
    have "\<exists>S. set seen \<union> set stack \<subseteq> S
        \<and> (\<forall>u \<in> S. \<forall>v. (u, v) \<in> edge_rel edges \<longrightarrow> v \<noteq> target \<and> v \<in> S)"
    proof (rule "2.IH"(1) [OF True])
      show "\<not> reach_walk edges target seen stack" using 2(4) True by (simp add: reach_walk.simps(2))
      show "\<forall>u \<in> set seen. \<forall>v. (u, v) \<in> edge_rel edges \<longrightarrow> v \<noteq> target \<and> v \<in> set seen \<union> set stack"
        using 2(5) True by fastforce
    qed
    with True show ?thesis by (simp add: insert_absorb)
  next
    case False
    define deps where "deps = (case map_of edges i of None \<Rightarrow> [] | Some deps \<Rightarrow> deps)"
    have e: "(i, v) \<in> edge_rel edges \<longleftrightarrow> v \<in> set deps" for v
      by (cases "map_of edges i") (simp_all add: edge_rel_def deps_def)
    have t: "target \<notin> set deps" and w: "\<not> reach_walk edges target (i # seen) (rev deps @ stack)"
      using 2(4) False by (auto simp: deps_def reach_walk.simps(2) split: option.splits if_splits)
    have inv: "\<forall>u \<in> set (i # seen). \<forall>v. (u, v) \<in> edge_rel edges
        \<longrightarrow> v \<noteq> target \<and> v \<in> set (i # seen) \<union> set (rev deps @ stack)"
      using 2(5) t by (auto simp: e)
    have "\<exists>S. set (i # seen) \<union> set (rev deps @ stack) \<subseteq> S
        \<and> (\<forall>u \<in> S. \<forall>v. (u, v) \<in> edge_rel edges \<longrightarrow> v \<noteq> target \<and> v \<in> S)"
    proof (cases "map_of edges i")
      case None
      then have d: "deps = []" by (simp add: deps_def)
      show ?thesis using "2.IH"(2) [OF False None] w inv unfolding d by simp
    next
      case (Some ds)
      then have d: "deps = ds" by (simp add: deps_def)
      show ?thesis using "2.IH"(3) [OF False Some] t w inv unfolding d by simp
    qed
    then show ?thesis by auto
  qed
qed

lemma reach_walk_iff: "reach_walk edges target [] [start] \<longleftrightarrow> (start, target) \<in> (edge_rel edges)\<^sup>+"
proof
  assume "(start, target) \<in> (edge_rel edges)\<^sup>+"
  then obtain u where u: "(start, u) \<in> (edge_rel edges)\<^sup>*" "(u, target) \<in> edge_rel edges" by (meson tranclD2)
  show "reach_walk edges target [] [start]"
  proof (rule ccontr)
    assume "\<not> reach_walk edges target [] [start]"
    from reach_walk_complete [OF this] obtain S where
      "start \<in> S" "\<forall>u \<in> S. \<forall>v. (u, v) \<in> edge_rel edges \<longrightarrow> v \<noteq> target \<and> v \<in> S" by auto
    moreover from u(1) this have "u \<in> S" by (induction rule: rtrancl_induct) auto
    ultimately show False using u(2) by blast
  qed
qed (use reach_walk_sound in force)

text \<open>The dependency graph of a repository.\<close>

definition dep_rel :: "('v, 'o) repository \<Rightarrow> (string \<times> string) set" where
  "dep_rel r = {(i, d). d \<in> set (deps_of r i)}"

lemma map_of_repo_edges: "map_of (repo_edges r) i = map_option rc_dependsOn (map_of (rp_registered r) i)"
  by (simp add: repo_edges_def map_of_map [of rc_dependsOn])

lemma edge_rel_repo: "edge_rel (repo_edges r) = dep_rel r"
proof -
  have "(i, d) \<in> edge_rel (repo_edges r) \<longleftrightarrow> (i, d) \<in> dep_rel r" for i d
    by (cases "map_of (rp_registered r) i") (simp_all add: edge_rel_def dep_rel_def deps_of_def map_of_repo_edges)
  then show ?thesis by auto
qed

lemma repo_reaches_iff: "repo_reaches r a b \<longleftrightarrow> (a, b) \<in> (dep_rel r)\<^sup>+"
  unfolding repo_reaches_def reach_walk_iff edge_rel_repo by (rule refl)

lemma checkAmendable_Inr_iff:
  "checkAmendable r i deps = Inr res
   \<longleftrightarrow> map_of (rp_registered r) i = Some res \<and> (\<forall>d \<in> set deps. (d, i) \<notin> (dep_rel r)\<^sup>*)"
  by (auto simp: checkAmendable_def res_simps repo_reaches_iff rtrancl_eq_or_trancl split: option.splits)

lemma dep_rel_add: "dep_rel r = R \<Longrightarrow> dep_rel (r\<lparr>rp_registered := AList.update i res (rp_registered r)\<rparr>)
    = (R - {i} \<times> UNIV) \<union> {i} \<times> set (rc_dependsOn res)"
  by (auto simp: dep_rel_def deps_of_def update_conv' split: if_splits)

lemma dep_rel_other [simp]:
  "dep_rel (r\<lparr>rp_drafts := ds\<rparr>) = dep_rel r" "dep_rel (r\<lparr>rp_declaredUnder := du\<rparr>) = dep_rel r"
  "dep_rel (r\<lparr>rp_whenStack := ws\<rparr>) = dep_rel r" "dep_rel (newRepository :: ('v, 'o) repository) = {}"
  by (simp_all add: dep_rel_def deps_of_def newRepository_def)

lemma dep_rel_from: "map_of (rp_registered r) i = None \<Longrightarrow> (i, d) \<notin> dep_rel r"
  by (simp add: dep_rel_def deps_of_def)

section \<open>Well-formedness\<close>

text \<open>What the struct's comments promise of the four maps.\<close>

definition repo_wf :: "('v, 'o) repository \<Rightarrow> bool" where
  "repo_wf r \<longleftrightarrow>
     distinct (map fst (rp_registered r)) \<and> map fst (rp_declaredUnder r) = map fst (rp_registered r)
     \<and> distinct (map fst (rp_drafts r)) \<and> fst ` set (rp_drafts r) \<subseteq> fst ` set (rp_registered r)
     \<and> (\<forall>(i, res) \<in> set (rp_registered r). i = ID res) \<and> (\<forall>(i, d) \<in> set (rp_drafts r). i = pd_ID d)"

lemma keys_update_old: "k \<in> fst ` set al \<Longrightarrow> map fst (AList.update k v al) = map fst al"
  by (simp add: update_keys)

lemma keys_update_new: "k \<notin> fst ` set al \<Longrightarrow> map fst (AList.update k v al) = map fst al @ [k]"
  by (simp add: update_keys)

lemma set_update_sub: "set (AList.update k v al) \<subseteq> insert (k, v) (set al)"
  by (induction al) auto

lemma repo_wf_new [simp]: "repo_wf newRepository"
  by (simp add: repo_wf_def newRepository_def)

lemma repo_wf_when [simp]: "repo_wf (r\<lparr>rp_whenStack := ws\<rparr>) = repo_wf r"
  by (simp add: repo_wf_def)

lemma register_wf: "register res r = Inr r' \<Longrightarrow> repo_wf r \<Longrightarrow> repo_wf r'"
proof -
  assume a: "register res r = Inr r'" "repo_wf r"
  then have n: "ID res \<notin> fst ` set (rp_registered r)" and r': "r' = r\<lparr>rp_registered := AList.update (ID res) res (rp_registered r),
      rp_declaredUnder := AList.update (ID res) (currentWhenContext r) (rp_declaredUnder r)\<rparr>"
    by (auto simp: register_def map_of_eq_None_iff split: if_splits)
  moreover from a(2) n have "ID res \<notin> fst ` set (rp_declaredUnder r)"
    unfolding repo_wf_def by (metis image_set)
  ultimately show "repo_wf r'" using a(2)
    by (auto simp: repo_wf_def keys_update_new dest!: set_update_sub [THEN subsetD] simp flip: set_map)
qed

lemma recordDraft_wf: "repo_wf r \<Longrightarrow> repo_wf (recordDraft d r)"
proof (cases "pd_ID d \<noteq> [] \<and> map_of (rp_registered r) (pd_ID d) \<noteq> None")
  case True
  assume wf: "repo_wf r"
  from True have "pd_ID d \<in> fst ` set (rp_registered r)" by (simp add: map_of_eq_None_iff)
  with wf True show ?thesis
    by (auto simp: repo_wf_def recordDraft_def update_keys intro!: distinct_update dest!: set_update_sub [THEN subsetD] simp: rev_image_eqI)
qed (auto simp: recordDraft_def)

lemma entry_wf:
  assumes "repo_wf r" "map_of (rp_registered r) i = Some res" "ID res' = i"
  shows "repo_wf (r\<lparr>rp_registered := AList.update i res' (rp_registered r)\<rparr>)"
  using assms map_of_SomeK [OF assms(2)]
  by (auto simp: repo_wf_def keys_update_old dest!: set_update_sub [THEN subsetD] simp flip: set_map)

lemma registered_ID: "repo_wf r \<Longrightarrow> map_of (rp_registered r) i = Some res \<Longrightarrow> ID res = i"
  by (auto simp: repo_wf_def dest: map_of_SomeD)

lemma draft_wf:
  assumes "repo_wf r" "i \<in> fst ` set (rp_registered r)" "i = pd_ID d"
  shows "repo_wf (r\<lparr>rp_drafts := AList.update i d (rp_drafts r)\<rparr>)"
  using assms
  by (auto simp: repo_wf_def intro!: distinct_update dest!: set_update_sub [THEN subsetD] simp: rev_image_eqI)

lemma AmendRegistered_InrD:
  assumes "AmendRegistered sink d deps (r, p) = Inr (r', p')"
  obtains res where "map_of (rp_registered r) (pd_ID d) = Some res" "\<forall>x \<in> set deps. (x, pd_ID d) \<notin> (dep_rel r)\<^sup>*"
    "r' = r\<lparr>rp_registered := AList.update (pd_ID d) (res\<lparr>rc_dependsOn := fold add_key deps (rc_dependsOn res)\<rparr>) (rp_registered r),
            rp_drafts := AList.update (pd_ID d) d (rp_drafts r)\<rparr>"
    "case sink of None \<Rightarrow> p' = p | Some f \<Rightarrow> f d p = Inr p'"
  using assms by (auto simp: AmendRegistered_def res_simps checkAmendable_Inr_iff split: option.splits)

lemma ID_deps [simp]: "ID (res\<lparr>rc_dependsOn := ds\<rparr>) = ID res" "ID (res\<lparr>rc_registered := v\<rparr>) = ID res"
  by (simp_all add: ID_def)

lemma AmendRegistered_wf:
  assumes "AmendRegistered sink d deps (r, p) = Inr (r', p')" "repo_wf r"
  shows "repo_wf r'"
proof -
  obtain res where c: "map_of (rp_registered r) (pd_ID d) = Some res"
    and r': "r' = r\<lparr>rp_registered := AList.update (pd_ID d) (res\<lparr>rc_dependsOn := fold add_key deps (rc_dependsOn res)\<rparr>) (rp_registered r),
            rp_drafts := AList.update (pd_ID d) d (rp_drafts r)\<rparr>"
    using AmendRegistered_InrD [OF assms(1)] by metis
  let ?r1 = "r\<lparr>rp_drafts := AList.update (pd_ID d) d (rp_drafts r)\<rparr>"
  have "repo_wf ?r1" by (rule draft_wf [OF assms(2) map_of_SomeK [OF c]]) simp
  then have "repo_wf (?r1\<lparr>rp_registered := AList.update (pd_ID d) (res\<lparr>rc_dependsOn := fold add_key deps (rc_dependsOn res)\<rparr>)
      (rp_registered ?r1)\<rparr>)"
    by (rule entry_wf) (use c registered_ID [OF assms(2) c] in simp_all)
  with r' show ?thesis by (cases r) simp
qed

lemma dep_rel_replace:
  "map_of (rp_registered r) i = Some res \<Longrightarrow>
     dep_rel (r\<lparr>rp_registered := AList.update i (res\<lparr>rc_dependsOn := fold add_key deps (rc_dependsOn res)\<rparr>) (rp_registered r)\<rparr>)
     = dep_rel r \<union> {i} \<times> set deps"
  by (auto simp: dep_rel_def deps_of_def update_conv' split: if_splits)

lemma AmendRegistered_edges:
  assumes "AmendRegistered sink d deps (r, p) = Inr (r', p')"
  shows "dep_rel r' = dep_rel r \<union> {pd_ID d} \<times> set deps \<and> (\<forall>x \<in> set deps. (x, pd_ID d) \<notin> (dep_rel r)\<^sup>*)"
proof -
  obtain res where c: "map_of (rp_registered r) (pd_ID d) = Some res" "\<forall>x \<in> set deps. (x, pd_ID d) \<notin> (dep_rel r)\<^sup>*"
    and r': "r' = r\<lparr>rp_registered := AList.update (pd_ID d) (res\<lparr>rc_dependsOn := fold add_key deps (rc_dependsOn res)\<rparr>) (rp_registered r),
            rp_drafts := AList.update (pd_ID d) d (rp_drafts r)\<rparr>"
    using AmendRegistered_InrD [OF assms] by metis
  have "dep_rel r' = dep_rel (r\<lparr>rp_registered := AList.update (pd_ID d)
      (res\<lparr>rc_dependsOn := fold add_key deps (rc_dependsOn res)\<rparr>) (rp_registered r)\<rparr>)"
    unfolding r' by (simp add: dep_rel_def deps_of_def)
  with c dep_rel_replace [OF c(1), of deps] show ?thesis by simp
qed

section \<open>Recipes as sequences of repository operations\<close>

text \<open>
  One operation of a recipe on its scope and on the recorded plan. \<open>rec\<close> is the installed draft
  recorder, \<open>sink\<close> the installed amender. A declaration names only resources declared before it, so
  nothing depends on a resource that is yet to be declared. An owner may update its registered value.
\<close>

inductive recipe_step ::
  "('o PlanDraft \<Rightarrow> 'p \<Rightarrow> 'p) \<Rightarrow> ('o PlanDraft \<Rightarrow> 'p \<Rightarrow> ('e, 'p) result) option
   \<Rightarrow> ('v, 'o) repository \<times> 'p \<Rightarrow> ('v, 'o) repository \<times> 'p \<Rightarrow> bool"
  for rec :: "'o PlanDraft \<Rightarrow> 'p \<Rightarrow> 'p" and sink :: "('o PlanDraft \<Rightarrow> 'p \<Rightarrow> ('e, 'p) result) option" where
  declared: "register res r = Inr r' \<Longrightarrow> ID res \<notin> set (rc_dependsOn res)
    \<Longrightarrow> \<forall>i. ID res \<notin> set (deps_of r i) \<Longrightarrow> recipe_step rec sink (r, p) (r', p)"
| drafted: "recipe_step rec sink (r, p) (recordDraft d r, rec d p)"
| amended: "AmendRegistered sink d deps (r, p) = Inr s \<Longrightarrow> recipe_step rec sink (r, p) s"
| updated: "map_of (rp_registered r) i = Some res
    \<Longrightarrow> recipe_step rec sink (r, p) (r\<lparr>rp_registered := AList.update i (res\<lparr>rc_registered := Some v\<rparr>) (rp_registered r)\<rparr>, p)"
| when_entered: "recipe_step rec sink (r, p) (fst (pushWhenContext desc r), p)"
| when_left: "popWhenContext i r = Some r' \<Longrightarrow> recipe_step rec sink (r, p) (r', p)"
| scope_reset: "recipe_step rec sink (r, p) (newRepository, p)"

definition scope_ok :: "('v, 'o) repository \<Rightarrow> bool" where
  "scope_ok r \<longleftrightarrow> repo_wf r \<and> acyclic (dep_rel r)"

lemma scope_ok_new [simp]: "scope_ok newRepository"
  by (simp add: scope_ok_def)

lemma scope_ok_when [simp]: "scope_ok (r\<lparr>rp_whenStack := ws\<rparr>) = scope_ok r"
  by (simp add: scope_ok_def)

lemma register_ok:
  assumes "register res r = Inr r'" "ID res \<notin> set (rc_dependsOn res)" "\<forall>i. ID res \<notin> set (deps_of r i)" "scope_ok r"
  shows "scope_ok r'"
proof -
  have n: "map_of (rp_registered r) (ID res) = None"
    and r': "dep_rel r' = dep_rel (r\<lparr>rp_registered := AList.update (ID res) res (rp_registered r)\<rparr>)"
    using assms(1) by (auto simp: register_def dep_rel_def deps_of_def split: if_splits)
  have "dep_rel r' = dep_rel r \<union> {ID res} \<times> set (rc_dependsOn res)"
    using n by (auto simp: r' dep_rel_add dep_rel_from)
  moreover have "acyclic (dep_rel r \<union> {ID res} \<times> set (rc_dependsOn res))"
    using assms(2,3,4) n by (intro acyclic_new_node) (auto simp: dep_rel_def deps_of_def scope_ok_def)
  ultimately show ?thesis using register_wf [OF assms(1)] assms(4) by (simp add: scope_ok_def)
qed

lemma recordDraft_ok: "scope_ok r \<Longrightarrow> scope_ok (recordDraft d r)"
  by (auto simp: scope_ok_def recordDraft_wf) (simp add: recordDraft_def)

lemma AmendRegistered_ok:
  assumes "AmendRegistered sink d deps (r, p) = Inr (r', p')" "scope_ok r"
  shows "scope_ok r'"
  using AmendRegistered_wf [OF assms(1)] AmendRegistered_edges [OF assms(1)] assms(2)
  by (auto simp: scope_ok_def intro: acyclic_add_edges)

lemma updated_ok:
  assumes "map_of (rp_registered r) i = Some res" "scope_ok r"
  shows "scope_ok (r\<lparr>rp_registered := AList.update i (res\<lparr>rc_registered := v\<rparr>) (rp_registered r)\<rparr>)"
proof -
  have "dep_rel (r\<lparr>rp_registered := AList.update i (res\<lparr>rc_registered := v\<rparr>) (rp_registered r)\<rparr>) = dep_rel r"
    using assms(1) by (auto simp: dep_rel_def deps_of_def update_conv' split: if_splits)
  then show ?thesis
    using entry_wf [OF _ assms(1), of "res\<lparr>rc_registered := v\<rparr>"] registered_ID [OF _ assms(1)] assms(2)
    by (simp add: scope_ok_def)
qed

lemma recipe_step_ok: "recipe_step rec sink s s' \<Longrightarrow> scope_ok (fst s) \<Longrightarrow> scope_ok (fst s')"
proof (induction rule: recipe_step.induct)
  case (amended d deps r p s)
  then show ?case by (cases s) (auto intro: AmendRegistered_ok)
next
  case (when_left i r r' p)
  then show ?case by (auto simp: popWhenContext_def scope_ok_def split: if_splits)
qed (auto simp: register_ok recordDraft_ok updated_ok pushWhenContext_def Let_def)

lemma recipe_steps_ok: "(recipe_step rec sink)\<^sup>*\<^sup>* s s' \<Longrightarrow> scope_ok (fst s) \<Longrightarrow> scope_ok (fst s')"
  by (induction rule: rtranclp_induct) (auto intro: recipe_step_ok)

lemma checkAmendable_total:
  "map_of (rp_registered r) i = Some res \<Longrightarrow>
     (\<exists>res'. checkAmendable r i deps = Inr res') \<longleftrightarrow> (\<forall>d \<in> set deps. (d, i) \<notin> (dep_rel r)\<^sup>*)"
  by (simp add: checkAmendable_Inr_iff)

section \<open>Properties\<close>


text \<open>
  C40: an amendment is refused exactly when it would close a cycle. Without a sink, amending a
  registered resource of an acyclic scope succeeds if and only if the graph with the new edges is
  acyclic, and the new graph is the old one with exactly these edges.
\<close>

theorem amend_refused_iff_cycle:
  assumes "acyclic (dep_rel r)" and "map_of (rp_registered r) (pd_ID d) = Some res"
  shows "(\<forall>s. AmendRegistered None d deps (r, p) = Inr s \<longrightarrow> dep_rel (fst s) = dep_rel r \<union> {pd_ID d} \<times> set deps)
    \<and> is_ok (AmendRegistered None d deps (r, p)) = acyclic (dep_rel r \<union> {pd_ID d} \<times> set deps)"
proof
  show "\<forall>s. AmendRegistered None d deps (r, p) = Inr s \<longrightarrow> dep_rel (fst s) = dep_rel r \<union> {pd_ID d} \<times> set deps"
    using AmendRegistered_edges by fastforce
  have "is_ok (AmendRegistered None d deps (r, p)) \<longleftrightarrow> (\<forall>x \<in> set deps. (x, pd_ID d) \<notin> (dep_rel r)\<^sup>*)"
    using checkAmendable_total [OF assms(2)] by (auto simp: is_ok_iff AmendRegistered_def res_simps)
  also have "\<dots> \<longleftrightarrow> acyclic (dep_rel r \<union> {pd_ID d} \<times> set deps)"
  proof (intro iffI ballI notI)
    assume "\<forall>x \<in> set deps. (x, pd_ID d) \<notin> (dep_rel r)\<^sup>*"
    then show "acyclic (dep_rel r \<union> {pd_ID d} \<times> set deps)"
      using acyclic_add_edges [OF assms(1) finite_set] by blast
  next
    fix x assume "acyclic (dep_rel r \<union> {pd_ID d} \<times> set deps)" "x \<in> set deps" "(x, pd_ID d) \<in> (dep_rel r)\<^sup>*"
    then show False using cycle_through [of x "set deps" "pd_ID d" "dep_rel r"] by simp
  qed
  finally show "is_ok (AmendRegistered None d deps (r, p)) = acyclic (dep_rel r \<union> {pd_ID d} \<times> set deps)" .
qed

text \<open>A scope for the witnesses: a unit file, a service that depends on it, and a reload.\<close>

definition example_scope :: "(unit, unit) repository" where
  "example_scope =
     \<lparr>rp_registered =
        [(''File[/u]'', new_resource ''File'' ''/u'' None []),
         (''Service[s]'', new_resource ''Service'' ''s'' None [''DaemonReload[system]'']),
         (''DaemonReload[system]'', new_resource ''DaemonReload'' ''system'' None [])],
      rp_drafts = [], rp_declaredUnder = [(''File[/u]'', []), (''Service[s]'', []), (''DaemonReload[system]'', [])],
      rp_whenStack = []\<rparr>"

definition example_draft :: "unit PlanDraft" where
  "example_draft =
     \<lparr>pd_Kind = ''daemon_reload'', pd_ID = ''DaemonReload[system]'', pd_User = False, pd_IfChanged = False,
      pd_Watch = [], pd_Deps = [], pd_rest = None\<rparr>"

lemma example_scope_edges: "dep_rel example_scope = {(''Service[s]'', ''DaemonReload[system]'')}"
  by (auto simp: dep_rel_def deps_of_def example_scope_def new_resource_def add_key_def split: if_splits)

definition two_resources :: "(unit, unit) repository" where
  "two_resources =
     \<lparr>rp_registered =
        [(''File[/u]'', new_resource ''File'' ''/u'' None []), (''DaemonReload[system]'', new_resource ''DaemonReload'' ''system'' None [])],
      rp_drafts = [], rp_declaredUnder = [(''File[/u]'', []), (''DaemonReload[system]'', [])], rp_whenStack = []\<rparr>"

definition first_resource :: "(unit, unit) repository" where
  "first_resource =
     \<lparr>rp_registered = [(''File[/u]'', new_resource ''File'' ''/u'' None [])],
      rp_drafts = [], rp_declaredUnder = [(''File[/u]'', [])], rp_whenStack = []\<rparr>"


definition no_sink :: "(unit PlanDraft \<Rightarrow> unit \<Rightarrow> (unit, unit) result) option" where
  "no_sink = None"

theorem amend_refused_iff_cycle_witness:
  "is_ok (AmendRegistered no_sink example_draft [''File[/u]''] (example_scope, ()))
   \<and> \<not> is_ok (AmendRegistered no_sink example_draft [''Service[s]''] (example_scope, ()))"
proof -
  have a: "acyclic (dep_rel example_scope)" by (simp add: example_scope_edges acyclic_insert)
  have m: "map_of (rp_registered example_scope) (pd_ID example_draft)
      = Some (new_resource ''DaemonReload'' ''system'' None [])"
    by (simp add: example_scope_def example_draft_def)
  have u: "dep_rel example_scope \<union> {pd_ID example_draft} \<times> set [x]
      = {(''Service[s]'', ''DaemonReload[system]''), (''DaemonReload[system]'', x)}" for x
    by (auto simp: example_scope_edges example_draft_def)
  have c: "acyclic {(''Service[s]'', ''DaemonReload[system]''), (''DaemonReload[system]'', ''File[/u]'')}"
    by (simp add: acyclic_insert rtrancl_insert)
  have n: "\<not> acyclic {(''Service[s]'', ''DaemonReload[system]''), (''DaemonReload[system]'', ''Service[s]'')}"
    by (auto simp: acyclic_insert)
  show ?thesis
    using amend_refused_iff_cycle [OF a m, where p = "()" and 'e = unit and deps = "[''File[/u]'']"]
      amend_refused_iff_cycle [OF a m, where p = "()" and 'e = unit and deps = "[''Service[s]'']"] c n
    unfolding u no_sink_def by blast
qed

end
