(* ===== verification/Reloads.thy ===== *)
theory Reloads
  imports Repository DryRun
begin

text \<open>
  Declaring daemon reloads: the options of \<open>resource/options/option.go\<close> they take, \<open>Present\<close>
  (\<open>resource/systemd/daemon_reload.go\<close>), the merge of a further declaration into the bus's registered
  reload (\<open>merge.go\<close>) and the units that share that reload (\<open>join.go\<close>). The scope is a repository of
  theory \<open>Repository\<close>; the recorded plan is a parameter, reached through the draft recorder and the
  amend sink. A registered value is a daemon reload or a value of another kind.
\<close>

section \<open>The resource and its options\<close>

record reloadJoiner =
  jn_id :: string
  jn_related :: "string list"

datatype 'e reload_error =
    OnChangeEmpty
  | WatchChangesEmpty
  | RegistrationFailed collision
  | RelatedJoiner string "string list" "string list" string string
  | CannotMerge string "string list" "string list" "'e amend_error"

record 'e DaemonReload =
  dr_deps :: "string list"
  dr_gate :: ChangeGate
  dr_user :: bool
  dr_legacyWatch :: "string list"
  dr_joiners :: "reloadJoiner list"
  dr_misuse :: "'e reload_error option"

datatype reload_option =
    DependsOn "string list"
  | OnChange "string list"
  | WatchChanges "string list"
  | WithWatch "string list"
  | IfChanged
  | WithUser

definition ReportMisuse :: "'e reload_error \<Rightarrow> 'e DaemonReload \<Rightarrow> 'e DaemonReload" where
  "ReportMisuse e d = d\<lparr>dr_misuse := first_of (dr_misuse d) e\<rparr>"

definition watch_changed :: "string list \<Rightarrow> 'e DaemonReload \<Rightarrow> 'e DaemonReload" where
  "watch_changed ids d = d\<lparr>dr_gate := SetChangeWatch ids (dr_gate d)\<rparr>"

text \<open>An option applied; the resources it takes stand for the ids they flatten to.\<close>

fun apply_option :: "reload_option \<Rightarrow> 'e DaemonReload \<Rightarrow> 'e DaemonReload" where
  "apply_option (DependsOn ids) d = d\<lparr>dr_deps := dr_deps d @ ids\<rparr>"
| "apply_option (OnChange ids) d =
     (if ids = [] then ReportMisuse OnChangeEmpty d
      else (let d' = watch_changed ids d in d'\<lparr>dr_deps := dr_deps d' @ ids\<rparr>))"
| "apply_option (WatchChanges ids) d =
     (if ids = [] then ReportMisuse WatchChangesEmpty d else watch_changed ids d)"
| "apply_option (WithWatch ids) d = d\<lparr>dr_legacyWatch := ids\<rparr>"
| "apply_option IfChanged d = watch_changed [] d"
| "apply_option WithUser d = d\<lparr>dr_user := True\<rparr>"

definition add_watch :: "string list \<Rightarrow> 'e DaemonReload \<Rightarrow> 'e DaemonReload" where
  "add_watch ids d = d\<lparr>dr_gate := AddWatch ids (dr_gate d)\<rparr>"

definition newReload :: "reload_option list \<Rightarrow> 'e DaemonReload" where
  "newReload opts =
     (let d = fold apply_option opts
                \<lparr>dr_deps = [], dr_gate = \<lparr>cg_gated = False, cg_watch = []\<rparr>, dr_user = False, dr_legacyWatch = [],
                 dr_joiners = [], dr_misuse = None\<rparr>;
          d1 = (add_watch (dr_legacyWatch d) d)\<lparr>dr_legacyWatch := []\<rparr>
      in if cg_watch (dr_gate d1) = [] then add_watch (dr_deps d1) d1 else d1)"

definition reload_id :: "'e DaemonReload \<Rightarrow> string" where
  "reload_id d = busReloadID (dr_user d)"

definition reload_planDraft :: "'e DaemonReload \<Rightarrow> string \<Rightarrow> 'o PlanDraft" where
  "reload_planDraft d i =
     \<lparr>pd_Kind = ''daemon_reload'', pd_ID = i, pd_User = dr_user d, pd_IfChanged = cg_gated (dr_gate d),
      pd_Watch = cg_watch (dr_gate d), pd_Deps = SortedIDs (dr_deps d), pd_rest = None\<rparr>"

section \<open>Units that share a reload\<close>

definition LastIndexByte :: "string \<Rightarrow> char \<Rightarrow> nat option" where
  "LastIndexByte s c = map_option (\<lambda>i. length s - 1 - i) (index_byte (rev s) c)"

lemma index_byte_less: "index_byte s c = Some i \<Longrightarrow> i < length s"
  by (auto simp: index_byte_Some_iff)

lemma LastIndexByte_less [termination_simp]: "LastIndexByte s c = Some i \<Longrightarrow> i < length s"
  using index_byte_less [of "rev s"] by (fastforce simp: LastIndexByte_def)

definition unitSearchDirs :: "string list" where
  "unitSearchDirs =
     [''/etc/systemd/system'', ''/run/systemd/system'', ''/usr/lib/systemd/system'', ''/usr/local/lib/systemd/system'',
      ''/lib/systemd/system'', ''/etc/systemd/user'', ''/etc/xdg/systemd/user'', ''/run/systemd/user'',
      ''/usr/lib/systemd/user'', ''/usr/local/lib/systemd/user'', ''/usr/share/systemd/user'',
      ''/usr/local/share/systemd/user'']"

definition isUnitSearchDir :: "string \<Rightarrow> bool" where
  "isUnitSearchDir dir \<longleftrightarrow>
     dir \<in> set unitSearchDirs \<or> has_suffix dir ''/systemd/user'' \<or> has_suffix dir ''/systemd/system''"

text \<open>The loop over the dashes of a unit's name, from the last to the first.\<close>

function dash_dirs :: "string \<Rightarrow> string \<Rightarrow> string list" where
  "dash_dirs typ name =
     (case LastIndexByte name (CHR ''-'') of
        None \<Rightarrow> []
      | Some i \<Rightarrow> (take i name @ ''-.'' @ typ @ ''.d'') # dash_dirs typ (take i name))"
  by pat_completeness auto
termination by (relation "measure (length \<circ> snd)") (auto simp: LastIndexByte_less)

definition dropinDirs :: "string \<Rightarrow> string list" where
  "dropinDirs unit =
     (case LastIndexByte unit (CHR ''.'') of
        None \<Rightarrow> []
      | Some dot \<Rightarrow>
          (let typ = drop (Suc dot) unit; name = take dot unit in dash_dirs typ name @ [typ @ ''.d'']))"

definition templateName :: "string \<Rightarrow> string option" where
  "templateName unit =
     (case (index_byte unit (CHR ''@''), LastIndexByte unit (CHR ''.'')) of
        (Some at, Some dot) \<Rightarrow> if dot < at + 2 then None else Some (take (at + 1) unit @ drop dot unit)
      | _ \<Rightarrow> None)"

definition mayManageUnit :: "string \<Rightarrow> string \<Rightarrow> bool" where
  "mayManageUnit i unit =
     (case cut (trim_suffix i '']'') (CHR ''['') of (kind, file, found) \<Rightarrow>
        if \<not> found \<or> kind \<noteq> ''File'' then True
        else
          (let names = [unit] @ (case templateName unit of Some t \<Rightarrow> [t] | None \<Rightarrow> []);
               base = path_base file; dir = path_dir file; parent = path_base dir
           in list_ex (\<lambda>n. base = n \<or> parent = n @ ''.d''
                \<or> (parent \<in> set (dropinDirs n) \<and> isUnitSearchDir (path_dir dir))) names))"

datatype ('e, 'x) reg_value = RegReload "'e DaemonReload" | RegOther 'x

type_synonym ('e, 'x, 'o) scope = "(('e, 'x) reg_value, 'o) repository"

definition relatedInput :: "'e DaemonReload \<Rightarrow> string list \<Rightarrow> ('v, 'o) repository \<Rightarrow> string option" where
  "relatedInput d entries r =
     (if entries = [] then None
      else (let watch = cg_watch (dr_gate d); inputs = watch @ RegisteredWatchTargets watch r
            in find (\<lambda>unit. list_ex (\<lambda>i. mayManageUnit i unit) inputs) (concat (map Fields entries))))"

fun first_related :: "'e DaemonReload \<Rightarrow> ('v, 'o) repository \<Rightarrow> reloadJoiner list \<Rightarrow> (reloadJoiner \<times> string) option" where
  "first_related d r [] = None"
| "first_related d r (j # js) =
     (case relatedInput d (jn_related j) r of Some unit \<Rightarrow> Some (j, unit) | None \<Rightarrow> first_related d r js)"

definition joinerRelatedInput :: "'e DaemonReload \<Rightarrow> ('v, 'o) repository \<Rightarrow> (reloadJoiner \<times> string) option" where
  "joinerRelatedInput d r = first_related d r (dr_joiners d)"

section \<open>Declaring and merging\<close>

definition registeredReload :: "string \<Rightarrow> ('e, 'x, 'o) scope \<Rightarrow> 'e DaemonReload option" where
  "registeredReload i r = (case Registered i r of Some (res, Some (RegReload d)) \<Rightarrow> Some d | _ \<Rightarrow> None)"

definition orderingDeps :: "'e DaemonReload \<Rightarrow> ('v, 'o) repository \<Rightarrow> string list" where
  "orderingDeps d r = fold add_key (RegisteredWatchTargets (cg_watch (dr_gate d)) r) (dr_deps d)"

definition merged :: "'e DaemonReload \<Rightarrow> 'e DaemonReload \<Rightarrow> ('v, 'o) repository \<Rightarrow> 'e DaemonReload" where
  "merged d next_d r =
     d\<lparr>dr_gate := AddWatch (cg_watch (dr_gate next_d))
         \<lparr>cg_gated = cg_gated (dr_gate d) \<and> cg_gated (dr_gate next_d), cg_watch = cg_watch (dr_gate d)\<rparr>,
       dr_deps := dr_deps d @ orderingDeps next_d r\<rparr>"

text \<open>\<open>*d = m\<close>: the registered value is a pointer, so the repository sees the new value.\<close>

definition store_reload :: "string \<Rightarrow> 'e DaemonReload \<Rightarrow> ('e, 'x, 'o) scope \<Rightarrow> ('e, 'x, 'o) scope" where
  "store_reload i m r =
     (case map_of (rp_registered r) i of
        None \<Rightarrow> r
      | Some res \<Rightarrow> r\<lparr>rp_registered := AList.update i (res\<lparr>rc_registered := Some (RegReload m)\<rparr>) (rp_registered r)\<rparr>)"

type_synonym ('o, 'p, 'e) amend_sink = "('o PlanDraft \<Rightarrow> 'p \<Rightarrow> ('e, 'p) result) option"

type_synonym ('e, 'x, 'o, 'p) dsl_state = "('e, 'x, 'o) scope \<times> 'p \<times> 'e reload_error declerr"

definition refuseRelatedJoiner ::
  "'e DaemonReload \<Rightarrow> string \<Rightarrow> 'e DaemonReload \<Rightarrow> string list \<Rightarrow> ('v, 'o) repository \<Rightarrow> 'e reload_error option" where
  "refuseRelatedJoiner m i next_d prevWatch r =
     (case joinerRelatedInput m r of
        None \<Rightarrow> None
      | Some (j, unit) \<Rightarrow> Some (RelatedJoiner i (cg_watch (dr_gate next_d)) prevWatch (jn_id j) unit))"

definition mergeInto ::
  "('o, 'p, 'e) amend_sink \<Rightarrow> string \<Rightarrow> 'e DaemonReload \<Rightarrow> 'e DaemonReload
   \<Rightarrow> ('e, 'x, 'o, 'p) dsl_state \<Rightarrow> ('e, 'x, 'o, 'p) dsl_state" where
  "mergeInto sink i d next_d = (\<lambda>(r, p, decl).
     (let m = merged d next_d r in
      case refuseRelatedJoiner m i next_d (cg_watch (dr_gate d)) r of
        Some e \<Rightarrow> (r, p, Report e decl)
      | None \<Rightarrow>
          (case AmendRegistered sink (reload_planDraft m i) (orderingDeps next_d r) (r, p) of
             Inl e \<Rightarrow> (r, p, Report (CannotMerge i (cg_watch (dr_gate next_d)) (cg_watch (dr_gate d)) e) decl)
           | Inr (r', p') \<Rightarrow> (store_reload i m r', p', decl))))"

definition reload_Present ::
  "('o PlanDraft \<Rightarrow> 'p \<Rightarrow> 'p) \<Rightarrow> ('o, 'p, 'e) amend_sink \<Rightarrow> reload_option list
   \<Rightarrow> ('e, 'x, 'o, 'p) dsl_state \<Rightarrow> ('e, 'x, 'o, 'p) dsl_state" where
  "reload_Present rec sink opts = (\<lambda>(r, p, decl).
     (let d = newReload opts; i = reload_id d in
      case dr_misuse d of
        Some e \<Rightarrow> (r, p, Report e decl)
      | None \<Rightarrow>
          (case registeredReload i r of
             Some prev \<Rightarrow> mergeInto sink i prev d (r, p, decl)
           | None \<Rightarrow>
               (case register (new_resource ''DaemonReload'' (busName (dr_user d)) (Some (RegReload d)) (dr_deps d)) r of
                  Inl c \<Rightarrow> (r, p, Report (RegistrationFailed c) decl)
                | Inr r' \<Rightarrow> (recordDraft (reload_planDraft d i) r', rec (reload_planDraft d i) p, decl)))))"

text \<open>The result tells whether the joiner is ordered before the bus's registered reload.\<close>

definition JoinRegisteredReload ::
  "('o, 'p, 'e) amend_sink \<Rightarrow> bool \<Rightarrow> string \<Rightarrow> string list
   \<Rightarrow> ('e, 'x, 'o) scope \<times> 'p \<Rightarrow> bool \<times> ('e, 'x, 'o) scope \<times> 'p" where
  "JoinRegisteredReload sink user joinerID related = (\<lambda>(r, p).
     (let i = busReloadID user in
      case registeredReload i r of
        None \<Rightarrow> (False, r, p)
      | Some d \<Rightarrow>
          if joinerID \<in> set (dr_deps d) then (True, r, p)
          else if relatedInput d related r \<noteq> None then (False, r, p)
          else
            (let m = d\<lparr>dr_deps := dr_deps d @ [joinerID],
                       dr_joiners := dr_joiners d @ [\<lparr>jn_id = joinerID, jn_related = related\<rparr>]\<rparr> in
             case AmendRegistered sink (reload_planDraft m i) [joinerID] (r, p) of
               Inl e \<Rightarrow> (False, r, p)
             | Inr (r', p') \<Rightarrow> (True, store_reload i m r', p'))))"

section \<open>Lemmas: a merge\<close>

lemma set_AddWatch [simp]: "set (cg_watch (AddWatch ids c)) = set (cg_watch c) \<union> set ids"
  by (induction ids c rule: AddWatch.induct) auto

lemma cg_gated_AddWatch [simp]: "cg_gated (AddWatch ids c) = cg_gated c"
  by (induction ids c rule: AddWatch.induct) auto

lemma set_SortedIDs [simp]: "set (SortedIDs ids) = set ids"
  by (simp add: SortedIDs_def)

lemma set_orderingDeps: "set (orderingDeps d r)
    = set (dr_deps d) \<union> {i \<in> fst ` set (rp_registered r). \<exists>w \<in> set (cg_watch (dr_gate d)). watchCovers w i}"
  by (auto simp: orderingDeps_def set_RegisteredWatchTargets)

lemma planDraft_sel [simp]:
  "pd_ID (reload_planDraft d i) = i" "pd_Watch (reload_planDraft d i) = cg_watch (dr_gate d)"
  "pd_IfChanged (reload_planDraft d i) = cg_gated (dr_gate d)" "set (pd_Deps (reload_planDraft d i)) = set (dr_deps d)"
  by (simp_all add: reload_planDraft_def)

lemma merged_sel [simp]:
  "set (cg_watch (dr_gate (merged d n r))) = set (cg_watch (dr_gate d)) \<union> set (cg_watch (dr_gate n))"
  "cg_gated (dr_gate (merged d n r)) = (cg_gated (dr_gate d) \<and> cg_gated (dr_gate n))"
  "dr_deps (merged d n r) = dr_deps d @ orderingDeps n r"
  by (simp_all add: merged_def)

lemma registeredReload_Some:
  "registeredReload i r = Some d \<Longrightarrow> \<exists>res. map_of (rp_registered r) i = Some res \<and> rc_registered res = Some (RegReload d)"
  by (auto simp: registeredReload_def Registered_def split: option.splits reg_value.splits)

lemma store_reload_frame:
  "map_of (rp_registered r) i = Some res \<Longrightarrow> registeredReload i (store_reload i m r) = Some m"
  "rp_drafts (store_reload i m r) = rp_drafts r" "dep_rel (store_reload i m r) = dep_rel r"
  by (auto simp: store_reload_def registeredReload_def Registered_def update_conv' dep_rel_def deps_of_def
      split: option.splits if_splits)

lemma store_reload_steps:
  "map_of (rp_registered r) i = Some res \<Longrightarrow> recipe_step rec sink (r, p) (store_reload i m r, p)"
  by (simp add: store_reload_def recipe_step.updated)

lemma Amend_keeps_entry:
  "AmendRegistered sink d deps (r, p) = Inr (r', p') \<Longrightarrow> \<exists>res. map_of (rp_registered r') (pd_ID d) = Some res"
  by (erule AmendRegistered_InrD) (auto simp: update_conv')

lemma amend_then_store:
  assumes "AmendRegistered sink d deps (r, p) = Inr (r', p')" "pd_ID d = i"
  shows "(recipe_step rec sink)\<^sup>*\<^sup>* (r, p) (store_reload i m r', p')"
proof -
  obtain res where "map_of (rp_registered r') i = Some res" using Amend_keeps_entry [OF assms(1)] assms(2) by auto
  then have "recipe_step rec sink (r', p') (store_reload i m r', p')" by (rule store_reload_steps)
  moreover have "recipe_step rec sink (r, p) (r', p')" by (rule recipe_step.amended [OF assms(1)])
  ultimately show ?thesis by (blast intro: converse_rtranclp_into_rtranclp)
qed

lemma mergeInto_steps:
  "mergeInto sink i d n (r, p, decl) = (r', p', decl') \<Longrightarrow> (recipe_step rec sink)\<^sup>*\<^sup>* (r, p) (r', p')"
  by (auto simp: mergeInto_def Let_def intro: amend_then_store split: option.splits sum.splits prod.splits)

lemma Join_steps:
  "JoinRegisteredReload sink user j related (r, p) = (b, r', p') \<Longrightarrow> (recipe_step rec sink)\<^sup>*\<^sup>* (r, p) (r', p')"
  by (auto simp: JoinRegisteredReload_def Let_def intro: amend_then_store split: option.splits sum.splits prod.splits if_splits)

lemma new_resource_sel [simp]:
  "ID (new_resource typ name v deps) = FormatID typ name" "set (rc_dependsOn (new_resource typ name v deps)) = set deps"
  by (simp_all add: new_resource_def ID_def)

lemma Present_steps:
  assumes "reload_Present rec sink opts (r, p, decl) = (r', p', decl')"
    and "\<forall>i. reload_id (newReload opts :: 'e DaemonReload) \<notin> set (deps_of r i)"
    and "reload_id (newReload opts :: 'e DaemonReload) \<notin> set (dr_deps (newReload opts :: 'e DaemonReload))"
  shows "(recipe_step rec (sink :: ('o, 'p, 'e) amend_sink))\<^sup>*\<^sup>* (r, p) (r', p')"
proof -
  define d :: "'e DaemonReload" where "d = newReload opts"
  let ?res = "new_resource ''DaemonReload'' (busName (dr_user d)) (Some (RegReload d)) (dr_deps d)"
  have i: "ID ?res = reload_id d" by (simp add: reload_id_def busReloadID_def)
  have reg: "(recipe_step rec sink)\<^sup>*\<^sup>* (r, p) (recordDraft dft r1, rec dft p)"
    if "register ?res r = Inr r1" for r1 dft
  proof -
    have "recipe_step rec sink (r, p) (r1, p)"
      by (rule recipe_step.declared [OF that]) (use assms(2,3) i in \<open>auto simp: d_def\<close>)
    moreover have "recipe_step rec sink (r1, p) (recordDraft dft r1, rec dft p)" by (rule recipe_step.drafted)
    ultimately show ?thesis by (blast intro: converse_rtranclp_into_rtranclp)
  qed
  from assms(1) show ?thesis
    by (auto simp: reload_Present_def Let_def d_def [symmetric] intro: reg mergeInto_steps
        split: option.splits sum.splits)
qed

lemma merge_success:
  assumes "AmendRegistered sink (reload_planDraft m i) deps (r, p) = Inr (r1, p1)"
  shows "registeredReload i (store_reload i m r1) = Some m"
    "dep_rel (store_reload i m r1) = dep_rel r \<union> {i} \<times> set deps"
    "map_of (rp_drafts (store_reload i m r1)) i = Some (reload_planDraft m i)"
proof -
  obtain res where "map_of (rp_registered r1) i = Some res" using Amend_keeps_entry [OF assms] by auto
  then show "registeredReload i (store_reload i m r1) = Some m" by (rule store_reload_frame)
  show "dep_rel (store_reload i m r1) = dep_rel r \<union> {i} \<times> set deps"
    using AmendRegistered_edges [OF assms] by (simp add: store_reload_frame)
  show "map_of (rp_drafts (store_reload i m r1)) i = Some (reload_planDraft m i)"
    by (rule AmendRegistered_InrD [OF assms]) (simp add: store_reload_frame update_conv')
qed

section \<open>Properties\<close>

text \<open>
  A further reload of a bus is merged completely or not at all. Either nothing changes but one
  more declaration error; or the registered reload and its recorded draft watch what either
  declaration watches, are gated only if both are, and the reload depends on what it did, on the new
  declaration's dependencies, and on every registered resource whose change can fire its watches.
\<close>

theorem reload_merged_or_refused:
  fixes n d :: "'e DaemonReload" and decl :: "'e reload_error declerr"
  assumes "registeredReload (reload_id n) r = Some d" and "n = newReload opts"
    and "reload_Present rec sink opts (r, p, decl) = (r', p', decl')"
  shows "(r' = r \<and> p' = p \<and> (\<exists>e. decl' = Report e decl))
    \<or> (decl' = decl \<and> (\<exists>m. registeredReload (reload_id n) r' = Some m
        \<and> map_of (rp_drafts r') (reload_id n) = Some (reload_planDraft m (reload_id n))
        \<and> set (cg_watch (dr_gate m)) = set (cg_watch (dr_gate d)) \<union> set (cg_watch (dr_gate n))
        \<and> cg_gated (dr_gate m) = (cg_gated (dr_gate d) \<and> cg_gated (dr_gate n))
        \<and> dep_rel r' = dep_rel r \<union> {reload_id n} \<times> (set (dr_deps n)
            \<union> {x \<in> fst ` set (rp_registered r). \<exists>w \<in> set (cg_watch (dr_gate n)). watchCovers w x})))"
proof (cases "dr_misuse n \<noteq> None \<or> refuseRelatedJoiner (merged d n r) (reload_id n) n (cg_watch (dr_gate d)) r \<noteq> None")
  case True
  then show ?thesis using assms
    by (auto simp: reload_Present_def mergeInto_def Let_def split: option.splits sum.splits)
next
  case False
  let ?i = "reload_id n"
  have P: "mergeInto sink ?i d n (r, p, decl) = (r', p', decl')"
    using assms False by (simp add: reload_Present_def Let_def)
  show ?thesis
  proof (cases "AmendRegistered sink (reload_planDraft (merged d n r) ?i) (orderingDeps n r) (r, p)")
    case (Inl e)
    with P False show ?thesis by (auto simp: mergeInto_def Let_def)
  next
    case (Inr s)
    obtain r1 p1 where s: "s = (r1, p1)" by (cases s)
    with P False Inr have r': "r' = store_reload ?i (merged d n r) r1" "decl' = decl" by (auto simp: mergeInto_def Let_def)
    show ?thesis
      using merge_success [OF Inr [unfolded s]] r' by (auto simp: set_orderingDeps)
  qed
qed

text \<open>
  An instance: a reload watching one unit file is joined by one that watches the directory of two
  registered files.
\<close>

definition example_units :: "(unit, unit, unit) scope" where
  "example_units =
     \<lparr>rp_registered =
        [(''File[/u/b]'', new_resource ''File'' ''/u/b'' (Some (RegOther ())) []),
         (''File[/u/a]'', new_resource ''File'' ''/u/a'' (Some (RegOther ())) []),
         (''DaemonReload[system]'', new_resource ''DaemonReload'' ''system''
            (Some (RegReload (newReload [OnChange [''File[/x]'']]))) [''File[/x]''])],
      rp_drafts = [], rp_declaredUnder = [], rp_whenStack = []\<rparr>"

theorem reload_merged_or_refused_witness:
  "\<exists>m. registeredReload ''DaemonReload[system]''
        (fst (reload_Present (\<lambda>d p. p) no_sink [WatchChanges [''Directory[/u]'']]
           (example_units, (), \<lparr>de_first = None, de_sink = None\<rparr>))) = Some m
     \<and> set (cg_watch (dr_gate m)) = {''File[/x]'', ''Directory[/u]''}"
proof -
  let ?n = "newReload [WatchChanges [''Directory[/u]'']] :: unit DaemonReload"
  let ?d = "newReload [OnChange [''File[/x]'']] :: unit DaemonReload"
  let ?s = "(example_units, (), \<lparr>de_first = None, de_sink = None\<rparr>) :: (unit, unit, unit, unit) dsl_state"
  let ?out = "reload_Present (\<lambda>d p. p) no_sink [WatchChanges [''Directory[/u]'']] ?s"
  have i: "reload_id ?n = ''DaemonReload[system]''" by code_simp
  have w: "cg_watch (dr_gate ?d) = [''File[/x]'']" "cg_watch (dr_gate ?n) = [''Directory[/u]'']" by code_simp+
  have d: "registeredReload (reload_id ?n) example_units = Some ?d" by code_simp
  have ok: "de_first (snd (snd ?out)) = None" by code_simp
  obtain r' p' decl' where out: "?out = (r', p', decl')" by (metis prod_cases3)
  with ok have "decl' \<noteq> Report e \<lparr>de_first = None, de_sink = None\<rparr>" for e
    by (auto simp: Report_def first_of_def)
  with reload_merged_or_refused [OF d refl out] obtain m where
    "registeredReload (reload_id ?n) r' = Some m"
    "set (cg_watch (dr_gate m)) = set (cg_watch (dr_gate ?d)) \<union> set (cg_watch (dr_gate ?n))" by blast
  moreover have "fst ?out = r'" unfolding out by simp
  ultimately show ?thesis unfolding i w by auto
qed

end
