(* ===== verification/Tasks.thy ===== *)
theory Tasks
  imports PlanApply Graphs
begin

text \<open>
  The task registry (\<open>api/task.go\<close>): queueing tasks and aliases (\<open>task_alias.go\<close>), the Needs of a task
  and the cycle check made when a task is declared (\<open>task_needs.go\<close>), aggregates' members
  (\<open>aggregate.go\<close>) and activation. A task's body is a parameter. Names of methods reach the registry
  as the keys \<open>Needs\<close> makes of them; reflection itself is not modelled. Mutexes and log lines are not.
\<close>

section \<open>Candidates\<close>

record 'b taskCandidate =
  tc_name :: string
  tc_description :: string
  tc_fn :: 'b
  tc_planWhen :: "Predicate list"
  tc_opaque :: "(Facts \<Rightarrow> bool) list"
  tc_privileged :: bool
  tc_cluster :: string
  tc_operational :: bool
  tc_aliasOf :: string
  tc_aggregate :: bool
  tc_members :: "string list"
  tc_needs :: "string list"
  tc_needsPrefix :: string

record task =
  tk_name :: string
  tk_description :: string
  tk_aliasOf :: string
  tk_destinationGuard :: string

record 'b registry =
  rg_candidates :: "'b taskCandidate list"
  rg_methodTasks :: "(string \<times> string list) list"

definition no_tasks :: "'b registry" where
  "no_tasks = \<lparr>rg_candidates = [], rg_methodTasks = []\<rparr>"

definition findCandidate :: "'b registry \<Rightarrow> string \<Rightarrow> 'b taskCandidate option" where
  "findCandidate reg name = find (\<lambda>c. tc_name c = name) (rg_candidates reg)"

definition candidateExists :: "'b registry \<Rightarrow> string \<Rightarrow> bool" where
  "candidateExists reg name \<longleftrightarrow> findCandidate reg name \<noteq> None"

datatype task_error =
    AlreadyQueued string
  | TaskNameEmpty
  | AliasNameEmpty
  | AliasTargetEmpty string
  | AliasOfItself string
  | AliasIsMember string string
  | AliasUnknownTarget string string
  | AliasOfAlias string string string
  | NeedNameEmpty string
  | NeedsItself string
  | NeedsCycleFound string "string list"
  | NoMembers string
  | MemberNameEmpty string
  | ListsItself string
  | MemberTwice string string
  | MemberIsAliasOfAggregate string string
  | UnknownMember string

text \<open>Activation is redone after every queued candidate, so the check against active tasks is part of this one.\<close>

definition queueCandidate :: "'b taskCandidate \<Rightarrow> 'b registry \<Rightarrow> (task_error, 'b registry) result" where
  "queueCandidate c reg =
     (if candidateExists reg (tc_name c) then Inl (AlreadyQueued (tc_name c))
      else Inr (reg\<lparr>rg_candidates := rg_candidates reg @ [c]\<rparr>))"

section \<open>Aliases\<close>

definition checkAlias :: "'b registry \<Rightarrow> string \<Rightarrow> string \<Rightarrow> task_error check" where
  "checkAlias reg name target =
     (if name = [] then Inl AliasNameEmpty
      else if target = [] then Inl (AliasTargetEmpty name)
      else if target = name then Inl (AliasOfItself name)
      else case findCandidate reg target of
        Some c \<Rightarrow> if name \<in> set (tc_members c) then Inl (AliasIsMember name target) else Inr ()
      | None \<Rightarrow> Inr ())"

definition alias_candidate :: "'b \<Rightarrow> string \<Rightarrow> string \<Rightarrow> string \<Rightarrow> 'b taskCandidate" where
  "alias_candidate nil name description target =
     \<lparr>tc_name = name, tc_description = description, tc_fn = nil, tc_planWhen = [], tc_opaque = [], tc_privileged = False,
      tc_cluster = [], tc_operational = False, tc_aliasOf = target, tc_aggregate = False, tc_members = [], tc_needs = [],
      tc_needsPrefix = []\<rparr>"

text \<open>\<open>nil\<close> is the alias's missing body.\<close>

definition Alias :: "'b \<Rightarrow> string \<Rightarrow> string \<Rightarrow> string \<Rightarrow> 'b registry \<Rightarrow> (task_error, 'b registry) result" where
  "Alias nil name description target reg =
     bind_res (checkAlias reg name target) (\<lambda>_. queueCandidate (alias_candidate nil name description target) reg)"

definition resolveAlias :: "'b registry \<Rightarrow> string \<Rightarrow> (task_error, string \<times> bool) result" where
  "resolveAlias reg name =
     (case findCandidate reg name of
        None \<Rightarrow> Inr (name, False)
      | Some c \<Rightarrow>
          if tc_aliasOf c = [] then Inr (name, False)
          else (case findCandidate reg (tc_aliasOf c) of
              None \<Rightarrow> Inl (AliasUnknownTarget name (tc_aliasOf c))
            | Some t \<Rightarrow>
                if tc_aliasOf t \<noteq> [] then Inl (AliasOfAlias name (tc_aliasOf c) (tc_aliasOf t))
                else Inr (tc_aliasOf c, True)))"

section \<open>Needs\<close>

text \<open>\<open>camelToSnake\<close> on ASCII names; a byte of a longer rune counts as neither case.\<close>

definition is_upper :: "char \<Rightarrow> bool" where
  "is_upper c \<longleftrightarrow> lower_byte c \<noteq> c"

definition is_lower :: "char \<Rightarrow> bool" where
  "is_lower c \<longleftrightarrow> c \<in> set ''abcdefghijklmnopqrstuvwxyz''"

fun snake_from :: "char option \<Rightarrow> string \<Rightarrow> string" where
  "snake_from prev [] = []"
| "snake_from prev (r # rs) =
     (if is_upper r then
        (case prev of
           Some p \<Rightarrow> (let nextLower = (rs \<noteq> [] \<and> is_lower (hd rs)) in
                        if is_lower p \<or> (is_upper p \<and> nextLower) then ''_'' else [])
         | None \<Rightarrow> []) @ [lower_byte r]
      else [r]) @ snake_from (Some r) rs"

definition camelToSnake :: "string \<Rightarrow> string" where
  "camelToSnake s = snake_from None s"

definition methodNeedPrefix :: string where
  "methodNeedPrefix = CHR 0x00 # ''method:''"

text \<open>The part of a string behind its last dot.\<close>

definition after_last_dot :: "string \<Rightarrow> string" where
  "after_last_dot key = rev (takeWhile (\<lambda>c. c \<noteq> CHR ''.'') (rev key))"

definition methodTaskName :: "'b registry \<Rightarrow> string \<Rightarrow> string \<Rightarrow> string option" where
  "methodTaskName reg key pfx =
     (let ts = (case map_of (rg_methodTasks reg) key of Some ts \<Rightarrow> ts | None \<Rightarrow> []) in
      if length ts = 1 then Some (hd ts)
      else if pfx = [] then None
      else (let want = pfx @ camelToSnake (after_last_dot key) in if want \<in> set ts then Some want else None))"

definition noteMethodTask :: "string \<Rightarrow> string \<Rightarrow> 'b registry \<Rightarrow> 'b registry" where
  "noteMethodTask key name reg =
     reg\<lparr>rg_methodTasks :=
       (case map_of (rg_methodTasks reg) key of
          None \<Rightarrow> (key, [name]) # rg_methodTasks reg
        | Some ts \<Rightarrow> (key, ts @ [name]) # rg_methodTasks reg)\<rparr>"

definition resolveNeedName :: "'b registry \<Rightarrow> string \<Rightarrow> string \<Rightarrow> (string \<Rightarrow> bool) \<Rightarrow> string option" where
  "resolveNeedName reg pfx n exists =
     (if has_prefix n methodNeedPrefix then
        (case methodTaskName reg (drop (length methodNeedPrefix) n) pfx of
           Some name \<Rightarrow> if exists name then Some name else None
         | None \<Rightarrow> None)
      else if pfx \<noteq> [] \<and> exists (pfx @ n) then Some (pfx @ n)
      else if exists n then Some n
      else None)"

text \<open>The results that are there, in order.\<close>

definition somes :: "'a option list \<Rightarrow> 'a list" where
  "somes xs = map the (filter (\<lambda>x. x \<noteq> None) xs)"

lemma set_somes [simp]: "x \<in> set (somes xs) \<longleftrightarrow> Some x \<in> set xs"
  by (force simp: somes_def)

definition needEdges :: "'b registry \<Rightarrow> (string \<Rightarrow> bool) \<Rightarrow> 'b taskCandidate \<Rightarrow> string list" where
  "needEdges reg exists c =
     (if tc_aliasOf c \<noteq> [] then [tc_aliasOf c]
      else somes (map (\<lambda>n. resolveNeedName reg (tc_needsPrefix c) n exists) (tc_needs c)))"

definition resolvedNeeds :: "'b registry \<Rightarrow> 'b taskCandidate \<Rightarrow> string list" where
  "resolvedNeeds reg c = needEdges reg (candidateExists reg) c"

text \<open>
  The walk of \<open>needsCycle\<close> over the edges of one task: the path to that task, the edges left, and the
  visited set all calls share. \<open>graph\<close> gives the edges of a task that exists.
\<close>

function (domintros) need_walk ::
  "(string \<times> string list) list \<Rightarrow> string \<Rightarrow> string list \<Rightarrow> string list \<Rightarrow> string list \<Rightarrow> string list option \<times> string list" where
  "need_walk graph t path [] visited = (None, visited)"
| "need_walk graph t path (n # ns) visited =
     (if n = t then (Some (path @ [n]), visited)
      else if n \<in> set visited then need_walk graph t path ns visited
      else case map_of graph n of
        None \<Rightarrow> need_walk graph t path ns visited
      | Some es \<Rightarrow>
          (case need_walk graph t (path @ [n]) es (n # visited) of
             (Some chain, visited') \<Rightarrow> (Some chain, visited')
           | (None, visited') \<Rightarrow> need_walk graph t path ns visited'))"
  by pat_completeness auto

lemma need_walk_visited:
  "need_walk_dom (graph, t, path, ns, visited) \<Longrightarrow> set visited \<subseteq> set (snd (need_walk graph t path ns visited))"
proof (induction rule: need_walk.pinduct)
  case (1 graph t path visited)
  then show ?case by (simp add: need_walk.psimps)
next
  case (2 graph t path n ns visited)
  show ?case
  proof (cases "n = t \<or> n \<in> set visited \<or> map_of graph n = None")
    case True
    with 2 show ?thesis by (auto simp: need_walk.psimps(2))
  next
    case False
    then obtain es where es: "n \<noteq> t" "n \<notin> set visited" "map_of graph n = Some es" by auto
    obtain ch v' where w: "need_walk graph t (path @ [n]) es (n # visited) = (ch, v')" by (metis surj_pair)
    have "set visited \<subseteq> set v'" using "2.IH"(3) [OF es(1,2,3)] w by auto
    with "2.IH"(4) [OF es(1,2,3)] "2.hyps" es w show ?thesis
      by (cases ch) (auto simp: need_walk.psimps(2))
  qed
qed

termination need_walk
proof (relation "measures [\<lambda>(graph, t, path, ns, visited). card (fst ` set graph - set visited),
    \<lambda>(graph, t, path, ns, visited). length ns]", goal_cases)
  case (4 graph t path n ns visited es)
  then have "n \<in> fst ` set graph" by (auto simp: rev_image_eqI dest!: map_of_SomeD)
  with 4 have "card (fst ` set graph - insert n (set visited)) < card (fst ` set graph - set visited)"
    by (intro psubset_card_mono) auto
  then show ?case by simp
next
  case (5 graph t path n ns visited es ch v')
  then have "snd (need_walk graph t (path @ [n]) es (n # visited)) = v'" by (metis snd_conv)
  with 5 have "set visited \<subseteq> set v'" using need_walk_visited [of graph t "path @ [n]" es "n # visited"] by auto
  then have "card (fst ` set graph - set v') \<le> card (fst ` set graph - set visited)"
    by (intro card_mono) auto
  then show ?case by auto
qed auto

definition needsCycle :: "'b registry \<Rightarrow> 'b taskCandidate \<Rightarrow> (string \<Rightarrow> bool) \<Rightarrow> string list option" where
  "needsCycle reg c exists =
     fst (need_walk (map (\<lambda>d. (tc_name d, needEdges reg exists d)) (c # rg_candidates reg))
            (tc_name c) [tc_name c] (needEdges reg exists c) [])"

definition checkNeeds :: "'b registry \<Rightarrow> 'b taskCandidate \<Rightarrow> task_error check" where
  "checkNeeds reg c =
     (if tc_needs c = [] then Inr ()
      else (let exists = (\<lambda>name. name = tc_name c \<or> candidateExists reg name) in
        bind_res (check_all (\<lambda>n.
            if n = [] then Inl (NeedNameEmpty (tc_name c))
            else if resolveNeedName reg (tc_needsPrefix c) n exists = Some (tc_name c) then Inl (NeedsItself (tc_name c))
            else Inr ()) (tc_needs c)) (\<lambda>_.
          (case needsCycle reg c exists of
             Some chain \<Rightarrow> Inl (NeedsCycleFound (tc_name c) chain)
           | None \<Rightarrow> Inr ()))))"

text \<open>\<open>Task\<close> once its options made the candidate; a task declared this way is never an alias.\<close>

definition Task :: "'b taskCandidate \<Rightarrow> 'b registry \<Rightarrow> (task_error, 'b registry) result" where
  "Task c reg =
     (if tc_name c = [] then Inl TaskNameEmpty
      else bind_res (checkNeeds reg c) (\<lambda>_. queueCandidate c reg))"

section \<open>Aggregates and activation\<close>

fun members_apart :: "'b registry \<Rightarrow> string \<Rightarrow> string list \<Rightarrow> string list \<Rightarrow> task_error check" where
  "members_apart reg name seen [] = Inr ()"
| "members_apart reg name seen (m # ms) =
     (if m = [] then Inl (MemberNameEmpty name)
      else if m = name then Inl (ListsItself name)
      else if m \<in> set seen then Inl (MemberTwice name m)
      else case findCandidate reg m of
        Some c \<Rightarrow>
          if tc_aliasOf c = name then Inl (MemberIsAliasOfAggregate name m)
          else members_apart reg name (m # seen) ms
      | None \<Rightarrow> members_apart reg name (m # seen) ms)"

definition checkAggregateMembers :: "'b registry \<Rightarrow> string \<Rightarrow> string list \<Rightarrow> task_error check" where
  "checkAggregateMembers reg name members =
     (if members = [] then Inl (NoMembers name) else members_apart reg name [] members)"

text \<open>
  \<open>containsOperational\<close> with the recursion over a task's needs and members unrolled: what is left to
  visit is one list, the children of a task before the rest.
\<close>

definition oper_children :: "'b registry \<Rightarrow> 'b taskCandidate \<Rightarrow> string list" where
  "oper_children reg c =
     (if tc_aliasOf c \<noteq> [] then [tc_aliasOf c] else resolvedNeeds reg c @ tc_members c)"

lemma findCandidate_in: "findCandidate reg n = Some c \<Longrightarrow> n \<in> set (map tc_name (rg_candidates reg))"
  by (auto simp: findCandidate_def find_Some_iff)

function oper_walk :: "'b registry \<Rightarrow> string list \<Rightarrow> string list \<Rightarrow> bool" where
  "oper_walk reg visited [] = False"
| "oper_walk reg visited (n # ns) =
     (if n \<in> set visited then oper_walk reg visited ns
      else case findCandidate reg n of
        None \<Rightarrow> oper_walk reg (n # visited) ns
      | Some c \<Rightarrow>
          if tc_operational c then True else oper_walk reg (n # visited) (oper_children reg c @ ns))"
  by pat_completeness auto
termination
proof (relation "measures [\<lambda>(reg, visited, ns). card (tc_name ` set (rg_candidates reg) - set visited),
    \<lambda>(reg, visited, ns). length ns]", goal_cases)
  case (3 reg visited n ns)
  have "card (tc_name ` set (rg_candidates reg) - set (n # visited)) \<le> card (tc_name ` set (rg_candidates reg) - set visited)"
    by (rule card_mono) auto
  then show ?case by auto
next
  case (4 reg visited n ns c)
  then have "n \<in> tc_name ` set (rg_candidates reg)" using findCandidate_in by fastforce
  with 4 have "card (tc_name ` set (rg_candidates reg) - set (n # visited)) < card (tc_name ` set (rg_candidates reg) - set visited)"
    by (intro psubset_card_mono) auto
  then show ?case by simp
qed auto

definition containsOperational :: "'b registry \<Rightarrow> string \<Rightarrow> bool" where
  "containsOperational reg name = oper_walk reg [] [name]"

definition whenPasses :: "(Facts \<Rightarrow> bool) list \<Rightarrow> Facts \<Rightarrow> bool" where
  "whenPasses preds facts = list_all (\<lambda>p. p facts) preds"

fun formatTerm :: "Predicate \<Rightarrow> string" where
  "formatTerm p =
     (if p_path_exists p \<noteq> [] then ''path_exists='' @ p_path_exists p
      else if p_in p \<noteq> [] then p_fact p @ (if p_not p then ''!='' else ''='') @ join ''|'' (p_in p)
      else p_fact p @ (if p_not p then ''!='' else ''='') @ p_eq p)"

definition formatGuard :: "Predicate list \<Rightarrow> string" where
  "formatGuard preds = join '' && '' (map formatTerm preds)"

text \<open>The host answers the path tests of a guard; \<open>st\<close> is its state.\<close>

definition unmetGuard :: "('s, 'e, 'c) host \<Rightarrow> 's \<Rightarrow> Predicate list \<Rightarrow> Facts \<Rightarrow> string" where
  "unmetGuard h st preds facts =
     (if preds = [] then []
      else if evalAll h facts st preds = Inr True then []
      else formatGuard preds)"

definition active_candidates :: "'b registry \<Rightarrow> Facts \<Rightarrow> 'b taskCandidate list" where
  "active_candidates reg facts =
     filter (\<lambda>c. tc_aliasOf c = [] \<and> whenPasses (tc_opaque c) facts) (rg_candidates reg)"

text \<open>The map \<open>tasks\<close> as \<open>activateLocked\<close> builds it: real tasks first, then the aliases of active ones.\<close>

definition activate :: "('s, 'e, 'c) host \<Rightarrow> 's \<Rightarrow> 'b registry \<Rightarrow> Facts \<Rightarrow> (string \<times> task) list" where
  "activate h st reg facts =
     (let real = map (\<lambda>c. (tc_name c, \<lparr>tk_name = tc_name c, tk_description = tc_description c, tk_aliasOf = [],
                    tk_destinationGuard = unmetGuard h st (tc_planWhen c) facts\<rparr>)) (active_candidates reg facts);
          aliases = filter (\<lambda>c. tc_aliasOf c \<noteq> []) (rg_candidates reg)
      in fold (\<lambda>c tasks.
            case map_of tasks (tc_aliasOf c) of
              None \<Rightarrow> tasks
            | Some target \<Rightarrow>
                if tk_aliasOf target \<noteq> [] then tasks
                else tasks @ [(tc_name c, \<lparr>tk_name = tc_name c, tk_description = tc_description c,
                         tk_aliasOf = tc_aliasOf c, tk_destinationGuard = tk_destinationGuard target\<rparr>)])
           aliases real)"

text \<open>\<open>tasks\<close> are the active ones, \<open>skip\<close> tells which members the local destination's guards exclude.\<close>

definition patternMembers ::
  "'b registry \<Rightarrow> (string \<times> task) list \<Rightarrow> (string \<Rightarrow> bool) \<Rightarrow> string \<Rightarrow> string list \<Rightarrow> string list" where
  "patternMembers reg tasks skip name matching =
     filter (\<lambda>n. n \<noteq> name
         \<and> \<not> (case map_of tasks n of Some t \<Rightarrow> tk_aliasOf t = name | None \<Rightarrow> False)
         \<and> \<not> containsOperational reg n \<and> \<not> skip n) matching"

definition activeMembers ::
  "'b registry \<Rightarrow> (string \<times> task) list \<Rightarrow> (string \<Rightarrow> bool) \<Rightarrow> string list \<Rightarrow> (task_error, string list) result" where
  "activeMembers reg tasks skip members =
     bind_res (check_all (\<lambda>m.
         if \<not> candidateExists reg m then Inl (UnknownMember m)
         else bind_res (resolveAlias reg m) (\<lambda>_. Inr ())) members) (\<lambda>_.
       Inr (filter (\<lambda>m. map_of tasks m \<noteq> None \<and> \<not> skip m) members))"

definition skippedOnLocalDestination ::
  "('s, 'e, 'c) host \<Rightarrow> 's \<Rightarrow> 'b registry \<Rightarrow> Facts option \<Rightarrow> string \<Rightarrow> bool" where
  "skippedOnLocalDestination h st reg local name =
     (case local of
        None \<Rightarrow> False
      | Some facts \<Rightarrow>
          (case resolveAlias reg name of
             Inl e \<Rightarrow> False
           | Inr (target, _) \<Rightarrow>
               (case findCandidate reg target of
                  None \<Rightarrow> False
                | Some c \<Rightarrow> unmetGuard h st (tc_planWhen c) facts \<noteq> [])))"

section \<open>Lemmas: the walk finds exactly the cycles\<close>

declare need_walk.simps(2) [simp del]

lemma need_walk_skip:
  "n \<noteq> t \<Longrightarrow> n \<in> set visited \<or> map_of graph n = None \<Longrightarrow>
     need_walk graph t path (n # ns) visited = need_walk graph t path ns visited"
  by (cases "n \<in> set visited") (simp_all add: need_walk.simps(2))

lemma need_walk_Some:
  "need_walk graph t path ns visited = (Some chain, v')
   \<Longrightarrow> \<exists>n mid. n \<in> set ns \<and> (n, t) \<in> (edge_rel graph)\<^sup>* \<and> chain = path @ n # mid \<and> last chain = t"
proof (induction graph t path ns visited arbitrary: chain v' rule: need_walk.induct)
  case (2 graph t path n ns visited)
  show ?case
  proof (cases "n = t")
    case True
    with 2 show ?thesis by (auto simp: need_walk.simps(2))
  next
    case nt: False
    show ?thesis
    proof (cases "n \<in> set visited \<or> map_of graph n = None")
      case True
      then have "need_walk graph t path ns visited = (Some chain, v')" using 2(5) nt need_walk_skip by metis
      then show ?thesis using "2.IH"(1) "2.IH"(2) True nt by fastforce
    next
      case False
      then obtain es where es: "n \<notin> set visited" "map_of graph n = Some es" by auto
      obtain ch w where w: "need_walk graph t (path @ [n]) es (n # visited) = (ch, w)" by (metis surj_pair)
      show ?thesis
      proof (cases ch)
        case None
        then have "need_walk graph t path ns w = (Some chain, v')" using 2(5) nt es w by (simp add: need_walk.simps(2))
        then show ?thesis using "2.IH"(4) [OF nt es w [symmetric]] None by fastforce
      next
        case (Some c)
        then have "c = chain" using 2(5) nt es w by (simp add: need_walk.simps(2))
        with "2.IH"(3) [OF nt es] w Some obtain m mid where
          "m \<in> set es" "(m, t) \<in> (edge_rel graph)\<^sup>*" "chain = (path @ [n]) @ m # mid" "last chain = t" by blast
        moreover from this es(2) have "(n, t) \<in> (edge_rel graph)\<^sup>*"
          by (auto simp: edge_rel_iff intro: converse_rtrancl_into_rtrancl)
        ultimately show ?thesis by auto
      qed
    qed
  qed
qed simp

lemma need_walk_None:
  assumes "need_walk graph t path ns visited = (None, v')"
  shows "set visited \<subseteq> set v' \<and> (\<forall>x \<in> set ns. x \<noteq> t \<and> (map_of graph x \<noteq> None \<longrightarrow> x \<in> set v'))
    \<and> (\<forall>u \<in> set v' - set visited. \<forall>x. (u, x) \<in> edge_rel graph \<longrightarrow> x \<noteq> t \<and> (map_of graph x \<noteq> None \<longrightarrow> x \<in> set v'))"
  using assms
proof (induction graph t path ns visited arbitrary: v' rule: need_walk.induct)
  case (2 graph t path n ns visited)
  from 2(5) have nt: "n \<noteq> t" by (auto simp: need_walk.simps(2))
  show ?case
  proof (cases "n \<in> set visited \<or> map_of graph n = None")
    case True
    then have w: "need_walk graph t path ns visited = (None, v')" using 2(5) nt need_walk_skip by metis
    show ?thesis
    proof (cases "n \<in> set visited")
      case v: True
      show ?thesis using "2.IH"(1) [OF nt v w] nt v by auto
    next
      case v: False
      then have "map_of graph n = None" using True by simp
      with "2.IH"(2) [OF nt v this w] nt show ?thesis by auto
    qed
  next
    case False
    then obtain es where es: "n \<notin> set visited" "map_of graph n = Some es" by auto
    obtain ch w where w: "need_walk graph t (path @ [n]) es (n # visited) = (ch, w)" by (metis surj_pair)
    then have ch: "ch = None" and rest: "need_walk graph t path ns w = (None, v')"
      using 2(5) nt es by (cases ch; simp add: need_walk.simps(2))+
    note inner = "2.IH"(3) [OF nt es w [unfolded ch]]
    note outer = "2.IH"(4) [OF nt es w [symmetric] ch rest]
    have n: "(n, x) \<in> edge_rel graph \<longleftrightarrow> x \<in> set es" for x using es by (simp add: edge_rel_iff)
    have sub: "set (n # visited) \<subseteq> set w" "set w \<subseteq> set v'" using inner outer by blast+
    have es': "x \<noteq> t \<and> (map_of graph x \<noteq> None \<longrightarrow> x \<in> set w)" if "x \<in> set es" for x
      using inner that by blast
    have wi: "x \<noteq> t \<and> (map_of graph x \<noteq> None \<longrightarrow> x \<in> set w)"
      if "u \<in> set w - set (n # visited)" "(u, x) \<in> edge_rel graph" for u x
      using conjunct2 [OF conjunct2 [OF inner]] that by blast
    have vo: "x \<noteq> t \<and> (map_of graph x \<noteq> None \<longrightarrow> x \<in> set v')"
      if "u \<in> set v' - set w" "(u, x) \<in> edge_rel graph" for u x
      using conjunct2 [OF conjunct2 [OF outer]] that by blast
    have "x \<noteq> t \<and> (map_of graph x \<noteq> None \<longrightarrow> x \<in> set v')"
      if u: "u \<in> set v' - set visited" and e: "(u, x) \<in> edge_rel graph" for u x
    proof -
      consider "u = n" | "u \<in> set w - set (n # visited)" | "u \<in> set v' - set w" using u by auto
      then show ?thesis
      proof cases
        case 1
        with e n es' [of x] sub(2) show ?thesis by auto
      next
        case 2
        with wi [OF _ e] sub(2) show ?thesis by auto
      next
        case 3
        with vo [OF _ e] show ?thesis by auto
      qed
    qed
    moreover have "\<forall>x \<in> set (n # ns). x \<noteq> t \<and> (map_of graph x \<noteq> None \<longrightarrow> x \<in> set v')"
      using outer nt sub by auto
    ultimately show ?thesis using sub by auto
  qed
qed simp

lemma need_walk_decides:
  assumes "map_of graph t = Some es"
  shows "fst (need_walk graph t path es []) = None \<longleftrightarrow> (t, t) \<notin> (edge_rel graph)\<^sup>+"
proof -
  obtain ch v where w: "need_walk graph t path es [] = (ch, v)" by (rule prod.exhaust)
  have t: "(t, b) \<in> edge_rel graph \<longleftrightarrow> b \<in> set es" for b using assms by (simp add: edge_rel_iff)
  show ?thesis
  proof (cases ch)
    case None
    note closed = need_walk_None [OF w [unfolded None]]
    have "(t, t) \<notin> (edge_rel graph)\<^sup>+"
    proof (rule closed_never_reaches [where S = "insert t (set v)"])
      fix x y assume x: "x \<in> insert t (set v)" and e: "(x, y) \<in> edge_rel graph"
      have "y \<noteq> t \<and> (map_of graph y \<noteq> None \<longrightarrow> y \<in> set v)"
      proof (cases "x = t")
        case True
        with e t have "y \<in> set es" by simp
        with closed show ?thesis by blast
      next
        case False
        with x have "x \<in> set v - set []" by simp
        with conjunct2 [OF conjunct2 [OF closed]] e show ?thesis by blast
      qed
      then show "y \<noteq> t \<and> ((\<exists>w. (y, w) \<in> edge_rel graph) \<longrightarrow> y \<in> insert t (set v))"
        by (auto simp: edge_rel_iff)
    qed simp
    with w None show ?thesis by simp
  next
    case (Some chain)
    from need_walk_Some [OF w [unfolded Some]] obtain x where "x \<in> set es" "(x, t) \<in> (edge_rel graph)\<^sup>*" by blast
    then have "(t, t) \<in> (edge_rel graph)\<^sup>+" using t by (metis rtrancl_into_trancl2)
    with w Some show ?thesis by simp
  qed
qed

section \<open>Lemmas: the Needs graph of a registry\<close>

definition need_rel :: "'b registry \<Rightarrow> (string \<times> string) set" where
  "need_rel reg = {(a, b). \<exists>c. findCandidate reg a = Some c \<and> b \<in> set (resolvedNeeds reg c)}"

definition with_candidate :: "'b registry \<Rightarrow> 'b taskCandidate \<Rightarrow> 'b registry" where
  "with_candidate reg c = reg\<lparr>rg_candidates := rg_candidates reg @ [c]\<rparr>"

lemma find_map_of: "find (\<lambda>c. f c = k) cs = Some c \<Longrightarrow> map_of (map (\<lambda>d. (f d, g d)) cs) k = Some (g c)"
  by (induction cs) (auto split: if_splits)

lemma find_map_of_None: "find (\<lambda>c. f c = k) cs = None \<Longrightarrow> map_of (map (\<lambda>d. (f d, g d)) cs) k = None"
  by (induction cs) (auto split: if_splits)

lemma findCandidate_name: "findCandidate reg a = Some c \<Longrightarrow> tc_name c = a"
  by (auto simp: findCandidate_def find_Some_iff)

lemma findCandidate_with:
  "\<not> candidateExists reg (tc_name c) \<Longrightarrow>
     findCandidate (with_candidate reg c) a = (if a = tc_name c then Some c else findCandidate reg a)"
proof -
  have "find P (cs @ [c]) = (case find P cs of None \<Rightarrow> if P c then Some c else None | Some d \<Rightarrow> Some d)"
    for P and cs :: "'a taskCandidate list"
    by (induction cs) auto
  moreover assume "\<not> candidateExists reg (tc_name c)"
  ultimately show ?thesis
    by (auto simp: findCandidate_def with_candidate_def candidateExists_def split: option.splits dest: findCandidate_name)
qed

lemma exists_with:
  "\<not> candidateExists reg (tc_name c) \<Longrightarrow>
     candidateExists (with_candidate reg c) = (\<lambda>name. name = tc_name c \<or> candidateExists reg name)"
  by (rule ext) (auto simp: candidateExists_def findCandidate_with)

lemma resolve_with_candidate [simp]: "resolveNeedName (with_candidate reg c) = resolveNeedName reg"
  by (simp add: fun_eq_iff resolveNeedName_def methodTaskName_def with_candidate_def)

lemma needEdges_with_candidate [simp]: "needEdges (with_candidate reg c) = needEdges reg"
  by (simp add: fun_eq_iff needEdges_def)

text \<open>A further name can only make a need resolve to that name.\<close>

lemma resolve_more:
  "resolveNeedName reg pfx n (\<lambda>x. x = a \<or> ex x) = Some b \<Longrightarrow> b = a \<or> resolveNeedName reg pfx n ex = Some b"
  by (auto simp: resolveNeedName_def split: option.splits if_splits)

lemma needEdges_more: "b \<in> set (needEdges reg (\<lambda>x. x = a \<or> ex x) c) \<Longrightarrow> b = a \<or> b \<in> set (needEdges reg ex c)"
proof (cases "tc_aliasOf c = []")
  case True
  assume "b \<in> set (needEdges reg (\<lambda>x. x = a \<or> ex x) c)"
  with True obtain n where n: "n \<in> set (tc_needs c)"
    "resolveNeedName reg (tc_needsPrefix c) n (\<lambda>x. x = a \<or> ex x) = Some b"
    by (auto simp: needEdges_def)
  from resolve_more [OF n(2)] n(1) True show ?thesis by (force simp: needEdges_def)
qed (simp add: needEdges_def)

lemma need_rel_with:
  assumes "\<not> candidateExists reg (tc_name c)"
  shows "edge_rel (map (\<lambda>d. (tc_name d, needEdges reg (\<lambda>x. x = tc_name c \<or> candidateExists reg x) d)) (c # rg_candidates reg))
    = need_rel (with_candidate reg c)"
proof -
  let ?e = "\<lambda>d. needEdges reg (\<lambda>x. x = tc_name c \<or> candidateExists reg x) d"
  have "map_of (map (\<lambda>d. (tc_name d, ?e d)) (c # rg_candidates reg)) a
      = map_option ?e (findCandidate (with_candidate reg c) a)" for a
  proof (cases "find (\<lambda>d. tc_name d = a) (rg_candidates reg)")
    case None
    then show ?thesis
      using assms find_map_of_None [OF None, of ?e] by (simp add: findCandidate_with) (simp add: findCandidate_def)
  next
    case (Some d)
    then show ?thesis
      using assms find_map_of [OF Some, of ?e] by (simp add: findCandidate_with) (simp add: findCandidate_def)
  qed
  then show ?thesis
    using assms by (auto simp: edge_rel_iff need_rel_def resolvedNeeds_def exists_with) 
qed

lemma need_rel_with_old:
  assumes "\<not> candidateExists reg (tc_name c)" "(a, b) \<in> need_rel (with_candidate reg c)"
  shows "(a, b) \<in> need_rel reg \<or> a = tc_name c \<or> b = tc_name c"
proof -
  obtain d where d: "findCandidate (with_candidate reg c) a = Some d"
    "b \<in> set (needEdges reg (\<lambda>x. x = tc_name c \<or> candidateExists reg x) d)"
    using assms by (auto simp: need_rel_def resolvedNeeds_def exists_with)
  from needEdges_more [OF d(2)] d(1) assms(1) show ?thesis
    by (auto simp: need_rel_def resolvedNeeds_def findCandidate_with split: if_splits)
qed

lemma need_rel_from: "findCandidate reg a = Some c \<Longrightarrow> (a, b) \<in> need_rel reg \<longleftrightarrow> b \<in> set (resolvedNeeds reg c)"
  by (simp add: need_rel_def)

lemma need_rel_new:
  assumes "\<not> candidateExists reg (tc_name c)"
  shows "(tc_name c, b) \<in> need_rel (with_candidate reg c)
    \<longleftrightarrow> b \<in> set (needEdges reg (\<lambda>x. x = tc_name c \<or> candidateExists reg x) c)"
proof -
  have "findCandidate (with_candidate reg c) (tc_name c) = Some c" using assms by (simp add: findCandidate_with)
  from need_rel_from [OF this] show ?thesis unfolding resolvedNeeds_def exists_with [OF assms] needEdges_with_candidate .
qed

lemma needsCycle_None_iff:
  assumes "\<not> candidateExists reg (tc_name c)"
  shows "needsCycle reg c (\<lambda>x. x = tc_name c \<or> candidateExists reg x) = None
    \<longleftrightarrow> (tc_name c, tc_name c) \<notin> (need_rel (with_candidate reg c))\<^sup>+"
  unfolding needsCycle_def need_rel_with [OF assms, symmetric]
  by (rule need_walk_decides) simp

lemma with_candidate_acyclic_iff:
  assumes "\<not> candidateExists reg (tc_name c)" "acyclic (need_rel reg)"
  shows "acyclic (need_rel (with_candidate reg c)) \<longleftrightarrow> (tc_name c, tc_name c) \<notin> (need_rel (with_candidate reg c))\<^sup>+"
  using new_cycle_passes [OF assms(2) need_rel_with_old [OF assms(1)]] by (auto simp: acyclic_def)

lemma Task_queues: "is_ok (Task c reg) \<Longrightarrow> Task c reg = Inr (with_candidate reg c)"
  by (auto simp: is_ok_iff Task_def queueCandidate_def with_candidate_def res_simps split: if_splits)

lemma Alias_queues:
  "is_ok (Alias nil name desc target reg) \<Longrightarrow>
     Alias nil name desc target reg = Inr (with_candidate reg (alias_candidate nil name desc target))"
  by (auto simp: is_ok_iff Alias_def queueCandidate_def with_candidate_def res_simps split: if_splits)

section \<open>Properties\<close>


text \<open>A registry for the witnesses: b needs c, and a need of an unknown task is no edge yet.\<close>

definition plain_task :: "string \<Rightarrow> string list \<Rightarrow> unit taskCandidate" where
  "plain_task name needs =
     \<lparr>tc_name = name, tc_description = [], tc_fn = (), tc_planWhen = [], tc_opaque = [], tc_privileged = False,
      tc_cluster = [], tc_operational = False, tc_aliasOf = [], tc_aggregate = False, tc_members = [], tc_needs = needs,
      tc_needsPrefix = []\<rparr>"

definition two_tasks :: "unit registry" where
  "two_tasks = \<lparr>rg_candidates = [plain_task ''b'' [''c''], plain_task ''c'' [''d'']], rg_methodTasks = []\<rparr>"

lemma two_tasks_edges: "need_rel two_tasks = {(''b'', ''c'')}"
  by (auto simp: need_rel_def two_tasks_def findCandidate_def resolvedNeeds_def needEdges_def resolveNeedName_def
      plain_task_def candidateExists_def methodNeedPrefix_def split: if_splits)


text \<open>
  The check covers tasks only: an alias queued last can close a cycle it never looks at. Here b needs
  the unknown task a, and a becomes an alias of b.
\<close>

lemma alias_closes_needs_cycle:
  "\<exists>reg1 reg2. Task (plain_task ''b'' [''a'']) no_tasks = Inr reg1 \<and> Alias () ''a'' [] ''b'' reg1 = Inr reg2
     \<and> \<not> acyclic (need_rel reg2)"
proof -
  let ?b = "plain_task ''b'' [''a'']"
  let ?a = "alias_candidate () ''a'' [] ''b''"
  let ?reg1 = "with_candidate no_tasks ?b"
  let ?reg2 = "with_candidate ?reg1 ?a"
  have "is_ok (Task ?b no_tasks)" by code_simp
  then have 1: "Task ?b no_tasks = Inr ?reg1" by (rule Task_queues)
  have "is_ok (Alias () ''a'' [] ''b'' ?reg1)" by code_simp
  then have 2: "Alias () ''a'' [] ''b'' ?reg1 = Inr ?reg2" by (rule Alias_queues)
  have "''a'' \<in> set (resolvedNeeds ?reg2 ?b)" "''b'' \<in> set (resolvedNeeds ?reg2 (alias_candidate () ''a'' [] ''b''))"
    by code_simp+
  moreover have "findCandidate ?reg2 ''b'' = Some ?b" "findCandidate ?reg2 ''a'' = Some (alias_candidate () ''a'' [] ''b'')"
    by (simp_all add: findCandidate_def plain_task_def alias_candidate_def with_candidate_def no_tasks_def)
  ultimately have "(''b'', ''a'') \<in> need_rel ?reg2" "(''a'', ''b'') \<in> need_rel ?reg2"
    unfolding need_rel_def by blast+
  then have "\<not> acyclic (need_rel ?reg2)" unfolding acyclic_def by (meson r_into_trancl trancl_trans)
  with 1 2 show ?thesis by blast
qed

end
