(* ===== verification/Recording.thy ===== *)
theory Recording
  imports Repository Tasks
begin

text \<open>
  Recording a plan: the recorded ops (\<open>plan/record.go\<close>) and the recording session of \<open>api/plan.go\<close>,
  with Needs (\<open>task_needs.go\<close>), aggregates (\<open>aggregate.go\<close>) and when fragments (\<open>when_hostname.go\<close>,
  \<open>when_path.go\<close>). A task's body is Go code; what it does to a recording is the list of the DSL calls it
  makes. The packager that turns a draft into an op, with its blob store, is a parameter, as are the
  active tasks, the names a pattern matches and the facts. Secret scanning and panics are not modelled,
  and a body goes on after a nested \<open>Run\<close> that failed.
\<close>

section \<open>Recorded ops\<close>

record plan_record =
  pr_recording :: bool
  pr_recorded :: "Op list"

definition Record :: "Op \<Rightarrow> plan_record \<Rightarrow> plan_record" where
  "Record op p = (if \<not> pr_recording p then p else p\<lparr>pr_recorded := pr_recorded p @ [op]\<rparr>)"

datatype 'x amend_refusal =
    BehindBoundary string kind
  | BehindOtherChunk string string
  | OtherPrivilege string bool bool
  | AmendFailed 'x

definition checkAmendableRun :: "Op \<Rightarrow> Op list \<Rightarrow> 'x amend_refusal check" where
  "checkAmendableRun target after =
     check_all (\<lambda>op.
       if IsControlKind (op_kind op) then Inl (BehindBoundary (op_id target) (op_kind op))
       else if op_elevate op \<noteq> op_elevate target then Inl (BehindOtherChunk (op_id target) (op_id op))
       else Inr ()) after"

text \<open>The index of the last op that carries an id.\<close>

definition last_index :: "string \<Rightarrow> Op list \<Rightarrow> nat option" where
  "last_index i ops =
     (case filter (\<lambda>k. op_id (ops ! k) = i) [0..<length ops] of [] \<Rightarrow> None | ks \<Rightarrow> Some (last ks))"

definition AmendRecorded ::
  "string \<Rightarrow> (Op \<Rightarrow> ('x, Op) result) \<Rightarrow> plan_record \<Rightarrow> ('x amend_refusal, plan_record) result" where
  "AmendRecorded i amend p =
     (if \<not> pr_recording p then Inr p
      else case last_index i (pr_recorded p) of
        None \<Rightarrow> Inr p
      | Some k \<Rightarrow>
          (let target = pr_recorded p ! k in
           bind_res (checkAmendableRun target (drop (Suc k) (pr_recorded p))) (\<lambda>_.
           bind_res (map_err AmendFailed (amend target)) (\<lambda>op.
           if op_elevate op \<noteq> op_elevate target
           then Inl (OtherPrivilege i (op_elevate target) (op_elevate op))
           else Inr (p\<lparr>pr_recorded := (pr_recorded p)[k := op]\<rparr>)))))"

definition FinishRecord :: "string \<Rightarrow> plan_record \<Rightarrow> Op list" where
  "FinishRecord i p =
     (zero_op KindPlan)\<lparr>op_version := RequiredVersion (pr_recorded p), op_id := i\<rparr> # pr_recorded p"

section \<open>Bodies and the recording session\<close>

text \<open>
  The DSL calls of a body: a resource constructor, whose draft is \<open>None\<close> for a kind that records none,
  any misuse it reports, when fragments, a nested \<open>Run\<close>, and the two bodies of an aggregate.
\<close>

datatype ('v, 'o, 'x) call =
    Declare string string "'v option" "string list" "'o PlanDraft option"
  | Misuse 'x
  | WhenHostname "string list" "('v, 'o, 'x) call list"
  | WhenPathExists string "('v, 'o, 'x) call list"
  | Run "string list"
  | RunMatching string string
  | RunMembers string "string list"

datatype 'x record_error =
    PlanIdEmpty
  | NoTasksGiven
  | UnknownTask string
  | RecursionCycle "string list"
  | AliasFailed task_error
  | NeedUnknown string string
  | NeedAliasFailed string string task_error
  | OpaqueWhenFails string
  | WithoutDraft string "string list"
  | PackFailed 'x
  | MisuseReported 'x
  | Collided collision
  | BlankFragment nat string
  | NestedRunFailed string "'x record_error"
  | AggregateFailed string "'x record_error"
  | AggregateEmpty string
  | AggregateMembers task_error
  | PlanRefusedError refusal

text \<open>\<open>errors.Is\<close>: an error is found in the ones that wrap it.\<close>

fun wraps :: "'x record_error \<Rightarrow> 'x record_error \<Rightarrow> bool" where
  "wraps (NestedRunFailed t e) s = (NestedRunFailed t e = s \<or> wraps e s)"
| "wraps (AggregateFailed t e) s = (AggregateFailed t e = s \<or> wraps e s)"
| "wraps e s = (e = s)"

record needsScope =
  nd_recorded :: "string list"
  nd_viaNeeds :: "string list"

text \<open>
  The session, the recorded ops, the repository, the blob store \<open>rs_blobs\<close> and the error the last record
  failed with. \<open>rs_ran\<close> lists the tasks whose body was called, in order: the calls of \<open>fn\<close> themselves.
\<close>

record ('v, 'o, 'x, 'b) rec_state =
  rs_elevate :: bool
  rs_draftIDs :: "string list"
  rs_cycleErr :: "'x record_error option"
  rs_packErr :: "'x record_error option"
  rs_bodyErr :: "'x record_error option"
  rs_opaqueOnly :: "string list"
  rs_aggregateSeen :: "string list option"
  rs_needs :: "needsScope option"
  rs_plan :: plan_record
  rs_repo :: "('v, 'o) repository"
  rs_blobs :: 'b
  rs_ran :: "string list"
  rs_lastRecordFailure :: "'x record_error option"

record ('v, 'o, 'x, 'b) rec_env =
  re_reg :: "('v, 'o, 'x) call list registry"
  re_facts :: Facts
  re_tasks :: "(string \<times> task) list"
  re_matching :: "string \<Rightarrow> string list"
  re_skip :: "string \<Rightarrow> bool"
  re_package :: "bool \<Rightarrow> string \<Rightarrow> 'o PlanDraft \<Rightarrow> 'b \<Rightarrow> ('x, Op) result \<times> 'b"

definition rec_op :: "Op \<Rightarrow> ('v, 'o, 'x, 'b) rec_state \<Rightarrow> ('v, 'o, 'x, 'b) rec_state" where
  "rec_op op s = s\<lparr>rs_plan := Record op (rs_plan s)\<rparr>"

definition stashBodyError :: "'x record_error \<Rightarrow> ('v, 'o, 'x, 'b) rec_state \<Rightarrow> ('v, 'o, 'x, 'b) rec_state" where
  "stashBodyError e s = s\<lparr>rs_bodyErr := first_of (rs_bodyErr s) e\<rparr>"

definition stashAggregateError ::
  "string \<Rightarrow> 'x record_error \<Rightarrow> ('v, 'o, 'x, 'b) rec_state \<Rightarrow> ('v, 'o, 'x, 'b) rec_state" where
  "stashAggregateError name cause s =
     (case rs_bodyErr s of
        None \<Rightarrow> s\<lparr>rs_bodyErr := Some (AggregateFailed name cause)\<rparr>
      | Some stashed \<Rightarrow> if wraps cause stashed then s\<lparr>rs_bodyErr := Some (AggregateFailed name stashed)\<rparr> else s)"

definition currentRecordingName :: "string list \<Rightarrow> string" where
  "currentRecordingName stack = (if stack = [] then ''?'' else last stack)"

definition propagateNestedRunError ::
  "string list \<Rightarrow> 'x record_error \<Rightarrow> ('v, 'o, 'x, 'b) rec_state \<Rightarrow> ('v, 'o, 'x, 'b) rec_state" where
  "propagateNestedRunError stack e s =
     (if list_ex (\<lambda>st. case st of Some x \<Rightarrow> wraps e x | None \<Rightarrow> False) [rs_cycleErr s, rs_packErr s, rs_bodyErr s] then s
      else if rs_bodyErr s \<noteq> None then s
      else s\<lparr>rs_bodyErr := Some (NestedRunFailed (currentRecordingName stack) e)\<rparr>)"

definition recordSessionDraft ::
  "('v, 'o, 'x, 'b) rec_env \<Rightarrow> string list \<Rightarrow> 'o PlanDraft \<Rightarrow> ('v, 'o, 'x, 'b) rec_state \<Rightarrow> ('v, 'o, 'x, 'b) rec_state" where
  "recordSessionDraft env stack d s =
     (if rs_packErr s \<noteq> None then s
      else (let s1 = (if pd_ID d \<noteq> [] then s\<lparr>rs_draftIDs := add_key (pd_ID d) (rs_draftIDs s)\<rparr> else s) in
        case re_package env (rs_elevate s1) (if stack = [] then [] else last stack) d (rs_blobs s1) of
          (Inl e, b) \<Rightarrow> s1\<lparr>rs_packErr := Some (PackFailed e), rs_blobs := b\<rparr>
        | (Inr op, b) \<Rightarrow> rec_op op (s1\<lparr>rs_blobs := b\<rparr>)))"

text \<open>The amend sink of a session.\<close>

definition amendRecordedDraft ::
  "('v, 'o, 'x, 'b) rec_env \<Rightarrow> string list \<Rightarrow> 'o PlanDraft \<Rightarrow> ('v, 'o, 'x, 'b) rec_state
   \<Rightarrow> ('x amend_refusal, ('v, 'o, 'x, 'b) rec_state) result" where
  "amendRecordedDraft env stack d s =
     (if rs_packErr s \<noteq> None then Inr s
      else case re_package env (rs_elevate s) (if stack = [] then [] else last stack) d (rs_blobs s) of
        (Inl e, b) \<Rightarrow> Inl (AmendFailed e)
      | (Inr op, b) \<Rightarrow>
          bind_res (AmendRecorded (pd_ID d) (\<lambda>_. Inr op) (rs_plan s)) (\<lambda>p.
            Inr (s\<lparr>rs_plan := p, rs_blobs := b\<rparr>)))"

text \<open>A constructor: register, and record the draft only when that succeeded.\<close>

definition declare_call ::
  "('v, 'o, 'x, 'b) rec_env \<Rightarrow> string list \<Rightarrow> 'v Resource \<Rightarrow> 'o PlanDraft option
   \<Rightarrow> ('v, 'o, 'x, 'b) rec_state \<Rightarrow> ('v, 'o, 'x, 'b) rec_state" where
  "declare_call env stack res draft s =
     (case register res (rs_repo s) of
        Inl c \<Rightarrow> stashBodyError (Collided c) s
      | Inr r \<Rightarrow>
          (case draft of
             None \<Rightarrow> s\<lparr>rs_repo := r\<rparr>
           | Some d \<Rightarrow> recordSessionDraft env stack d (s\<lparr>rs_repo := recordDraft d r\<rparr>)))"

section \<open>Steps of a task\<close>

definition planWhenForCandidate ::
  "('v, 'o, 'x, 'b) rec_env \<Rightarrow> ('v, 'o, 'x) call list taskCandidate \<Rightarrow> ('x record_error, Predicate list) result" where
  "planWhenForCandidate env c =
     (if tc_opaque c \<noteq> [] \<and> \<not> whenPasses (tc_opaque c) (re_facts env) then Inl (OpaqueWhenFails (tc_name c))
      else Inr (tc_planWhen c))"

definition when_begin :: "string \<Rightarrow> Predicate list \<Rightarrow> bool \<Rightarrow> Op" where
  "when_begin i preds elevate = (zero_op KindWhenBegin)\<lparr>op_id := i, op_all := preds, op_elevate := elevate\<rparr>"

definition when_end :: "bool \<Rightarrow> Op" where
  "when_end elevate = (zero_op KindWhenEnd)\<lparr>op_elevate := elevate\<rparr>"

text \<open>
  Up to the call of \<open>fn\<close>: \<open>recordSingleTaskBody\<close> and \<open>runTaskBody\<close> set the privilege, open the when block,
  start a fresh scope and, unless the task is an aggregate, hide the scopes of its callers.
\<close>

definition begin_task ::
  "('v, 'o, 'x) call list taskCandidate \<Rightarrow> ('v, 'o, 'x, 'b) rec_state \<Rightarrow> ('v, 'o, 'x, 'b) rec_state" where
  "begin_task c s =
     (let s1 = (if tc_opaque c \<noteq> [] \<and> tc_planWhen c = [] then s\<lparr>rs_opaqueOnly := rs_opaqueOnly s @ [tc_name c]\<rparr> else s);
          s2 = s1\<lparr>rs_elevate := tc_privileged c\<rparr>;
          s3 = (if tc_planWhen c \<noteq> [] then rec_op (when_begin (''when.'' @ tc_name c) (tc_planWhen c) (tc_privileged c)) s2
                else s2);
          s4 = s3\<lparr>rs_repo := newRepository, rs_draftIDs := [], rs_ran := rs_ran s3 @ [tc_name c]\<rparr>
      in if tc_aggregate c then s4 else s4\<lparr>rs_aggregateSeen := None, rs_needs := None\<rparr>)"

definition checkUnrecordedDrafts :: "string \<Rightarrow> ('v, 'o, 'x, 'b) rec_state \<Rightarrow> 'x record_error option" where
  "checkUnrecordedDrafts name s =
     (let missing = filter (\<lambda>i. i \<notin> set (rs_draftIDs s)) (registeredIDs (rs_repo s)) in
      if missing = [] then None else Some (WithoutDraft name missing))"

definition first_stash :: "('v, 'o, 'x, 'b) rec_state \<Rightarrow> 'x record_error option" where
  "first_stash s =
     (case rs_cycleErr s of Some e \<Rightarrow> Some e
      | None \<Rightarrow> (case rs_bodyErr s of Some e \<Rightarrow> Some e | None \<Rightarrow> rs_packErr s))"

text \<open>After \<open>fn\<close> returned; \<open>s0\<close> is the state the task began in.\<close>

definition end_task ::
  "('v, 'o, 'x) call list taskCandidate \<Rightarrow> ('v, 'o, 'x, 'b) rec_state \<Rightarrow> ('v, 'o, 'x, 'b) rec_state
   \<Rightarrow> 'x record_error option \<times> ('v, 'o, 'x, 'b) rec_state" where
  "end_task c s0 s =
     (let s1 = (if tc_aggregate c then s else s\<lparr>rs_aggregateSeen := rs_aggregateSeen s0, rs_needs := rs_needs s0\<rparr>);
          e = (case first_stash s1 of Some e \<Rightarrow> Some e | None \<Rightarrow> checkUnrecordedDrafts (tc_name c) s1);
          s2 = (if e = None \<and> tc_planWhen c \<noteq> [] then rec_op (when_end (rs_elevate s1)) s1 else s1)
      in (e, s2\<lparr>rs_elevate := rs_elevate s0\<rparr>))"

definition aggregate_saw :: "string \<Rightarrow> ('v, 'o, 'x, 'b) rec_state \<Rightarrow> bool" where
  "aggregate_saw target s \<longleftrightarrow> (case rs_aggregateSeen s of Some seen \<Rightarrow> target \<in> set seen | None \<Rightarrow> False)"

definition needRecorded :: "string \<Rightarrow> ('v, 'o, 'x, 'b) rec_state \<Rightarrow> bool" where
  "needRecorded target s \<longleftrightarrow>
     aggregate_saw target s
     \<or> (case rs_needs s of Some n \<Rightarrow> target \<in> set (nd_recorded n) | None \<Rightarrow> False)"

definition note_recorded :: "string \<Rightarrow> ('v, 'o, 'x, 'b) rec_state \<Rightarrow> ('v, 'o, 'x, 'b) rec_state" where
  "note_recorded target s =
     (case rs_needs s of
        None \<Rightarrow> s
      | Some n \<Rightarrow> s\<lparr>rs_needs := Some (n\<lparr>nd_recorded := add_key target (nd_recorded n)\<rparr>)\<rparr>)"

definition noteRecorded ::
  "('v, 'o, 'x, 'b) rec_env \<Rightarrow> string \<Rightarrow> ('v, 'o, 'x, 'b) rec_state \<Rightarrow> ('v, 'o, 'x, 'b) rec_state" where
  "noteRecorded env name s =
     (case resolveAlias (re_reg env) name of Inr (target, _) \<Rightarrow> note_recorded target s | Inl e \<Rightarrow> s)"

definition see_aggregate :: "string \<Rightarrow> ('v, 'o, 'x, 'b) rec_state \<Rightarrow> ('v, 'o, 'x, 'b) rec_state" where
  "see_aggregate target s = s\<lparr>rs_aggregateSeen := map_option (add_key target) (rs_aggregateSeen s)\<rparr>"

definition noteNeedRecorded :: "string \<Rightarrow> ('v, 'o, 'x, 'b) rec_state \<Rightarrow> ('v, 'o, 'x, 'b) rec_state" where
  "noteNeedRecorded target s =
     (let s1 = see_aggregate target s in
      case rs_needs s1 of
        None \<Rightarrow> s1
      | Some n \<Rightarrow> s1\<lparr>rs_needs := Some (n\<lparr>nd_recorded := add_key target (nd_recorded n),
                                       nd_viaNeeds := add_key target (nd_viaNeeds n)\<rparr>)\<rparr>)"

definition skipNeeded :: "('v, 'o, 'x, 'b) rec_env \<Rightarrow> string \<Rightarrow> ('v, 'o, 'x, 'b) rec_state \<Rightarrow> bool" where
  "skipNeeded env name s =
     (case rs_needs s of
        None \<Rightarrow> False
      | Some n \<Rightarrow>
          (case resolveAlias (re_reg env) name of
             Inl e \<Rightarrow> False
           | Inr (target, _) \<Rightarrow> target \<in> set (nd_viaNeeds n)))"

text \<open>The first blank fragment of a host list, with its position counted from one.\<close>

fun blank_fragment :: "nat \<Rightarrow> string list \<Rightarrow> (nat \<times> string) option" where
  "blank_fragment i [] = None"
| "blank_fragment i (h # hs) = (if trim_space h = [] then Some (i, h) else blank_fragment (Suc i) hs)"

definition hostname_pred :: "string \<Rightarrow> Predicate" where
  "hostname_pred substr = zero_pred\<lparr>p_fact := ''hostname_contains'', p_eq := substr\<rparr>"

definition path_pred :: "string \<Rightarrow> Predicate" where
  "path_pred path = zero_pred\<lparr>p_path_exists := path\<rparr>"

text \<open>A fragment's \<open>when_begin\<close> and its fresh scope.\<close>

definition begin_fragment ::
  "string \<Rightarrow> Predicate \<Rightarrow> ('v, 'o, 'x, 'b) rec_state \<Rightarrow> ('v, 'o, 'x, 'b) rec_state" where
  "begin_fragment i pred s = (rec_op (when_begin i [pred] False) s)\<lparr>rs_repo := newRepository\<rparr>"

definition enter_list :: "('v, 'o, 'x, 'b) rec_state \<Rightarrow> ('v, 'o, 'x, 'b) rec_state" where
  "enter_list s = s\<lparr>rs_needs := Some \<lparr>nd_recorded = [], nd_viaNeeds = []\<rparr>\<rparr>"

definition enter_aggregate :: "('v, 'o, 'x, 'b) rec_state \<Rightarrow> ('v, 'o, 'x, 'b) rec_state" where
  "enter_aggregate s = (if rs_aggregateSeen s = None then s\<lparr>rs_aggregateSeen := Some []\<rparr> else s)"

definition leave_aggregate ::
  "('v, 'o, 'x, 'b) rec_state \<Rightarrow> ('v, 'o, 'x, 'b) rec_state \<Rightarrow> ('v, 'o, 'x, 'b) rec_state" where
  "leave_aggregate s0 s = (if rs_aggregateSeen s0 = None then s\<lparr>rs_aggregateSeen := None\<rparr> else s)"

section \<open>The recursion\<close>

text \<open>
  The functions that call each other while a plan is recorded, as jobs of one function: the names of a
  \<open>Run\<close>, one name, the needs of a task, a body, the fragments of \<open>WhenHostname\<close>, the members of an
  aggregate. \<open>stack\<close> is \<open>recordingStack\<close>; a call pushes its name and pops it on return.
\<close>

datatype ('v, 'o, 'x) job =
    JList "string list"
  | JName string
  | JNeeds "('v, 'o, 'x) call list taskCandidate" "string list"
  | JBody "('v, 'o, 'x) call list"
  | JHosts "string list" "('v, 'o, 'x) call list"
  | JMembers string "string list"

text \<open>The size of a body, for termination.\<close>

fun call_weight :: "('v, 'o, 'x) call \<Rightarrow> nat" where
  "call_weight (WhenHostname hosts body) = Suc (Suc (sum_list (map call_weight body)))"
| "call_weight (WhenPathExists p body) = Suc (Suc (sum_list (map call_weight body)))"
| "call_weight _ = 1"

definition body_weight :: "('v, 'o, 'x) call list \<Rightarrow> nat" where
  "body_weight body = Suc (sum_list (map call_weight body))"

fun job_weight :: "('v, 'o, 'x) job \<Rightarrow> nat" where
  "job_weight (JBody body) = body_weight body"
| "job_weight (JHosts hosts body) = body_weight body"
| "job_weight _ = 0"

fun job_length :: "('v, 'o, 'x) job \<Rightarrow> nat" where
  "job_length (JList names) = Suc (length names)"
| "job_length (JNeeds c needs) = Suc (length needs)"
| "job_length (JHosts hosts body) = Suc (length hosts)"
| "job_length (JMembers name names) = Suc (length names)"
| "job_length _ = 0"

definition names_left :: "('v, 'o, 'x, 'b) rec_env \<Rightarrow> string list \<Rightarrow> nat" where
  "names_left env stack = card (tc_name ` set (rg_candidates (re_reg env)) - set stack)"

lemma call_weight_pos: "0 < call_weight c"
  by (cases c) simp_all

lemma names_left_push:
  "findCandidate (re_reg env) name = Some c \<Longrightarrow> name \<notin> set stack \<Longrightarrow> names_left env (stack @ [name]) < names_left env stack"
proof -
  assume c: "findCandidate (re_reg env) name = Some c" and n: "name \<notin> set stack"
  from findCandidate_in [OF c] n show ?thesis
    unfolding names_left_def by (intro psubset_card_mono) auto
qed

function record_job ::
  "('v, 'o, 'x, 'b) rec_env \<Rightarrow> string list \<Rightarrow> ('v, 'o, 'x) job \<Rightarrow> ('v, 'o, 'x, 'b) rec_state
   \<Rightarrow> 'x record_error option \<times> ('v, 'o, 'x, 'b) rec_state" where
  "record_job env stack (JList []) s = (None, s)"
| "record_job env stack (JList (n # ns)) s =
     (if skipNeeded env n s then record_job env stack (JList ns) s
      else case record_job env stack (JName n) s of
        (Some e, s') \<Rightarrow> (Some e, s')
      | (None, s') \<Rightarrow> record_job env stack (JList ns) (noteRecorded env n s'))"
| "record_job env stack (JName name) s =
     (if name \<in> set stack then
        (let e = RecursionCycle (dropWhile (\<lambda>x. x \<noteq> name) stack @ [name]) in (Some e, s\<lparr>rs_cycleErr := Some e\<rparr>))
      else case resolveAlias (re_reg env) name of
        Inl e \<Rightarrow> (Some (AliasFailed e), s)
      | Inr (target, isAlias) \<Rightarrow>
          (case findCandidate (re_reg env) name of
             None \<Rightarrow> (Some (UnknownTask name), s)
           | Some c \<Rightarrow>
               if isAlias then record_job env (stack @ [name]) (JName target) s
               else (case record_job env (stack @ [name]) (JNeeds c (tc_needs c)) s of
                   (Some e, s1) \<Rightarrow> (Some e, s1)
                 | (None, s1) \<Rightarrow>
                     (case planWhenForCandidate env c of
                        Inl e \<Rightarrow> (Some e, s1)
                      | Inr _ \<Rightarrow> end_task c s1 (snd (record_job env (stack @ [name]) (JBody (tc_fn c)) (begin_task c s1)))))))"
| "record_job env stack (JNeeds c []) s = (None, s)"
| "record_job env stack (JNeeds c (n # ns)) s =
     (case resolveNeedName (re_reg env) (tc_needsPrefix c) n (candidateExists (re_reg env)) of
        None \<Rightarrow> (Some (NeedUnknown (tc_name c) n), s)
      | Some need \<Rightarrow>
          (case resolveAlias (re_reg env) need of
             Inl e \<Rightarrow> (Some (NeedAliasFailed (tc_name c) need e), s)
           | Inr (target, _) \<Rightarrow>
               if needRecorded target s then record_job env stack (JNeeds c ns) s
               else (case record_job env stack (JName need) s of
                   (Some e, s') \<Rightarrow> (Some e, s')
                 | (None, s') \<Rightarrow> record_job env stack (JNeeds c ns) (noteNeedRecorded target s'))))"
| "record_job env stack (JBody []) s = (None, s)"
| "record_job env stack (JBody (Declare typ name v deps draft # cs)) s =
     record_job env stack (JBody cs) (declare_call env stack (new_resource typ name v deps) draft s)"
| "record_job env stack (JBody (Misuse e # cs)) s =
     record_job env stack (JBody cs) (stashBodyError (MisuseReported e) s)"
| "record_job env stack (JBody (WhenHostname hosts body # cs)) s =
     (case blank_fragment 1 hosts of
        Some (i, h) \<Rightarrow> record_job env stack (JBody cs) (stashBodyError (BlankFragment i h) s)
      | None \<Rightarrow> record_job env stack (JBody cs) (snd (record_job env stack (JHosts hosts body) s)))"
| "record_job env stack (JBody (WhenPathExists p body # cs)) s =
     record_job env stack (JBody cs)
       (rec_op (when_end False)
          (snd (record_job env stack (JBody body) (begin_fragment (''when.path_exists:'' @ p) (path_pred p) s))))"
| "record_job env stack (JBody (Run names # cs)) s =
     (case record_job env stack (JList names) (enter_list s) of
        (e, s1) \<Rightarrow>
          (let s2 = s1\<lparr>rs_needs := rs_needs s\<rparr> in
           record_job env stack (JBody cs)
             (case e of None \<Rightarrow> s2 | Some e \<Rightarrow> propagateNestedRunError stack e s2)))"
| "record_job env stack (JBody (RunMatching name pattern # cs)) s =
     (let names = patternMembers (re_reg env) (re_tasks env) (re_skip env) name (re_matching env pattern) in
      record_job env stack (JBody cs)
        (if names = [] then stashAggregateError name (AggregateEmpty pattern) s
         else leave_aggregate s (snd (record_job env stack (JMembers name names) (enter_aggregate s)))))"
| "record_job env stack (JBody (RunMembers name members # cs)) s =
     record_job env stack (JBody cs)
       (case activeMembers (re_reg env) (re_tasks env) (re_skip env) members of
          Inl e \<Rightarrow> stashAggregateError name (AggregateMembers e) s
        | Inr names \<Rightarrow>
            if names = [] then stashAggregateError name (AggregateEmpty []) s
            else leave_aggregate s (snd (record_job env stack (JMembers name names) (enter_aggregate s))))"
| "record_job env stack (JHosts [] body) s = (None, s)"
| "record_job env stack (JHosts (h # hs) body) s =
     record_job env stack (JHosts hs body)
       (rec_op (when_end False)
          (snd (record_job env stack (JBody body) (begin_fragment (''when.hostname:'' @ h) (hostname_pred h) s))))"
| "record_job env stack (JMembers name []) s = (None, s)"
| "record_job env stack (JMembers name (n # ns)) s =
     (case resolveAlias (re_reg env) n of
        Inl e \<Rightarrow> (None, stashAggregateError name (AliasFailed e) s)
      | Inr (target, _) \<Rightarrow>
          if aggregate_saw target s
          then record_job env stack (JMembers name ns) s
          else (case record_job env stack (JName n) s of
              (Some e, s') \<Rightarrow> (None, stashAggregateError name e s')
            | (None, s') \<Rightarrow> record_job env stack (JMembers name ns) (noteRecorded env target (see_aggregate target s'))))"
  by pat_completeness auto
termination
  by (relation "measures [\<lambda>(env, stack, job, s). names_left env stack, \<lambda>(env, stack, job, s). job_weight job,
      \<lambda>(env, stack, job, s). job_length job]")
    (auto simp: body_weight_def names_left_push call_weight_pos)

declare record_job.simps(3) [simp del]

section \<open>Recording a plan\<close>

definition enterRecordMode :: "('v, 'o, 'x, 'b) rec_state \<Rightarrow> ('v, 'o, 'x, 'b) rec_state" where
  "enterRecordMode s =
     s\<lparr>rs_elevate := False, rs_draftIDs := [], rs_cycleErr := None, rs_packErr := None, rs_bodyErr := None,
       rs_opaqueOnly := [], rs_aggregateSeen := None, rs_needs := None,
       rs_plan := \<lparr>pr_recording = True, pr_recorded = []\<rparr>, rs_ran := []\<rparr>"

text \<open>What is done with the names and the session is left with; secret scanning is not modelled.\<close>

definition recordPlanBody ::
  "('v, 'o, 'x, 'b) rec_env \<Rightarrow> string \<Rightarrow> string list \<Rightarrow> ('v, 'o, 'x, 'b) rec_state
   \<Rightarrow> ('x record_error, Op list) result \<times> ('v, 'o, 'x, 'b) rec_state" where
  "recordPlanBody env planID names s =
     (let s0 = enterRecordMode s in
      case record_job env [] (JList names) (enter_list s0) of
        (e, s1) \<Rightarrow>
          (let out = s1\<lparr>rs_needs := rs_needs s0, rs_plan := (rs_plan s1)\<lparr>pr_recording := False\<rparr>\<rparr>;
               done = out\<lparr>rs_plan := \<lparr>pr_recording = False, pr_recorded = []\<rparr>\<rparr>;
               ops = FinishRecord planID (rs_plan s1)
           in case e of
                Some e \<Rightarrow> (Inl e, out)
              | None \<Rightarrow>
                  (case rs_packErr s1 of
                     Some e \<Rightarrow> (Inl e, out)
                   | None \<Rightarrow>
                       (map_err PlanRefusedError (bind_res (ValidateChunks (SplitPrivilegeChunks ops)) (\<lambda>_. Inr ops)),
                        done))))"

text \<open>
  \<open>pending\<close> is \<open>declerr.First\<close>: while a recording runs every report goes to its sink, so the second
  look after the body finds what the first one found. The repository is swapped for a fresh one and
  back.
\<close>

definition RecordPlanTo ::
  "('v, 'o, 'x, 'b) rec_env \<Rightarrow> 'x record_error option \<Rightarrow> string \<Rightarrow> string list \<Rightarrow> ('v, 'o, 'x, 'b) rec_state
   \<Rightarrow> ('x record_error, Op list) result \<times> ('v, 'o, 'x, 'b) rec_state" where
  "RecordPlanTo env pending planID names s =
     (if planID = [] then (Inl PlanIdEmpty, s)
      else if names = [] then (Inl NoTasksGiven, s)
      else case pending of
        Some e \<Rightarrow> (Inl e, s)
      | None \<Rightarrow>
          (case recordPlanBody env planID names (s\<lparr>rs_repo := newRepository\<rparr>) of
             (r, s') \<Rightarrow>
               (r, s'\<lparr>rs_repo := rs_repo s,
                      rs_lastRecordFailure := (case r of Inl e \<Rightarrow> Some e | Inr _ \<Rightarrow> None)\<rparr>)))"

text \<open>The tasks a push names when it refuses them: their only guard ran on this host. \<open>None\<close> lets it go on.\<close>

definition RefuseOpaqueOnlyPush :: "('v, 'o, 'x, 'b) rec_state \<Rightarrow> string list option" where
  "RefuseOpaqueOnlyPush s = (if rs_opaqueOnly s = [] then None else Some (sort (remdups (rs_opaqueOnly s))))"

end
