(* ===== verification/RecordOps.thy ===== *)
theory RecordOps
  imports Recording
begin

text \<open>
  What a recording appends: every job of \<open>record_job\<close> only appends ops, and the ops of one that neither fails
  nor stashes an error are balanced, so a recorded plan passes the checks of its chunks.
\<close>

section \<open>Lemmas: the ops of a job\<close>

definition clean :: "('v, 'o, 'x, 'b) rec_state \<Rightarrow> bool" where
  "clean s \<longleftrightarrow> rs_cycleErr s = None \<and> rs_packErr s = None \<and> rs_bodyErr s = None"

abbreviation ops_of_rec :: "('v, 'o, 'x, 'b) rec_state \<Rightarrow> Op list" where
  "ops_of_rec s \<equiv> pr_recorded (rs_plan s)"

abbreviation on_record :: "('v, 'o, 'x, 'b) rec_state \<Rightarrow> bool" where
  "on_record s \<equiv> pr_recording (rs_plan s)"

text \<open>The packager makes resource ops: never a control line.\<close>

definition packs_resources :: "('v, 'o, 'x, 'b) rec_env \<Rightarrow> bool" where
  "packs_resources env \<longleftrightarrow>
     (\<forall>e t d b op b'. re_package env e t d b = (Inr op, b') \<longrightarrow> op_kind op \<noteq> KindWhenBegin \<and> op_kind op \<noteq> KindWhenEnd)"

text \<open>
  A step from \<open>s\<close> to \<open>s'\<close> only appends ops, keeps a stashed error, and appends balanced ops unless it
  fails or stashes one.
\<close>

definition records :: "('v, 'o, 'x, 'b) rec_state \<Rightarrow> 'x record_error option \<Rightarrow> ('v, 'o, 'x, 'b) rec_state \<Rightarrow> bool" where
  "records s e s' \<longleftrightarrow>
     on_record s' = on_record s \<and> (clean s' \<longrightarrow> clean s) \<and> rs_elevate s' = rs_elevate s
     \<and> (\<exists>new. ops_of_rec s' = ops_of_rec s @ new \<and> (e = None \<and> clean s' \<longrightarrow> balanced new))"

lemma balanced_Nil [simp]: "balanced []"
  by (simp add: balanced_def)

lemma balanced_block:
  "op_kind b = KindWhenBegin \<Longrightarrow> op_kind e = KindWhenEnd \<Longrightarrow> balanced xs \<Longrightarrow> balanced (b # xs @ [e])"
  using nest_shift [of 0 xs 0 1] by (simp add: balanced_def nest_append)

lemma balanced_one: "op_kind op \<noteq> KindWhenBegin \<Longrightarrow> op_kind op \<noteq> KindWhenEnd \<Longrightarrow> balanced [op]"
  by (simp add: balanced_def)

lemma records_refl [simp]: "records s e s"
  by (auto simp: records_def intro: exI [of _ "[]"])

lemma records_trans: "records s None s1 \<Longrightarrow> records s1 e s' \<Longrightarrow> records s e s'"
  unfolding records_def by (metis append.assoc balanced_append)

lemma records_fails: "records s e s' \<Longrightarrow> records s (Some x) s'"
  by (auto simp: records_def)

text \<open>A step that leaves the ops alone.\<close>

lemma records_quiet:
  "rs_plan s' = rs_plan s \<Longrightarrow> rs_elevate s' = rs_elevate s \<Longrightarrow> (clean s' \<Longrightarrow> clean s) \<Longrightarrow> records s e s'"
  by (auto simp: records_def intro: exI [of _ "[]"])

lemma first_of_Some [simp]: "first_of o1 e \<noteq> None"
  by (simp add: first_of_def split: option.split)

lemma clean_stash [simp]: "\<not> clean (stashBodyError e s)" "\<not> clean (stashAggregateError n e s) \<or> clean s"
  by (auto simp: clean_def stashBodyError_def stashAggregateError_def split: option.splits)

lemma not_clean_aggregate [simp]: "\<not> clean (stashAggregateError n e s)"
  by (auto simp: clean_def stashAggregateError_def split: option.splits)

lemma not_clean_propagate [simp]: "\<not> clean (propagateNestedRunError stack e s)"
  by (auto simp: clean_def propagateNestedRunError_def split: option.splits)

lemma stash_frame [simp]:
  "rs_plan (stashBodyError e s) = rs_plan s" "rs_elevate (stashBodyError e s) = rs_elevate s"
  "rs_plan (stashAggregateError n e s) = rs_plan s" "rs_elevate (stashAggregateError n e s) = rs_elevate s"
  "rs_plan (propagateNestedRunError stack e s) = rs_plan s"
  "rs_elevate (propagateNestedRunError stack e s) = rs_elevate s"
  by (auto simp: stashBodyError_def stashAggregateError_def propagateNestedRunError_def split: option.splits)

lemma records_stash:
  "records s e (stashBodyError x s)" "records s e (stashAggregateError n x s)"
  "records s e (propagateNestedRunError stack x s)"
  by (rule records_quiet; simp)+

lemma records_note [simp]:
  "records s e (noteRecorded env n s)" "records s e (see_aggregate t s)" "records s e (noteNeedRecorded t s)"
  "records s e (enter_list s)" "records s e (enter_aggregate s)"
  by (rule records_quiet; auto simp: noteRecorded_def note_recorded_def see_aggregate_def noteNeedRecorded_def Let_def
      enter_list_def enter_aggregate_def clean_def split: option.splits sum.splits if_splits)+

lemma records_leave: "records s e s' \<Longrightarrow> records s e (leave_aggregate s0 s')"
  by (auto simp: leave_aggregate_def records_def clean_def)

lemma records_needs: "records s e s' \<Longrightarrow> records s e (s'\<lparr>rs_needs := nd\<rparr>)"
  by (auto simp: records_def clean_def)

lemma rec_op_on: "on_record s \<Longrightarrow> ops_of_rec (rec_op op s) = ops_of_rec s @ [op]"
  by (simp add: rec_op_def Record_def)

lemma rec_op_frame [simp]:
  "on_record (rec_op op s) = on_record s" "rs_elevate (rec_op op s) = rs_elevate s" "clean (rec_op op s) = clean s"
  "rs_ran (rec_op op s) = rs_ran s" "rs_aggregateSeen (rec_op op s) = rs_aggregateSeen s" "rs_needs (rec_op op s) = rs_needs s"
  by (simp_all add: rec_op_def Record_def clean_def)

lemma records_op:
  "op_kind op \<noteq> KindWhenBegin \<Longrightarrow> op_kind op \<noteq> KindWhenEnd \<Longrightarrow> records s e (rec_op op s)"
proof (cases "on_record s")
  case False
  then have "rec_op op s = s" by (simp add: rec_op_def Record_def)
  then show ?thesis by simp
qed (auto simp: records_def rec_op_on balanced_one)

lemma clean_packed [simp]: "\<not> clean (s\<lparr>rs_packErr := Some x, rs_blobs := b\<rparr>)"
  by (simp add: clean_def)

lemma records_draft:
  assumes "packs_resources env"
  shows "records s e (recordSessionDraft env stack d s)"
proof (cases "rs_packErr s")
  case None
  define s1 where "s1 = (if pd_ID d \<noteq> [] then s\<lparr>rs_draftIDs := add_key (pd_ID d) (rs_draftIDs s)\<rparr> else s)"
  have 1: "records s None s1" by (rule records_quiet) (auto simp: s1_def clean_def split: if_splits)
  obtain r b where p: "re_package env (rs_elevate s1) (if stack = [] then [] else last stack) d (rs_blobs s1) = (r, b)"
    by (metis surj_pair)
  have 2: "records s1 e (case r of Inl x \<Rightarrow> s1\<lparr>rs_packErr := Some (PackFailed x), rs_blobs := b\<rparr>
      | Inr op \<Rightarrow> rec_op op (s1\<lparr>rs_blobs := b\<rparr>))"
  proof (cases r)
    case (Inl x)
    then show ?thesis by (auto intro: records_quiet)
  next
    case (Inr op)
    have "records s1 None (s1\<lparr>rs_blobs := b\<rparr>)" by (rule records_quiet) (auto simp: clean_def)
    moreover have "records (s1\<lparr>rs_blobs := b\<rparr>) e (rec_op op (s1\<lparr>rs_blobs := b\<rparr>))"
    proof (rule records_op)
      show "op_kind op \<noteq> KindWhenBegin" "op_kind op \<noteq> KindWhenEnd"
        using assms p unfolding packs_resources_def Inr by blast+
    qed
    ultimately show ?thesis using Inr by (auto intro: records_trans)
  qed
  have "recordSessionDraft env stack d s = (case r of Inl x \<Rightarrow> s1\<lparr>rs_packErr := Some (PackFailed x), rs_blobs := b\<rparr>
      | Inr op \<Rightarrow> rec_op op (s1\<lparr>rs_blobs := b\<rparr>))"
    using None p by (simp add: recordSessionDraft_def s1_def [symmetric] Let_def split: sum.split)
  with records_trans [OF 1 2] show ?thesis by simp
qed (simp add: recordSessionDraft_def)

lemma records_declare:
  assumes "packs_resources env"
  shows "records s e (declare_call env stack res draft s)"
proof (cases "register res (rs_repo s)")
  case (Inr r)
  have q: "records s None (s\<lparr>rs_repo := r'\<rparr>)" for r' by (rule records_quiet) (auto simp: clean_def)
  then have q': "records s e (s\<lparr>rs_repo := r'\<rparr>)" for r' by (cases e) (auto intro: records_fails)
  show ?thesis using Inr q' records_trans [OF q records_draft [OF assms]]
    by (auto simp: declare_call_def split: option.split)
qed (simp add: declare_call_def records_stash)

lemma begin_task_frame:
  "on_record (begin_task c s) = on_record s" "clean (begin_task c s) = clean s"
  "ops_of_rec (begin_task c s) = ops_of_rec s @
     (if tc_planWhen c \<noteq> [] \<and> on_record s then [when_begin (''when.'' @ tc_name c) (tc_planWhen c) (tc_privileged c)] else [])"
  "rs_ran (begin_task c s) = rs_ran s @ [tc_name c]"
  by (auto simp: begin_task_def Let_def clean_def rec_op_def Record_def)

lemma clean_elevate [simp]: "clean (s\<lparr>rs_elevate := x\<rparr>) = clean s"
  by (simp add: clean_def)

lemma first_stash_None [simp]: "first_stash s = None \<longleftrightarrow> clean s"
  by (auto simp: first_stash_def clean_def split: option.split)

lemma end_task_frame:
  assumes "end_task c s0 s = (e, s')"
  shows "on_record s' = on_record s" "clean s' = clean s" "rs_elevate s' = rs_elevate s0" "rs_ran s' = rs_ran s"
    "ops_of_rec s' = ops_of_rec s @ (if e = None \<and> tc_planWhen c \<noteq> [] \<and> on_record s then [when_end (rs_elevate s)] else [])"
    "e = None \<Longrightarrow> clean s"
    "rs_aggregateSeen s' = (if tc_aggregate c then rs_aggregateSeen s else rs_aggregateSeen s0)"
    "rs_needs s' = (if tc_aggregate c then rs_needs s else rs_needs s0)"
proof -
  define s1 where "s1 = (if tc_aggregate c then s else s\<lparr>rs_aggregateSeen := rs_aggregateSeen s0, rs_needs := rs_needs s0\<rparr>)"
  have s1: "clean s1 = clean s" "rs_plan s1 = rs_plan s" "rs_ran s1 = rs_ran s" "rs_elevate s1 = rs_elevate s"
    "rs_aggregateSeen s1 = (if tc_aggregate c then rs_aggregateSeen s else rs_aggregateSeen s0)"
    "rs_needs s1 = (if tc_aggregate c then rs_needs s else rs_needs s0)"
    by (simp_all add: s1_def clean_def)
  define E where "E = (case first_stash s1 of Some e \<Rightarrow> Some e | None \<Rightarrow> checkUnrecordedDrafts (tc_name c) s1)"
  have "end_task c s0 s
      = (E, (if E = None \<and> tc_planWhen c \<noteq> [] then rec_op (when_end (rs_elevate s1)) s1 else s1)\<lparr>rs_elevate := rs_elevate s0\<rparr>)"
    unfolding end_task_def Let_def s1_def E_def ..
  note pair = trans [OF assms [symmetric] this, unfolded prod.inject]
  have e: "e = E" by (rule conjunct1 [OF pair])
  have s': "s' = (if e = None \<and> tc_planWhen c \<noteq> [] then rec_op (when_end (rs_elevate s1)) s1 else s1)\<lparr>rs_elevate := rs_elevate s0\<rparr>"
    unfolding e by (rule conjunct2 [OF pair])
  show "e = None \<Longrightarrow> clean s" using e s1(1) first_stash_None [of s1] by (cases "first_stash s1") (auto simp: E_def)
  show "on_record s' = on_record s"
    unfolding s' by (simp add: s1(2))
  show "clean s' = clean s" "rs_elevate s' = rs_elevate s0" "rs_ran s' = rs_ran s"
    unfolding s' by (simp_all add: s1(1,3))
  show "rs_aggregateSeen s' = (if tc_aggregate c then rs_aggregateSeen s else rs_aggregateSeen s0)"
    "rs_needs s' = (if tc_aggregate c then rs_needs s else rs_needs s0)"
    unfolding s' by (simp_all add: s1(5,6))
  show "ops_of_rec s' = ops_of_rec s @ (if e = None \<and> tc_planWhen c \<noteq> [] \<and> on_record s then [when_end (rs_elevate s)] else [])"
    unfolding s' by (simp add: rec_op_def s1(2,4) Record_def)
qed

lemma when_kinds [simp]: "op_kind (when_begin i ps el) = KindWhenBegin" "op_kind (when_end el) = KindWhenEnd"
  by (simp_all add: when_begin_def when_end_def zero_op_def)

lemma records_task:
  assumes body: "records (begin_task c s) None s3" and e: "end_task c s s3 = (e, s')"
  shows "records s e s'"
proof -
  note b = begin_task_frame [of c s] and f = end_task_frame [OF e]
  from body obtain new where new: "ops_of_rec s3 = ops_of_rec (begin_task c s) @ new" "clean s3 \<Longrightarrow> balanced new"
    by (auto simp: records_def)
  have on: "on_record s3 = on_record s" and cl: "clean s3 \<Longrightarrow> clean s" using body b by (auto simp: records_def)
  let ?bs = "if tc_planWhen c \<noteq> [] \<and> on_record s then [when_begin (''when.'' @ tc_name c) (tc_planWhen c) (tc_privileged c)] else []"
  let ?es = "if e = None \<and> tc_planWhen c \<noteq> [] \<and> on_record s3 then [when_end (rs_elevate s3)] else []"
  have "balanced (?bs @ new @ ?es)" if "e = None"
  proof -
    have "balanced new" using new(2) f(6) [OF that] by blast
    with that on show ?thesis by (auto intro: balanced_block)
  qed
  moreover have "ops_of_rec s' = ops_of_rec s @ (?bs @ new @ ?es)" using b(3) new(1) f(5) by simp
  ultimately show ?thesis using f(1,2,3) on cl unfolding records_def by blast
qed

lemma records_fragment:
  assumes "records (begin_fragment i pr s) None s1"
  shows "records s None (rec_op (when_end False) s1)"
proof (cases "on_record s")
  case True
  have b: "ops_of_rec (begin_fragment i pr s) = ops_of_rec s @ [when_begin i [pr] False]" "on_record (begin_fragment i pr s)"
    "clean (begin_fragment i pr s) = clean s" "rs_elevate (begin_fragment i pr s) = rs_elevate s"
    using True by (simp_all add: begin_fragment_def rec_op_on clean_def rec_op_def Record_def)
  from assms obtain new where "ops_of_rec s1 = ops_of_rec (begin_fragment i pr s) @ new" "clean s1 \<longrightarrow> balanced new"
    "on_record s1" "clean s1 \<longrightarrow> clean s" "rs_elevate s1 = rs_elevate s"
    using b by (auto simp: records_def)
  moreover from this have "ops_of_rec (rec_op (when_end False) s1)
      = ops_of_rec s @ (when_begin i [pr] False # new @ [when_end False])"
    using b(1) by (simp add: rec_op_on)
  ultimately show ?thesis using True balanced_block [of "when_begin i [pr] False" "when_end False" new]
    unfolding records_def by (metis rec_op_frame(1,2,3) when_kinds)
next
  case False
  then have off: "rec_op op t = t" if "on_record t = on_record s" for op and t :: "('a, 'b, 'c, 'd) rec_state"
    using that by (simp add: rec_op_def Record_def)
  have "records s None (begin_fragment i pr s)"
    by (rule records_quiet) (simp_all add: begin_fragment_def off clean_def)
  from records_trans [OF this assms] have "records s None s1" .
  moreover from this have "rec_op (when_end False) s1 = s1" by (intro off) (simp add: records_def)
  ultimately show ?thesis by simp
qed

text \<open>Bodies, fragments and aggregates never return an error; they stash it.\<close>

fun is_body_job :: "('v, 'o, 'x) job \<Rightarrow> bool" where
  "is_body_job (JBody cs) = True"
| "is_body_job (JHosts hs body) = True"
| "is_body_job (JMembers n ns) = True"
| "is_body_job _ = False"

lemma job_None: "is_body_job job \<Longrightarrow> fst (record_job env stack job s) = None"
proof (induction env stack job s rule: record_job.induct)
  case (17 env stack name n ns s)
  then show ?case
    by (cases "resolveAlias (re_reg env) n"; cases "record_job env stack (JName n) s"; cases "fst (record_job env stack (JName n) s)")
      (auto split: prod.split)
qed (simp_all add: Let_def split: option.split prod.split sum.split)

lemma records_None_any: "records s None s' \<Longrightarrow> records s e s'"
  by (cases e) (auto intro: records_fails)

text \<open>A job is as good as its steps; \<open>good\<close> abbreviates the claim of the induction.\<close>

abbreviation good :: "('v, 'o, 'x, 'b) rec_state \<Rightarrow> 'x record_error option \<times> ('v, 'o, 'x, 'b) rec_state \<Rightarrow> bool" where
  "good s r \<equiv> records s (fst r) (snd r)"

lemma good_then:
  assumes "good s r" "\<And>s1. r = (None, s1) \<Longrightarrow> good s1 (f s1)"
  shows "good s (case r of (Some e, s1) \<Rightarrow> (Some e, s1) | (None, s1) \<Rightarrow> f s1)"
proof (cases r)
  case (Pair e s1)
  with assms show ?thesis by (cases e) (auto intro: records_trans)
qed

lemma good_step: "records s None s1 \<Longrightarrow> good s1 r \<Longrightarrow> good s r"
  by (rule records_trans)

lemma good_name_job:
  assumes new: "name \<notin> set stack"
    and al: "resolveAlias (re_reg env) name = Inr (target, isAlias)" and c: "findCandidate (re_reg env) name = Some c"
    and via: "isAlias \<Longrightarrow> good s (record_job env (stack @ [name]) (JName target) s)"
    and needs: "\<not> isAlias \<Longrightarrow> good s (record_job env (stack @ [name]) (JNeeds c (tc_needs c)) s)"
    and body: "\<And>s1 w. \<not> isAlias \<Longrightarrow> record_job env (stack @ [name]) (JNeeds c (tc_needs c)) s = (None, s1)
      \<Longrightarrow> planWhenForCandidate env c = Inr w
      \<Longrightarrow> good (begin_task c s1) (record_job env (stack @ [name]) (JBody (tc_fn c)) (begin_task c s1))"
  shows "good s (record_job env stack (JName name) s)"
proof (cases isAlias)
  case True
  have "record_job env stack (JName name) s = record_job env (stack @ [name]) (JName target) s"
    by (subst record_job.simps(3)) (simp add: new al c True)
  with via [OF True] show ?thesis by simp
next
  case False
  let ?body = "\<lambda>s1. snd (record_job env (stack @ [name]) (JBody (tc_fn c)) (begin_task c s1))"
  let ?rest = "\<lambda>s1. case planWhenForCandidate env c of Inl e \<Rightarrow> (Some e, s1) | Inr _ \<Rightarrow> end_task c s1 (?body s1)"
  have "good s (case record_job env (stack @ [name]) (JNeeds c (tc_needs c)) s of
      (Some e, s1) \<Rightarrow> (Some e, s1) | (None, s1) \<Rightarrow> ?rest s1)"
  proof (rule good_then [OF needs [OF False]])
    fix s1 assume s1: "record_job env (stack @ [name]) (JNeeds c (tc_needs c)) s = (None, s1)"
    show "good s1 (?rest s1)"
    proof (cases "planWhenForCandidate env c")
      case ok: (Inr w)
      have "records (begin_task c s1) None (?body s1)" using body [OF False s1 ok] by (simp add: job_None)
      with ok show ?thesis by (cases "end_task c s1 (?body s1)") (auto intro: records_task)
    qed simp
  qed
  with new al c False show ?thesis by (simp add: record_job.simps(3))
qed

lemma good_list_job:
  assumes "\<not> skipNeeded env n s" "good s (record_job env stack (JName n) s)"
    "\<And>s1. record_job env stack (JName n) s = (None, s1)
      \<Longrightarrow> good (noteRecorded env n s1) (record_job env stack (JList ns) (noteRecorded env n s1))"
  shows "good s (record_job env stack (JList (n # ns)) s)"
proof -
  have "good s (case record_job env stack (JName n) s of (Some e, s1) \<Rightarrow> (Some e, s1)
      | (None, s1) \<Rightarrow> record_job env stack (JList ns) (noteRecorded env n s1))"
    by (rule good_then [OF assms(2)]) (rule good_step [OF records_note(1) assms(3)])
  with assms(1) show ?thesis by simp
qed

lemma good_needs_job:
  assumes "resolveNeedName (re_reg env) (tc_needsPrefix c) n (candidateExists (re_reg env)) = Some need"
    and "resolveAlias (re_reg env) need = Inr (target, b)"
    and "needRecorded target s \<Longrightarrow> good s (record_job env stack (JNeeds c ns) s)"
    and "\<not> needRecorded target s \<Longrightarrow> good s (record_job env stack (JName need) s)"
    and "\<And>s1. \<not> needRecorded target s \<Longrightarrow> record_job env stack (JName need) s = (None, s1)
      \<Longrightarrow> good (noteNeedRecorded target s1) (record_job env stack (JNeeds c ns) (noteNeedRecorded target s1))"
  shows "good s (record_job env stack (JNeeds c (n # ns)) s)"
proof (cases "needRecorded target s")
  case False
  have "good s (case record_job env stack (JName need) s of (Some e, s1) \<Rightarrow> (Some e, s1)
      | (None, s1) \<Rightarrow> record_job env stack (JNeeds c ns) (noteNeedRecorded target s1))"
    by (rule good_then [OF assms(4) [OF False]]) (rule good_step [OF records_note(3) assms(5) [OF False]])
  with False assms(1,2) show ?thesis by simp
qed (use assms(1-3) in simp)

text \<open>Ending in a stash hides the error of the step before it.\<close>

lemma records_caught:
  assumes "records s e s1" "rs_plan s2 = rs_plan s1" "rs_elevate s2 = rs_elevate s1" "\<not> clean s2"
  shows "records s None s2"
proof -
  from assms(1) obtain new where "ops_of_rec s1 = ops_of_rec s @ new" by (auto simp: records_def)
  with assms show ?thesis by (auto simp: records_def)
qed

lemma good_members_job:
  assumes al: "resolveAlias (re_reg env) n = Inr (target, b)" and unseen: "\<not> aggregate_saw target s"
    and first: "good s (record_job env stack (JName n) s)"
    and rest: "\<And>s1. record_job env stack (JName n) s = (None, s1)
      \<Longrightarrow> good (noteRecorded env target (see_aggregate target s1))
        (record_job env stack (JMembers name ns) (noteRecorded env target (see_aggregate target s1)))"
  shows "good s (record_job env stack (JMembers name (n # ns)) s)"
proof -
  obtain e s1 where j: "record_job env stack (JName n) s = (e, s1)" by (rule prod.exhaust)
  have g: "records s e s1" using first j by simp
  show ?thesis
  proof (cases e)
    case None
    have "records s1 None (noteRecorded env target (see_aggregate target s1))"
      by (rule records_trans [OF records_note(2) records_note(1)])
    with g None have "records s None (noteRecorded env target (see_aggregate target s1))" by (auto intro: records_trans)
    from good_step [OF this rest [OF j [unfolded None]]] show ?thesis using al unseen j None by simp
  next
    case (Some x)
    have "records s None (stashAggregateError name x s1)" by (rule records_caught [OF g]) simp_all
    with al unseen j Some show ?thesis by simp
  qed
qed

text \<open>The next calls of a body, after one that leaves the state \<open>s1\<close>.\<close>

lemma good_fragment:
  assumes "good (begin_fragment i pr s) (record_job env stack (JBody body) (begin_fragment i pr s))"
  shows "records s None (rec_op (when_end False) (snd (record_job env stack (JBody body) (begin_fragment i pr s))))"
  by (rule records_fragment) (use assms in \<open>simp add: job_None\<close>)

lemma good_nested_run:
  assumes "good (enter_list s) (e, s1)"
  shows "records s None (case e of None \<Rightarrow> s1\<lparr>rs_needs := rs_needs s\<rparr>
      | Some x \<Rightarrow> propagateNestedRunError stack x (s1\<lparr>rs_needs := rs_needs s\<rparr>))"
proof -
  have "records s e (s1\<lparr>rs_needs := rs_needs s\<rparr>)"
    by (rule records_needs, rule records_trans [OF records_note(4)]) (use assms in simp)
  then show ?thesis by (cases e) (auto intro: records_caught)
qed

lemma good_aggregate:
  assumes "good (enter_aggregate s) (record_job env stack (JMembers name names) (enter_aggregate s))"
  shows "records s None (leave_aggregate s (snd (record_job env stack (JMembers name names) (enter_aggregate s))))"
  by (rule records_leave, rule records_trans [OF records_note(5)]) (use assms in \<open>simp add: job_None\<close>)

lemma job_records: "packs_resources env \<Longrightarrow> good s (record_job env stack job s)"
proof (induction env stack job s rule: record_job.induct)
  case (2 env stack n ns s)
  show ?case
  proof (cases "skipNeeded env n s")
    case False
    with 2 show ?thesis by (intro good_list_job) auto
  qed (use 2 in simp)
next
  case (3 env stack name s)
  show ?case
  proof (cases "name \<notin> set stack \<and> (\<exists>t. resolveAlias (re_reg env) name = Inr t) \<and> findCandidate (re_reg env) name \<noteq> None")
    case True
    then obtain target isAlias c where new: "name \<notin> set stack"
      and al: "resolveAlias (re_reg env) name = Inr (target, isAlias)" and c: "findCandidate (re_reg env) name = Some c"
      by (cases "resolveAlias (re_reg env) name") auto
    show ?thesis
      by (rule good_name_job [OF new al c "3.IH"(1) [OF new al refl c _ 3(4)] "3.IH"(2) [OF new al refl c _ 3(4)]
          "3.IH"(3) [OF new al refl c _ sym refl _ 3(4)]]) simp_all
  next
    case False
    then have "snd (record_job env stack (JName name) s) = s
        \<or> (\<exists>e. snd (record_job env stack (JName name) s) = s\<lparr>rs_cycleErr := Some e\<rparr>)"
      by (cases "resolveAlias (re_reg env) name") (auto simp: record_job.simps(3) Let_def)
    then show ?thesis by (auto simp: clean_def intro: records_quiet)
  qed
next
  case (5 env stack c n ns s)
  show ?case
  proof (cases "resolveNeedName (re_reg env) (tc_needsPrefix c) n (candidateExists (re_reg env))")
    case need: (Some need)
    show ?thesis
    proof (cases "resolveAlias (re_reg env) need")
      case (Inr tgt)
      with 5 need show ?thesis by (cases tgt) (rule good_needs_job, auto)
    qed (use need in simp)
  qed simp
next
  case (9 env stack hosts body cs s)
  show ?case
  proof (cases "blank_fragment 1 hosts")
    case None
    with 9 have "records s None (snd (record_job env stack (JHosts hosts body) s))" by (simp add: job_None)
    with 9 None show ?thesis by (auto intro: good_step)
  next
    case (Some b)
    obtain i h where b: "b = (i, h)" by (cases b)
    from good_step [OF records_stash(1) "9.IH"(3) [OF Some b [symmetric] 9(4)]] Some b show ?thesis by simp
  qed
next
  case (10 env stack p body cs s)
  from good_step [OF good_fragment [OF "10.IH"(1) [OF 10(3)]] "10.IH"(2) [OF 10(3)]] show ?case
    unfolding record_job.simps .
next
  case (11 env stack names cs s)
  obtain e s1 where j: "record_job env stack (JList names) (enter_list s) = (e, s1)" by (rule prod.exhaust)
  with 11 have "good (enter_list s) (e, s1)" by metis
  from good_step [OF good_nested_run [OF this] "11.IH"(2) [OF j [symmetric] refl 11(3)]] j
  show ?case by (simp add: Let_def)
next
  case (12 env stack name pattern cs s)
  let ?names = "patternMembers (re_reg env) (re_tasks env) (re_skip env) name (re_matching env pattern)"
  have "records s None (if ?names = [] then stashAggregateError name (AggregateEmpty pattern) s
      else leave_aggregate s (snd (record_job env stack (JMembers name ?names) (enter_aggregate s))))"
    using good_aggregate [OF "12.IH"(1) [OF refl _ 12(3)]] by (simp add: records_stash)
  from good_step [OF this "12.IH"(2) [OF refl 12(3)]] show ?case by (simp add: Let_def)
next
  case (13 env stack name members cs s)
  show ?case unfolding record_job.simps
  proof (rule good_step [OF _ "13.IH"(2) [OF 13(3)]])
    show "records s None (case activeMembers (re_reg env) (re_tasks env) (re_skip env) members of
        Inl e \<Rightarrow> stashAggregateError name (AggregateMembers e) s
      | Inr names \<Rightarrow>
          if names = [] then stashAggregateError name (AggregateEmpty []) s
          else leave_aggregate s (snd (record_job env stack (JMembers name names) (enter_aggregate s))))"
      using good_aggregate [OF "13.IH"(1) [OF _ _ 13(3)]] by (simp add: records_stash split: sum.split)
  qed
next
  case (15 env stack h hs body s)
  from good_step [OF good_fragment [OF "15.IH"(1) [OF 15(3)]] "15.IH"(2) [OF 15(3)]] show ?case
    unfolding record_job.simps .
next
  case (17 env stack name n ns s)
  show ?case
  proof (cases "resolveAlias (re_reg env) n")
    case (Inr tgt)
    obtain target b where tgt: "tgt = (target, b)" by (cases tgt)
    show ?thesis
    proof (cases "aggregate_saw target s")
      case False
      with 17 Inr tgt show ?thesis by (intro good_members_job) auto
    qed (use 17 Inr tgt in simp)
  qed (simp add: records_stash)
qed (auto intro: good_step [OF records_declare] good_step [OF records_stash(1)])

text \<open>A named task that returns no error leaves no error stashed.\<close>

lemma clean_note [simp]:
  "clean (noteRecorded env n s) = clean s" "clean (noteNeedRecorded t s) = clean s" "clean (enter_list s) = clean s"
  by (auto simp: noteRecorded_def note_recorded_def see_aggregate_def noteNeedRecorded_def Let_def enter_list_def clean_def
      split: option.splits sum.splits)

lemma name_job_clean:
  assumes "fst (record_job env stack (JName name) s) = None"
    and via: "\<And>target. resolveAlias (re_reg env) name = Inr (target, True) \<Longrightarrow> name \<notin> set stack
      \<Longrightarrow> findCandidate (re_reg env) name \<noteq> None
      \<Longrightarrow> fst (record_job env (stack @ [name]) (JName target) s) = None
      \<Longrightarrow> clean (snd (record_job env (stack @ [name]) (JName target) s))"
  shows "clean (snd (record_job env stack (JName name) s))"
proof -
  from assms(1) have new: "name \<notin> set stack" by (auto simp: record_job.simps(3) Let_def)
  with assms(1) obtain target isAlias c where al: "resolveAlias (re_reg env) name = Inr (target, isAlias)"
    and c: "findCandidate (re_reg env) name = Some c"
    by (cases "resolveAlias (re_reg env) name"; cases "findCandidate (re_reg env) name")
      (auto simp: record_job.simps(3) split: prod.splits)
  show ?thesis
  proof (cases isAlias)
    case True
    have "record_job env stack (JName name) s = record_job env (stack @ [name]) (JName target) s"
      by (subst record_job.simps(3)) (simp add: new al c True)
    with via al True new c assms(1) show ?thesis by simp
  next
    case False
    obtain e1 s1 where j: "record_job env (stack @ [name]) (JNeeds c (tc_needs c)) s = (e1, s1)" by (rule prod.exhaust)
    let ?s2 = "snd (record_job env (stack @ [name]) (JBody (tc_fn c)) (begin_task c s1))"
    have eq: "record_job env stack (JName name) s = end_task c s1 ?s2"
      using assms(1) new al c False j
      by (cases e1; cases "planWhenForCandidate env c") (simp_all add: record_job.simps(3))
    obtain e s' where fin: "end_task c s1 ?s2 = (e, s')" by (rule prod.exhaust)
    then show ?thesis using end_task_frame(2,6) [OF fin] assms(1) eq by simp
  qed
qed

lemma job_clean:
  "\<not> is_body_job job \<Longrightarrow> fst (record_job env stack job s) = None \<Longrightarrow> clean s \<Longrightarrow> clean (snd (record_job env stack job s))"
proof (induction env stack job s rule: record_job.induct)
  case (2 env stack n ns s)
  obtain e s1 where j: "record_job env stack (JName n) s = (e, s1)" by (rule prod.exhaust)
  from 2 j show ?case by (cases "skipNeeded env n s"; cases e) auto
next
  case (3 env stack name s)
  show ?case
  proof (rule name_job_clean [OF 3(5)])
    fix target
    assume al: "resolveAlias (re_reg env) name = Inr (target, True)" and new: "name \<notin> set stack"
      and c: "findCandidate (re_reg env) name \<noteq> None"
      and none: "fst (record_job env (stack @ [name]) (JName target) s) = None"
    from c obtain x where x: "findCandidate (re_reg env) name = Some x" by auto
    from "3.IH"(1) [OF new al refl x TrueI _ none 3(6)]
    show "clean (snd (record_job env (stack @ [name]) (JName target) s))" by simp
  qed
next
  case (5 env stack c n ns s)
  then obtain need target b where need: "resolveNeedName (re_reg env) (tc_needsPrefix c) n (candidateExists (re_reg env)) = Some need"
    and al: "resolveAlias (re_reg env) need = Inr (target, b)"
    by (cases "resolveNeedName (re_reg env) (tc_needsPrefix c) n (candidateExists (re_reg env))")
      (auto split: sum.splits)
  obtain e s1 where j: "record_job env stack (JName need) s = (e, s1)" by (rule prod.exhaust)
  from "5.IH" [OF need al refl] 5(4-) need al j show ?case by (cases "needRecorded target s"; cases e) auto
qed simp_all

section \<open>The recorded plan\<close>

lemma balanced_header: "op_kind h = KindPlan \<Longrightarrow> balanced (h # body) = balanced body"
  by (simp add: balanced_def)

text \<open>
  A recording for the witnesses: web is guarded by a hostname, needs base and declares a file under a
  path condition; base declares one. The caller names both.
\<close>

definition sample_task ::
  "string \<Rightarrow> string list \<Rightarrow> Predicate list \<Rightarrow> (nat, nat, nat) call list \<Rightarrow> (nat, nat, nat) call list taskCandidate" where
  "sample_task name needs pred body =
     \<lparr>tc_name = name, tc_description = [], tc_fn = body, tc_planWhen = pred, tc_opaque = [], tc_privileged = False,
      tc_cluster = [], tc_operational = False, tc_aliasOf = [], tc_aggregate = False, tc_members = [], tc_needs = needs,
      tc_needsPrefix = []\<rparr>"

definition sample_draft :: "string \<Rightarrow> nat PlanDraft" where
  "sample_draft i = \<lparr>pd_Kind = ''file'', pd_ID = i, pd_User = False, pd_IfChanged = False, pd_Watch = [], pd_Deps = [],
      pd_rest = None\<rparr>"

definition sample_web :: "(nat, nat, nat) call list taskCandidate" where
  "sample_web = sample_task ''web'' [''base''] [hostname_pred ''w'']
     [WhenPathExists ''x'' [Declare ''File'' ''a'' None [] (Some (sample_draft ''File[a]''))]]"

definition sample_base :: "(nat, nat, nat) call list taskCandidate" where
  "sample_base = sample_task ''base'' [] [] [Declare ''File'' ''b'' None [] (Some (sample_draft ''File[b]''))]"

definition sample_env :: "(nat, nat, nat, unit) rec_env" where
  "sample_env =
     \<lparr>re_reg = \<lparr>rg_candidates = [sample_web, sample_base], rg_methodTasks = []\<rparr>,
      re_facts = \<lparr>fa_goos = [], fa_profile = [], fa_hostname = []\<rparr>, re_tasks = [],
      re_matching = (\<lambda>p. []), re_skip = (\<lambda>n. False),
      re_package = (\<lambda>e t d b. (Inr ((zero_op KindFile)\<lparr>op_id := pd_ID d, op_elevate := e\<rparr>), b))\<rparr>"

definition sample_session :: "(nat, nat, nat, unit) rec_state" where
  "sample_session =
     \<lparr>rs_elevate = False, rs_draftIDs = [], rs_cycleErr = None, rs_packErr = None, rs_bodyErr = None, rs_opaqueOnly = [],
      rs_aggregateSeen = None, rs_needs = None, rs_plan = \<lparr>pr_recording = False, pr_recorded = []\<rparr>,
      rs_repo = newRepository, rs_blobs = (), rs_ran = [],
      rs_lastRecordFailure = None\<rparr>"

lemma sample_find:
  "findCandidate (re_reg sample_env) ''web'' = Some sample_web" "findCandidate (re_reg sample_env) ''base'' = Some sample_base"
  by (simp_all add: findCandidate_def sample_env_def sample_web_def sample_base_def sample_task_def)

lemma sample_resolve:
  "resolveAlias (re_reg sample_env) ''web'' = Inr (''web'', False)" "resolveAlias (re_reg sample_env) ''base'' = Inr (''base'', False)"
  by (simp_all add: resolveAlias_def sample_find sample_web_def sample_base_def sample_task_def)

lemma sample_need:
  "resolveNeedName (re_reg sample_env) [] ''base'' (candidateExists (re_reg sample_env)) = Some ''base''"
  by (simp add: resolveNeedName_def candidateExists_def sample_find methodNeedPrefix_def)

lemma sample_package:
  "re_package sample_env e t d b = (Inr ((zero_op KindFile)\<lparr>op_id := pd_ID d, op_elevate := e\<rparr>), b)"
  by (simp add: sample_env_def)

lemmas sample_fields = sample_web_def sample_base_def sample_task_def sample_draft_def

definition sample_op :: "string \<Rightarrow> Op" where
  "sample_op i = (zero_op KindFile)\<lparr>op_id := i\<rparr>"

definition sample_repo :: "string \<Rightarrow> (nat, nat) repository" where
  "sample_repo i =
     \<lparr>rp_registered = [(''File['' @ i @ '']'', \<lparr>rc_Type = ''File'', rc_Name = i, rc_registered = None, rc_dependsOn = []\<rparr>)],
      rp_drafts = [(''File['' @ i @ '']'', sample_draft (''File['' @ i @ '']''))],
      rp_declaredUnder = [(''File['' @ i @ '']'', [])], rp_whenStack = []\<rparr>"

lemma sample_declare:
  assumes "rs_repo s = newRepository" "rs_packErr s = None" "\<not> rs_elevate s" "on_record s"
  shows "declare_call sample_env stack (new_resource ''File'' i None []) (Some (sample_draft (''File['' @ i @ '']''))) s
    = s\<lparr>rs_repo := sample_repo i, rs_draftIDs := add_key (''File['' @ i @ '']'') (rs_draftIDs s),
        rs_plan := \<lparr>pr_recording = True, pr_recorded = ops_of_rec s @ [sample_op (''File['' @ i @ '']'')]\<rparr>\<rparr>"
  using assms
  by (cases s; cases "rs_plan s")
    (simp add: declare_call_def register_def newRepository_def new_resource_def ID_def FormatID_def idPrefix_def
      currentWhenContext_def recordDraft_def sample_draft_def recordSessionDraft_def sample_package rec_op_def Record_def
      zero_op_def sample_op_def sample_repo_def)


lemmas sample_eval = RecordPlanTo_def recordPlanBody_def Let_def enterRecordMode_def enter_list_def
  skipNeeded_def sample_find sample_resolve sample_need needRecorded_def aggregate_saw_def
  planWhenForCandidate_def begin_task_def end_task_def first_stash_def checkUnrecordedDrafts_def rec_op_def Record_def
  noteNeedRecorded_def see_aggregate_def noteRecorded_def note_recorded_def begin_fragment_def add_key_def

lemma sample_base_runs:
  assumes "\<not> rs_elevate s" "clean s" "rs_plan s = \<lparr>pr_recording = True, pr_recorded = ops\<rparr>" "''base'' \<notin> set stack"
  shows "record_job sample_env stack (JName ''base'') s
    = (None, s\<lparr>rs_repo := sample_repo ''b'', rs_draftIDs := [''File[b]''], rs_ran := rs_ran s @ [''base''],
        rs_plan := \<lparr>pr_recording = True, pr_recorded = ops @ [sample_op ''File[b]'']\<rparr>\<rparr>)"
  using assms
  by (cases s)
    (simp add: clean_def record_job.simps(3) sample_eval sample_base_def sample_task_def registeredIDs_def sample_repo_def
      sample_declare [where i = "''b''", simplified])

definition sample_ops :: "Op list" where
  "sample_ops = [sample_op ''File[b]'', when_begin ''when.web'' [hostname_pred ''w''] False,
     when_begin ''when.path_exists:x'' [path_pred ''x''] False, sample_op ''File[a]'', when_end False, when_end False]"

lemma sample_chunks:
  "ValidateChunks (SplitPrivilegeChunks (FinishRecord ''p'' \<lparr>pr_recording = True, pr_recorded = sample_ops\<rparr>)) = Inr ()"
  by code_simp

lemmas sample_web_eval =
  record_job.simps(3) [of sample_env "[]" "''web''"] sample_base_runs sample_declare [where i = "''a''", simplified]
  clean_def sample_eval sample_web_def sample_task_def sample_session_def registeredIDs_def sample_repo_def sample_chunks

lemma sample_runs:
  "fst (RecordPlanTo sample_env None ''p'' [''web'', ''base''] sample_session)
    = Inr ((zero_op KindPlan)\<lparr>op_version := RequiredVersion sample_ops, op_id := ''p''\<rparr> # sample_ops)"
  "rs_ran (snd (RecordPlanTo sample_env None ''p'' [''web'', ''base''] sample_session)) = [''base'', ''web'']"
  by (simp_all add: sample_web_eval sample_chunks [unfolded sample_ops_def FinishRecord_def plan_record.simps]
      sample_ops_def FinishRecord_def)

lemma sample_packs: "packs_resources sample_env"
  by (simp add: packs_resources_def sample_package zero_op_def)
text \<open>
  C37: a plan that RecordPlanTo returns is a header that declares the least schema version its ops
  need and the plan id, then ops whose when blocks are balanced (every begin has its end, in order), and
  its privilege chunks pass the checks an apply would make. The repository is as it was and no ops stay
  behind, whatever the outcome the tasks of the plan had. The packager may only make resource ops.\<close>
theorem recorded_plan_balanced:
  assumes "packs_resources env" "RecordPlanTo env pending planID names s = (Inr ops, s')"
  shows "(\<exists>body. ops = (zero_op KindPlan)\<lparr>op_version := RequiredVersion body, op_id := planID\<rparr> # body \<and> balanced body)
    \<and> ValidateChunks (SplitPrivilegeChunks ops) = Inr ()
    \<and> rs_repo s' = rs_repo s \<and> rs_plan s' = \<lparr>pr_recording = False, pr_recorded = []\<rparr>"
proof -
  define s0 where "s0 = enter_list (enterRecordMode (s\<lparr>rs_repo := newRepository\<rparr>))"
  obtain e s1 where j: "record_job env [] (JList names) s0 = (e, s1)" by (rule prod.exhaust)
  have s0: "clean s0" "on_record s0" "ops_of_rec s0 = []"
    by (simp_all add: s0_def enter_list_def enterRecordMode_def clean_def)
  have ok: "e = None" "ops = FinishRecord planID (rs_plan s1)" "ValidateChunks (SplitPrivilegeChunks ops) = Inr ()"
    "rs_repo s' = rs_repo s" "rs_plan s' = \<lparr>pr_recording = False, pr_recorded = []\<rparr>"
    using assms(2) j
    by (auto simp: RecordPlanTo_def recordPlanBody_def Let_def s0_def [symmetric] res_simps
        split: if_splits option.splits prod.splits)
  have "clean s1" using job_clean [of "JList names" env "[]" s0] j ok(1) s0 by simp
  moreover have "records s0 e s1" using job_records [OF assms(1), of s0 "[]" "JList names"] j by simp
  ultimately have "balanced (ops_of_rec s1)" using ok(1) s0 by (auto simp: records_def)
  with ok show ?thesis by (auto simp: FinishRecord_def)
qed

theorem recorded_plan_balanced_witness:
  "balanced sample_ops
   \<and> ValidateChunks (SplitPrivilegeChunks
       ((zero_op KindPlan)\<lparr>op_version := RequiredVersion sample_ops, op_id := ''p''\<rparr> # sample_ops)) = Inr ()"
proof -
  obtain s' where "RecordPlanTo sample_env None ''p'' [''web'', ''base''] sample_session
    = (Inr ((zero_op KindPlan)\<lparr>op_version := RequiredVersion sample_ops, op_id := ''p''\<rparr> # sample_ops), s')"
    using sample_runs(1) by (metis prod.collapse)
  from recorded_plan_balanced [OF sample_packs this] show ?thesis by simp
qed

text \<open>
  The check for registered resources without a draft looks at the last scope only. Here X records none
  and a when fragment follows: the fragment's fresh scope hides X, and the plan is recorded without it.
\<close>

definition undrafted_env :: "(nat, nat, nat, unit) rec_env" where
  "undrafted_env = sample_env\<lparr>re_reg := \<lparr>rg_candidates =
     [sample_task ''t'' [] [] [Declare ''X'' ''a'' None [] None, WhenPathExists ''p'' []]], rg_methodTasks = []\<rparr>\<rparr>"

lemma undrafted_passes:
  "is_ok (fst (RecordPlanTo undrafted_env None ''p'' [''t''] sample_session))"
  by code_simp

lemma undrafted_refused_alone:
  "fst (RecordPlanTo (undrafted_env\<lparr>re_reg := \<lparr>rg_candidates =
     [sample_task ''t'' [] [] [Declare ''X'' ''a'' None [] None]], rg_methodTasks = []\<rparr>\<rparr>) None ''p'' [''t''] sample_session)
   = Inl (WithoutDraft ''t'' [''X[a]''])"
  by code_simp

end
