(* ===== verification/RecordNeeds.thy ===== *)
theory RecordNeeds
  imports RecordOps
begin

text \<open>
  What a recording runs: a task's body is called only after every task it needs ran, whichever of the
  dedupe scopes of aggregates, needs and name lists let a second mention pass.
\<close>

section \<open>Lemmas: needs run first\<close>

text \<open>A need is met by a list of tasks that ran when the task it leads to, aliases followed, is one of them.\<close>

definition need_met :: "('v, 'o, 'x, 'b) rec_env \<Rightarrow> string list \<Rightarrow> ('v, 'o, 'x) call list taskCandidate \<Rightarrow> string \<Rightarrow> bool" where
  "need_met env past c n \<longleftrightarrow>
     (\<exists>need t b. resolveNeedName (re_reg env) (tc_needsPrefix c) n (candidateExists (re_reg env)) = Some need
        \<and> resolveAlias (re_reg env) need = Inr (t, b) \<and> t \<in> set past)"

definition needs_before :: "('v, 'o, 'x, 'b) rec_env \<Rightarrow> string list \<Rightarrow> bool" where
  "needs_before env past \<longleftrightarrow>
     (\<forall>xs t ys c n. past = xs @ t # ys \<longrightarrow> findCandidate (re_reg env) t = Some c \<longrightarrow> n \<in> set (tc_needs c)
        \<longrightarrow> need_met env xs c n)"

text \<open>Whatever the dedupe scopes hold has run.\<close>

definition in_scopes :: "string \<Rightarrow> ('v, 'o, 'x, 'b) rec_state \<Rightarrow> bool" where
  "in_scopes t s \<longleftrightarrow> aggregate_saw t s
     \<or> (case rs_needs s of Some n \<Rightarrow> t \<in> set (nd_recorded n) \<union> set (nd_viaNeeds n) | None \<Rightarrow> False)"

definition run_inv :: "('v, 'o, 'x, 'b) rec_env \<Rightarrow> ('v, 'o, 'x, 'b) rec_state \<Rightarrow> bool" where
  "run_inv env s \<longleftrightarrow> (\<forall>t. in_scopes t s \<longrightarrow> t \<in> set (rs_ran s)) \<and> needs_before env (rs_ran s)"

definition runs :: "('v, 'o, 'x, 'b) rec_env \<Rightarrow> ('v, 'o, 'x, 'b) rec_state \<Rightarrow> ('v, 'o, 'x, 'b) rec_state \<Rightarrow> bool" where
  "runs env s s' \<longleftrightarrow> (\<exists>new. rs_ran s' = rs_ran s @ new) \<and> (run_inv env s \<longrightarrow> run_inv env s')"

lemma runs_refl [simp]: "runs env s s"
  by (simp add: runs_def)

lemma runs_trans: "runs env s s1 \<Longrightarrow> runs env s1 s2 \<Longrightarrow> runs env s s2"
  by (auto simp: runs_def)

lemma runs_ran: "runs env s s' \<Longrightarrow> set (rs_ran s) \<subseteq> set (rs_ran s')"
  by (auto simp: runs_def)

text \<open>A step that runs nothing and puts nothing new into the scopes.\<close>

lemma runs_quiet: "rs_ran s' = rs_ran s \<Longrightarrow> (\<And>t. in_scopes t s' \<Longrightarrow> in_scopes t s) \<Longrightarrow> runs env s s'"
  by (auto simp: runs_def run_inv_def)

lemma need_met_mono: "need_met env xs c n \<Longrightarrow> set xs \<subseteq> set ys \<Longrightarrow> need_met env ys c n"
  unfolding need_met_def by blast

lemma needs_before_snoc:
  "needs_before env xs \<Longrightarrow> (\<And>c n. findCandidate (re_reg env) t = Some c \<Longrightarrow> n \<in> set (tc_needs c) \<Longrightarrow> need_met env xs c n)
   \<Longrightarrow> needs_before env (xs @ [t])"
  unfolding needs_before_def by (auto simp: append_eq_append_conv2 append_eq_Cons_conv Cons_eq_append_conv)

lemma scope_frame [simp]:
  "rs_aggregateSeen (stashBodyError e s) = rs_aggregateSeen s" "rs_needs (stashBodyError e s) = rs_needs s"
  "rs_aggregateSeen (stashAggregateError n e s) = rs_aggregateSeen s" "rs_needs (stashAggregateError n e s) = rs_needs s"
  "rs_aggregateSeen (propagateNestedRunError st e s) = rs_aggregateSeen s"
  "rs_needs (propagateNestedRunError st e s) = rs_needs s"
  "rs_aggregateSeen (recordSessionDraft env stack d s) = rs_aggregateSeen s"
  "rs_needs (recordSessionDraft env stack d s) = rs_needs s"
  "rs_aggregateSeen (begin_fragment i pr s) = rs_aggregateSeen s" "rs_needs (begin_fragment i pr s) = rs_needs s"
  by (auto simp: stashBodyError_def stashAggregateError_def propagateNestedRunError_def recordSessionDraft_def Let_def
      begin_fragment_def split: option.splits sum.splits prod.splits)

lemma scope_declare [simp]:
  "rs_aggregateSeen (declare_call env stack res draft s) = rs_aggregateSeen s"
  "rs_needs (declare_call env stack res draft s) = rs_needs s"
  by (auto simp: declare_call_def split: option.splits sum.splits)

lemma in_scopes_same:
  "rs_aggregateSeen s' = rs_aggregateSeen s \<Longrightarrow> rs_needs s' = rs_needs s \<Longrightarrow> in_scopes t s' = in_scopes t s"
  by (simp add: in_scopes_def aggregate_saw_def)

lemma ran_frame [simp]:
  "rs_ran (stashBodyError e s) = rs_ran s" "rs_ran (stashAggregateError n e s) = rs_ran s"
  "rs_ran (propagateNestedRunError st e s) = rs_ran s" "rs_ran (recordSessionDraft env stack d s) = rs_ran s"
  "rs_ran (begin_fragment i pr s) = rs_ran s"
  by (auto simp: stashBodyError_def stashAggregateError_def propagateNestedRunError_def recordSessionDraft_def Let_def
      begin_fragment_def split: option.splits sum.splits prod.splits)

lemma ran_declare [simp]: "rs_ran (declare_call env stack res draft s) = rs_ran s"
  by (auto simp: declare_call_def split: option.splits sum.splits)

lemma runs_same:
  "rs_ran s' = rs_ran s \<Longrightarrow> rs_aggregateSeen s' = rs_aggregateSeen s \<Longrightarrow> rs_needs s' = rs_needs s \<Longrightarrow> runs env s s'"
  using in_scopes_same [of s' s] by (intro runs_quiet) auto

lemma runs_basic [simp]:
  "runs env s (rec_op op s)" "runs env s (stashBodyError e s)" "runs env s (stashAggregateError n e s)"
  "runs env s (propagateNestedRunError st e s)" "runs env s (declare_call env' stack res draft s)"
  "runs env s (begin_fragment i pr s)"
  by (rule runs_same; simp)+

lemma runs_enter [simp]: "runs env s (enter_list s)" "runs env s (enter_aggregate s)"
proof -
  have "in_scopes t (enter_list s) \<Longrightarrow> in_scopes t s" "in_scopes t (enter_aggregate s) \<Longrightarrow> in_scopes t s" for t
    by (simp_all add: enter_list_def enter_aggregate_def in_scopes_def aggregate_saw_def split: if_splits)
  then show "runs env s (enter_list s)" "runs env s (enter_aggregate s)"
    by (auto intro!: runs_quiet simp: enter_list_def enter_aggregate_def)
qed

text \<open>Scopes put back after a step are no larger than what had run before it.\<close>

lemma runs_restore_needs: "runs env s s1 \<Longrightarrow> runs env s (s1\<lparr>rs_needs := rs_needs s\<rparr>)"
  by (auto simp: runs_def run_inv_def in_scopes_def aggregate_saw_def)

lemma runs_leave: "runs env s s1 \<Longrightarrow> runs env s (leave_aggregate s0 s1)"
  by (auto simp: leave_aggregate_def runs_def run_inv_def in_scopes_def aggregate_saw_def)

lemma in_scopes_note:
  "in_scopes t (note_recorded x s) \<Longrightarrow> t = x \<or> in_scopes t s"
  "in_scopes t (see_aggregate x s) \<Longrightarrow> t = x \<or> in_scopes t s"
  "in_scopes t (noteNeedRecorded x s) \<Longrightarrow> t = x \<or> in_scopes t s"
  by (auto simp: note_recorded_def see_aggregate_def noteNeedRecorded_def in_scopes_def aggregate_saw_def Let_def
      split: option.splits if_splits)

lemma ran_note [simp]:
  "rs_ran (note_recorded x s) = rs_ran s" "rs_ran (see_aggregate x s) = rs_ran s" "rs_ran (noteNeedRecorded x s) = rs_ran s"
  "rs_ran (noteRecorded env x s) = rs_ran s"
  by (auto simp: note_recorded_def see_aggregate_def noteNeedRecorded_def noteRecorded_def Let_def
      split: option.splits sum.splits)

lemma runs_note:
  "x \<in> set (rs_ran s) \<Longrightarrow> runs env s (note_recorded x s)" "x \<in> set (rs_ran s) \<Longrightarrow> runs env s (see_aggregate x s)"
  "x \<in> set (rs_ran s) \<Longrightarrow> runs env s (noteNeedRecorded x s)"
  using in_scopes_note by (fastforce simp: runs_def run_inv_def)+

lemma resolveAlias_idem: "resolveAlias reg n = Inr (t, b) \<Longrightarrow> resolveAlias reg t = Inr (t, False)"
  by (auto simp: resolveAlias_def split: option.splits if_splits)

lemma resolveAlias_real: "resolveAlias reg n = Inr (t, False) \<Longrightarrow> t = n"
  by (auto simp: resolveAlias_def split: option.splits if_splits)

lemma runs_noteRecorded:
  "(\<And>t b. resolveAlias (re_reg env) n = Inr (t, b) \<Longrightarrow> t \<in> set (rs_ran s)) \<Longrightarrow> runs env s (noteRecorded env n s)"
  by (auto simp: noteRecorded_def runs_note split: sum.split)

text \<open>What a job that returns no error has run, by the kind of job.\<close>

fun job_done :: "('v, 'o, 'x, 'b) rec_env \<Rightarrow> ('v, 'o, 'x) job \<Rightarrow> string list \<Rightarrow> bool" where
  "job_done env (JName name) past = (\<exists>t b. resolveAlias (re_reg env) name = Inr (t, b) \<and> t \<in> set past)"
| "job_done env (JNeeds c ns) past = (\<forall>n \<in> set ns. need_met env past c n)"
| "job_done env _ past = True"

abbreviation ran_ok ::
  "('v, 'o, 'x, 'b) rec_env \<Rightarrow> ('v, 'o, 'x) job \<Rightarrow> ('v, 'o, 'x, 'b) rec_state
   \<Rightarrow> 'x record_error option \<times> ('v, 'o, 'x, 'b) rec_state \<Rightarrow> bool" where
  "ran_ok env job s r \<equiv> runs env s (snd r) \<and> (fst r = None \<longrightarrow> job_done env job (rs_ran (snd r)))"

lemma runs_begin_task:
  assumes "findCandidate (re_reg env) (tc_name c) = Some c" "\<And>n. n \<in> set (tc_needs c) \<Longrightarrow> need_met env (rs_ran s) c n"
  shows "runs env s (begin_task c s)"
proof -
  have "rs_aggregateSeen (begin_task c s) = (if tc_aggregate c then rs_aggregateSeen s else None)"
    "rs_needs (begin_task c s) = (if tc_aggregate c then rs_needs s else None)"
    by (simp_all add: begin_task_def Let_def)
  then have sc: "in_scopes t (begin_task c s) \<Longrightarrow> in_scopes t s" for t
    by (cases "tc_aggregate c") (simp_all add: in_scopes_def aggregate_saw_def)
  have nb: "needs_before env (rs_ran s @ [tc_name c])" if "needs_before env (rs_ran s)"
    by (rule needs_before_snoc [OF that]) (use assms in auto)
  show ?thesis unfolding runs_def run_inv_def begin_task_frame(4) using sc nb by auto
qed

lemma runs_end_task:
  assumes "runs env s0 s" "end_task c s0 s = (e, s')"
  shows "runs env s0 s'"
proof -
  note f = end_task_frame [OF assms(2)]
  have "in_scopes t s' \<Longrightarrow> in_scopes t s \<or> in_scopes t s0" for t
    using f(7,8) by (cases "tc_aggregate c") (simp_all add: in_scopes_def aggregate_saw_def)
  moreover obtain new where "rs_ran s' = rs_ran s0 @ new" using assms(1) f(4) by (auto simp: runs_def)
  moreover have "run_inv env s0 \<Longrightarrow> run_inv env s" using assms(1) by (simp add: runs_def)
  ultimately show ?thesis using f(4) by (auto simp: runs_def run_inv_def)
qed

lemma runs_task:
  assumes "runs env s s1" "\<forall>n \<in> set (tc_needs c). need_met env (rs_ran s1) c n"
    "findCandidate (re_reg env) (tc_name c) = Some c"
    "runs env (begin_task c s1) s3" "end_task c s1 s3 = (e, s')"
  shows "runs env s s' \<and> tc_name c \<in> set (rs_ran s')"
proof
  have b: "runs env s1 (begin_task c s1)" using assms(2,3) by (intro runs_begin_task) auto
  have "runs env s1 s3" by (rule runs_trans [OF b assms(4)])
  from runs_end_task [OF this assms(5)] show "runs env s s'" by (rule runs_trans [OF assms(1)])
  have "tc_name c \<in> set (rs_ran s3)" using runs_ran [OF assms(4)] by (auto simp: begin_task_frame(4))
  then show "tc_name c \<in> set (rs_ran s')" by (simp add: end_task_frame(4) [OF assms(5)])
qed

lemma ran_then:
  assumes "runs env s (snd r)"
    "\<And>s1. r = (None, s1) \<Longrightarrow> runs env s s1 \<Longrightarrow> runs env s (snd (f s1)) \<and> (fst (f s1) = None \<longrightarrow> P (rs_ran (snd (f s1))))"
  shows "runs env s (snd (case r of (Some e, s1) \<Rightarrow> (Some e, s1) | (None, s1) \<Rightarrow> f s1))
    \<and> (fst (case r of (Some e, s1) \<Rightarrow> (Some e, s1) | (None, s1) \<Rightarrow> f s1) = None
       \<longrightarrow> P (rs_ran (snd (case r of (Some e, s1) \<Rightarrow> (Some e, s1) | (None, s1) \<Rightarrow> f s1))))"
proof (cases r)
  case (Pair e s1)
  with assms show ?thesis by (cases e) auto
qed

lemma runs_inv: "runs env s s' \<Longrightarrow> run_inv env s \<Longrightarrow> run_inv env s'"
  by (simp add: runs_def)

lemma need_recorded_ran: "needRecorded t s \<Longrightarrow> run_inv env s \<Longrightarrow> t \<in> set (rs_ran s)"
  by (auto simp: needRecorded_def run_inv_def in_scopes_def split: option.splits)

lemma some_false [simp]: "\<exists>b. \<not> b"
  by blast

lemma runs_name_job:
  assumes inv: "run_inv env s" and new: "name \<notin> set stack"
    and al: "resolveAlias (re_reg env) name = Inr (target, isAlias)" and c: "findCandidate (re_reg env) name = Some c"
    and via: "isAlias \<Longrightarrow> ran_ok env (JName target) s (record_job env (stack @ [name]) (JName target) s)"
    and needs: "\<not> isAlias \<Longrightarrow> ran_ok env (JNeeds c (tc_needs c)) s (record_job env (stack @ [name]) (JNeeds c (tc_needs c)) s)"
    and body: "\<And>s1 w. \<not> isAlias \<Longrightarrow> record_job env (stack @ [name]) (JNeeds c (tc_needs c)) s = (None, s1)
      \<Longrightarrow> planWhenForCandidate env c = Inr w \<Longrightarrow> run_inv env (begin_task c s1)
      \<Longrightarrow> runs env (begin_task c s1) (snd (record_job env (stack @ [name]) (JBody (tc_fn c)) (begin_task c s1)))"
  shows "ran_ok env (JName name) s (record_job env stack (JName name) s)"
proof (cases isAlias)
  case True
  have "resolveAlias (re_reg env) target = Inr (target, False)" using al resolveAlias_idem by metis
  moreover have "record_job env stack (JName name) s = record_job env (stack @ [name]) (JName target) s"
    by (subst record_job.simps(3)) (simp add: new al c True)
  ultimately show ?thesis using via [OF True] al by simp
next
  case False
  have name: "tc_name c = name" "target = name"
    using findCandidate_name [OF c] resolveAlias_real al False by auto
  obtain e1 s1 where j: "record_job env (stack @ [name]) (JNeeds c (tc_needs c)) s = (e1, s1)" by (rule prod.exhaust)
  note n1 = needs [OF False, unfolded j]
  show ?thesis
  proof (cases "e1 = None \<and> (\<exists>w. planWhenForCandidate env c = Inr w)")
    case True
    then obtain w where e: "e1 = None" and ok: "planWhenForCandidate env c = Inr w" by auto
    obtain e2 s2 where b: "record_job env (stack @ [name]) (JBody (tc_fn c)) (begin_task c s1) = (e2, s2)"
      by (rule prod.exhaust)
    obtain e3 s3 where fin: "end_task c s1 s2 = (e3, s3)" by (rule prod.exhaust)
    have met: "\<forall>n \<in> set (tc_needs c). need_met env (rs_ran s1) c n" using n1 e by simp
    have c': "findCandidate (re_reg env) (tc_name c) = Some c" using c name by simp
    have "runs env s1 (begin_task c s1)" using met c' by (intro runs_begin_task) auto
    then have "run_inv env (begin_task c s1)" using n1 inv runs_inv by (metis snd_conv)
    then have "runs env (begin_task c s1) s2" using body [OF False j [unfolded e] ok] b by simp
    from runs_task [OF _ met c' this fin] n1 name have "runs env s s3" "name \<in> set (rs_ran s3)" by auto
    with new al c False j e ok b fin name show ?thesis by (simp add: record_job.simps(3))
  next
    case stop: False
    have "snd (record_job env stack (JName name) s) = s1 \<and> fst (record_job env stack (JName name) s) \<noteq> None"
      using new al c False j stop
      by (cases e1; cases "planWhenForCandidate env c") (simp_all add: record_job.simps(3))
    with n1 show ?thesis by auto
  qed
qed

lemma runs_needs_job:
  assumes inv: "run_inv env s"
    and need: "resolveNeedName (re_reg env) (tc_needsPrefix c) n (candidateExists (re_reg env)) = Some need"
    and al: "resolveAlias (re_reg env) need = Inr (target, b)"
    and skip: "needRecorded target s \<Longrightarrow> ran_ok env (JNeeds c ns) s (record_job env stack (JNeeds c ns) s)"
    and first: "\<not> needRecorded target s \<Longrightarrow> ran_ok env (JName need) s (record_job env stack (JName need) s)"
    and rest: "\<And>s1. \<not> needRecorded target s \<Longrightarrow> record_job env stack (JName need) s = (None, s1)
      \<Longrightarrow> run_inv env (noteNeedRecorded target s1)
      \<Longrightarrow> ran_ok env (JNeeds c ns) (noteNeedRecorded target s1) (record_job env stack (JNeeds c ns) (noteNeedRecorded target s1))"
  shows "ran_ok env (JNeeds c (n # ns)) s (record_job env stack (JNeeds c (n # ns)) s)"
proof (cases "needRecorded target s")
  case True
  have "target \<in> set (rs_ran s)" by (rule need_recorded_ran [OF True inv])
  with skip [OF True] have "target \<in> set (rs_ran (snd (record_job env stack (JNeeds c ns) s)))" using runs_ran by blast
  then have "need_met env (rs_ran (snd (record_job env stack (JNeeds c ns) s))) c n"
    using need al unfolding need_met_def by blast
  with skip [OF True] need al True show ?thesis by simp
next
  case False
  obtain e s1 where j: "record_job env stack (JName need) s = (e, s1)" by (rule prod.exhaust)
  note f = first [OF False, unfolded j]
  show ?thesis
  proof (cases e)
    case None
    then have t: "target \<in> set (rs_ran s1)" using f al by simp
    have to: "runs env s (noteNeedRecorded target s1)"
      using runs_trans [OF _ runs_note(3) [OF t]] f by simp
    note r = rest [OF False j [unfolded None] runs_inv [OF to inv]]
    have "target \<in> set (rs_ran (snd (record_job env stack (JNeeds c ns) (noteNeedRecorded target s1))))"
      using r runs_ran [of env "noteNeedRecorded target s1"] t by auto
    then have "need_met env (rs_ran (snd (record_job env stack (JNeeds c ns) (noteNeedRecorded target s1)))) c n"
      using need al unfolding need_met_def by blast
    with r runs_trans [OF to] need al False j None show ?thesis by simp
  qed (use f need al False j in simp)
qed

lemma runs_members_job:
  assumes inv: "run_inv env s" and al: "resolveAlias (re_reg env) n = Inr (target, b)" and unseen: "\<not> aggregate_saw target s"
    and first: "ran_ok env (JName n) s (record_job env stack (JName n) s)"
    and rest: "\<And>s1. record_job env stack (JName n) s = (None, s1)
      \<Longrightarrow> run_inv env (noteRecorded env target (see_aggregate target s1))
      \<Longrightarrow> runs env (noteRecorded env target (see_aggregate target s1))
        (snd (record_job env stack (JMembers name ns) (noteRecorded env target (see_aggregate target s1))))"
  shows "runs env s (snd (record_job env stack (JMembers name (n # ns)) s))"
proof -
  obtain e s1 where j: "record_job env stack (JName n) s = (e, s1)" by (rule prod.exhaust)
  note f = first [unfolded j]
  show ?thesis
  proof (cases e)
    case None
    then have t: "target \<in> set (rs_ran s1)" using f al by simp
    have t': "resolveAlias (re_reg env) target = Inr (target, False)" using al resolveAlias_idem by metis
    have "runs env (see_aggregate target s1) (noteRecorded env target (see_aggregate target s1))"
      by (rule runs_noteRecorded) (use t t' in simp)
    then have to: "runs env s (noteRecorded env target (see_aggregate target s1))"
      using runs_trans [OF runs_trans [OF _ runs_note(2) [OF t]]] f by simp
    from rest [OF j [unfolded None] runs_inv [OF to inv]] runs_trans [OF to] al unseen j None
    show ?thesis by simp
  next
    case (Some x)
    then show ?thesis using f al unseen j runs_trans [OF _ runs_basic(3)] by simp
  qed
qed

lemma runs_fragment:
  assumes "run_inv env s"
    "run_inv env (begin_fragment i pr s) \<Longrightarrow> runs env (begin_fragment i pr s) s1"
  shows "runs env s (rec_op (when_end False) s1)"
  using runs_trans [OF runs_basic(6) assms(2) [OF runs_inv [OF runs_basic(6) assms(1)]]] runs_trans [OF _ runs_basic(1)] by blast

lemma runs_aggregate:
  assumes "run_inv env s" "run_inv env (enter_aggregate s) \<Longrightarrow> runs env (enter_aggregate s) s1"
  shows "runs env s (leave_aggregate s s1)"
  by (rule runs_leave) (rule runs_trans [OF runs_enter(2) assms(2) [OF runs_inv [OF runs_enter(2) assms(1)]]])

lemma runs_list_job:
  assumes inv: "run_inv env s" and unskipped: "\<not> skipNeeded env n s"
    and first: "ran_ok env (JName n) s (record_job env stack (JName n) s)"
    and rest: "\<And>s1. record_job env stack (JName n) s = (None, s1) \<Longrightarrow> run_inv env (noteRecorded env n s1)
      \<Longrightarrow> runs env (noteRecorded env n s1) (snd (record_job env stack (JList ns) (noteRecorded env n s1)))"
  shows "runs env s (snd (record_job env stack (JList (n # ns)) s))"
proof -
  obtain e s1 where j: "record_job env stack (JName n) s = (e, s1)" by (rule prod.exhaust)
  note f = first [unfolded j]
  show ?thesis
  proof (cases e)
    case None
    with f have note1: "runs env s1 (noteRecorded env n s1)" by (intro runs_noteRecorded) auto
    have to: "runs env s (noteRecorded env n s1)" using runs_trans [OF _ note1] f by simp
    from runs_trans [OF to rest [OF j [unfolded None] runs_inv [OF to inv]]] unskipped j None show ?thesis by simp
  qed (use f unskipped j in simp)
qed

lemma job_runs: "run_inv env s \<Longrightarrow> ran_ok env job s (record_job env stack job s)"
proof (induction env stack job s rule: record_job.induct)
  case (2 env stack n ns s)
  show ?case
  proof (cases "skipNeeded env n s")
    case False
    with 2 show ?thesis by (auto intro!: runs_list_job simp del: record_job.simps)
  qed (use 2 in simp)
next
  case (3 env stack name s)
  show ?case
  proof (cases "name \<in> set stack \<or> (\<exists>e. resolveAlias (re_reg env) name = Inl e) \<or> findCandidate (re_reg env) name = None")
    case True
    then have "fst (record_job env stack (JName name) s) \<noteq> None \<and> (snd (record_job env stack (JName name) s) = s
        \<or> (\<exists>e. snd (record_job env stack (JName name) s) = s\<lparr>rs_cycleErr := Some e\<rparr>))"
      by (cases "resolveAlias (re_reg env) name") (auto simp: record_job.simps(3) Let_def)
    then show ?thesis by (auto intro: runs_same)
  next
    case False
    then obtain target isAlias c where new: "name \<notin> set stack"
      and al: "resolveAlias (re_reg env) name = Inr (target, isAlias)" and c: "findCandidate (re_reg env) name = Some c"
      by (cases "resolveAlias (re_reg env) name") auto
    show ?thesis
      by (rule runs_name_job [OF 3(4) new al c "3.IH"(1) [OF new al refl c _ 3(4)] "3.IH"(2) [OF new al refl c _ 3(4)]
          conjunct1 [OF "3.IH"(3) [OF new al refl c _ sym refl]]]) simp_all
  qed
next
  case (5 env stack c n ns s)
  show ?case
  proof (cases "resolveNeedName (re_reg env) (tc_needsPrefix c) n (candidateExists (re_reg env))")
    case need: (Some need)
    show ?thesis
    proof (cases "resolveAlias (re_reg env) need")
      case (Inr tgt)
      obtain target b where tgt: "tgt = (target, b)" by (cases tgt)
      show ?thesis
        by (rule runs_needs_job [OF 5(4) need Inr [unfolded tgt] "5.IH"(1) [OF need Inr tgt [symmetric] _ 5(4)]
            "5.IH"(2) [OF need Inr tgt [symmetric] _ 5(4)] "5.IH"(3) [OF need Inr tgt [symmetric] _ sym refl]])
    qed (use need in simp)
  qed simp
next
  case (7 env stack ty name v deps draft cs s)
  let ?s1 = "declare_call env stack (new_resource ty name v deps) draft s"
  have "runs env ?s1 (snd (record_job env stack (JBody cs) ?s1))" using 7(1) [OF runs_inv [OF runs_basic(5) 7(2)]] by simp
  from runs_trans [OF runs_basic(5) this] show ?case by simp
next
  case (8 env stack e cs s)
  let ?s1 = "stashBodyError (MisuseReported e) s"
  have "runs env ?s1 (snd (record_job env stack (JBody cs) ?s1))" using 8(1) [OF runs_inv [OF runs_basic(2) 8(2)]] by simp
  from runs_trans [OF runs_basic(2) this] show ?case by simp
next
  case (9 env stack hosts body cs s)
  show ?case
  proof (cases "blank_fragment 1 hosts")
    case (Some b)
    obtain i h where b: "b = (i, h)" by (cases b)
    from "9.IH"(3) [OF Some b [symmetric] runs_inv [OF runs_basic(2) 9(4)]]
    have "runs env s (snd (record_job env stack (JBody cs) (stashBodyError (BlankFragment i h) s)))"
      using runs_trans [OF runs_basic(2)] by blast
    with Some b show ?thesis by simp
  next
    case None
    have to: "runs env s (snd (record_job env stack (JHosts hosts body) s))" using "9.IH"(1) [OF None 9(4)] by simp
    from "9.IH"(2) [OF None runs_inv [OF to 9(4)]] runs_trans [OF to] None show ?thesis by simp
  qed
next
  case (10 env stack p body cs s)
  have to: "runs env s (rec_op (when_end False)
      (snd (record_job env stack (JBody body) (begin_fragment (''when.path_exists:'' @ p) (path_pred p) s))))"
    by (rule runs_fragment [OF 10(3) conjunct1 [OF "10.IH"(1)]])
  from "10.IH"(2) [OF runs_inv [OF to 10(3)]] runs_trans [OF to] show ?case unfolding record_job.simps by simp
next
  case (11 env stack names cs s)
  obtain e s1 where j: "record_job env stack (JList names) (enter_list s) = (e, s1)" by (rule prod.exhaust)
  have "runs env s s1"
    using "11.IH"(1) [OF runs_inv [OF runs_enter(1) 11(3)]] j runs_trans [OF runs_enter(1)] by (metis snd_conv)
  then have r: "runs env s (s1\<lparr>rs_needs := rs_needs s\<rparr>)" by (rule runs_restore_needs)
  let ?s2 = "case e of None \<Rightarrow> s1\<lparr>rs_needs := rs_needs s\<rparr>
      | Some x \<Rightarrow> propagateNestedRunError stack x (s1\<lparr>rs_needs := rs_needs s\<rparr>)"
  have to: "runs env s ?s2" using r runs_trans [OF r runs_basic(4)] by (cases e) simp_all
  from "11.IH"(2) [OF j [symmetric] refl runs_inv [OF to 11(3)]] runs_trans [OF to] j show ?case by (simp add: Let_def)
next
  case (12 env stack name pattern cs s)
  let ?names = "patternMembers (re_reg env) (re_tasks env) (re_skip env) name (re_matching env pattern)"
  let ?next = "if ?names = [] then stashAggregateError name (AggregateEmpty pattern) s
      else leave_aggregate s (snd (record_job env stack (JMembers name ?names) (enter_aggregate s)))"
  have to: "runs env s ?next"
    using "12.IH"(1) [OF refl _ runs_inv [OF runs_enter(2) 12(3)]]
    by (auto intro: runs_leave runs_trans [OF runs_enter(2)])
  from "12.IH"(2) [OF refl runs_inv [OF to 12(3)]] runs_trans [OF to] show ?case by (simp add: Let_def)
next
  case (13 env stack name members cs s)
  let ?next = "case activeMembers (re_reg env) (re_tasks env) (re_skip env) members of
      Inl e \<Rightarrow> stashAggregateError name (AggregateMembers e) s
    | Inr names \<Rightarrow>
        if names = [] then stashAggregateError name (AggregateEmpty []) s
        else leave_aggregate s (snd (record_job env stack (JMembers name names) (enter_aggregate s)))"
  have to: "runs env s ?next"
    using "13.IH"(1) [OF _ _ runs_inv [OF runs_enter(2) 13(3)]]
    by (cases "activeMembers (re_reg env) (re_tasks env) (re_skip env) members")
      (auto intro: runs_leave runs_trans [OF runs_enter(2)])
  from "13.IH"(2) [OF runs_inv [OF to 13(3)]] runs_trans [OF to] show ?case unfolding record_job.simps by simp
next
  case (15 env stack h hs body s)
  have to: "runs env s (rec_op (when_end False)
      (snd (record_job env stack (JBody body) (begin_fragment (''when.hostname:'' @ h) (hostname_pred h) s))))"
    by (rule runs_fragment [OF 15(3) conjunct1 [OF "15.IH"(1)]])
  from "15.IH"(2) [OF runs_inv [OF to 15(3)]] runs_trans [OF to] show ?case unfolding record_job.simps by simp
next
  case (17 env stack name n ns s)
  show ?case
  proof (cases "resolveAlias (re_reg env) n")
    case (Inr tgt)
    obtain target b where tgt: "tgt = (target, b)" by (cases tgt)
    show ?thesis
    proof (cases "aggregate_saw target s")
      case True
      then show ?thesis using "17.IH"(1) [OF Inr tgt [symmetric] True 17(4)] Inr tgt by simp
    next
      case False
      with 17 Inr tgt show ?thesis by (auto intro!: runs_members_job simp del: record_job.simps)
    qed
  qed simp
qed simp_all

section \<open>The tasks of a plan\<close>

lemma run_inv_start: "run_inv env (enter_list (enterRecordMode s))"
  by (simp add: run_inv_def in_scopes_def aggregate_saw_def enter_list_def enterRecordMode_def needs_before_def)

text \<open>
  C36: while RecordPlanTo runs, the body of a task is called only after every task it needs: in the
  list of the bodies called, whatever the outcome, each name of its Needs resolves to a task that stands
  before it. The bodies, the aliases, the aggregates and the nested runs may be anything.\<close>
theorem needs_run_first:
  assumes "planID \<noteq> []" "names \<noteq> []" "pending = None"
  shows "needs_before env (rs_ran (snd (RecordPlanTo env pending planID names s)))"
proof -
  let ?s0 = "enter_list (enterRecordMode (s\<lparr>rs_repo := newRepository\<rparr>))"
  obtain e s1 where j: "record_job env [] (JList names) ?s0 = (e, s1)" by (rule prod.exhaust)
  have "run_inv env (snd (record_job env [] (JList names) ?s0))"
    by (rule runs_inv [OF conjunct1 [OF job_runs [OF run_inv_start]] run_inv_start])
  then have "needs_before env (rs_ran s1)" using j by (simp add: run_inv_def)
  then show ?thesis using assms j
    by (simp add: RecordPlanTo_def recordPlanBody_def Let_def split: option.splits prod.splits)
qed

theorem needs_run_first_witness:
  "needs_before sample_env [''base'', ''web'']"
  using needs_run_first [of "''p''" "[''web'', ''base'']" None sample_env sample_session] sample_runs(2) by simp

end
