(* ===== verification/Packager.thy ===== *)
theory Packager
  imports Recording PlanCodec
begin

text \<open>
  Lowering drafts to plan ops (\<open>api/packager.go\<close>, \<open>blobName\<close> and below in \<open>api/plan.go\<close>): the handler
  of the draft's kind, privilege and sensitivity, and the packaging of file and directory sources inline
  or as blobs. The handlers, reading a source file, the blob store with \<open>BlobRefFor\<close>, the SHA-256
  fingerprint and the secret scan (\<open>markSensitive\<close>) are parameters, fields of one record.
\<close>

section \<open>Drafts and what lowers them\<close>

text \<open>
  The fields of a draft that packaging reads besides those of \<open>PlanDraft\<close>. The two sources are what the
  payload's marker interfaces \<open>SourceDirPayload\<close> and \<open>SourceFilePayload\<close> return, \<open>None\<close> for a payload
  that does not implement them.
\<close>

record 'p draft_fields =
  df_Path :: string
  df_Elevate :: bool
  df_Sensitive :: bool
  df_SourceDirGlob :: "(string \<times> string) option"
  df_SourceFilePath :: "string option"
  df_Payload :: 'p

type_synonym 'p draft = "'p draft_fields PlanDraft"

definition draft_field :: "('p draft_fields \<Rightarrow> 'a) \<Rightarrow> 'a \<Rightarrow> 'p draft \<Rightarrow> 'a" where
  "draft_field f zero d = (case pd_rest d of None \<Rightarrow> zero | Some m \<Rightarrow> f m)"

abbreviation draft_path :: "'p draft \<Rightarrow> string" where
  "draft_path \<equiv> draft_field df_Path []"

definition syncDirSource :: "'p draft \<Rightarrow> string \<times> string" where
  "syncDirSource d =
     (if pd_Kind d \<noteq> ''sync_dir'' then ([], [])
      else case draft_field df_SourceDirGlob None d of Some dg \<Rightarrow> dg | None \<Rightarrow> ([], []))"

definition sourceFilePath :: "'p draft \<Rightarrow> string" where
  "sourceFilePath d =
     (if pd_Kind d \<noteq> ''file'' \<and> pd_Kind d \<noteq> ''ensure_file'' then []
      else case draft_field df_SourceFilePath None d of Some p \<Rightarrow> p | None \<Rightarrow> [])"

text \<open>
  A blob store writes a file, or the tree or glob of a sync_dir with its exclusions, under a name and
  returns the blob's ref. The state \<open>'s\<close> is what it has stored.
\<close>

record ('x, 's) blob_store =
  bs_WriteFile :: "string \<Rightarrow> string \<Rightarrow> 's \<Rightarrow> ('x, string) result \<times> 's"
  bs_WriteSyncSource :: "string \<Rightarrow> string \<Rightarrow> string \<Rightarrow> string list \<Rightarrow> 's \<Rightarrow> ('x, string) result \<times> 's"

record ('p, 'x, 's) lowering =
  lo_HandlerFor :: "string \<Rightarrow> ('p draft \<Rightarrow> ('x, Op) result) option"
  lo_ReadFile :: "string \<Rightarrow> ('x, string) result"
  lo_store :: "('x, 's) blob_store option"
  lo_BlobRefFor :: "string \<Rightarrow> ('x, string) result"
  lo_shortHash :: "string \<Rightarrow> string"
  lo_markSensitive :: "string \<Rightarrow> string option \<Rightarrow> Op \<Rightarrow> ('x, Op) result"

datatype 'x package_error =
    UnknownDraftKind string string
  | DraftRejected string string 'x
  | UndeclaredKind string string kind
  | SourceUnreadable string 'x
  | NoBlobStore string
  | BlobRefRefused 'x
  | BlobRefCollision string string string
  | BlobWriteFailed 'x
  | SecretInIdentity 'x

section \<open>Blob names\<close>

definition blobBaseName :: "'p draft \<Rightarrow> string" where
  "blobBaseName d =
     (let base = path_base (draft_path d) in
      if base \<noteq> [] \<and> base \<noteq> ''.'' \<and> base \<noteq> [SLASH] then base
      else if pd_ID d \<noteq> [] then pd_ID d
      else if sourceFilePath d \<noteq> [] then path_base (sourceFilePath d)
      else if fst (syncDirSource d) \<noteq> [] then path_base (fst (syncDirSource d))
      else if snd (syncDirSource d) \<noteq> []
        then (let b = path_base (path_dir (snd (syncDirSource d))) in if b \<noteq> [] \<and> b \<noteq> ''.'' then b else ''glob'')
      else ''blob'')"

definition blobIdentityKey :: "'p draft \<Rightarrow> string" where
  "blobIdentityKey d =
     (if pd_ID d \<noteq> [] then pd_ID d
      else join [CHR 0x00] [draft_path d, sourceFilePath d, fst (syncDirSource d), snd (syncDirSource d)])"

definition blobName :: "(string \<Rightarrow> string) \<Rightarrow> 'p draft \<Rightarrow> string" where
  "blobName hash d = blobBaseName d @ ''-'' @ hash (blobIdentityKey d)"

section \<open>Packaging\<close>

text \<open>A pass carries the claimed blob refs, with the identity that claimed each, and the blob store.\<close>

type_synonym 's package_state = "(string \<times> string) list \<times> 's"

definition guardBlobRef ::
  "('p, 'x, 's) lowering \<Rightarrow> string \<Rightarrow> 'p draft \<Rightarrow> (string \<times> string) list
   \<Rightarrow> ('x package_error, (string \<times> string) list) result" where
  "guardBlobRef lo name d refs =
     bind_res (map_err BlobRefRefused (lo_BlobRefFor lo name)) (\<lambda>ref.
     case map_of refs ref of
       Some prior \<Rightarrow>
         if prior = blobIdentityKey d then Inr refs
         else Inl (BlobRefCollision ref prior (blobIdentityKey d))
     | None \<Rightarrow> Inr ((ref, blobIdentityKey d) # refs))"

text \<open>Claiming the ref, then the write itself; \<open>use\<close> puts the ref the store returned into the op.\<close>

definition write_blob ::
  "('p, 'x, 's) lowering \<Rightarrow> string \<Rightarrow> 'p draft \<Rightarrow> ('s \<Rightarrow> ('x, string) result \<times> 's) \<Rightarrow> (string \<Rightarrow> 'a)
   \<Rightarrow> 's package_state \<Rightarrow> ('x package_error, 'a) result \<times> 's package_state" where
  "write_blob lo name d wr use st =
     (case guardBlobRef lo name d (fst st) of
        Inl e \<Rightarrow> (Inl e, st)
      | Inr refs \<Rightarrow>
          (case wr (snd st) of
             (Inl e, s) \<Rightarrow> (Inl (BlobWriteFailed e), (refs, s))
           | (Inr ref, s) \<Rightarrow> (Inr (use ref), (refs, s))))"

definition MaxInlineContent :: nat where
  "MaxInlineContent = 512 * 1024"

text \<open>\<open>base64.StdEncoding\<close>.\<close>

definition base64_digit :: "nat \<Rightarrow> char" where
  "base64_digit n = ''ABCDEFGHIJKLMNOPQRSTUVWXYZabcdefghijklmnopqrstuvwxyz0123456789+/'' ! n"

fun base64 :: "string \<Rightarrow> string" where
  "base64 [] = []"
| "base64 [a] =
     (let x = of_char a :: nat in [base64_digit (x div 4), base64_digit (x mod 4 * 16), CHR ''='', CHR ''=''])"
| "base64 [a, b] =
     (let x = of_char a :: nat; y = of_char b :: nat in
      [base64_digit (x div 4), base64_digit (x mod 4 * 16 + y div 16), base64_digit (y mod 16 * 4), CHR ''=''])"
| "base64 (a # b # c # rest) =
     (let x = of_char a :: nat; y = of_char b :: nat; z = of_char c :: nat in
      [base64_digit (x div 4), base64_digit (x mod 4 * 16 + y div 16), base64_digit (y mod 16 * 4 + z div 64),
       base64_digit (z mod 64)] @ base64 rest)"

definition packageSourceFile ::
  "('p, 'x, 's) lowering \<Rightarrow> Op \<Rightarrow> 'p draft \<Rightarrow> string \<Rightarrow> 's package_state
   \<Rightarrow> ('x package_error, Op \<times> string option) result \<times> 's package_state" where
  "packageSourceFile lo op d name st =
     (case lo_ReadFile lo (sourceFilePath d) of
        Inl e \<Rightarrow> (Inl (SourceUnreadable (sourceFilePath d) e), st)
      | Inr data \<Rightarrow>
          if length data \<le> MaxInlineContent
          then (Inr ((SetFileContentB64 op (base64 data))\<lparr>op_blob := []\<rparr>, Some data), st)
          else case lo_store lo of
            None \<Rightarrow> (Inl (NoBlobStore (sourceFilePath d)), st)
          | Some bs \<Rightarrow>
              write_blob lo name d (bs_WriteFile bs name data)
                (\<lambda>ref. (SetFileContentB64 (op\<lparr>op_blob := ref\<rparr>) [], Some data)) st)"

definition packageBlob ::
  "('p, 'x, 's) lowering \<Rightarrow> Op \<Rightarrow> 'p draft \<Rightarrow> string \<Rightarrow> string \<Rightarrow> string \<Rightarrow> string \<Rightarrow> 's package_state
   \<Rightarrow> ('x package_error, Op \<times> string option) result \<times> 's package_state" where
  "packageBlob lo op d name src dir glob st =
     (case lo_store lo of
        None \<Rightarrow> (Inl (NoBlobStore src), st)
      | Some bs \<Rightarrow>
          write_blob lo name d (bs_WriteSyncSource bs name dir glob (sync_dir_exclude op))
            (\<lambda>ref. (op\<lparr>op_blob := ref\<rparr>, None)) st)"

definition draftToOp ::
  "('p, 'x, 's) lowering \<Rightarrow> bool \<Rightarrow> string \<Rightarrow> 'p draft \<Rightarrow> ('x package_error, Op) result" where
  "draftToOp lo elevate task d =
     (case lo_HandlerFor lo (pd_Kind d) of
        None \<Rightarrow> Inl (UnknownDraftKind (pd_ID d) (pd_Kind d))
      | Some to_op \<Rightarrow>
          bind_res (map_err (DraftRejected task (pd_ID d)) (to_op d)) (\<lambda>op.
          let op = op\<lparr>op_elevate := draft_field df_Elevate False d \<or> elevate,
                       op_sensitive := op_sensitive op \<or> draft_field df_Sensitive False d\<rparr> in
          if IsKnownKind (op_kind op) then Inr op
          else Inl (UndeclaredKind (pd_ID d) (pd_Kind d) (op_kind op))))"

definition packageContent ::
  "('p, 'x, 's) lowering \<Rightarrow> bool \<Rightarrow> string \<Rightarrow> 'p draft \<Rightarrow> 's package_state
   \<Rightarrow> ('x package_error, Op \<times> string option) result \<times> 's package_state" where
  "packageContent lo elevate task d st =
     (case draftToOp lo elevate task d of
        Inl e \<Rightarrow> (Inl e, st)
      | Inr op \<Rightarrow>
          (let name = blobName (lo_shortHash lo) d; dir = fst (syncDirSource d); glob = snd (syncDirSource d) in
           if sourceFilePath d \<noteq> [] then packageSourceFile lo op d name st
           else if glob \<noteq> [] then packageBlob lo op d name glob [] glob st
           else if dir \<noteq> [] then packageBlob lo op d name dir dir [] st
           else (Inr (op, None), st)))"

definition packageDraft ::
  "('p, 'x, 's) lowering \<Rightarrow> bool \<Rightarrow> string \<Rightarrow> 'p draft \<Rightarrow> 's package_state
   \<Rightarrow> ('x package_error, Op) result \<times> 's package_state" where
  "packageDraft lo elevate task d st =
     (case packageContent lo elevate task d st of
        (Inl e, st') \<Rightarrow> (Inl e, st')
      | (Inr (op, source), st') \<Rightarrow> (map_err SecretInIdentity (lo_markSensitive lo task source op), st'))"

text \<open>The ops of a list of drafts, outside a recording: no privilege is folded in and no task is named.\<close>

fun package_all ::
  "('p, 'x, 's) lowering \<Rightarrow> 'p draft list \<Rightarrow> 's package_state
   \<Rightarrow> ('x package_error, Op list) result \<times> 's package_state" where
  "package_all lo [] st = (Inr [], st)"
| "package_all lo (d # ds) st =
     (case packageDraft lo False [] d st of
        (Inl e, st') \<Rightarrow> (Inl e, st')
      | (Inr op, st') \<Rightarrow>
          (case package_all lo ds st' of
             (Inl e, st'') \<Rightarrow> (Inl e, st'')
           | (Inr ops, st'') \<Rightarrow> (Inr (op # ops), st'')))"

definition packageApplyOps ::
  "('p, 'x, 's) lowering \<Rightarrow> 'p draft list \<Rightarrow> 's \<Rightarrow> ('x package_error, Op list) result" where
  "packageApplyOps lo ds s =
     bind_res (fst (package_all lo ds ([], s))) (\<lambda>ops.
       Inr ((zero_op KindPlan)\<lparr>op_version := CurrentVersion, op_id := ''apply''\<rparr> # ops))"

section \<open>Lemmas\<close>

text \<open>
  What packaging relies on: a handler lowers a draft to a resource op that carries the draft's id and no
  blob; the secret scan changes nothing but the sensitivity; a store writes under the predicted ref.
\<close>

definition lowers_resources :: "('p, 'x, 's) lowering \<Rightarrow> bool" where
  "lowers_resources lo \<longleftrightarrow>
     (\<forall>k h d op. lo_HandlerFor lo k = Some h \<longrightarrow> h d = Inr op
        \<longrightarrow> \<not> IsControlKind (op_kind op) \<and> op_id op = pd_ID d \<and> op_blob op = [])
     \<and> (\<forall>t src op op'. lo_markSensitive lo t src op = Inr op' \<longrightarrow> (\<exists>b. op' = op\<lparr>op_sensitive := b\<rparr>))"

definition stores_as_predicted :: "('p, 'x, 's) lowering \<Rightarrow> bool" where
  "stores_as_predicted lo \<longleftrightarrow>
     (\<forall>bs name ref. lo_store lo = Some bs \<longrightarrow>
        (\<forall>data s s'. bs_WriteFile bs name data s = (Inr ref, s') \<longrightarrow> lo_BlobRefFor lo name = Inr ref)
        \<and> (\<forall>dir glob ex s s'. bs_WriteSyncSource bs name dir glob ex s = (Inr ref, s') \<longrightarrow> lo_BlobRefFor lo name = Inr ref))"

lemma SetFileContentB64_frame [simp]:
  "op_kind (SetFileContentB64 op b) = op_kind op" "op_id (SetFileContentB64 op b) = op_id op"
  "op_blob (SetFileContentB64 op b) = op_blob op" "op_elevate (SetFileContentB64 op b) = op_elevate op"
  by (simp_all add: SetFileContentB64_def split: option.split OpPayload.split)

lemma draftToOp_frame:
  assumes "draftToOp lo elevate task d = Inr op"
  obtains h op0 where "lo_HandlerFor lo (pd_Kind d) = Some h" "h d = Inr op0" "op_kind op = op_kind op0" "op_id op = op_id op0"
    "op_blob op = op_blob op0" "op_elevate op = (draft_field df_Elevate False d \<or> elevate)"
  using assms that by (auto simp: draftToOp_def Let_def res_simps split: option.splits if_splits)

text \<open>A write changes the op's blob only, to a ref that the draft's identity has claimed.\<close>

definition claimed :: "'p draft \<Rightarrow> (string \<times> string) list \<Rightarrow> string \<Rightarrow> bool" where
  "claimed d refs ref \<longleftrightarrow> map_of refs ref = Some (blobIdentityKey d)"

lemma guardBlobRef_claims:
  assumes "guardBlobRef lo name d refs = Inr refs'"
  shows "\<exists>ref. lo_BlobRefFor lo name = Inr ref \<and> claimed d refs' ref" "map_of refs \<subseteq>\<^sub>m map_of refs'"
  using assms by (auto simp: guardBlobRef_def claimed_def map_le_def res_simps split: option.splits if_splits)

lemma write_blob_claims:
  assumes "write_blob lo name d wr use st = (r, st')"
    and "\<And>ref s s'. wr s = (Inr ref, s') \<Longrightarrow> lo_BlobRefFor lo name = Inr ref"
  shows "map_of (fst st) \<subseteq>\<^sub>m map_of (fst st')"
    and "r = Inr x \<Longrightarrow> \<exists>ref. x = use ref \<and> claimed d (fst st') ref"
  using assms guardBlobRef_claims [of lo name d "fst st"]
  by (auto simp: write_blob_def split: sum.splits prod.splits)

definition packaged_as :: "'p draft \<Rightarrow> Op \<Rightarrow> (string \<times> string) list \<Rightarrow> Op \<Rightarrow> bool" where
  "packaged_as d op0 refs op \<longleftrightarrow>
     op_kind op = op_kind op0 \<and> op_id op = op_id op0 \<and> op_elevate op = op_elevate op0
     \<and> (op_blob op = [] \<or> claimed d refs (op_blob op))"

lemma packageSourceFile_claims:
  assumes "packageSourceFile lo op d name st = (r, st')" "stores_as_predicted lo"
  shows "map_of (fst st) \<subseteq>\<^sub>m map_of (fst st')" and "r = Inr (op', src) \<Longrightarrow> packaged_as d op (fst st') op'"
proof -
  have w: "map_of (fst st) \<subseteq>\<^sub>m map_of (fst st') \<and> (\<forall>x. r = Inr x \<longrightarrow> (\<exists>ref. x = use ref \<and> claimed d (fst st') ref))"
    if "lo_store lo = Some bs" "write_blob lo name d (bs_WriteFile bs name data) use st = (r, st')" for bs data use
    using write_blob_claims [OF that(2)] that(1) assms(2) unfolding stores_as_predicted_def by blast
  show "map_of (fst st) \<subseteq>\<^sub>m map_of (fst st')"
    using assms(1) w by (auto simp: packageSourceFile_def split: sum.splits if_splits option.splits)
  show "packaged_as d op (fst st') op'" if "r = Inr (op', src)"
    using assms(1) that w by (fastforce simp: packageSourceFile_def packaged_as_def split: sum.splits if_splits option.splits)
qed

lemma packageBlob_claims:
  assumes "packageBlob lo op d name src dir glob st = (r, st')" "stores_as_predicted lo"
  shows "map_of (fst st) \<subseteq>\<^sub>m map_of (fst st')" and "r = Inr (op', x) \<Longrightarrow> packaged_as d op (fst st') op'"
proof -
  have w: "map_of (fst st) \<subseteq>\<^sub>m map_of (fst st') \<and> (\<forall>x. r = Inr x \<longrightarrow> (\<exists>ref. x = use ref \<and> claimed d (fst st') ref))"
    if "lo_store lo = Some bs" "write_blob lo name d (bs_WriteSyncSource bs name dir glob ex) use st = (r, st')" for bs ex use
    using write_blob_claims [OF that(2)] that(1) assms(2) unfolding stores_as_predicted_def by blast
  show "map_of (fst st) \<subseteq>\<^sub>m map_of (fst st')"
    using assms(1) w by (auto simp: packageBlob_def split: option.splits)
  show "packaged_as d op (fst st') op'" if "r = Inr (op', x)"
    using assms(1) that w by (fastforce simp: packageBlob_def packaged_as_def split: option.splits)
qed

lemma packageContent_claims:
  assumes "packageContent lo elevate task d st = (r, st')" "lowers_resources lo" "stores_as_predicted lo"
  shows "map_of (fst st) \<subseteq>\<^sub>m map_of (fst st')"
    and "r = Inr (op', src) \<Longrightarrow> \<exists>op. draftToOp lo elevate task d = Inr op \<and> packaged_as d op (fst st') op'"
proof -
  show "map_of (fst st) \<subseteq>\<^sub>m map_of (fst st')"
    using assms(1) packageSourceFile_claims(1) [OF _ assms(3)] packageBlob_claims(1) [OF _ assms(3)]
    by (auto simp: packageContent_def Let_def split: sum.splits if_splits)
  assume r: "r = Inr (op', src)"
  with assms(1) obtain op where op: "draftToOp lo elevate task d = Inr op"
    by (auto simp: packageContent_def split: sum.splits)
  have "op_blob op = []" using assms(2) op unfolding lowers_resources_def by (metis draftToOp_frame)
  then have "packaged_as d op (fst st') op" by (simp add: packaged_as_def)
  then have "packaged_as d op (fst st') op'"
    using assms(1) r op packageSourceFile_claims(2) [OF _ assms(3)] packageBlob_claims(2) [OF _ assms(3)]
    by (auto simp: packageContent_def Let_def split: if_splits)
  with op show "\<exists>op. draftToOp lo elevate task d = Inr op \<and> packaged_as d op (fst st') op'" by blast
qed

text \<open>What one packaged draft promises.\<close>

lemma packageDraft_op:
  assumes "packageDraft lo elevate task d st = (Inr op, st')" "lowers_resources lo" "stores_as_predicted lo"
  shows "\<not> IsControlKind (op_kind op)" "op_id op = pd_ID d" "op_elevate op = (draft_field df_Elevate False d \<or> elevate)"
    "op_blob op = [] \<or> claimed d (fst st') (op_blob op)"
proof -
  obtain op1 src where c: "packageContent lo elevate task d st = (Inr (op1, src), st')"
    and m: "lo_markSensitive lo task src op1 = Inr op"
    using assms(1) by (auto simp: packageDraft_def res_simps split: prod.splits sum.splits)
  obtain op0 where op0: "draftToOp lo elevate task d = Inr op0" "packaged_as d op0 (fst st') op1"
    using packageContent_claims(2) [OF c assms(2,3) refl] by blast
  obtain b where b: "op = op1\<lparr>op_sensitive := b\<rparr>" using m assms(2) unfolding lowers_resources_def by blast
  obtain h opx where h: "lo_HandlerFor lo (pd_Kind d) = Some h" "h d = Inr opx" "op_kind op0 = op_kind opx"
    "op_id op0 = op_id opx" "op_elevate op0 = (draft_field df_Elevate False d \<or> elevate)"
    using draftToOp_frame [OF op0(1)] by metis
  have "\<not> IsControlKind (op_kind opx) \<and> op_id opx = pd_ID d" using h assms(2) unfolding lowers_resources_def by blast
  with h op0(2) b show "\<not> IsControlKind (op_kind op)" "op_id op = pd_ID d"
    "op_elevate op = (draft_field df_Elevate False d \<or> elevate)" "op_blob op = [] \<or> claimed d (fst st') (op_blob op)"
    by (simp_all add: packaged_as_def)
qed

lemma packageDraft_claims:
  assumes "packageDraft lo elevate task d st = (r, st')" "lowers_resources lo" "stores_as_predicted lo"
  shows "map_of (fst st) \<subseteq>\<^sub>m map_of (fst st')"
proof -
  obtain rc where "packageContent lo elevate task d st = (rc, st')"
    using assms(1) by (auto simp: packageDraft_def split: prod.splits sum.splits)
  then show ?thesis by (rule packageContent_claims(1) [OF _ assms(2,3)])
qed

lemma claimed_later: "claimed d refs ref \<Longrightarrow> map_of refs \<subseteq>\<^sub>m map_of refs' \<Longrightarrow> claimed d refs' ref"
  by (force simp: claimed_def map_le_def dom_def)

lemma package_all_ops:
  assumes "package_all lo ds st = (Inr ops, st')" "lowers_resources lo" "stores_as_predicted lo"
  shows "map_of (fst st) \<subseteq>\<^sub>m map_of (fst st')" and "map op_id ops = map pd_ID ds"
    and "\<forall>op \<in> set ops. \<not> IsControlKind (op_kind op)"
    and "list_all2 (\<lambda>d op. op_elevate op = draft_field df_Elevate False d \<and> (op_blob op = [] \<or> claimed d (fst st') (op_blob op))) ds ops"
proof -
  have "map_of (fst st) \<subseteq>\<^sub>m map_of (fst st') \<and> map op_id ops = map pd_ID ds
    \<and> (\<forall>op \<in> set ops. \<not> IsControlKind (op_kind op))
    \<and> list_all2 (\<lambda>d op. op_elevate op = draft_field df_Elevate False d
        \<and> (op_blob op = [] \<or> claimed d (fst st') (op_blob op))) ds ops"
    using assms(1)
  proof (induction ds arbitrary: st ops)
    case (Cons d ds)
    then obtain op st1 ops1 where p: "packageDraft lo False [] d st = (Inr op, st1)"
      and r: "package_all lo ds st1 = (Inr ops1, st')" and ops: "ops = op # ops1"
      by (auto split: prod.splits sum.splits)
    note o = packageDraft_op [OF p assms(2,3)] and IH = Cons.IH [OF r]
    have "map_of (fst st) \<subseteq>\<^sub>m map_of (fst st')"
      using packageDraft_claims [OF p assms(2,3)] IH map_le_trans by blast
    moreover have "op_blob op = [] \<or> claimed d (fst st') (op_blob op)" using o(4) IH claimed_later by blast
    ultimately show ?case using o IH ops by simp
  qed simp
  then show "map_of (fst st) \<subseteq>\<^sub>m map_of (fst st')" "map op_id ops = map pd_ID ds"
    "\<forall>op \<in> set ops. \<not> IsControlKind (op_kind op)"
    "list_all2 (\<lambda>d op. op_elevate op = draft_field df_Elevate False d \<and> (op_blob op = [] \<or> claimed d (fst st') (op_blob op))) ds ops"
    by blast+
qed

text \<open>The packager of a recording: what \<open>Recording\<close> asks of its parameter holds for it.\<close>

lemma packageDraft_packs_resources:
  assumes "lowers_resources lo" "stores_as_predicted lo" "re_package env = packageDraft lo"
  shows "\<forall>e t d b op b'. re_package env e t d b = (Inr op, b') \<longrightarrow> op_kind op \<noteq> KindWhenBegin \<and> op_kind op \<noteq> KindWhenEnd"
proof (intro allI impI)
  fix e t d b op b' assume "re_package env e t d b = (Inr op, b')"
  then have "\<not> IsControlKind (op_kind op)" using packageDraft_op(1) [OF _ assms(1,2)] assms(3) by metis
  then show "op_kind op \<noteq> KindWhenBegin \<and> op_kind op \<noteq> KindWhenEnd" by auto
qed

section \<open>Properties\<close>

text \<open>
  C10: two different resources never share a blob. Whatever the fingerprint does (it may collide), when
  the drafts of one pass are packaged, two ops that refer to the same blob come from drafts of the same
  identity; otherwise the pass is refused before the second write.
\<close>

theorem blob_refs_apart:
  assumes "lowers_resources lo" "stores_as_predicted lo" "package_all lo ds st = (Inr ops, st')"
    and "i < length ops" "j < length ops" "op_blob (ops ! i) = op_blob (ops ! j)" "op_blob (ops ! i) \<noteq> []"
  shows "blobIdentityKey (ds ! i) = blobIdentityKey (ds ! j)"
proof -
  note facts = package_all_ops(4) [OF assms(3,1,2)]
  from facts have "length ds = length ops" by (rule list_all2_lengthD)
  with facts assms(4-7) have "claimed (ds ! i) (fst st') (op_blob (ops ! i))" "claimed (ds ! j) (fst st') (op_blob (ops ! i))"
    by (auto simp: list_all2_conv_all_nth)
  then show ?thesis by (simp add: claimed_def)
qed

text \<open>
  A lowering for the witnesses. Its fingerprint is the same for every key, so names of equal base
  collide.
\<close>

definition sample_lowering :: "(unit, string, string list) lowering" where
  "sample_lowering =
     \<lparr>lo_HandlerFor = (\<lambda>k. if k = ''sync_dir'' then Some (\<lambda>d. Inr (resource_op KindSyncDir (pd_ID d)))
        else if k = ''file'' then Some (\<lambda>d. Inr (resource_op KindFile (pd_ID d))) else None),
      lo_ReadFile = (\<lambda>p. Inr ''content''),
      lo_store = Some \<lparr>bs_WriteFile = (\<lambda>name data s. (Inr (''blobs/'' @ name), name # s)),
                       bs_WriteSyncSource = (\<lambda>name dir glob ex s. (Inr (''blobs/'' @ name), name # s))\<rparr>,
      lo_BlobRefFor = (\<lambda>name. Inr (''blobs/'' @ name)), lo_shortHash = (\<lambda>k. ''00''),
      lo_markSensitive = (\<lambda>t src op. Inr op)\<rparr>"

definition tree_draft :: "string \<Rightarrow> string \<Rightarrow> unit draft" where
  "tree_draft i path =
     \<lparr>pd_Kind = ''sync_dir'', pd_ID = i, pd_User = False, pd_IfChanged = False, pd_Watch = [], pd_Deps = [],
      pd_rest = Some \<lparr>df_Path = path, df_Elevate = False, df_Sensitive = False,
        df_SourceDirGlob = Some (''src'', []), df_SourceFilePath = None, df_Payload = ()\<rparr>\<rparr>"

lemma same_sensitivity: "\<exists>b. op = (op :: Op)\<lparr>op_sensitive := b\<rparr>"
  by (rule exI [of _ "op_sensitive op"]) simp

lemma sample_lowering_ok: "lowers_resources sample_lowering" "stores_as_predicted sample_lowering"
  by (auto simp: lowers_resources_def stores_as_predicted_def sample_lowering_def resource_op_def zero_op_def
      same_sensitivity split: if_splits)

text \<open>The guard at work: two trees whose names collide are refused, one declared twice is not.\<close>

lemma colliding_trees_refused:
  "fst (package_all sample_lowering [tree_draft ''a'' ''/x/conf.d'', tree_draft ''b'' ''/y/conf.d''] ([], []))
     = Inl (BlobRefCollision ''blobs/conf.d-00'' ''a'' ''b'')"
  by code_simp

theorem blob_refs_apart_witness:
  "\<exists>ops st'. package_all sample_lowering [tree_draft ''a'' ''/x/conf.d'', tree_draft ''a'' ''/y/conf.d''] ([], []) = (Inr ops, st')
     \<and> op_blob (ops ! 0) = op_blob (ops ! 1) \<and> op_blob (ops ! 0) \<noteq> []
     \<and> blobIdentityKey (tree_draft ''a'' ''/x/conf.d'') = blobIdentityKey (tree_draft ''a'' ''/y/conf.d'')"
proof -
  let ?ds = "[tree_draft ''a'' ''/x/conf.d'', tree_draft ''a'' ''/y/conf.d'']"
  let ?op = "(resource_op KindSyncDir ''a'')\<lparr>op_blob := ''blobs/conf.d-00''\<rparr>"
  have r: "package_all sample_lowering ?ds ([], []) = (Inr [?op, ?op], ([(''blobs/conf.d-00'', ''a'')], [''conf.d-00'', ''conf.d-00'']))"
    by code_simp
  have b: "op_blob ?op = ''blobs/conf.d-00''" by simp
  have "blobIdentityKey (?ds ! 0) = blobIdentityKey (?ds ! 1)"
    by (rule blob_refs_apart [OF sample_lowering_ok r]) simp_all
  with r b show ?thesis by auto
qed

end
