(* ===== verification/ApiApply.thy ===== *)
theory ApiApply
  imports Packager ApplyChunks
begin

text \<open>
  \<open>api.Apply\<close> (\<open>api/resource.go\<close>): the registered resources of a process, lowered, ordered, cut and
  applied, and what an earlier recording or declaration error does to it. The runners of \<open>ApplyChunks\<close>
  and the lowering of \<open>Packager\<close> are parameters; the temporary plan directory always exists.
\<close>

section \<open>Apply\<close>

datatype ('x, 'y, 'e) apply_error =
    RecordingActive
  | Declared "'x record_error"
  | EarlierRecordFailed "'x record_error"
  | WithoutPlanDrafts "string list"
  | OrphanDrafts "string list"
  | PackagingFailed "'y package_error"
  | ApplyFailed "'e chunks_error"

definition requireDraftsForAll :: "'p draft list \<Rightarrow> string list \<Rightarrow> ('x, 'y, 'e) apply_error check" where
  "requireDraftsForAll drafts registered =
     (let draftIDs = map pd_ID drafts;
          missing = filter (\<lambda>i. i \<notin> set draftIDs) registered;
          orphans = sort (remdups (filter (\<lambda>i. i \<notin> set registered) draftIDs))
      in if missing \<noteq> [] then Inl (WithoutPlanDrafts missing)
         else if orphans \<noteq> [] then Inl (OrphanDrafts orphans)
         else Inr ())"

text \<open>\<open>declared\<close> is \<open>declerr.First\<close>; \<open>store0\<close> is the store over the fresh temporary directory.\<close>

definition apply_registered ::
  "('p, 'y, 's) lowering \<Rightarrow> 's \<Rightarrow> process \<Rightarrow> ('h, 'e) runner \<Rightarrow> ('h, 'e) runner \<Rightarrow> 'x record_error option
   \<Rightarrow> ('v, 'p draft_fields, 'x, 'b) rec_state \<Rightarrow> 'h \<Rightarrow> ('x, 'y, 'e) apply_error option \<times> 'h" where
  "apply_registered lo store0 p inproc elevated declared s h =
     (if pr_recording (rs_plan s) then (Some RecordingActive, h)
      else case declared of
        Some e \<Rightarrow> (Some (Declared e), h)
      | None \<Rightarrow>
          (case rs_lastRecordFailure s of
             Some e \<Rightarrow> (Some (EarlierRecordFailed e), h)
           | None \<Rightarrow>
               (let drafts = draftsSnapshot (rs_repo s); registered = registeredIDs (rs_repo s) in
                if registered = [] then (None, h)
                else case requireDraftsForAll drafts registered of
                  Inl e \<Rightarrow> (Some e, h)
                | Inr _ \<Rightarrow>
                    (case packageApplyOps lo drafts store0 of
                       Inl e \<Rightarrow> (Some (PackagingFailed e), h)
                     | Inr ops \<Rightarrow>
                         (case applyPackagedOps p inproc elevated ops h of
                            (e, h') \<Rightarrow> (map_option ApplyFailed e, h'))))))"

section \<open>The life of a process\<close>

text \<open>
  A process registers resources at the top level, records plans, applies what is registered and may
  clear the sticky declaration error (\<open>resource.ResetDeclarationError\<close>).
\<close>

record ('v, 'p, 'x, 'b, 'h) gonf_process =
  gp_session :: "('v, 'p draft_fields, 'x, 'b) rec_state"
  gp_declared :: "'x record_error option"
  gp_host :: 'h

datatype ('v, 'p) event =
    EvRegister "'v Resource" "'p draft option"
  | EvRecord string "string list"
  | EvApply
  | EvResetDeclarationError

definition register_event ::
  "'v Resource \<Rightarrow> 'p draft option \<Rightarrow> ('v, 'p, 'x, 'b, 'h) gonf_process \<Rightarrow> ('v, 'p, 'x, 'b, 'h) gonf_process" where
  "register_event res d g =
     (case register res (rs_repo (gp_session g)) of
        Inl c \<Rightarrow> g\<lparr>gp_declared := first_of (gp_declared g) (Collided c)\<rparr>
      | Inr r \<Rightarrow>
          g\<lparr>gp_session := (gp_session g)\<lparr>rs_repo := (case d of None \<Rightarrow> r | Some dr \<Rightarrow> recordDraft dr r)\<rparr>\<rparr>)"

fun process_step ::
  "('v, 'p draft_fields, 'x, 'b) rec_env \<Rightarrow> ('p, 'y, 's) lowering \<Rightarrow> 's \<Rightarrow> process \<Rightarrow> ('h, 'e) runner \<Rightarrow> ('h, 'e) runner
   \<Rightarrow> ('v, 'p) event \<Rightarrow> ('v, 'p, 'x, 'b, 'h) gonf_process \<Rightarrow> ('v, 'p, 'x, 'b, 'h) gonf_process" where
  "process_step env lo store0 p inproc elevated (EvRegister res d) g = register_event res d g"
| "process_step env lo store0 p inproc elevated (EvRecord planID names) g =
     g\<lparr>gp_session := snd (RecordPlanTo env (gp_declared g) planID names (gp_session g))\<rparr>"
| "process_step env lo store0 p inproc elevated EvApply g =
     g\<lparr>gp_host := snd (apply_registered lo store0 p inproc elevated (gp_declared g) (gp_session g) (gp_host g))\<rparr>"
| "process_step env lo store0 p inproc elevated EvResetDeclarationError g = g\<lparr>gp_declared := None\<rparr>"

definition process_run where
  "process_run env lo store0 p inproc elevated evs g = fold (process_step env lo store0 p inproc elevated) evs g"

text \<open>No event of a run is a recording that succeeds.\<close>

fun no_clean_record where
  "no_clean_record env lo store0 p inproc elevated [] g = True"
| "no_clean_record env lo store0 p inproc elevated (ev # evs) g =
     ((case ev of
         EvRecord planID names \<Rightarrow> \<not> is_ok (fst (RecordPlanTo env (gp_declared g) planID names (gp_session g)))
       | _ \<Rightarrow> True)
      \<and> no_clean_record env lo store0 p inproc elevated evs (process_step env lo store0 p inproc elevated ev g))"

section \<open>Lemmas\<close>

lemma failed_record_is_noted:
  assumes "RecordPlanTo env None planID names s = (Inl e, s')" "planID \<noteq> []" "names \<noteq> []"
  shows "rs_lastRecordFailure s' = Some e"
  using assms by (auto simp: RecordPlanTo_def split: prod.splits)

lemma failure_stays:
  assumes "\<not> is_ok (fst (RecordPlanTo env declared planID names s))" "rs_lastRecordFailure s \<noteq> None"
  shows "rs_lastRecordFailure (snd (RecordPlanTo env declared planID names s)) \<noteq> None"
  using assms by (auto simp: RecordPlanTo_def is_ok_def split: option.splits prod.splits sum.splits if_splits)

lemma failure_blocks:
  "rs_lastRecordFailure s \<noteq> None \<Longrightarrow> snd (apply_registered lo store0 p inproc elevated declared s h) = h"
  by (auto simp: apply_registered_def split: option.split)

lemma failure_blocks_run:
  assumes "rs_lastRecordFailure (gp_session g) \<noteq> None" "no_clean_record env lo store0 p inproc elevated evs g"
  shows "gp_host (process_run env lo store0 p inproc elevated evs g) = gp_host g"
  using assms
proof (induction evs arbitrary: g)
  case (Cons ev evs)
  let ?g = "process_step env lo store0 p inproc elevated ev g"
  have "rs_lastRecordFailure (gp_session ?g) \<noteq> None \<and> gp_host ?g = gp_host g"
    using Cons.prems
    by (cases ev) (auto simp: register_event_def failure_blocks dest: failure_stays split: sum.split)
  with Cons.prems Cons.IH [of ?g] show ?case by (simp add: process_run_def)
qed (simp add: process_run_def)

text \<open>Under a well-formed repository the drafts that pass the check are those of the registered ids, in order.\<close>

lemma draft_ids:
  assumes "repo_wf r"
  shows "map pd_ID (draftsSnapshot r) = sort (map fst (rp_drafts r))"
proof -
  have "pd_ID (the (map_of (rp_drafts r) i)) = i" if "i \<in> set (map fst (rp_drafts r))" for i
  proof -
    from that obtain d where d: "map_of (rp_drafts r) i = Some d" by (metis in_set_zipE map_of_eq_None_iff not_None_eq set_map)
    then have "(i, d) \<in> set (rp_drafts r)" by (rule map_of_SomeD)
    with assms d show ?thesis by (auto simp: repo_wf_def)
  qed
  then have "map (\<lambda>i. pd_ID (the (map_of (rp_drafts r) i))) (sort (map fst (rp_drafts r))) = sort (map fst (rp_drafts r))"
    by (intro map_idI) simp
  then show ?thesis by (simp add: draftsSnapshot_def comp_def)
qed

lemma require_ok: "requireDraftsForAll ds registered = Inr u \<Longrightarrow> set registered \<subseteq> set (map pd_ID ds)"
  by (auto simp: requireDraftsForAll_def Let_def filter_empty_conv split: if_splits)

lemma drafts_cover:
  assumes "repo_wf r" "set (registeredIDs r) \<subseteq> set (map pd_ID (draftsSnapshot r))"
  shows "map pd_ID (draftsSnapshot r) = registeredIDs r"
proof -
  have "set (map fst (rp_drafts r)) = set (map fst (rp_registered r))"
    using assms by (auto simp: draft_ids registeredIDs_def repo_wf_def)
  then show ?thesis unfolding draft_ids [OF assms(1)] registeredIDs_def
    using assms(1) by (intro sorted_distinct_set_unique) (simp_all add: repo_wf_def)
qed

text \<open>A runner that keeps a log of the resource ops it applied.\<close>

definition logs :: "('h \<Rightarrow> string list) \<Rightarrow> ('h, 'e) runner \<Rightarrow> bool" where
  "logs log run \<longleftrightarrow> (\<forall>ops h h'. run ops h = (None, h') \<longrightarrow> log h' = log h @ map op_id (filter is_resource ops))"

lemma apply_from_logs:
  assumes "logs log inproc" "logs log elevated" "apply_from p inproc elevated label i chunks h = (None, h')"
  shows "log h' = log h @ map op_id (filter is_resource (concat (map ch_ops chunks)))"
  using assms(3)
proof (induction chunks arbitrary: i h)
  case (Cons ch chs)
  let ?run = "if \<not> ch_elevate ch \<or> (pr_mode p = ModeNone \<and> pr_euid p = 0) then inproc (ch_ops ch) h
    else elevated (ch_ops ch) h"
  from Cons.prems obtain h1 where r: "?run = (None, h1)" and rest: "apply_from p inproc elevated label (Suc i) chs h1 = (None, h')"
    by (auto split: prod.splits option.splits if_splits)
  have "log h1 = log h @ map op_id (filter is_resource (ch_ops ch))"
    using r assms(1,2) unfolding logs_def by (auto split: if_splits)
  with Cons.IH [OF rest] show ?case by simp
qed simp

lemma flat_split_resources:
  assumes "op_kind header = KindPlan" "\<forall>op \<in> set body. is_resource op" "body \<noteq> []"
  shows "filter is_resource (concat (map ch_ops (SplitPrivilegeChunks (header # body)))) = body"
proof -
  have "\<forall>op \<in> set body. op_kind op \<noteq> KindWhenBegin" using assms(2) by auto
  note chunks = split_chunks_flat [OF assms(1,3) this]
  have header: "\<not> is_resource (chunk_header header)" using assms(1) by (simp add: chunk_header_def)
  have "filter is_resource (concat (map ((#) (chunk_header header)) parts)) = filter is_resource (concat parts)" for parts
    using header by (induction parts) simp_all
  then have "filter is_resource (concat (map ch_ops (SplitPrivilegeChunks (header # body)))) = filter is_resource body"
    unfolding chunks by (simp only: body_runs_concat)
  with assms(2) show ?thesis by simp
qed

lemma applyPackagedOps_logs:
  assumes "logs log inproc" "logs log elevated" "op_kind header = KindPlan" "body \<noteq> []" "\<forall>op \<in> set body. is_resource op"
    and "applyPackagedOps p inproc elevated (header # body) h = (None, h')"
  shows "mset (log h') = mset (log h) + mset (map op_id body)"
proof (cases "anyElevated (header # body)")
  case False
  with assms(6) obtain e where e: "inproc (header # body) h = (None, h')"
    by (auto simp: applyPackagedOps_def split: sum.splits prod.splits)
  then have "log h' = log h @ map op_id (filter is_resource (header # body))" using assms(1) by (simp add: logs_def)
  with assms(3,5) show ?thesis by simp
next
  case True
  let ?ops = "header # body"
  have len: "2 \<le> length ?ops" using assms(4) by (cases body) simp_all
  from True assms(6) obtain out conflicts where o: "orderForPrivilegeSplit ?ops = Inr (out, conflicts)"
    and run: "applySplitChunks p inproc elevated resourceChunkLabel (SplitPrivilegeChunks out) h = (None, h')"
    by (auto simp: applyPackagedOps_def applyElevatedOps_def Let_def split: sum.splits prod.splits)
  have "acyclic {(at, i). depends_on (tl ?ops) i at}" using order_cyclic [OF len] o by auto
  from order_acyclic [OF len this] obtain order c where
    "orderForPrivilegeSplit ?ops = Inr (hd ?ops # map (\<lambda>i. tl ?ops ! i) order, c)" "distinct order"
    "set order = {..<length (tl ?ops)}"
    by (elim exE conjE) (rule that)
  note this [unfolded list.sel o sum.inject prod.inject]
  then have order: "out = header # map (\<lambda>i. body ! i) order" "distinct order" "set order = {..<length body}"
    by blast+
  have "0 \<in> set order" unfolding order(3) using assms(4) by simp
  then have "map (\<lambda>i. body ! i) order \<noteq> []" by (cases order) simp_all
  moreover have "\<forall>op \<in> set (map (\<lambda>i. body ! i) order). is_resource op" using order(3) assms(5) by auto
  ultimately have "filter is_resource (concat (map ch_ops (SplitPrivilegeChunks out))) = map (\<lambda>i. body ! i) order"
    unfolding order(1) by (intro flat_split_resources [OF assms(3)])
  with apply_from_logs [OF assms(1,2) run [unfolded applySplitChunks_def]]
  have "log h' = log h @ map op_id (map (\<lambda>i. body ! i) order)" by (simp only:)
  moreover have "mset (map (\<lambda>i. body ! i) order) = mset body"
  proof -
    have "mset order = mset [0..<length body]"
      using order(2,3) by (intro set_eq_iff_mset_eq_distinct [THEN iffD1]) (auto simp: atLeast0LessThan)
    then have "mset (map (\<lambda>i. body ! i) order) = mset (map (\<lambda>i. body ! i) [0..<length body])" by simp
    also have "\<dots> = mset body" by (simp add: map_nth)
    finally show ?thesis .
  qed
  ultimately show ?thesis by (metis mset_append mset_map)
qed

section \<open>Properties\<close>

text \<open>
  C8: a successful Apply applies every registered resource exactly once. Whatever privilege chunks the
  resources are cut into and in whatever order, the log of the runners grows by the registered ids, each
  once, and by nothing else.
\<close>

theorem apply_exactly_once:
  assumes "lowers_resources lo" "stores_as_predicted lo" "logs log inproc" "logs log elevated" "repo_wf (rs_repo s)"
    and "apply_registered lo store0 p inproc elevated declared s h = (None, h')"
  shows "mset (log h') = mset (log h) + mset (registeredIDs (rs_repo s)) \<and> distinct (registeredIDs (rs_repo s))"
proof (cases "registeredIDs (rs_repo s) = []")
  case True
  with assms(6) show ?thesis by (auto simp: apply_registered_def Let_def split: if_splits option.splits)
next
  case False
  with assms(6) obtain ops where
    req: "set (registeredIDs (rs_repo s)) \<subseteq> set (map pd_ID (draftsSnapshot (rs_repo s)))"
    and pack: "packageApplyOps lo (draftsSnapshot (rs_repo s)) store0 = Inr ops"
    and run: "applyPackagedOps p inproc elevated ops h = (None, h')"
    by (auto simp: apply_registered_def Let_def split: if_splits option.splits sum.splits prod.splits dest: require_ok)
  from pack obtain body st' where body: "package_all lo (draftsSnapshot (rs_repo s)) ([], store0) = (Inr body, st')"
    and ops: "ops = (zero_op KindPlan)\<lparr>op_version := CurrentVersion, op_id := ''apply''\<rparr> # body"
    by (auto simp: packageApplyOps_def res_simps prod_eq_iff)
  note b = package_all_ops [OF body assms(1,2)]
  have ids: "map op_id body = registeredIDs (rs_repo s)" using b(2) drafts_cover [OF assms(5) req] by simp
  then have "body \<noteq> []" using False by auto
  from applyPackagedOps_logs [OF assms(3,4) _ this b(3) run [unfolded ops]] ids
  have "mset (log h') = mset (log h) + mset (registeredIDs (rs_repo s))" by (simp add: zero_op_def)
  moreover have "distinct (registeredIDs (rs_repo s))" using assms(5) by (simp add: registeredIDs_def repo_wf_def)
  ultimately show ?thesis by blast
qed


section \<open>Witnesses\<close>

definition logging :: "(string list, unit) runner" where
  "logging ops h = (None, h @ map op_id (filter is_resource ops))"

lemma logging_logs: "logs (\<lambda>h. h) logging"
  by (simp add: logs_def logging_def)

definition elevated_draft :: "string \<Rightarrow> bool \<Rightarrow> unit draft" where
  "elevated_draft i e =
     \<lparr>pd_Kind = ''file'', pd_ID = i, pd_User = False, pd_IfChanged = False, pd_Watch = [], pd_Deps = [],
      pd_rest = Some \<lparr>df_Path = [], df_Elevate = e, df_Sensitive = False, df_SourceDirGlob = None,
        df_SourceFilePath = None, df_Payload = ()\<rparr>\<rparr>"

definition three_files :: "(nat, unit draft_fields) repository" where
  "three_files =
     \<lparr>rp_registered = map (\<lambda>n. (''File['' @ n @ '']'', new_resource ''File'' n None [])) [''c'', ''a'', ''b''],
      rp_drafts = map (\<lambda>(n, e). (''File['' @ n @ '']'', elevated_draft (''File['' @ n @ '']'') e))
        [(''c'', True), (''a'', True), (''b'', False)],
      rp_declaredUnder = map (\<lambda>n. (''File['' @ n @ '']'', [])) [''c'', ''a'', ''b''], rp_whenStack = []\<rparr>"

definition idle_session :: "(nat, unit draft_fields) repository \<Rightarrow> (nat, unit draft_fields, nat, unit) rec_state" where
  "idle_session r =
     \<lparr>rs_elevate = False, rs_draftIDs = [], rs_cycleErr = None, rs_packErr = None, rs_bodyErr = None, rs_opaqueOnly = [],
      rs_aggregateSeen = None, rs_needs = None, rs_plan = \<lparr>pr_recording = False, pr_recorded = []\<rparr>,
      rs_repo = r, rs_blobs = (), rs_ran = [], rs_lastRecordFailure = None\<rparr>"

definition sudo_process :: process where
  "sudo_process = \<lparr>pr_euid = 1000, pr_cli = True, pr_mode = Sudo\<rparr>"

lemma three_files_wf: "repo_wf three_files"
  by code_simp

lemma three_files_applied:
  "apply_registered sample_lowering [] sudo_process logging logging None (idle_session three_files) []
     = (None :: (nat, string, unit) apply_error option, [''File[a]'', ''File[c]'', ''File[b]''])"
  by code_simp

theorem apply_exactly_once_witness:
  "mset [''File[a]'', ''File[c]'', ''File[b]''] = mset [] + mset (registeredIDs three_files) \<and> distinct (registeredIDs three_files)"
  using apply_exactly_once [OF sample_lowering_ok logging_logs logging_logs _ three_files_applied]
  by (simp add: idle_session_def three_files_wf)

definition no_task_env :: "(nat, unit draft_fields, nat, unit) rec_env" where
  "no_task_env =
     \<lparr>re_reg = \<lparr>rg_candidates = [], rg_methodTasks = []\<rparr>, re_facts = \<lparr>fa_goos = [], fa_profile = [], fa_hostname = []\<rparr>,
      re_tasks = [], re_matching = (\<lambda>p. []), re_skip = (\<lambda>n. False), re_package = (\<lambda>e t d b. (Inl 0, b))\<rparr>"


end
