(* ===== verification/CronFields.thy ===== *)
theory CronFields
  imports GoStrings
begin

text \<open>
  Crontab entries and their schedule fields (\<open>resource/cron/crontab_fields.go\<close>): splitting an entry at
  blanks, and checking each field against its range and names. An index into a line is the rest of the
  line from there; a \<open>[5]string\<close> is a list of five strings.
\<close>

section \<open>Field values\<close>

record cronRange =
  cr_min :: nat
  cr_max :: nat
  cr_names :: "(string \<times> nat) list"

definition cronFieldRange :: "string \<Rightarrow> cronRange" where
  "cronFieldRange label =
     (if label = ''minute'' then \<lparr>cr_min = 0, cr_max = 59, cr_names = []\<rparr>
      else if label = ''hour'' then \<lparr>cr_min = 0, cr_max = 23, cr_names = []\<rparr>
      else if label = ''monthday'' then \<lparr>cr_min = 1, cr_max = 31, cr_names = []\<rparr>
      else if label = ''month'' then
        \<lparr>cr_min = 1, cr_max = 12, cr_names =
           [(''jan'', 1), (''feb'', 2), (''mar'', 3), (''apr'', 4), (''may'', 5), (''jun'', 6),
            (''jul'', 7), (''aug'', 8), (''sep'', 9), (''oct'', 10), (''nov'', 11), (''dec'', 12)]\<rparr>
      else if label = ''weekday'' then
        \<lparr>cr_min = 0, cr_max = 7, cr_names =
           [(''sun'', 0), (''mon'', 1), (''tue'', 2), (''wed'', 3), (''thu'', 4), (''fri'', 5), (''sat'', 6)]\<rparr>
      else \<lparr>cr_min = 0, cr_max = 0, cr_names = []\<rparr>)"

definition cronFieldLabels :: "string list" where
  "cronFieldLabels = [''minute'', ''hour'', ''monthday'', ''month'', ''weekday'']"

definition cronFieldRangeByIndex :: "nat \<Rightarrow> cronRange" where
  "cronFieldRangeByIndex i = cronFieldRange (cronFieldLabels ! i)"

text \<open>
  \<open>strings.ToLower\<close> as far as a comparison with ASCII text sees it: besides the ASCII capitals, two code
  points become ASCII letters, U+0130 (\<open>i\<close>) and U+212A (\<open>k\<close>); every other non-ASCII byte stays one.
\<close>

fun ToLower :: "string \<Rightarrow> string" where
  "ToLower [] = []"
| "ToLower (c # s) =
     (if c = CHR 0xC4 \<and> has_prefix s [CHR 0xB0] then CHR ''i'' # ToLower (drop 1 s)
      else if c = CHR 0xE2 \<and> has_prefix s [CHR 0x84, CHR 0xAA] then CHR ''k'' # ToLower (drop 2 s)
      else lower_byte c # ToLower s)"

definition cronFieldValue :: "string \<Rightarrow> cronRange \<Rightarrow> nat option" where
  "cronFieldValue value r =
     (case map_of (cr_names r) (ToLower value) of
        Some named \<Rightarrow> Some named
      | None \<Rightarrow>
          (if \<not> list_all is_digit value then None
           else case atoi_digits value of
             None \<Rightarrow> None
           | Some number \<Rightarrow> if number < cr_min r \<or> number > cr_max r then None else Some number))"

definition validPositiveDecimal :: "string \<Rightarrow> bool" where
  "validPositiveDecimal value \<longleftrightarrow>
     value \<noteq> [] \<and> list_all is_digit value \<and> (case atoi_digits value of None \<Rightarrow> False | Some n \<Rightarrow> n > 0)"

definition validCronItem :: "string \<Rightarrow> cronRange \<Rightarrow> bool" where
  "validCronItem item r =
     (let parts = split_on SLASH item; base = hd parts in
      if length parts > 2 \<or> base = [] then False
      else if length parts = 2 \<and> \<not> validPositiveDecimal (parts ! 1) then False
      else if base = ''*'' then True
      else
        (let rangeParts = split_on (CHR ''-'') base in
         if length rangeParts > 2 \<or> hd rangeParts = [] then False
         else case cronFieldValue (hd rangeParts) r of
           None \<Rightarrow> False
         | Some start \<Rightarrow>
             if length rangeParts = 1 then length parts = 1
             else (case cronFieldValue (rangeParts ! 1) r of None \<Rightarrow> False | Some e \<Rightarrow> start \<le> e)))"

definition validCronField :: "string \<Rightarrow> cronRange \<Rightarrow> bool" where
  "validCronField value r \<longleftrightarrow>
     value \<noteq> [] \<and> \<not> contains_any value [SP, TAB, NL, CR]
     \<and> list_all (\<lambda>item. validCronItem item r) (split_on (CHR '','') value)"

text \<open>The checks of the five fields in crontab order.\<close>

definition valid_fields :: "string list \<Rightarrow> bool" where
  "valid_fields fs \<longleftrightarrow>
     length fs = 5 \<and> list_all (\<lambda>i. validCronField (fs ! i) (cronFieldRangeByIndex i)) [0..<5]"

section \<open>Entries and schedules\<close>

definition isCrontabBlank :: "char \<Rightarrow> bool" where
  "isCrontabBlank b \<longleftrightarrow> b = SP \<or> b = TAB"

definition skipCrontabBlanks :: "string \<Rightarrow> string" where
  "skipCrontabBlanks line = dropWhile isCrontabBlank line"

text \<open>The loop that cuts the next \<open>n\<close> fields off the line.\<close>

fun take_fields :: "nat \<Rightarrow> string \<Rightarrow> (string list \<times> string) option" where
  "take_fields 0 line = Some ([], line)"
| "take_fields (Suc n) line =
     (let line = skipCrontabBlanks line; w = takeWhile (\<lambda>c. \<not> isCrontabBlank c) line in
      if w = [] then None
      else case take_fields n (drop (length w) line) of
        None \<Rightarrow> None
      | Some (fs, rest) \<Rightarrow> Some (w # fs, rest))"

definition cronEntryParts :: "string \<Rightarrow> (string list \<times> string) option" where
  "cronEntryParts line =
     (let start = skipCrontabBlanks line in
      if start = [] \<or> hd start = CHR ''#'' \<or> hd start = CHR ''@'' then None
      else case take_fields 5 start of
        None \<Rightarrow> None
      | Some (fs, rest) \<Rightarrow>
          if \<not> valid_fields fs then None
          else (let command = skipCrontabBlanks rest in if command = [] then None else Some (fs, command)))"

definition cronEntryCommand :: "string \<Rightarrow> string option" where
  "cronEntryCommand line = map_option snd (cronEntryParts line)"

datatype schedule_error =
    ScheduleDirective string
  | ScheduleFieldCount string nat
  | ScheduleField string string string

definition splitSchedule :: "string \<Rightarrow> (schedule_error, string list) result" where
  "splitSchedule schedule =
     (if has_prefix (trim_left schedule [SP, TAB]) ''@'' then Inl (ScheduleDirective schedule)
      else
        (let parts = fields_on [SP, TAB] schedule in
         if length parts \<noteq> 5 then Inl (ScheduleFieldCount schedule (length parts))
         else case find (\<lambda>i. \<not> validCronField (parts ! i) (cronFieldRangeByIndex i)) [0..<5] of
           Some i \<Rightarrow> Inl (ScheduleField schedule (cronFieldLabels ! i) (parts ! i))
         | None \<Rightarrow> Inr parts))"

section \<open>Lemmas\<close>

text \<open>Every byte of an accepted field is one of these; no white space starts with one of them.\<close>

definition cron_byte :: "char \<Rightarrow> bool" where
  "cron_byte c \<longleftrightarrow>
     (let n = of_char c :: nat in
      42 \<le> n \<and> n \<le> 57 \<or> 65 \<le> n \<and> n \<le> 90 \<or> 97 \<le> n \<and> n \<le> 122 \<or> n = 0xC4 \<or> n = 0xB0)"

text \<open>The letters of the month and weekday names: no \<open>k\<close> among them.\<close>

definition name_bytes :: string where
  "name_bytes = ''abcdefghijlmnopqrstuvwxyz''"

lemma is_digit_cron: "is_digit c \<Longrightarrow> cron_byte c"
  by (simp add: is_digit_def cron_byte_def Let_def)

lemma name_bytes_cron: "c \<in> set name_bytes \<Longrightarrow> cron_byte c"
  by (auto simp: name_bytes_def cron_byte_def)

lemma lower_byte_cron: "lower_byte c \<in> set name_bytes \<Longrightarrow> cron_byte c"
  by (cases "65 \<le> (of_char c :: nat) \<and> (of_char c :: nat) \<le> 90")
     (auto simp: lower_byte_def name_bytes_cron, auto simp: cron_byte_def Let_def)

lemma cron_bytes_extra: "cron_byte (CHR 0xC4)" "cron_byte (CHR 0xB0)" "cron_byte (CHR ''*'')"
  "cron_byte (CHR ''-'')" "cron_byte (CHR '','')" "cron_byte SLASH"
  by (simp_all add: cron_byte_def)

lemma cron_bytes_plain:
  "cron_byte c \<Longrightarrow> \<not> isCrontabBlank c \<and> c \<noteq> NL \<and> c \<noteq> CR \<and> c \<noteq> CHR ''#'' \<and> c \<noteq> CHR ''@''"
  by (auto simp: cron_byte_def isCrontabBlank_def)

lemma ToLower_cron:
  "set (ToLower v) \<subseteq> set name_bytes \<Longrightarrow> list_all cron_byte v"
proof (induction v rule: ToLower.induct)
  case (2 c s)
  show ?case
  proof (cases "c = CHR 0xC4 \<and> has_prefix s [CHR 0xB0]")
    case True
    then obtain t where "s = CHR 0xB0 # t" by (auto simp: has_prefix_iff)
    with True 2 show ?thesis by (simp add: cron_bytes_extra)
  next
    case False
    show ?thesis
    proof (cases "c = CHR 0xE2 \<and> has_prefix s [CHR 0x84, CHR 0xAA]")
      case True
      with 2(4) show ?thesis by (simp add: name_bytes_def)
    next
      case no_k: False
      have "ToLower (c # s) = lower_byte c # ToLower s" using False no_k by auto
      with 2(3) [OF False no_k] 2(4) lower_byte_cron [of c] show ?thesis by simp
    qed
  qed
qed simp

lemma cron_names:
  "list_all (\<lambda>label. list_all (\<lambda>(w, n). list_all (\<lambda>c. c \<in> set name_bytes) w)
     (cr_names (cronFieldRange label))) cronFieldLabels"
  by code_simp

lemma cronFieldValue_cron:
  assumes "cronFieldValue v (cronFieldRange label) = Some n" "label \<in> set cronFieldLabels"
  shows "list_all cron_byte v"
proof (cases "map_of (cr_names (cronFieldRange label)) (ToLower v)")
  case None
  with assms(1) have "list_all is_digit v" by (auto simp: cronFieldValue_def split: if_splits)
  then show ?thesis using is_digit_cron by (auto simp: list_all_iff)
next
  case (Some m)
  then have "set (ToLower v) \<subseteq> set name_bytes"
    using cron_names assms(2) map_of_SomeD [OF Some] unfolding list_all_iff by fast
  then show ?thesis by (rule ToLower_cron)
qed

lemma set_join_fields: "set (join [c] ws) \<subseteq> insert c (\<Union> (set ` set ws))"
  by (induction "[c]" ws rule: join.induct) auto

lemma list_all_split_on: "P c \<Longrightarrow> (\<And>w. w \<in> set (split_on c s) \<Longrightarrow> list_all P w) \<Longrightarrow> list_all P s"
  using set_join_fields [of c "split_on c s"] by (fastforce simp: list_all_iff)

lemma validCronItem_cron:
  assumes "validCronItem item (cronFieldRange label)" "label \<in> set cronFieldLabels"
  shows "list_all cron_byte item"
proof (rule list_all_split_on [where c = SLASH])
  fix w
  assume w: "w \<in> set (split_on SLASH item)"
  define parts base where defs: "parts = split_on SLASH item" "base = hd parts"
  have len: "length parts \<le> 2" and "parts \<noteq> []" using assms(1) by (auto simp: validCronItem_def defs Let_def split: if_splits)
  then consider "parts = [base]" | q where "parts = [base, q]" "validPositiveDecimal q"
    using assms(1) by (cases parts; cases "tl parts") (auto simp: validCronItem_def defs Let_def split: if_splits)
  then have "w = base \<or> validPositiveDecimal w" using w unfolding defs(1) [symmetric] by cases auto
  moreover have "validPositiveDecimal w \<Longrightarrow> list_all cron_byte w"
    using is_digit_cron by (auto simp: validPositiveDecimal_def list_all_iff)
  moreover have "list_all cron_byte base"
  proof (cases "base = ''*''")
    case False
    define rs where "rs = split_on (CHR ''-'') base"
    have all: "\<forall>v \<in> set rs. \<exists>n. cronFieldValue v (cronFieldRange label) = Some n"
    proof -
      have "rs \<noteq> []" "length rs \<le> 2" "\<exists>n. cronFieldValue (hd rs) (cronFieldRange label) = Some n"
        "length rs \<noteq> 1 \<longrightarrow> (\<exists>n. cronFieldValue (rs ! 1) (cronFieldRange label) = Some n)"
        using assms(1) False by (auto simp: validCronItem_def defs rs_def Let_def split: if_splits option.splits)
      then show ?thesis by (cases rs; cases "tl rs") auto
    qed
    show ?thesis
    proof (rule list_all_split_on [where c = "CHR ''-''"])
      fix v assume "v \<in> set (split_on (CHR ''-'') base)"
      then show "list_all cron_byte v" using all cronFieldValue_cron [OF _ assms(2)] by (auto simp: rs_def)
    qed (simp add: cron_bytes_extra)
  qed (simp add: cron_bytes_extra)
  ultimately show "list_all cron_byte w" by blast
qed (simp add: cron_bytes_extra)

lemma validCronField_cron:
  assumes "validCronField v (cronFieldRange label)" "label \<in> set cronFieldLabels"
  shows "v \<noteq> []" "list_all cron_byte v"
proof -
  show "v \<noteq> []" using assms(1) by (simp add: validCronField_def)
  show "list_all cron_byte v"
  proof (rule list_all_split_on [where c = "CHR '',''"])
    fix w assume "w \<in> set (split_on (CHR '','') v)"
    then show "list_all cron_byte w"
      using assms validCronItem_cron by (auto simp: validCronField_def list_all_iff)
  qed (simp add: cron_bytes_extra)
qed

lemma valid_fields_cron:
  assumes "valid_fields fs" "f \<in> set fs"
  shows "f \<noteq> []" "list_all cron_byte f"
proof -
  obtain i where i: "i < 5" "f = fs ! i" using assms by (auto simp: valid_fields_def in_set_conv_nth)
  have "cronFieldLabels ! i \<in> set cronFieldLabels" using i(1) by (intro nth_mem) (simp add: cronFieldLabels_def)
  moreover have "validCronField f (cronFieldRange (cronFieldLabels ! i))"
    using assms(1) i by (auto simp: valid_fields_def cronFieldRangeByIndex_def list_all_iff)
  ultimately have "validCronField f (cronFieldRange (cronFieldLabels ! i))" "cronFieldLabels ! i \<in> set cronFieldLabels"
    by simp_all
  from validCronField_cron [OF this] show "f \<noteq> []" "list_all cron_byte f" .
qed

text \<open>An entry written from its fields and its command parses back.\<close>

lemma cron_word:
  assumes "f \<noteq> []" "list_all cron_byte f"
  shows "skipCrontabBlanks (f @ SP # s) = f @ SP # s" "takeWhile (\<lambda>c. \<not> isCrontabBlank c) (f @ SP # s) = f"
proof -
  have b: "\<forall>c \<in> set f. \<not> isCrontabBlank c" using assms(2) cron_bytes_plain by (auto simp: list_all_iff)
  then show "takeWhile (\<lambda>c. \<not> isCrontabBlank c) (f @ SP # s) = f" by (simp add: takeWhile_append2 isCrontabBlank_def)
  show "skipCrontabBlanks (f @ SP # s) = f @ SP # s"
    using assms(1) b by (cases f) (simp_all add: skipCrontabBlanks_def)
qed

definition entry_line :: "string list \<Rightarrow> string \<Rightarrow> string" where
  "entry_line fs command = join [SP] (fs @ [command])"

lemma take_fields_entry:
  assumes "\<forall>f \<in> set fs. f \<noteq> [] \<and> list_all cron_byte f"
  shows "take_fields (length fs) (concat (map (\<lambda>f. f @ [SP]) fs) @ s) =
    Some (fs, if fs = [] then s else SP # s)"
  using assms
proof (induction fs)
  case (Cons f fs)
  have "take_fields (length fs) (SP # concat (map (\<lambda>f. f @ [SP]) fs) @ s) = Some (fs, SP # s)"
  proof (cases fs)
    case (Cons g gs)
    have "take_fields (length fs) (SP # concat (map (\<lambda>f. f @ [SP]) fs) @ s)
          = take_fields (length fs) (concat (map (\<lambda>f. f @ [SP]) fs) @ s)"
      using Cons by (simp add: skipCrontabBlanks_def isCrontabBlank_def)
    with Cons Cons.IH \<open>\<forall>f \<in> set (f # fs). _ f\<close> show ?thesis by simp
  qed simp
  with cron_word [of f "concat (map (\<lambda>f. f @ [SP]) fs) @ s"] Cons.prems show ?case by simp
qed simp

lemma entry_line_concat: "entry_line fs command = concat (map (\<lambda>f. f @ [SP]) fs) @ command"
  unfolding entry_line_def by (induction fs) (auto simp: join_Cons)

lemma cronEntryParts_entry_line:
  assumes "valid_fields fs" "skipCrontabBlanks command \<noteq> []"
  shows "cronEntryParts (entry_line fs command) = Some (fs, skipCrontabBlanks command)"
proof -
  have bytes: "\<forall>f \<in> set fs. f \<noteq> [] \<and> list_all cron_byte f" using valid_fields_cron [OF assms(1)] by blast
  have five: "length fs = 5" using assms(1) by (simp add: valid_fields_def)
  obtain c w gs where fs: "fs = (c # w) # gs"
    using five bytes by (cases fs) (auto simp: neq_Nil_conv)
  have c: "\<not> isCrontabBlank c" "c \<noteq> CHR ''#''" "c \<noteq> CHR ''@''"
    using bytes cron_bytes_plain [of c] by (auto simp: fs)
  have line: "entry_line fs command = c # w @ SP # concat (map (\<lambda>f. f @ [SP]) gs) @ command"
    by (simp add: entry_line_concat fs)
  have start: "skipCrontabBlanks (entry_line fs command) = entry_line fs command"
    using c(1) by (simp add: line skipCrontabBlanks_def)
  have "take_fields 5 (entry_line fs command) = Some (fs, SP # command)"
    using take_fields_entry [OF bytes, of command] unfolding entry_line_concat five by (simp only: fs) simp
  moreover have "skipCrontabBlanks (SP # command) = skipCrontabBlanks command"
    by (simp add: skipCrontabBlanks_def isCrontabBlank_def)
  ultimately show ?thesis
    using assms c start by (simp add: cronEntryParts_def Let_def line)
qed

lemma cronEntryParts_valid: "cronEntryParts line = Some (fs, command) \<Longrightarrow> valid_fields fs \<and> command \<noteq> []"
  by (auto simp: cronEntryParts_def Let_def split: if_splits option.splits)

lemma splitSchedule_valid: "splitSchedule s = Inr fs \<Longrightarrow> valid_fields fs"
  by (auto simp: splitSchedule_def Let_def valid_fields_def find_None_iff list_all_iff split: if_splits option.splits)

lemma splitSchedule_join:
  assumes "valid_fields fs"
  shows "splitSchedule (join [SP] fs) = Inr fs"
proof -
  have bytes: "\<forall>f \<in> set fs. f \<noteq> [] \<and> list_all cron_byte f" using valid_fields_cron [OF assms] by blast
  have five: "length fs = 5" using assms by (simp add: valid_fields_def)
  obtain c w gs where fs: "fs = (c # w) # gs"
    using five bytes by (cases fs) (auto simp: neq_Nil_conv)
  have set: "c' \<in> set (join [SP] fs) \<Longrightarrow> c' = SP \<or> cron_byte c'" for c'
    using set_join_fields [of SP fs] bytes by (fastforce simp: list_all_iff)
  have "map (\<lambda>c. if c \<in> set [SP, TAB] then SP else c) (join [SP] fs) = join [SP] fs"
    by (rule map_idI) (use set in \<open>fastforce dest: cron_bytes_plain simp: isCrontabBlank_def\<close>)
  moreover have "split_on SP (join [SP] fs) = fs"
    using bytes cron_bytes_plain [of SP] five by (intro split_on_join) (auto simp: list_all_iff isCrontabBlank_def)
  ultimately have "fields_on [SP, TAB] (join [SP] fs) = fs"
    using bytes unfolding fields_on_def list.sel by (simp add: filter_id_conv)
  moreover have "\<not> has_prefix (trim_left (join [SP] fs) [SP, TAB]) ''@''"
  proof -
    obtain t where "join [SP] fs = c # t" using fs by (cases gs) auto
    then show ?thesis using bytes cron_bytes_plain [of c] by (auto simp: fs isCrontabBlank_def)
  qed
  ultimately show ?thesis
    using assms five by (auto simp: splitSchedule_def valid_fields_def list_all_iff find_None_iff split: option.split)
qed

text \<open>
  A capital I with a dot above is folded to an ASCII letter, so this is an accepted weekday, although no
  crontab program knows it.
\<close>

lemma dotted_capital_accepted:
  "validCronField [CHR ''F'', CHR ''R'', CHR 0xC4, CHR 0xB0] (cronFieldRange ''weekday'')"
  by code_simp

end
