(* ===== verification/Crontab.thy ===== *)
theory Crontab
  imports CronFields
begin

text \<open>
  The text of a crontab (\<open>resource/cron/crontab_markers.go\<close>, \<open>crontab_merge.go\<close>, the block of a job in
  \<open>cron.go\<close>): marker lines, which lines lie inside well-formed blocks, adopting unmanaged entries and
  replacing or removing a job's block.
\<close>

section \<open>Markers\<close>

datatype markerKind = markerBegin | markerEnd

definition beginMarkerPrefix :: string where
  "beginMarkerPrefix = ''# BEGIN GONF Cron[''"

definition endMarkerPrefix :: string where
  "endMarkerPrefix = ''# END GONF Cron[''"

definition beginMarker :: "string \<Rightarrow> string" where
  "beginMarker name = beginMarkerPrefix @ name @ '']''"

definition endMarker :: "string \<Rightarrow> string" where
  "endMarker name = endMarkerPrefix @ name @ '']''"

text \<open>Names and the markers around them; \<open>candidates\<close> is what is left of the loop over the two prefixes.\<close>

definition marker_name_ok :: "string \<Rightarrow> bool" where
  "marker_name_ok name \<longleftrightarrow> name \<noteq> [] \<and> \<not> contains_any name ('' '' @ [TAB, NL, CR] @ ''[]'')"

fun marker_in :: "(string \<times> markerKind) list \<Rightarrow> string \<Rightarrow> (markerKind \<times> string) option" where
  "marker_in [] line = None"
| "marker_in ((pre, kind) # candidates) line =
     (if \<not> has_prefix line pre \<or> \<not> has_suffix line '']'' then marker_in candidates line
      else (let name = trim_suffix (trim_prefix line pre) '']'' in
            if marker_name_ok name then Some (kind, name) else None))"

definition gonfMarker :: "string \<Rightarrow> (markerKind \<times> string) option" where
  "gonfMarker line =
     marker_in [(beginMarkerPrefix, markerBegin), (endMarkerPrefix, markerEnd)] (trim_space line)"

definition looksLikeGonfMarker :: "string \<Rightarrow> bool" where
  "looksLikeGonfMarker line \<longleftrightarrow>
     has_prefix (trim_space line) ''# BEGIN GONF'' \<or> has_prefix (trim_space line) ''# END GONF''"

text \<open>\<open>open\<close> is \<open>inBlock\<close> with \<open>blockName\<close>; \<open>None\<close> is the answer \<open>(nil, false)\<close>.\<close>

fun protected_from :: "string option \<Rightarrow> string list \<Rightarrow> bool list option" where
  "protected_from inBlock [] = (if inBlock = None then Some [] else None)"
| "protected_from inBlock (line # lines) =
     (case gonfMarker line of
        None \<Rightarrow>
          if looksLikeGonfMarker line then None
          else map_option ((#) (inBlock \<noteq> None)) (protected_from inBlock lines)
      | Some (markerBegin, name) \<Rightarrow>
          if inBlock \<noteq> None then None
          else map_option ((#) True) (protected_from (Some name) lines)
      | Some (markerEnd, name) \<Rightarrow>
          if inBlock \<noteq> Some name then None
          else map_option ((#) True) (protected_from None lines))"

definition protectedGonfLines :: "string list \<Rightarrow> bool list option" where
  "protectedGonfLines lines = protected_from None lines"

definition hasGonfBlock :: "string list \<Rightarrow> string \<Rightarrow> bool" where
  "hasGonfBlock lines name \<longleftrightarrow> list_ex (\<lambda>line. gonfMarker line = Some (markerBegin, name)) lines"

section \<open>Lines of a table\<close>

definition splitKeep :: "string \<Rightarrow> string list" where
  "splitKeep s = (if s = [] then [] else split_on NL (trim_suffix (replace_all s [CR, NL] [NL]) [NL]))"

definition joinCrontabLines :: "string list \<Rightarrow> string" where
  "joinCrontabLines lines =
     (let body = trim_right (join [NL] lines) [NL] in if body \<noteq> [] then body @ [NL] else [])"

section \<open>Adoption\<close>

record cronEntry =
  ce_fields :: "string list"
  ce_command :: string

record adoption =
  ad_legacy :: string
  ad_identical :: "cronEntry option"
  ad_name :: string
  ad_block :: string

datatype entryMatch = matchNone | matchIdentical | matchLegacy

definition adoption_match :: "adoption \<Rightarrow> string \<Rightarrow> entryMatch" where
  "adoption_match a line =
     (case cronEntryParts line of
        None \<Rightarrow> matchNone
      | Some (fs, command) \<Rightarrow>
          if ad_identical a = Some \<lparr>ce_fields = fs, ce_command = command\<rparr> then matchIdentical
          else if ad_legacy a \<noteq> [] \<and> command = ad_legacy a then matchLegacy
          else matchNone)"

text \<open>The loop over the lines with their protection: \<open>out\<close>, and whether anything changed.\<close>

fun adopt_lines :: "adoption \<Rightarrow> bool \<Rightarrow> (string \<times> bool) list \<Rightarrow> string list \<times> bool" where
  "adopt_lines a placed [] = ([], False)"
| "adopt_lines a placed ((line, prot) # rest) =
     (if prot then (case adopt_lines a placed rest of (out, changed) \<Rightarrow> (line # out, changed))
      else case adoption_match a line of
        matchIdentical \<Rightarrow>
          ((if placed then [] else splitKeep (ad_block a)) @ fst (adopt_lines a True rest), True)
      | matchLegacy \<Rightarrow> (fst (adopt_lines a placed rest), True)
      | matchNone \<Rightarrow> (case adopt_lines a placed rest of (out, changed) \<Rightarrow> (line # out, changed)))"

definition adoptUnmanaged :: "string \<Rightarrow> adoption \<Rightarrow> string \<times> bool" where
  "adoptUnmanaged current a =
     (if ad_legacy a = [] \<and> ad_identical a = None then (current, False)
      else
        (let lines = splitKeep current in
         case protectedGonfLines lines of
           None \<Rightarrow> (current, False)
         | Some prot \<Rightarrow>
             (case adopt_lines a (ad_identical a = None \<or> hasGonfBlock lines (ad_name a)) (zip lines prot) of
                (out, changed) \<Rightarrow> if changed then (joinCrontabLines out, True) else (current, False))))"

definition adoptLegacyCommand :: "string \<Rightarrow> string \<Rightarrow> string \<times> bool" where
  "adoptLegacyCommand current legacyCommand =
     adoptUnmanaged current \<lparr>ad_legacy = legacyCommand, ad_identical = None, ad_name = [], ad_block = []\<rparr>"

section \<open>Replacing the block of a job\<close>

definition blockEnvLines :: "string list \<Rightarrow> string list" where
  "blockEnvLines lines =
     filter (\<lambda>line. (let rest = trim_left line [SP, TAB] in rest \<noteq> [] \<and> hd rest \<noteq> CHR ''#'')
                     \<and> cronEntryParts line = None) lines"

text \<open>How many lines stand before the first end marker, \<open>None\<close> when a begin marker or the end comes first.\<close>

fun findBlockEnd :: "string list \<Rightarrow> string \<Rightarrow> string \<Rightarrow> nat option" where
  "findBlockEnd [] b e = None"
| "findBlockEnd (line # lines) b e =
     (if trim_space line = b then None
      else if trim_space line = e then Some 0
      else map_option Suc (findBlockEnd lines b e))"

record strippedCrontab =
  sc_lines :: "string list"
  sc_at :: "nat option"
  sc_firstEnv :: "string list"
  sc_found :: nat
  sc_healed :: bool

function strip_from :: "string list \<Rightarrow> string \<Rightarrow> string \<Rightarrow> strippedCrontab \<Rightarrow> strippedCrontab" where
  "strip_from [] b e s = s"
| "strip_from (line # lines) b e s =
     (if trim_space line \<noteq> b then strip_from lines b e (s\<lparr>sc_lines := sc_lines s @ [line]\<rparr>)
      else
        (let s1 = s\<lparr>sc_found := sc_found s + 1\<rparr> in
         case findBlockEnd lines b e of
           None \<Rightarrow> strip_from lines b e (s1\<lparr>sc_healed := True\<rparr>)
         | Some j \<Rightarrow>
             strip_from (drop (Suc j) lines) b e
               (if sc_at s = None
                then s1\<lparr>sc_at := Some (length (sc_lines s)), sc_firstEnv := blockEnvLines (take j lines)\<rparr>
                else s1)))"
  by pat_completeness auto
termination by (relation "measure (\<lambda>(lines, b, e, s). length lines)") auto

definition stripNamedBlocks :: "string list \<Rightarrow> string \<Rightarrow> string \<Rightarrow> strippedCrontab" where
  "stripNamedBlocks lines b e =
     strip_from lines b e \<lparr>sc_lines = [], sc_at = None, sc_firstEnv = [], sc_found = 0, sc_healed = False\<rparr>"

text \<open>\<open>None\<close> before the begin marker; afterwards what the builder holds.\<close>

fun extract_from :: "string \<Rightarrow> string \<Rightarrow> string option \<Rightarrow> string list \<Rightarrow> string" where
  "extract_from b e acc [] = []"
| "extract_from b e acc (line # lines) =
     (if trim_space line = b then
        (case acc of Some _ \<Rightarrow> [] | None \<Rightarrow> extract_from b e (Some (b @ [NL])) lines)
      else case acc of
        None \<Rightarrow> extract_from b e None lines
      | Some t \<Rightarrow>
          if trim_space line = e then t @ e @ [NL]
          else extract_from b e (Some (t @ line @ [NL])) lines)"

definition extractBlock :: "string \<Rightarrow> string \<Rightarrow> string" where
  "extractBlock current name = extract_from (beginMarker name) (endMarker name) None (splitKeep current)"

definition mergeCrontab :: "string \<Rightarrow> string \<Rightarrow> string \<Rightarrow> string \<times> bool" where
  "mergeCrontab current name desired =
     (let s = stripNamedBlocks (splitKeep current) (beginMarker name) (endMarker name) in
      if desired = [] then
        (if sc_found s = 0 then (current, False) else (joinCrontabLines (sc_lines s), True))
      else if sc_found s = 1 \<and> \<not> sc_healed s \<and> extractBlock current name = desired then (current, False)
      else
        (let desiredLines = splitKeep desired in
         case sc_at s of
           Some at \<Rightarrow>
             if sc_firstEnv s = blockEnvLines desiredLines
             then (joinCrontabLines (take at (sc_lines s) @ desiredLines @ drop at (sc_lines s)), True)
             else (joinCrontabLines (sc_lines s) @ desired, True)
         | None \<Rightarrow> (joinCrontabLines (sc_lines s) @ desired, True)))"

section \<open>Lemmas\<close>

text \<open>
  A clean line has no line break and no carriage return at its end: written back, it is read as the same
  line. \<open>unlines\<close> is the text of lines that all end in a line break.
\<close>

definition clean_line :: "string \<Rightarrow> bool" where
  "clean_line l \<longleftrightarrow> NL \<notin> set l \<and> (l = [] \<or> last l \<noteq> CR)"

definition unlines :: "string list \<Rightarrow> string" where
  "unlines ls = concat (map (\<lambda>l. l @ [NL]) ls)"

definition rtrim_lines :: "string list \<Rightarrow> string list" where
  "rtrim_lines ls = rev (dropWhile (\<lambda>l. l = []) (rev ls))"

lemma unlines_simps [simp]: "unlines [] = []" "unlines (l # ls) = l @ NL # unlines ls" "unlines (ls @ ms) = unlines ls @ unlines ms"
  by (simp_all add: unlines_def)

lemma unlines_join: "ls \<noteq> [] \<Longrightarrow> unlines ls = join [NL] ls @ [NL]"
proof (induction ls)
  case (Cons l ls)
  then show ?case by (cases ls) (simp_all add: join_Cons)
qed simp

lemma replace_crlf_line:
  "clean_line l \<Longrightarrow> replace_all (l @ NL # s) [CR, NL] [NL] = l @ NL # replace_all s [CR, NL] [NL]"
proof (induction l)
  case (Cons c l)
  have "clean_line l" using Cons.prems by (cases "l = []") (auto simp: clean_line_def)
  have "\<not> has_prefix (c # l @ NL # s) [CR, NL]" using Cons.prems by (cases l) (auto simp: clean_line_def)
  with Cons.IH [OF \<open>clean_line l\<close>] show ?case by (simp only: append_Cons replace_all.simps) simp
qed simp

lemma replace_crlf_unlines:
  "list_all clean_line ls \<Longrightarrow> replace_all (unlines ls) [CR, NL] [NL] = unlines ls"
  by (induction ls) (simp_all add: replace_crlf_line)

lemma splitKeep_unlines:
  assumes "list_all clean_line ls"
  shows "splitKeep (unlines ls) = ls"
proof (cases "ls = []")
  case False
  have "split_on NL (join [NL] ls) = ls"
    using assms by (intro split_on_join False) (auto simp: list_all_iff clean_line_def)
  moreover have "unlines ls \<noteq> []" "trim_suffix (unlines ls) [NL] = join [NL] ls" using False by (simp_all add: unlines_join)
  ultimately show ?thesis using assms by (simp add: splitKeep_def replace_crlf_unlines)
qed (simp add: splitKeep_def)

lemma splitKeep_no_NL: "l \<in> set (splitKeep t) \<Longrightarrow> NL \<notin> set l"
  by (auto simp: splitKeep_def split_on_no_sep split: if_splits)

lemma unlines_inj:
  "unlines ls = unlines ms \<Longrightarrow> \<forall>l \<in> set ls. NL \<notin> set l \<Longrightarrow> \<forall>l \<in> set ms. NL \<notin> set l \<Longrightarrow> ls = ms"
proof (induction ls arbitrary: ms)
  case Nil
  then show ?case by (cases ms) auto
next
  case (Cons l ls)
  then obtain m ms' where ms: "ms = m # ms'" by (cases ms) auto
  have "l = m \<and> unlines ls = unlines ms'"
    using Cons.prems index_byte_append_mid [of NL l "unlines ls"] index_byte_append_mid [of NL m "unlines ms'"]
    by (auto simp: ms)
  with Cons ms show ?case by auto
qed

text \<open>Trailing blank lines are all that joining the lines loses.\<close>

lemma rtrim_lines_snoc [simp]: "rtrim_lines (ls @ [l]) = (if l = [] then rtrim_lines ls else ls @ [l])"
  by (simp add: rtrim_lines_def)

lemma rtrim_lines_Nil [simp]: "rtrim_lines [] = []"
  by (simp add: rtrim_lines_def)

lemma rtrim_lines_subset: "set (rtrim_lines ls) \<subseteq> set ls"
  using set_dropWhileD [of _ _ "rev ls"] by (auto simp: rtrim_lines_def)

lemma rtrim_lines_append: "rtrim_lines (ls @ ms) = (if rtrim_lines ms = [] then rtrim_lines ls else ls @ rtrim_lines ms)"
  by (induction ms rule: rev_induct) (auto simp flip: append_assoc)

lemma rtrim_lines_idem [simp]: "rtrim_lines (rtrim_lines ls) = rtrim_lines ls"
  by (induction ls rule: rev_induct) auto

lemma trim_right_snoc: "trim_right (s @ [c]) cs = (if c \<in> set cs then trim_right s cs else s @ [c])"
  by (simp add: trim_right_def)

lemma trim_right_NL_free: "NL \<notin> set l \<Longrightarrow> l \<noteq> [] \<Longrightarrow> trim_right (s @ l) [NL] = s @ l"
  by (cases l rule: rev_cases) (auto simp: trim_right_snoc simp flip: append_assoc)

lemma joinCrontabLines_unlines:
  assumes "\<forall>l \<in> set ls. NL \<notin> set l"
  shows "joinCrontabLines ls = unlines (rtrim_lines ls)"
  using assms
proof (induction ls rule: rev_induct)
  case Nil
  show ?case by (simp add: joinCrontabLines_def trim_right_def)
next
  case (snoc l ls)
  have j: "join [NL] (ls @ [l]) = (if ls = [] then l else unlines ls @ l)"
    by (induction ls) (auto simp: join_Cons)
  show ?case
  proof (cases "l = []")
    case True
    have "trim_right (unlines ls) [NL] = trim_right (join [NL] ls) [NL]"
      by (cases "ls = []") (simp_all add: unlines_join trim_right_snoc)
    with True snoc j show ?thesis by (auto simp: joinCrontabLines_def)
  next
    case False
    with snoc.prems j trim_right_NL_free [of l "unlines ls"] trim_right_NL_free [of l "[]"] show ?thesis
      by (simp add: joinCrontabLines_def)
  qed
qed

lemma splitKeep_joinCrontabLines:
  "list_all clean_line ls \<Longrightarrow> splitKeep (joinCrontabLines ls) = rtrim_lines ls"
  using rtrim_lines_subset [of ls]
  by (subst joinCrontabLines_unlines) (auto simp: list_all_iff clean_line_def subset_iff intro!: splitKeep_unlines)

text \<open>Markers and their names.\<close>

lemma beginMarker_not_end: "\<not> has_prefix (beginMarkerPrefix @ s) endMarkerPrefix" "\<not> has_prefix (endMarkerPrefix @ s) beginMarkerPrefix"
  by (simp_all add: beginMarkerPrefix_def endMarkerPrefix_def)

lemma marker_split:
  "has_prefix line pre \<Longrightarrow> has_suffix line '']'' \<Longrightarrow> \<not> has_suffix pre '']'' \<Longrightarrow> \<exists>n. line = pre @ n @ '']''"
proof -
  assume "has_prefix line pre" "has_suffix line '']''" and np: "\<not> has_suffix pre '']''"
  then obtain u where u: "line = pre @ u" by (auto simp: has_prefix_iff)
  moreover obtain v where v: "line = v @ '']''" using \<open>has_suffix line _\<close> by (auto simp: has_suffix_iff)
  ultimately have uv: "line = pre @ u" "line = v @ '']''" .
  have "u \<noteq> []" using uv np by (auto simp: has_suffix_iff)
  with uv show ?thesis by (cases u rule: rev_cases) auto
qed

lemma marker_suffix: "has_suffix (pre @ n @ '']'') '']''"
  by (auto simp: has_suffix_iff intro: exI [of _ "pre @ n"])

lemma marker_prefix_no_bracket: "\<not> has_suffix beginMarkerPrefix '']''" "\<not> has_suffix endMarkerPrefix '']''"
  by (simp_all add: has_suffix_def beginMarkerPrefix_def endMarkerPrefix_def)

lemma marker_in_hit: "marker_in ((pre, k) # cs) (pre @ n @ '']'') = (if marker_name_ok n then Some (k, n) else None)"
  using trim_suffix_append [of n "'']''"] by (simp add: marker_suffix trim_prefix_def Let_def)

lemma gonfMarker_begin: "trim_space l = beginMarker n \<Longrightarrow> gonfMarker l = (if marker_name_ok n then Some (markerBegin, n) else None)"
  unfolding gonfMarker_def beginMarker_def by (simp only: marker_in_hit)

lemma gonfMarker_end: "trim_space l = endMarker n \<Longrightarrow> gonfMarker l = (if marker_name_ok n then Some (markerEnd, n) else None)"
  unfolding gonfMarker_def endMarker_def
  by (subst marker_in.simps) (simp only: beginMarker_not_end marker_in_hit if_True not_False_eq_True disj.left_neutral simp_thms)

lemma gonfMarker_SomeD:
  assumes "gonfMarker l = Some (k, n)"
  shows "trim_space l = (case k of markerBegin \<Rightarrow> beginMarker n | markerEnd \<Rightarrow> endMarker n) \<and> marker_name_ok n"
proof -
  let ?l = "trim_space l"
  consider (b) "has_prefix ?l beginMarkerPrefix" "has_suffix ?l '']''" | (e) "has_prefix ?l endMarkerPrefix" "has_suffix ?l '']''"
    using assms by (auto simp: gonfMarker_def split: if_splits)
  then show ?thesis
  proof cases
    case b
    then obtain m where "?l = beginMarker m"
      using marker_split [OF b marker_prefix_no_bracket(1)] by (auto simp: beginMarker_def)
    with assms gonfMarker_begin [of l m] show ?thesis by (auto split: if_splits)
  next
    case e
    then obtain m where "?l = endMarker m"
      using marker_split [OF e marker_prefix_no_bracket(2)] by (auto simp: endMarker_def)
    with assms gonfMarker_end [of l m] show ?thesis by (auto split: if_splits)
  qed
qed

lemma looks_beginMarker: "has_prefix (beginMarker n) ''# BEGIN GONF''" "has_prefix (endMarker n) ''# END GONF''"
  by (simp_all add: beginMarker_def endMarker_def beginMarkerPrefix_def endMarkerPrefix_def)

lemma gonfMarker_looks: "gonfMarker l \<noteq> None \<Longrightarrow> looksLikeGonfMarker l"
  using gonfMarker_SomeD looks_beginMarker by (fastforce simp: looksLikeGonfMarker_def split: markerKind.splits)

lemma plain_not_marker:
  assumes "\<not> looksLikeGonfMarker l"
  shows "gonfMarker l = None" "trim_space l \<noteq> beginMarker n" "trim_space l \<noteq> endMarker n"
  subgoal using assms gonfMarker_looks by blast
  subgoal using assms looks_beginMarker(1) [of n] by (auto simp: looksLikeGonfMarker_def)
  subgoal using assms looks_beginMarker(2) [of n] by (auto simp: looksLikeGonfMarker_def)
  done

lemma cron_markers_differ: "beginMarker n \<noteq> endMarker m"
  by (simp add: beginMarker_def endMarker_def beginMarkerPrefix_def endMarkerPrefix_def)

lemma markers_inj [simp]: "beginMarker n = beginMarker m \<longleftrightarrow> n = m" "endMarker n = endMarker m \<longleftrightarrow> n = m"
  by (simp_all add: beginMarker_def endMarker_def)

text \<open>A text whose first byte starts no white space keeps that byte when it is trimmed.\<close>

definition starts_space :: "char \<Rightarrow> bool" where
  "starts_space c \<longleftrightarrow> list_ex (\<lambda>w. hd w = c) go_spaces"

lemma trim_space_front:
  assumes "\<not> starts_space c"
  shows "\<exists>t. c # s = trim_space (c # s) @ t"
proof -
  have "strip_front go_spaces (c # s) = c # s"
    using assms by (intro strip_front_stop) (auto simp: starts_space_def list_ex_iff has_prefix_iff Cons_eq_append_conv)
  moreover obtain u where "rev (c # s) = u @ strip_front (map rev go_spaces) (rev (c # s))"
    using strip_front_suffix by blast
  then have "c # s = rev (strip_front (map rev go_spaces) (rev (c # s))) @ rev u"
    by (metis rev_append rev_rev_ident)
  then have "\<exists>t. c # s = rev (strip_front (map rev go_spaces) (rev (c # s))) @ t" ..
  ultimately show ?thesis by (simp only: trim_space_def)
qed

lemma not_marker_start:
  assumes "\<not> starts_space c" "c \<noteq> CHR ''#''"
  shows "\<not> looksLikeGonfMarker (c # s)"
  using trim_space_front [OF assms(1), of s] assms(2)
  by (cases "trim_space (c # s)") (auto simp: looksLikeGonfMarker_def)

lemma trim_space_bracket: "trim_space (CHR ''#'' # s @ '']'') = CHR ''#'' # s @ '']''"
proof -
  have "strip_front go_spaces (CHR ''#'' # s @ '']'') = CHR ''#'' # s @ '']''"
    by (rule strip_front_stop) (auto simp: go_spaces_def has_prefix_iff)
  moreover have "strip_front (map rev go_spaces) (CHR '']'' # t) = CHR '']'' # t" for t
    by (rule strip_front_stop) (auto simp: go_spaces_def has_prefix_iff)
  ultimately show ?thesis by (simp add: trim_space_def)
qed

lemma trim_space_markers [simp]: "trim_space (beginMarker n) = beginMarker n" "trim_space (endMarker n) = endMarker n"
  using trim_space_bracket [of "tl beginMarkerPrefix @ n"] trim_space_bracket [of "tl endMarkerPrefix @ n"]
  by (simp_all add: beginMarker_def endMarker_def beginMarkerPrefix_def endMarkerPrefix_def)

end
