(* ===== verification/CrontabSegs.thy ===== *)
theory CrontabSegs
  imports Crontab
begin

text \<open>
  A well-formed crontab as a list of segments: plain lines and whole blocks. Every step of
  \<open>resource/cron/crontab_merge.go\<close> on the text is one step on the segments; the lemmas here say which.
\<close>

section \<open>Segments\<close>

text \<open>A plain line, or a block with its name, its begin line, its body and its end line.\<close>

datatype seg = Plain string | Blk string string "string list" string

fun seg_lines :: "seg \<Rightarrow> string list" where
  "seg_lines (Plain l) = [l]"
| "seg_lines (Blk n b body e) = b # body @ [e]"

fun seg_ok :: "seg \<Rightarrow> bool" where
  "seg_ok (Plain l) = (\<not> looksLikeGonfMarker l)"
| "seg_ok (Blk n b body e) =
     (gonfMarker b = Some (markerBegin, n) \<and> gonfMarker e = Some (markerEnd, n)
      \<and> list_all (\<lambda>l. \<not> looksLikeGonfMarker l) body)"

fun seg_body :: "seg \<Rightarrow> string list" where
  "seg_body (Plain l) = [l]"
| "seg_body (Blk n b body e) = body"

fun seg_prot :: "seg \<Rightarrow> bool list" where
  "seg_prot (Plain l) = [False]"
| "seg_prot (Blk n b body e) = replicate (length body + 2) True"

fun own :: "string \<Rightarrow> seg \<Rightarrow> bool" where
  "own name (Plain l) = False"
| "own name (Blk n b body e) = (n = name)"

fun segs_from :: "(string \<times> string \<times> string list) option \<Rightarrow> string list \<Rightarrow> seg list option" where
  "segs_from None [] = Some []"
| "segs_from (Some _) [] = None"
| "segs_from None (l # ls) =
     (case gonfMarker l of
        None \<Rightarrow> if looksLikeGonfMarker l then None else map_option ((#) (Plain l)) (segs_from None ls)
      | Some (markerBegin, n) \<Rightarrow> segs_from (Some (n, l, [])) ls
      | Some (markerEnd, n) \<Rightarrow> None)"
| "segs_from (Some (n, b, body)) (l # ls) =
     (case gonfMarker l of
        None \<Rightarrow> if looksLikeGonfMarker l then None else segs_from (Some (n, b, body @ [l])) ls
      | Some (markerBegin, m) \<Rightarrow> None
      | Some (markerEnd, m) \<Rightarrow>
          if m = n then map_option ((#) (Blk n b body l)) (segs_from None ls) else None)"

definition crontab_segs :: "string list \<Rightarrow> seg list option" where
  "crontab_segs lines = segs_from None lines"

definition segs_lines :: "seg list \<Rightarrow> string list" where
  "segs_lines sg = concat (map seg_lines sg)"

lemma segs_lines_simps [simp]:
  "segs_lines [] = []" "segs_lines (s # sg) = seg_lines s @ segs_lines sg" "segs_lines (sg @ sh) = segs_lines sg @ segs_lines sh"
  by (simp_all add: segs_lines_def)

lemma segs_from_sound:
  assumes "segs_from open ls = Some sg"
  shows "case open of
      None \<Rightarrow> list_all seg_ok sg \<and> segs_lines sg = ls
    | Some (n, b, body) \<Rightarrow>
        gonfMarker b = Some (markerBegin, n) \<longrightarrow> list_all (\<lambda>l. \<not> looksLikeGonfMarker l) body
        \<longrightarrow> list_all seg_ok sg \<and> segs_lines sg = b # body @ ls"
  using assms
proof (induction "open" ls arbitrary: sg rule: segs_from.induct)
  case (3 l ls)
  then show ?case by (fastforce split: option.splits if_splits markerKind.splits prod.splits)
next
  case (4 n b body l ls)
  then show ?case by (fastforce split: option.splits if_splits markerKind.splits prod.splits)
qed auto

lemma segs_from_block:
  assumes "gonfMarker e = Some (markerEnd, n)" "list_all (\<lambda>l. \<not> looksLikeGonfMarker l) body"
  shows "segs_from (Some (n, b, acc)) (body @ e # ls) = map_option ((#) (Blk n b (acc @ body) e)) (segs_from None ls)"
  using assms by (induction body arbitrary: acc) (simp_all add: plain_not_marker)

lemma crontab_segs_complete:
  assumes "list_all seg_ok sg"
  shows "crontab_segs (segs_lines sg) = Some sg"
  using assms unfolding crontab_segs_def
proof (induction sg)
  case (Cons s sg)
  then show ?case by (cases s) (simp_all add: plain_not_marker segs_from_block)
qed simp

lemma crontab_segs_iff: "crontab_segs ls = Some sg \<longleftrightarrow> list_all seg_ok sg \<and> segs_lines sg = ls"
  using segs_from_sound [of None ls sg] crontab_segs_complete [of sg] by (auto simp: crontab_segs_def)

text \<open>The protected lines are those of the blocks, and adoption is off exactly without segments.\<close>

lemma protected_from_None_iff:
  "protected_from (map_option fst open) ls = None \<longleftrightarrow> segs_from open ls = None"
  by (induction "open" ls rule: segs_from.induct) (auto split: option.splits if_splits markerKind.splits)

lemma protected_from_block:
  assumes "gonfMarker e = Some (markerEnd, n)" "list_all (\<lambda>l. \<not> looksLikeGonfMarker l) body"
  shows "protected_from (Some n) (body @ e # ls) = map_option ((@) (replicate (length body + 1) True)) (protected_from None ls)"
  using assms by (induction body) (cases "protected_from None ls"; simp add: plain_not_marker)+

lemma protectedGonfLines_segs:
  assumes "list_all seg_ok sg"
  shows "protectedGonfLines (segs_lines sg) = Some (concat (map seg_prot sg))"
  using assms unfolding protectedGonfLines_def
proof (induction sg)
  case (Cons s sg)
  then show ?case by (cases s) (simp_all add: plain_not_marker protected_from_block)
qed simp

lemma hasGonfBlock_segs:
  assumes "list_all seg_ok sg"
  shows "hasGonfBlock (segs_lines sg) name \<longleftrightarrow> list_ex (own name) sg"
  using assms unfolding hasGonfBlock_def
proof (induction sg)
  case (Cons s sg)
  then show ?case
  proof (cases s)
    case (Blk n b body e)
    with Cons have "\<not> list_ex (\<lambda>l. gonfMarker l = Some (markerBegin, name)) body"
      by (auto simp: list_all_iff list_ex_iff plain_not_marker)
    with Blk Cons show ?thesis by auto
  qed (simp add: plain_not_marker)
qed simp

section \<open>Trailing blank lines\<close>

definition rtrim_segs :: "seg list \<Rightarrow> seg list" where
  "rtrim_segs sg = rev (dropWhile (\<lambda>s. s = Plain []) (rev sg))"

lemma rtrim_segs_snoc [simp]: "rtrim_segs (sg @ [s]) = (if s = Plain [] then rtrim_segs sg else sg @ [s])"
  by (simp add: rtrim_segs_def)

lemma rtrim_segs_Nil [simp]: "rtrim_segs [] = []"
  by (simp add: rtrim_segs_def)

lemma rtrim_segs_idem [simp]: "rtrim_segs (rtrim_segs sg) = rtrim_segs sg"
  by (induction sg rule: rev_induct) auto

lemma rtrim_segs_subset: "set (rtrim_segs sg) \<subseteq> set sg"
  using set_dropWhileD [of _ _ "rev sg"] by (auto simp: rtrim_segs_def)

lemma rtrim_segs_append: "rtrim_segs (sg @ rtrim_segs sh) = rtrim_segs (sg @ sh)"
  by (induction sh rule: rev_induct) (auto simp flip: append_assoc)

lemma rtrim_segs_block: "rtrim_segs (sg @ Blk n b body e # sh) = sg @ Blk n b body e # rtrim_segs sh"
proof (induction sh rule: rev_induct)
  case (snoc s sh)
  then show ?case by (metis append.assoc append_Cons rtrim_segs_snoc)
qed simp

lemma rtrim_segs_filter: "\<not> own name (Plain []) \<Longrightarrow> rtrim_segs (filter (\<lambda>s. \<not> own name s) (rtrim_segs sg)) = rtrim_segs (filter (\<lambda>s. \<not> own name s) sg)"
  by (induction sg rule: rev_induct) auto

lemma filter_own_rtrim [simp]: "filter (own name) (rtrim_segs sg) = filter (own name) sg"
  by (induction sg rule: rev_induct) auto

lemma marker_not_blank: "gonfMarker [] = None"
  by code_simp

lemma rtrim_lines_segs: "list_all seg_ok sg \<Longrightarrow> rtrim_lines (segs_lines sg) = segs_lines (rtrim_segs sg)"
proof (induction sg rule: rev_induct)
  case (snoc s sg)
  show ?case
  proof (cases s)
    case (Plain l)
    with snoc show ?thesis by (cases "l = []") simp_all
  next
    case (Blk n b body e)
    with snoc have "e \<noteq> []" using marker_not_blank by auto
    with Blk show ?thesis using rtrim_lines_snoc [of "segs_lines sg @ b # body" e] by simp
  qed
qed simp

lemma list_all_rtrim: "list_all P sg \<Longrightarrow> list_all P (rtrim_segs sg)"
  using rtrim_segs_subset [of sg] by (auto simp: list_all_iff)

section \<open>Adoption on segments\<close>

definition taken :: "adoption \<Rightarrow> seg \<Rightarrow> bool" where
  "taken a s \<longleftrightarrow> (case s of Plain l \<Rightarrow> adoption_match a l \<noteq> matchNone | Blk n b body e \<Rightarrow> False)"

lemma taken_simps [simp]: "taken a (Plain l) \<longleftrightarrow> adoption_match a l \<noteq> matchNone" "\<not> taken a (Blk n b body e)"
  by (simp_all add: taken_def)

fun adopt_segs :: "adoption \<Rightarrow> seg \<Rightarrow> bool \<Rightarrow> seg list \<Rightarrow> seg list" where
  "adopt_segs a blk placed [] = []"
| "adopt_segs a blk placed (s # sg) =
     (if \<not> taken a s then s # adopt_segs a blk placed sg
      else if adoption_match a (hd (seg_lines s)) = matchIdentical
      then (if placed then [] else [blk]) @ adopt_segs a blk True sg
      else adopt_segs a blk placed sg)"

lemma adopt_lines_block:
  "adopt_lines a placed (zip (ls @ ms) (replicate (length ls) True @ ps)) =
     (ls @ fst (adopt_lines a placed (zip ms ps)), snd (adopt_lines a placed (zip ms ps)))"
  by (induction ls) (auto split: prod.split)

lemma adopt_lines_segs:
  assumes "\<not> placed \<Longrightarrow> splitKeep (ad_block a) = seg_lines blk"
  shows "adopt_lines a placed (zip (segs_lines sg) (concat (map seg_prot sg))) =
     (segs_lines (adopt_segs a blk placed sg), list_ex (taken a) sg)"
  using assms
proof (induction sg arbitrary: placed)
  case (Cons s sg)
  show ?case
  proof (cases s)
    case (Plain l)
    show ?thesis
      using Cons.IH [of placed] Cons.IH [of True] Cons.prems
      by (cases "adoption_match a l") (auto simp: Plain)
  next
    case (Blk n b body e)
    have "adopt_lines a placed (zip ((b # body @ [e]) @ segs_lines sg)
          (replicate (length (b # body @ [e])) True @ concat (map seg_prot sg))) =
        ((b # body @ [e]) @ segs_lines (adopt_segs a blk placed sg), list_ex (taken a) sg)"
      unfolding adopt_lines_block using Cons.IH [OF Cons.prems] by simp
    then show ?thesis by (simp add: Blk)
  qed
qed simp

lemma adoptUnmanaged_segs:
  assumes "splitKeep t = segs_lines sg" "list_all seg_ok sg" "ad_identical a \<noteq> None \<Longrightarrow> splitKeep (ad_block a) = seg_lines blk"
  shows "adoptUnmanaged t a =
    (if list_ex (taken a) sg
     then (joinCrontabLines (segs_lines (adopt_segs a blk (ad_identical a = None \<or> list_ex (own (ad_name a)) sg) sg)), True)
     else (t, False))"
proof (cases "ad_legacy a = [] \<and> ad_identical a = None")
  case True
  then have "adoption_match a l = matchNone" for l by (auto simp: adoption_match_def split: option.splits)
  then have "\<not> list_ex (taken a) sg" by (auto simp: list_ex_iff taken_def split: seg.splits)
  with True show ?thesis by (simp add: adoptUnmanaged_def)
next
  case False
  let ?p = "ad_identical a = None \<or> list_ex (own (ad_name a)) sg"
  have "adopt_lines a ?p (zip (segs_lines sg) (concat (map seg_prot sg))) =
      (segs_lines (adopt_segs a blk ?p sg), list_ex (taken a) sg)"
    by (rule adopt_lines_segs) (use assms(3) in simp)
  with assms show ?thesis
    unfolding adoptUnmanaged_def if_not_P [OF False]
    by (simp add: Let_def protectedGonfLines_segs hasGonfBlock_segs)
qed

lemma adopt_segs_others:
  "own name blk \<Longrightarrow> filter (\<lambda>s. \<not> own name s) (adopt_segs a blk placed sg) = filter (\<lambda>s. \<not> own name s \<and> \<not> taken a s) sg"
  by (induction sg arbitrary: placed) auto

lemma adopt_segs_ok: "seg_ok blk \<Longrightarrow> list_all seg_ok sg \<Longrightarrow> list_all seg_ok (adopt_segs a blk placed sg)"
  by (induction sg arbitrary: placed) auto

lemma adopt_segs_subset: "set (adopt_segs a blk placed sg) \<subseteq> insert blk (set sg)"
  by (induction sg arbitrary: placed) (auto split: if_splits)

lemma adopt_segs_placed: "adopt_segs a blk True sg = filter (\<lambda>s. \<not> taken a s) sg"
  by (induction sg) auto

text \<open>Where the block lands: at the first identical entry.\<close>

definition identical :: "adoption \<Rightarrow> seg \<Rightarrow> bool" where
  "identical a s \<longleftrightarrow> (case s of Plain l \<Rightarrow> adoption_match a l = matchIdentical | Blk n b body e \<Rightarrow> False)"

lemma identical_taken: "identical a s \<Longrightarrow> taken a s"
  by (auto simp: identical_def taken_def split: seg.splits)

lemma adopt_segs_none: "list_all (\<lambda>s. \<not> identical a s) sg \<Longrightarrow> adopt_segs a blk placed sg = filter (\<lambda>s. \<not> taken a s) sg"
  by (induction sg) (auto simp: identical_def taken_def split: seg.splits)

lemma adopt_segs_first:
  "list_all (\<lambda>s. \<not> identical a s) pre \<Longrightarrow> identical a s \<Longrightarrow>
     adopt_segs a blk False (pre @ s # post) = filter (\<lambda>s. \<not> taken a s) pre @ blk # filter (\<lambda>s. \<not> taken a s) post"
proof (induction pre)
  case Nil
  then show ?case by (auto simp: identical_def taken_def adopt_segs_placed split: seg.splits)
next
  case (Cons p pre)
  then show ?case by (auto simp: identical_def taken_def split: seg.splits)
qed

section \<open>Stripping and extracting on segments\<close>

declare strip_from.simps(2) [simp del]
declare cron_markers_differ [simp] cron_markers_differ [symmetric, simp]

lemma strip_from_plain:
  "\<forall>l \<in> set ls. trim_space l \<noteq> b \<Longrightarrow>
     strip_from (ls @ rest) b e s = strip_from rest b e (s\<lparr>sc_lines := sc_lines s @ ls\<rparr>)"
  by (induction ls arbitrary: s) (simp_all add: strip_from.simps(2))

lemma findBlockEnd_body:
  "\<forall>l \<in> set body. trim_space l \<noteq> b \<and> trim_space l \<noteq> e \<Longrightarrow> trim_space l' = e \<Longrightarrow> e \<noteq> b
     \<Longrightarrow> findBlockEnd (body @ l' # rest) b e = Some (length body)"
  by (induction body) auto

lemma seg_not_own:
  assumes "seg_ok s" "\<not> own name s"
  shows "\<forall>l \<in> set (seg_lines s). trim_space l \<noteq> beginMarker name"
proof (cases s)
  case (Plain l)
  with assms plain_not_marker(2) show ?thesis by auto
next
  case (Blk n b body e)
  then have "trim_space b = beginMarker n" "trim_space e = endMarker n" "n \<noteq> name"
    using assms gonfMarker_SomeD by fastforce+
  moreover have "\<forall>l \<in> set body. trim_space l \<noteq> beginMarker name"
    using assms(1) plain_not_marker(2) by (auto simp: Blk list_all_iff)
  ultimately show ?thesis by (auto simp: Blk)
qed

lemma strip_from_others:
  assumes "list_all seg_ok sg" "\<not> list_ex (own name) sg"
  shows "strip_from (segs_lines sg @ rest) (beginMarker name) e s =
    strip_from rest (beginMarker name) e (s\<lparr>sc_lines := sc_lines s @ segs_lines sg\<rparr>)"
  using assms seg_not_own by (intro strip_from_plain) (fastforce simp: segs_lines_def list_all_iff list_ex_iff)

lemma block_lines:
  assumes "seg_ok (Blk n b body e)"
  shows "trim_space b = beginMarker n" "trim_space e = endMarker n"
    "\<forall>l \<in> set body. trim_space l \<noteq> beginMarker m \<and> trim_space l \<noteq> endMarker m"
  using assms gonfMarker_SomeD [of b] gonfMarker_SomeD [of e] plain_not_marker(2,3) by (auto simp: list_all_iff)

lemma strip_from_own:
  assumes "seg_ok (Blk n b body e)"
  shows "strip_from (b # body @ e # rest) (beginMarker n) (endMarker n) s =
    strip_from rest (beginMarker n) (endMarker n)
      (if sc_at s = None
       then s\<lparr>sc_found := sc_found s + 1, sc_at := Some (length (sc_lines s)), sc_firstEnv := blockEnvLines body\<rparr>
       else s\<lparr>sc_found := sc_found s + 1\<rparr>)"
  using block_lines(1,2) [OF assms] findBlockEnd_body [OF block_lines(3) [OF assms, of n] block_lines(2) [OF assms] cron_markers_differ [symmetric]]
  by (simp add: strip_from.simps(2) Let_def)

lemma strip_from_rest:
  assumes "list_all seg_ok sg" "sc_at s = Some k"
  shows "strip_from (segs_lines sg) (beginMarker name) (endMarker name) s =
    s\<lparr>sc_lines := sc_lines s @ segs_lines (filter (\<lambda>s. \<not> own name s) sg),
      sc_found := sc_found s + length (filter (own name) sg)\<rparr>"
  using assms
proof (induction sg arbitrary: s)
  case (Cons x sg)
  show ?case
  proof (cases "own name x")
    case True
    then obtain b body e where x: "x = Blk name b body e" by (cases x) auto
    with Cons show ?thesis using strip_from_own [of name b body e "segs_lines sg" s] by (simp add: x)
  next
    case False
    then have "strip_from (segs_lines [x] @ segs_lines sg) (beginMarker name) (endMarker name) s =
        strip_from (segs_lines sg) (beginMarker name) (endMarker name) (s\<lparr>sc_lines := sc_lines s @ segs_lines [x]\<rparr>)"
      by (intro strip_from_others) (use Cons.prems in simp_all)
    with Cons False show ?thesis by simp
  qed
qed simp

lemma strip_none:
  assumes "list_all seg_ok sg" "\<not> list_ex (own name) sg"
  shows "stripNamedBlocks (segs_lines sg) (beginMarker name) (endMarker name) =
    \<lparr>sc_lines = segs_lines sg, sc_at = None, sc_firstEnv = [], sc_found = 0, sc_healed = False\<rparr>"
  using strip_from_others [OF assms, of "[]"] by (simp add: stripNamedBlocks_def)

lemma strip_first:
  assumes "list_all seg_ok (pre @ Blk name b body e # post)" "\<not> list_ex (own name) pre"
  shows "stripNamedBlocks (segs_lines (pre @ Blk name b body e # post)) (beginMarker name) (endMarker name) =
    \<lparr>sc_lines = segs_lines (pre @ filter (\<lambda>s. \<not> own name s) post), sc_at = Some (length (segs_lines pre)),
     sc_firstEnv = blockEnvLines body, sc_found = 1 + length (filter (own name) post), sc_healed = False\<rparr>"
  using assms strip_from_others [of pre name "b # body @ e # segs_lines post"]
  by (simp add: stripNamedBlocks_def strip_from_own strip_from_rest)

lemma extract_from_skip:
  "\<forall>l \<in> set ls. trim_space l \<noteq> b \<Longrightarrow> extract_from b e None (ls @ rest) = extract_from b e None rest"
  by (induction ls) simp_all

lemma extract_from_body:
  "\<forall>l \<in> set body. trim_space l \<noteq> b \<and> trim_space l \<noteq> e \<Longrightarrow> trim_space l' = e \<Longrightarrow> e \<noteq> b
     \<Longrightarrow> extract_from b e (Some t) (body @ l' # rest) = t @ unlines body @ e @ [NL]"
  by (induction body arbitrary: t) auto

lemma extract_first:
  assumes "list_all seg_ok (pre @ Blk name b body e # post)" "\<not> list_ex (own name) pre"
  shows "extract_from (beginMarker name) (endMarker name) None (segs_lines (pre @ Blk name b body e # post)) =
    unlines (beginMarker name # body @ [endMarker name])"
proof -
  have ok: "seg_ok (Blk name b body e)" using assms(1) by simp
  have pre: "\<forall>l \<in> set (segs_lines pre). trim_space l \<noteq> beginMarker name"
    using assms seg_not_own by (fastforce simp: segs_lines_def list_all_iff list_ex_iff)
  have "extract_from (beginMarker name) (endMarker name) (Some (beginMarker name @ [NL])) (body @ e # segs_lines post) =
      (beginMarker name @ [NL]) @ unlines body @ endMarker name @ [NL]"
    by (rule extract_from_body [OF block_lines(3) [OF ok, of name] block_lines(2) [OF ok] cron_markers_differ [symmetric]])
  with block_lines(1) [OF ok] show ?thesis
    by (simp add: extract_from_skip [OF pre])
qed

section \<open>Merging on segments\<close>

text \<open>The block replaces the first block of the job where it stands when its environment lines are the same.\<close>

definition merge_segs :: "string \<Rightarrow> seg \<Rightarrow> seg list \<Rightarrow> seg list" where
  "merge_segs name blk sg =
     (case dropWhile (\<lambda>s. \<not> own name s) sg of
        [] \<Rightarrow> rtrim_segs sg @ [blk]
      | x # post \<Rightarrow>
          (let pre = takeWhile (\<lambda>s. \<not> own name s) sg; rest = filter (\<lambda>s. \<not> own name s) post in
           if \<not> list_ex (own name) post \<and> seg_body x = seg_body blk then sg
           else if blockEnvLines (seg_body x) = blockEnvLines (seg_body blk) then pre @ blk # rtrim_segs rest
           else rtrim_segs (pre @ rest) @ [blk]))"

abbreviation clean_segs :: "seg list \<Rightarrow> bool" where
  "clean_segs sg \<equiv> list_all clean_line (segs_lines sg)"

lemma own_split:
  obtains (none) "\<not> list_ex (own name) sg"
    | (first) pre b body e post where "sg = pre @ Blk name b body e # post" "\<not> list_ex (own name) pre"
proof (cases "list_ex (own name) sg")
  case True
  then obtain pre x post where "sg = pre @ x # post" "own name x" "\<not> list_ex (own name) pre"
    by (auto simp: list_ex_iff dest!: split_list_first_prop [of _ "own name"])
  then show ?thesis by (cases x) (auto intro: first)
qed (rule none)

lemma merge_segs_none: "\<not> list_ex (own name) sg \<Longrightarrow> merge_segs name blk sg = rtrim_segs sg @ [blk]"
proof -
  assume "\<not> list_ex (own name) sg"
  then have "dropWhile (\<lambda>s. \<not> own name s) sg = []" by (simp add: list_ex_iff)
  then show ?thesis by (simp only: merge_segs_def list.case)
qed

lemma own_first_drop:
  assumes "\<not> list_ex (own name) pre"
  shows "dropWhile (\<lambda>s. \<not> own name s) (pre @ Blk name b body e # post) = Blk name b body e # post"
    "takeWhile (\<lambda>s. \<not> own name s) (pre @ Blk name b body e # post) = pre"
    "filter (\<lambda>s. \<not> own name s) pre = pre" "filter (own name) pre = []"
  using assms by (induction pre) auto

lemma merge_segs_first:
  assumes "\<not> list_ex (own name) pre"
  shows "merge_segs name blk (pre @ Blk name b body e # post) =
    (let rest = filter (\<lambda>s. \<not> own name s) post in
     if \<not> list_ex (own name) post \<and> body = seg_body blk then pre @ Blk name b body e # post
     else if blockEnvLines body = blockEnvLines (seg_body blk) then pre @ blk # rtrim_segs rest
     else rtrim_segs (pre @ rest) @ [blk])"
  by (simp add: merge_segs_def own_first_drop [OF assms] Let_def)

lemma blockEnvLines_append: "blockEnvLines (ls @ ms) = blockEnvLines ls @ blockEnvLines ms"
  by (simp add: blockEnvLines_def)

lemma marker_not_env: "blockEnvLines (beginMarker n # ls @ [endMarker n]) = blockEnvLines ls"
  by (simp add: blockEnvLines_def beginMarker_def endMarker_def beginMarkerPrefix_def endMarkerPrefix_def)

lemma clean_no_NL: "list_all clean_line ls \<Longrightarrow> \<forall>l \<in> set ls. NL \<notin> set l"
  by (auto simp: list_all_iff clean_line_def)

lemma merge_first_shape:
  assumes t: "splitKeep t = segs_lines (pre @ Blk name b bd e # post)" "list_all seg_ok (pre @ Blk name b bd e # post)"
    and pre: "\<not> list_ex (own name) pre" and body: "list_all clean_line (beginMarker name # body @ [endMarker name])"
    and bd: "list_all clean_line bd"
  shows "mergeCrontab t name (unlines (beginMarker name # body @ [endMarker name])) =
    (if \<not> list_ex (own name) post \<and> bd = body then (t, False)
     else if blockEnvLines bd = blockEnvLines body
     then (joinCrontabLines (segs_lines pre @ (beginMarker name # body @ [endMarker name]) @ segs_lines (filter (\<lambda>s. \<not> own name s) post)), True)
     else (joinCrontabLines (segs_lines (pre @ filter (\<lambda>s. \<not> own name s) post)) @ unlines (beginMarker name # body @ [endMarker name]), True))"
proof -
  let ?D = "beginMarker name # body @ [endMarker name]"
  have clean: "list_all clean_line (beginMarker name # bd @ [endMarker name])" using body bd by simp
  have same: "extractBlock t name = unlines ?D \<longleftrightarrow> bd = body"
    unfolding extractBlock_def t(1) extract_first [OF t(2) pre]
    using unlines_inj [of "beginMarker name # bd @ [endMarker name]" ?D] clean_no_NL [OF clean] clean_no_NL [OF body] by auto
  have found: "1 + length (filter (own name) post) = 1 \<longleftrightarrow> \<not> list_ex (own name) post"
    by (auto simp: list_ex_iff filter_empty_conv)
  have "unlines ?D \<noteq> []" by simp
  then show ?thesis
    unfolding mergeCrontab_def t(1) strip_first [OF t(2) pre] splitKeep_unlines [OF body] Let_def
    using same found marker_not_env [of name body] by simp
qed

lemma mergeCrontab_segs:
  assumes t: "splitKeep t = segs_lines sg" "list_all seg_ok sg" "clean_segs sg"
    and blk: "blk = Blk name (beginMarker name) body (endMarker name)" "seg_ok blk" "list_all clean_line (seg_lines blk)"
  shows "splitKeep (fst (mergeCrontab t name (unlines (seg_lines blk)))) = segs_lines (merge_segs name blk sg)"
proof -
  let ?D = "beginMarker name # body @ [endMarker name]"
  have D: "seg_lines blk = ?D" "list_all clean_line ?D" using blk(1,3) by simp_all
  have append: "splitKeep (joinCrontabLines (segs_lines sh) @ unlines ?D) = segs_lines (rtrim_segs sh @ [blk])"
    if "list_all seg_ok sh" "clean_segs sh" for sh
  proof -
    have "joinCrontabLines (segs_lines sh) @ unlines ?D = unlines (segs_lines (rtrim_segs sh) @ ?D)"
      unfolding joinCrontabLines_unlines [OF clean_no_NL [OF that(2)]] rtrim_lines_segs [OF that(1)] by simp
    moreover have "list_all clean_line (segs_lines (rtrim_segs sh) @ ?D)"
      using that(2) D(2) rtrim_segs_subset [of sh] by (auto simp: list_all_iff segs_lines_def)
    ultimately show ?thesis using splitKeep_unlines by (metis D(1) segs_lines_simps append_Nil2)
  qed
  show ?thesis
  proof (cases sg rule: own_split [where name = name])
    case none
    have "mergeCrontab t name (unlines ?D) = (joinCrontabLines (segs_lines sg) @ unlines ?D, True)"
      unfolding mergeCrontab_def t(1) strip_none [OF t(2) none] by simp
    then show ?thesis using append [OF t(2,3)] by (simp add: D(1) merge_segs_none [OF none])
  next
    case (first pre b bd e post)
    let ?rest = "filter (\<lambda>s. \<not> own name s) post"
    have bd: "list_all clean_line bd" using t(3) by (simp add: first)
    have rest: "list_all seg_ok (pre @ ?rest)" "clean_segs (pre @ ?rest)" "list_all seg_ok (pre @ blk # ?rest)" "clean_segs (pre @ blk # ?rest)"
      using t(2,3) blk(2,3) by (auto simp: first(1) list_all_iff segs_lines_def)
    have place: "splitKeep (joinCrontabLines (segs_lines pre @ ?D @ segs_lines ?rest)) = segs_lines (pre @ blk # rtrim_segs ?rest)"
      using splitKeep_joinCrontabLines [OF rest(4)] rtrim_lines_segs [OF rest(3)] rtrim_segs_block [of pre name "beginMarker name" body "endMarker name"]
      by (simp add: blk(1))
    show ?thesis
      unfolding D(1) merge_first_shape [OF t(1,2) [unfolded first(1)] first(2) D(2) bd] first(1) merge_segs_first [OF first(2)]
      using place append [OF rest(1,2)] t(1) by (simp add: first(1) blk(1) Let_def)
  qed
qed

text \<open>What merging promises: one block with the wanted body, every other segment kept in order.\<close>

lemma merge_segs_own:
  assumes "own name blk"
  shows "map seg_body (filter (own name) (merge_segs name blk sg)) = [seg_body blk]"
proof (cases sg rule: own_split [where name = name])
  case none
  then have "filter (own name) sg = []" by (simp add: list_ex_iff filter_empty_conv)
  with assms show ?thesis by (simp add: merge_segs_none [OF none])
next
  case (first pre b bd e post)
  have "filter (own name) (pre @ filter (\<lambda>s. \<not> own name s) post) = []"
    using first(2) by (auto simp: list_ex_iff filter_empty_conv)
  moreover have "\<not> list_ex (own name) post \<Longrightarrow> filter (own name) post = []"
    by (simp add: list_ex_iff filter_empty_conv)
  ultimately show ?thesis
    using assms own_first_drop(4) [OF first(2)]
    by (auto simp: first(1) merge_segs_first [OF first(2)] Let_def simp del: filter_append)
       (simp_all add: own_first_drop(4) [OF first(2)])
qed

lemma merge_segs_others:
  assumes "own name blk"
  shows "rtrim_segs (filter (\<lambda>s. \<not> own name s) (merge_segs name blk sg)) = rtrim_segs (filter (\<lambda>s. \<not> own name s) sg)"
proof (cases sg rule: own_split [where name = name])
  case none
  then have "filter (\<lambda>s. \<not> own name s) sg = sg" by (simp add: list_ex_iff filter_id_conv)
  then have "filter (\<lambda>s. \<not> own name s) (rtrim_segs sg) = rtrim_segs sg"
    using rtrim_segs_subset [of sg] none by (auto simp: list_ex_iff filter_id_conv)
  with assms \<open>filter _ sg = sg\<close> show ?thesis by (simp add: merge_segs_none [OF none])
next
  case (first pre b bd e post)
  let ?rest = "filter (\<lambda>s. \<not> own name s) post"
  have f: "filter (\<lambda>s. \<not> own name s) (rtrim_segs (pre @ ?rest)) = rtrim_segs (pre @ ?rest)"
    "filter (\<lambda>s. \<not> own name s) (rtrim_segs ?rest) = rtrim_segs ?rest"
    using rtrim_segs_subset [of "pre @ ?rest"] rtrim_segs_subset [of ?rest] first(2)
    by (auto simp: list_ex_iff filter_id_conv)
  show ?thesis
    using assms own_first_drop(3) [OF first(2)] f
    by (simp add: first(1) merge_segs_first [OF first(2)] Let_def rtrim_segs_append)
qed

lemma merge_segs_subset: "set (merge_segs name blk sg) \<subseteq> insert blk (set sg)"
proof (cases sg rule: own_split [where name = name])
  case none
  then show ?thesis using rtrim_segs_subset [of sg] by (auto simp: merge_segs_none)
next
  case (first pre b bd e post)
  let ?rest = "filter (\<lambda>s. \<not> own name s) post"
  show ?thesis
    using rtrim_segs_subset [of "pre @ ?rest"] rtrim_segs_subset [of ?rest]
    by (auto simp: first(1) merge_segs_first [OF first(2)] Let_def)
qed

lemma merge_settled:
  assumes t: "splitKeep t = segs_lines sg" "list_all seg_ok sg"
    and body: "list_all clean_line (beginMarker name # body @ [endMarker name])"
    and own: "map seg_body (filter (own name) sg) = [body]"
  shows "mergeCrontab t name (unlines (beginMarker name # body @ [endMarker name])) = (t, False)"
proof (cases sg rule: own_split [where name = name])
  case none
  then have "filter (own name) sg = []" by (simp add: list_ex_iff filter_empty_conv)
  with own show ?thesis by simp
next
  case (first pre b bd e post)
  have "bd = body" "filter (own name) post = []"
    using own own_first_drop(4) [OF first(2)] by (simp_all add: first(1))
  then show ?thesis
    using merge_first_shape [OF t [unfolded first(1)] first(2) body] body
    by (simp add: filter_empty_conv list_ex_iff)
qed

lemma mergeCrontab_absent:
  assumes t: "splitKeep t = segs_lines sg" "list_all seg_ok sg" "clean_segs sg"
  shows "mergeCrontab t name [] =
    (if list_ex (own name) sg then (joinCrontabLines (segs_lines (filter (\<lambda>s. \<not> own name s) sg)), True) else (t, False))"
proof (cases sg rule: own_split [where name = name])
  case none
  then show ?thesis using strip_none [OF t(2) none] by (simp add: mergeCrontab_def t(1))
next
  case (first pre b bd e post)
  then show ?thesis
    using strip_first [OF t(2) [unfolded first(1)] first(2)] own_first_drop(3) [OF first(2)]
    by (simp add: mergeCrontab_def t(1))
qed

end
