(* ===== verification/CronJob.thy ===== *)
theory CronJob
  imports CrontabSegs Packager
begin

text \<open>
  The cron resource (\<open>resource/cron/cron.go\<close>, \<open>crontab.go\<close>, \<open>payload.go\<close>, \<open>planwire.go\<close>): its options,
  registration and plan draft, lowering to an op and rebuilding from one, validation, the job's block, and
  one apply through \<open>crontab(1)\<close>. The crontab program, the current user and the lock of \<open>lock.go\<close> are
  parameters, fields of one record.
\<close>

section \<open>Jobs and their options\<close>

datatype cron_misuse =
    CronUserEmpty
  | CronSchedule schedule_error

record Cron =
  cj_name :: string
  cj_user :: string
  cj_legacy :: string
  cj_command :: string
  cj_minute :: string
  cj_hour :: string
  cj_monthday :: string
  cj_month :: string
  cj_weekday :: string
  cj_env :: "string list"
  cj_Absent :: bool
  cj_Sensitive :: bool
  cj_DependsOn :: "string list"
  cj_misuse :: "cron_misuse option"

definition cj_fields :: "Cron \<Rightarrow> string list" where
  "cj_fields c = [cj_minute c, cj_hour c, cj_monthday c, cj_month c, cj_weekday c]"

definition cron_ReportMisuse :: "cron_misuse \<Rightarrow> Cron \<Rightarrow> Cron" where
  "cron_ReportMisuse e c = c\<lparr>cj_misuse := first_of (cj_misuse c) e\<rparr>"

definition SetSchedule :: "string \<Rightarrow> Cron \<Rightarrow> Cron" where
  "SetSchedule schedule c =
     (case splitSchedule schedule of
        Inl e \<Rightarrow> cron_ReportMisuse (CronSchedule e) c
      | Inr fs \<Rightarrow>
          c\<lparr>cj_minute := fs ! 0, cj_hour := fs ! 1, cj_monthday := fs ! 2, cj_month := fs ! 3, cj_weekday := fs ! 4\<rparr>)"

datatype cron_option =
    WithCronUser string
  | WithLegacyCommand string
  | WithCommand string
  | WithSchedule string
  | WithMinute string
  | WithHour string
  | WithMonthday string
  | WithMonth string
  | WithWeekday string
  | WithCronEnv string
  | IsAbsent
  | WithSensitive
  | CronDependsOn "string list"

fun apply_cron_option :: "cron_option \<Rightarrow> Cron \<Rightarrow> Cron" where
  "apply_cron_option (WithCronUser u) c =
     (if trim_space u = [] then cron_ReportMisuse CronUserEmpty c else c\<lparr>cj_user := u\<rparr>)"
| "apply_cron_option (WithLegacyCommand cmd) c = c\<lparr>cj_legacy := cmd\<rparr>"
| "apply_cron_option (WithCommand cmd) c = c\<lparr>cj_command := cmd\<rparr>"
| "apply_cron_option (WithSchedule s) c = SetSchedule s c"
| "apply_cron_option (WithMinute v) c = c\<lparr>cj_minute := v\<rparr>"
| "apply_cron_option (WithHour v) c = c\<lparr>cj_hour := v\<rparr>"
| "apply_cron_option (WithMonthday v) c = c\<lparr>cj_monthday := v\<rparr>"
| "apply_cron_option (WithMonth v) c = c\<lparr>cj_month := v\<rparr>"
| "apply_cron_option (WithWeekday v) c = c\<lparr>cj_weekday := v\<rparr>"
| "apply_cron_option (WithCronEnv kv) c = c\<lparr>cj_env := cj_env c @ [kv]\<rparr>"
| "apply_cron_option IsAbsent c = c\<lparr>cj_Absent := True\<rparr>"
| "apply_cron_option WithSensitive c = c\<lparr>cj_Sensitive := True\<rparr>"
| "apply_cron_option (CronDependsOn ids) c = c\<lparr>cj_DependsOn := cj_DependsOn c @ ids\<rparr>"

definition newCron :: "string \<Rightarrow> cron_option list \<Rightarrow> Cron" where
  "newCron name opts =
     fold apply_cron_option opts
       \<lparr>cj_name = name, cj_user = ''root'', cj_legacy = [], cj_command = [], cj_minute = ''*'', cj_hour = ''*'',
        cj_monthday = ''*'', cj_month = ''*'', cj_weekday = ''*'', cj_env = [], cj_Absent = False, cj_Sensitive = False,
        cj_DependsOn = [], cj_misuse = None\<rparr>"

definition regName :: "Cron \<Rightarrow> string" where
  "regName c = cj_user c @ ''/'' @ cj_name c"

definition cron_id :: "Cron \<Rightarrow> string" where
  "cron_id c = FormatID ''Cron'' (regName c)"

section \<open>Recording and rebuilding a job\<close>

text \<open>The flat draft fields a cron job uses travel here beside its payload.\<close>

record cron_Payload =
  py_CronUser :: string
  py_LegacyCommand :: string
  py_Schedule :: string
  py_CronEnv :: "string list"

record cron_draft =
  cd_Name :: string
  cd_Command :: string
  cd_Absent :: bool
  cd_Payload :: "cron_Payload option"

definition cron_planDraft :: "Cron \<Rightarrow> string \<Rightarrow> cron_draft draft" where
  "cron_planDraft c i =
     \<lparr>pd_Kind = ''cron'', pd_ID = i, pd_User = False, pd_IfChanged = False, pd_Watch = [],
      pd_Deps = SortedIDs (cj_DependsOn c),
      pd_rest = Some \<lparr>df_Path = [], df_Elevate = False, df_Sensitive = cj_Sensitive c, df_SourceDirGlob = None,
        df_SourceFilePath = None, df_Payload =
          \<lparr>cd_Name = cj_name c, cd_Command = cj_command c, cd_Absent = cj_Absent c, cd_Payload =
             Some \<lparr>py_CronUser = cj_user c, py_LegacyCommand = cj_legacy c,
                   py_Schedule = join [SP] (cj_fields c), py_CronEnv = cj_env c\<rparr>\<rparr>\<rparr>\<rparr>"

datatype cron_decl_error =
    CronRefused cron_misuse
  | CronCollided collision

definition cron_Present ::
  "string \<Rightarrow> cron_option list \<Rightarrow> (Cron, cron_draft draft_fields) repository
   \<Rightarrow> (cron_decl_error, (Cron, cron_draft draft_fields) repository) result" where
  "cron_Present name opts r =
     (let c = newCron name opts in
      case cj_misuse c of
        Some e \<Rightarrow> Inl (CronRefused e)
      | None \<Rightarrow>
          bind_res (map_err CronCollided (register (new_resource ''Cron'' (regName c) (Some c) (cj_DependsOn c)) r))
            (\<lambda>r'. Inr (recordDraft (cron_planDraft c (cron_id c)) r')))"

definition cron_Absent where
  "cron_Absent name opts = cron_Present name (opts @ [IsAbsent])"

datatype cron_invalid =
    NameEmpty
  | NameSpaced
  | UserEmpty
  | CommandRequired
  | CommandNewline
  | LegacyAbsent
  | LegacyNotOneLine
  | FieldSyntax string
  | EnvNotOneLine
  | EnvNotKeyVal
  | EnvLikeMarker

datatype 'x cron_error =
    CronMissingName
  | CronMissingPayload
  | CronScheduleFields string
  | CronMisused cron_misuse
  | CronInvalid string cron_invalid
  | CronLocked 'x
  | CrontabRun "string list" 'x
  | CrontabExit "string list" int nat nat

definition cron_ToOp :: "cron_draft draft \<Rightarrow> ('x cron_error, Op) result" where
  "cron_ToOp d =
     (case pd_rest d of
        None \<Rightarrow> Inl CronMissingPayload
      | Some m \<Rightarrow>
          (case cd_Payload (df_Payload m) of
             None \<Rightarrow> Inl CronMissingPayload
           | Some p \<Rightarrow>
               Inr ((zero_op KindCron)
                 \<lparr>op_id := pd_ID d, op_name := cd_Name (df_Payload m), op_absent := cd_Absent (df_Payload m),
                  op_command := cd_Command (df_Payload m), op_deps := pd_Deps d,
                  op_payload := Some (PCron \<lparr>cr_user = py_CronUser p, cr_legacy_command = py_LegacyCommand p,
                    cr_schedule = py_Schedule p, cr_env = py_CronEnv p\<rparr>)\<rparr>)))"

definition PayloadOf_Cron :: "Op \<Rightarrow> CronPayload" where
  "PayloadOf_Cron op =
     (case op_payload op of
        Some (PCron p) \<Rightarrow> p
      | _ \<Rightarrow> \<lparr>cr_user = [], cr_legacy_command = [], cr_schedule = [], cr_env = []\<rparr>)"

text \<open>The options the plan handler rebuilds a job with.\<close>

definition cron_handler_options :: "Op \<Rightarrow> ('x cron_error, cron_option list) result" where
  "cron_handler_options op =
     (if op_name op = [] then Inl CronMissingName
      else
        (let p = PayloadOf_Cron op; fs = Fields (cr_schedule p) in
         if \<not> op_absent op \<and> length fs \<noteq> 5 then Inl (CronScheduleFields (cr_schedule p))
         else Inr
           ((if op_absent op then [IsAbsent] else [])
            @ (if cr_user p \<noteq> [] then [WithCronUser (cr_user p)] else [])
            @ (if op_command op \<noteq> [] then [WithCommand (op_command op)] else [])
            @ (if cr_legacy_command p \<noteq> [] then [WithLegacyCommand (cr_legacy_command p)] else [])
            @ (if length fs = 5
               then [WithMinute (fs ! 0), WithHour (fs ! 1), WithMonthday (fs ! 2), WithMonth (fs ! 3), WithWeekday (fs ! 4)]
               else [])
            @ map WithCronEnv (cr_env p)
            @ (if op_sensitive op then [WithSensitive] else []))))"

section \<open>Validation and the block of a job\<close>

definition validate_fields :: "Cron \<Rightarrow> cron_invalid check" where
  "validate_fields c =
     check_all (\<lambda>(label, v). guard_res (validCronField v (cronFieldRange label)) (FieldSyntax label))
       (zip cronFieldLabels (cj_fields c))"

definition validate_env :: "string \<Rightarrow> cron_invalid check" where
  "validate_env e0 =
     (let e = trim_space e0 in
      if e = [] \<or> contains_any e [NL, CR] then Inl EnvNotOneLine
      else if \<not> contains e ''='' then Inl EnvNotKeyVal
      else if has_prefix e ''# BEGIN GONF'' \<or> has_prefix e ''# END GONF'' then Inl EnvLikeMarker
      else Inr ())"

definition validate_cron :: "Cron \<Rightarrow> cron_invalid check" where
  "validate_cron c =
     (if cj_name c = [] then Inl NameEmpty
      else if contains_any (cj_name c) ('' '' @ [TAB, NL, CR] @ ''[]'') then Inl NameSpaced
      else if trim_space (cj_user c) = [] then Inl UserEmpty
      else if \<not> cj_Absent c \<and> trim_space (cj_command c) = [] then Inl CommandRequired
      else if \<not> cj_Absent c \<and> contains_any (cj_command c) [NL, CR] then Inl CommandNewline
      else if cj_legacy c \<noteq> [] \<and> cj_Absent c then Inl LegacyAbsent
      else if cj_legacy c \<noteq> [] \<and> (trim_space (cj_legacy c) = [] \<or> contains_any (cj_legacy c) [NL, CR])
      then Inl LegacyNotOneLine
      else bind_res (validate_fields c) (\<lambda>_. check_all validate_env (cj_env c)))"

definition cron_block :: "Cron \<Rightarrow> string" where
  "cron_block c =
     beginMarker (cj_name c) @ [NL] @ concat (map (\<lambda>e. e @ [NL]) (cj_env c))
     @ join [SP] (cj_fields c @ [cj_command c]) @ [NL] @ endMarker (cj_name c) @ [NL]"

definition cron_adoption :: "Cron \<Rightarrow> adoption" where
  "cron_adoption c =
     (if \<not> cj_Absent c \<and> cj_env c = []
      then \<lparr>ad_legacy = cj_legacy c, ad_identical = Some \<lparr>ce_fields = cj_fields c, ce_command = cj_command c\<rparr>,
            ad_name = cj_name c, ad_block = cron_block c\<rparr>
      else \<lparr>ad_legacy = cj_legacy c, ad_identical = None, ad_name = [], ad_block = []\<rparr>)"

text \<open>What \<open>reconcile\<close> makes of the table it read: the new table, and whether it differs.\<close>

definition cron_table :: "Cron \<Rightarrow> string \<Rightarrow> string \<times> bool" where
  "cron_table c current =
     (let desired = (if cj_Absent c then [] else cron_block c) in
      case adoptUnmanaged current (cron_adoption c) of
        (adopted, adoptedChanged) \<Rightarrow>
          (case mergeCrontab adopted (cj_name c) desired of
             (newTab, changed) \<Rightarrow> (newTab, changed \<or> adoptedChanged)))"

section \<open>Applying\<close>

text \<open>
  A run of \<open>crontab\<close> gives stdout, stderr and the exit code, or an error of the runner. \<open>cl_lock\<close> is
  \<open>acquireCrontabLock\<close>, which only ever adds a lock file, \<open>cl_current\<close> the name of \<open>user.Current\<close>.
\<close>

record ('h, 'x) crontab_client =
  cl_current :: "string option"
  cl_lock :: "string \<Rightarrow> 'h \<Rightarrow> 'x option"
  cl_read :: "string list \<Rightarrow> 'h \<Rightarrow> ('x, string \<times> string \<times> int) result"
  cl_write :: "string \<Rightarrow> string list \<Rightarrow> 'h \<Rightarrow> 'h \<times> ('x, string \<times> string \<times> int) result"

definition crontabArgs :: "('h, 'x) crontab_client \<Rightarrow> string \<Rightarrow> string list \<Rightarrow> string list" where
  "crontabArgs cl userName extra =
     (if cl_current cl = Some userName then extra else [''-u'', userName] @ extra)"

definition crontabFailure :: "string list \<Rightarrow> int \<Rightarrow> string \<Rightarrow> string \<Rightarrow> 'x cron_error" where
  "crontabFailure args code out err = CrontabExit args code (length out) (length err)"

definition readCrontab :: "('h, 'x) crontab_client \<Rightarrow> Cron \<Rightarrow> 'h \<Rightarrow> ('x cron_error, string) result" where
  "readCrontab cl c h =
     (let args = crontabArgs cl (cj_user c) [''-l''] in
      case cl_read cl args h of
        Inl x \<Rightarrow> Inl (CrontabRun args x)
      | Inr (out, err, code) \<Rightarrow>
          if code \<noteq> 0 then
            (if contains (to_lower (out @ err)) ''no crontab'' then Inr []
             else Inl (crontabFailure args code out err))
          else Inr out)"

definition writeCrontab :: "('h, 'x) crontab_client \<Rightarrow> Cron \<Rightarrow> string \<Rightarrow> ('h, 'x cron_error) host_action" where
  "writeCrontab cl c content h =
     (let args = crontabArgs cl (cj_user c) [''-''] in
      case cl_write cl content args h of
        (h', Inl x) \<Rightarrow> (h', Some (CrontabRun args x))
      | (h', Inr (out, err, code)) \<Rightarrow> (h', if code \<noteq> 0 then Some (crontabFailure args code out err) else None))"

definition cron_reconcile ::
  "('h, 'x) crontab_client \<Rightarrow> Cron \<Rightarrow> 'h run_state \<Rightarrow> 'h run_state \<times> 'x cron_error option" where
  "cron_reconcile cl c st =
     (case readCrontab cl c (rs_host st) of
        Inl e \<Rightarrow> (st, Some e)
      | Inr current \<Rightarrow>
          (case cron_table c current of
             (newTab, changed) \<Rightarrow>
               if \<not> changed then (Note (cron_id c) StatusOK st, None)
               else Mutate (cron_id c) (writeCrontab cl c newTab) st))"

definition cron_apply ::
  "('h, 'x) crontab_client \<Rightarrow> Cron \<Rightarrow> 'h run_state \<Rightarrow> 'h run_state \<times> 'x cron_error option" where
  "cron_apply cl c st =
     (case validate_cron c of
        Inl e \<Rightarrow> (st, Some (CronInvalid (cron_id c) e))
      | Inr _ \<Rightarrow>
          if rs_dryRun st then cron_reconcile cl c st
          else (case cl_lock cl (cj_user c) (rs_host st) of
                  Some x \<Rightarrow> (st, Some (CronLocked x))
                | None \<Rightarrow> cron_reconcile cl c st))"

definition cron_EnsureWith ::
  "('h, 'x) crontab_client \<Rightarrow> string \<Rightarrow> cron_option list \<Rightarrow> 'h run_state \<Rightarrow> 'h run_state \<times> 'x cron_error option" where
  "cron_EnsureWith cl name opts st =
     (let c = newCron name opts in
      case cj_misuse c of Some e \<Rightarrow> (st, Some (CronMisused e)) | None \<Rightarrow> cron_apply cl c st)"

definition cron_handler_Apply ::
  "('h, 'x) crontab_client \<Rightarrow> Op \<Rightarrow> 'h run_state \<Rightarrow> 'h run_state \<times> 'x cron_error option" where
  "cron_handler_Apply cl op st =
     (case cron_handler_options op of
        Inl e \<Rightarrow> (st, Some e)
      | Inr opts \<Rightarrow> cron_EnsureWith cl (op_name op) opts st)"

section \<open>Lemmas about a valid job\<close>

definition cron_lines :: "Cron \<Rightarrow> string list" where
  "cron_lines c = cj_env c @ [entry_line (cj_fields c) (cj_command c)]"

definition own_block :: "Cron \<Rightarrow> seg" where
  "own_block c = Blk (cj_name c) (beginMarker (cj_name c)) (cron_lines c) (endMarker (cj_name c))"

text \<open>Every environment value is one line (see \<open>trimmed_env_not_settled\<close> for why this is asked).\<close>

definition one_line_env :: "Cron \<Rightarrow> bool" where
  "one_line_env c \<longleftrightarrow> list_all (\<lambda>e. NL \<notin> set e \<and> CR \<notin> set e) (cj_env c)"

lemma cron_block_unlines: "cron_block c = unlines (beginMarker (cj_name c) # cron_lines c @ [endMarker (cj_name c)])"
  by (simp add: cron_block_def cron_lines_def entry_line_def) (simp add: unlines_def)

lemma own_block_simps [simp]:
  "own (cj_name c) (own_block c)" "seg_body (own_block c) = cron_lines c" "\<not> taken a (own_block c)"
  "seg_lines (own_block c) = beginMarker (cj_name c) # cron_lines c @ [endMarker (cj_name c)]"
  by (simp_all add: own_block_def)

lemma five_fields: "[0..<5] = [0, 1, 2, 3, 4::nat]"
  by (simp add: upt_conv_Cons)

lemma validate_cron_valid:
  assumes "validate_cron c = Inr ()"
  shows "marker_name_ok (cj_name c)" "trim_space (cj_user c) \<noteq> []" "valid_fields (cj_fields c)"
    "\<not> cj_Absent c \<Longrightarrow> trim_space (cj_command c) \<noteq> [] \<and> NL \<notin> set (cj_command c) \<and> CR \<notin> set (cj_command c)"
    "cj_Absent c \<Longrightarrow> cj_legacy c = []"
    "\<forall>e \<in> set (cj_env c). \<not> looksLikeGonfMarker e"
proof -
  note v = assms [unfolded validate_cron_def]
  have name: "cj_name c \<noteq> []" "\<not> contains_any (cj_name c) ('' '' @ [TAB, NL, CR] @ ''[]'')"
    using v by (simp_all split: if_split_asm)
  then show "marker_name_ok (cj_name c)" by (simp only: marker_name_ok_def simp_thms)
  show "trim_space (cj_user c) \<noteq> []" using v by (simp split: if_split_asm)
  have "\<not> cj_Absent c \<Longrightarrow> trim_space (cj_command c) \<noteq> []" "\<not> cj_Absent c \<Longrightarrow> \<not> contains_any (cj_command c) [NL, CR]"
    using v by (simp_all split: if_split_asm)
  then show "\<not> cj_Absent c \<Longrightarrow> trim_space (cj_command c) \<noteq> [] \<and> NL \<notin> set (cj_command c) \<and> CR \<notin> set (cj_command c)"
    by (auto simp: contains_any_iff)
  show "cj_Absent c \<Longrightarrow> cj_legacy c = []" using v by (simp split: if_split_asm)
  have "validate_fields c = Inr ()" using v by (simp add: res_simps split: if_split_asm)
  then show "valid_fields (cj_fields c)"
    using five_fields by (simp add: validate_fields_def valid_fields_def cj_fields_def cronFieldLabels_def
        cronFieldRangeByIndex_def res_simps)
  have "check_all validate_env (cj_env c) = Inr ()" using v by (simp add: bind_res_Inr_iff split: if_split_asm)
  then show "\<forall>e \<in> set (cj_env c). \<not> looksLikeGonfMarker e"
    by (auto simp: res_simps validate_env_def Let_def looksLikeGonfMarker_def split: if_splits)
qed

lemma cron_byte_no_space: "cron_byte c \<Longrightarrow> \<not> starts_space c"
  by (auto simp: starts_space_def go_spaces_def cron_byte_def)

lemma entry_line_start:
  assumes "valid_fields fs"
  obtains c s where "entry_line fs command = c # s" "cron_byte c"
proof -
  have bytes: "\<forall>f \<in> set fs. f \<noteq> [] \<and> list_all cron_byte f" using valid_fields_cron [OF assms] by blast
  have "length fs = 5" using assms by (simp add: valid_fields_def)
  with bytes obtain c w gs where "fs = (c # w) # gs" by (cases fs) (auto simp: neq_Nil_conv)
  with bytes that show ?thesis by (auto simp: entry_line_concat)
qed

lemma clean_lineI: "NL \<notin> set l \<Longrightarrow> CR \<notin> set l \<Longrightarrow> clean_line l"
  by (metis clean_line_def last_in_set)

lemma own_block_ok:
  assumes "validate_cron c = Inr ()" "\<not> cj_Absent c" "one_line_env c"
  shows "seg_ok (own_block c)" "list_all clean_line (beginMarker (cj_name c) # cron_lines c @ [endMarker (cj_name c)])"
proof -
  note v = validate_cron_valid [OF assms(1)]
  have command: "NL \<notin> set (cj_command c)" "CR \<notin> set (cj_command c)" using v(4) [OF assms(2)] by auto
  have bytes: "\<forall>f \<in> set (cj_fields c). list_all cron_byte f" using valid_fields_cron(2) [OF v(3)] by blast
  have "x \<in> set (concat (map (\<lambda>f. f @ [SP]) (cj_fields c))) \<Longrightarrow> x = SP \<or> cron_byte x" for x
    using bytes by (auto simp: list_all_iff split: if_split_asm)
  then have "NL \<notin> set (concat (map (\<lambda>f. f @ [SP]) (cj_fields c)))" "CR \<notin> set (concat (map (\<lambda>f. f @ [SP]) (cj_fields c)))"
    using cron_bytes_plain by blast+
  with command have entry: "NL \<notin> set (entry_line (cj_fields c) (cj_command c))" "CR \<notin> set (entry_line (cj_fields c) (cj_command c))"
    by (simp_all only: entry_line_concat set_append Un_iff simp_thms)
  obtain b s where b: "entry_line (cj_fields c) (cj_command c) = b # s" "cron_byte b"
    by (rule entry_line_start [OF v(3)])
  have "\<not> looksLikeGonfMarker (b # s)"
    using b(2) cron_bytes_plain cron_byte_no_space by (intro not_marker_start) auto
  then have plain: "list_all (\<lambda>l. \<not> looksLikeGonfMarker l) (cron_lines c)"
    using v(6) b(1) by (simp add: cron_lines_def list_all_iff)
  show "seg_ok (own_block c)"
    using v(1) plain gonfMarker_begin [OF trim_space_markers(1)] gonfMarker_end [OF trim_space_markers(2)]
    by (simp add: own_block_def)
  have "NL \<notin> set (cj_name c)" using v(1) by (auto simp: marker_name_ok_def contains_any_iff)
  then have "clean_line (beginMarker (cj_name c))" "clean_line (endMarker (cj_name c))"
    by (simp_all add: clean_line_def beginMarker_def endMarker_def beginMarkerPrefix_def endMarkerPrefix_def)
  moreover have "clean_line (entry_line (cj_fields c) (cj_command c))"
    by (rule clean_lineI [OF entry])
  moreover have "list_all clean_line (cj_env c)"
    using assms(3) by (auto simp: one_line_env_def list_all_iff intro: clean_lineI)
  ultimately show "list_all clean_line (beginMarker (cj_name c) # cron_lines c @ [endMarker (cj_name c)])"
    by (simp add: cron_lines_def)
qed

lemma cron_adoption_off:
  assumes "validate_cron c = Inr ()" "cj_Absent c"
  shows "adoptUnmanaged t (cron_adoption c) = (t, False)" "\<not> taken (cron_adoption c) s"
proof -
  have "cj_legacy c = []" using validate_cron_valid(5) [OF assms(1)] assms(2) .
  then show "adoptUnmanaged t (cron_adoption c) = (t, False)"
    using assms(2) by (simp add: cron_adoption_def adoptUnmanaged_def)
  show "\<not> taken (cron_adoption c) s"
    using assms(2) \<open>cj_legacy c = []\<close>
    by (auto simp: cron_adoption_def taken_def adoption_match_def split: seg.splits option.splits)
qed

lemma blank_not_taken [simp]: "\<not> taken a (Plain [])"
proof -
  have "cronEntryParts [] = None" by code_simp
  then show ?thesis by (simp add: adoption_match_def)
qed

lemma clean_segs_rtrim: "clean_segs sg \<Longrightarrow> clean_segs (rtrim_segs sg)"
  using rtrim_segs_subset [of sg] by (auto simp: list_all_iff segs_lines_def)

text \<open>The table after adoption, as segments: the taken entries are gone, the block may stand in their place.\<close>

lemma adopted_table:
  assumes c: "validate_cron c = Inr ()" "\<not> cj_Absent c" "one_line_env c"
    and t: "splitKeep t = segs_lines sg" "list_all seg_ok sg" "clean_segs sg"
  defines "placed \<equiv> ad_identical (cron_adoption c) = None \<or> list_ex (own (cj_name c)) sg"
  defines "sg1 \<equiv> (if list_ex (taken (cron_adoption c)) sg
      then rtrim_segs (adopt_segs (cron_adoption c) (own_block c) placed sg) else sg)"
  shows "splitKeep (fst (adoptUnmanaged t (cron_adoption c))) = segs_lines sg1" "list_all seg_ok sg1" "clean_segs sg1"
    "\<not> list_ex (taken (cron_adoption c)) sg1"
    "rtrim_segs (filter (\<lambda>s. \<not> own (cj_name c) s) sg1) =
       rtrim_segs (filter (\<lambda>s. \<not> own (cj_name c) s \<and> \<not> taken (cron_adoption c) s) sg)"
proof -
  let ?a = "cron_adoption c"
  let ?out = "adopt_segs ?a (own_block c) placed sg"
  note ok = own_block_ok [OF c]
  have out: "list_all seg_ok ?out" "clean_segs ?out"
    subgoal using adopt_segs_ok [OF ok(1) t(2)] by blast
    subgoal using adopt_segs_subset [of ?a "own_block c" placed sg] t(3) ok(2)
      by (fastforce simp: list_all_iff segs_lines_def)
    done
  have name: "ad_identical ?a \<noteq> None \<Longrightarrow> ad_name ?a = cj_name c \<and> splitKeep (ad_block ?a) = seg_lines (own_block c)"
    using splitKeep_unlines [OF ok(2)] by (auto simp: cron_adoption_def cron_block_unlines split: if_splits)
  have adopt: "adoptUnmanaged t ?a = (if list_ex (taken ?a) sg then (joinCrontabLines (segs_lines ?out), True) else (t, False))"
  proof -
    have "ad_identical ?a = None \<or> list_ex (own (ad_name ?a)) sg \<longleftrightarrow> placed" using name unfolding placed_def by (cases "ad_identical ?a") auto
    with adoptUnmanaged_segs [OF t(1,2), of ?a "own_block c"] name show ?thesis by simp
  qed
  have none: "\<not> list_ex (taken ?a) ?out"
  proof (induction sg arbitrary: placed)
    case (Cons s sg)
    then show ?case by auto
  qed simp
  show "splitKeep (fst (adoptUnmanaged t ?a)) = segs_lines sg1"
    using t(1) splitKeep_joinCrontabLines [OF out(2)] rtrim_lines_segs [OF out(1)] by (simp add: adopt sg1_def)
  show "list_all seg_ok sg1" "clean_segs sg1"
    using t out by (simp_all add: sg1_def list_all_rtrim clean_segs_rtrim)
  show "\<not> list_ex (taken ?a) sg1"
    using none rtrim_segs_subset [of ?out] by (auto simp: sg1_def list_ex_iff)
  show "rtrim_segs (filter (\<lambda>s. \<not> own (cj_name c) s) sg1) =
      rtrim_segs (filter (\<lambda>s. \<not> own (cj_name c) s \<and> \<not> taken ?a s) sg)"
  proof (cases "list_ex (taken ?a) sg")
    case True
    then show ?thesis
      by (simp add: sg1_def rtrim_segs_filter adopt_segs_others)
  next
    case False
    then have "filter (\<lambda>s. \<not> own (cj_name c) s \<and> \<not> taken ?a s) sg = filter (\<lambda>s. \<not> own (cj_name c) s) sg"
      by (auto simp: list_ex_iff intro: filter_cong)
    with False show ?thesis by (simp add: sg1_def)
  qed
qed

lemma cron_table_unfold:
  "cron_table c t =
     (let a = adoptUnmanaged t (cron_adoption c);
          m = mergeCrontab (fst a) (cj_name c) (if cj_Absent c then [] else cron_block c)
      in (fst m, snd m \<or> snd a))"
  by (simp add: cron_table_def Let_def split: prod.split)

lemma cron_table_segs:
  assumes c: "validate_cron c = Inr ()" "one_line_env c"
    and t: "crontab_segs (splitKeep t) = Some sg" "list_all clean_line (splitKeep t)"
  shows "\<exists>sg'. crontab_segs (splitKeep (fst (cron_table c t))) = Some sg'
    \<and> map seg_body (filter (own (cj_name c)) sg') = (if cj_Absent c then [] else [cron_lines c])
    \<and> rtrim_segs (filter (\<lambda>s. \<not> own (cj_name c) s) sg') =
        rtrim_segs (filter (\<lambda>s. \<not> own (cj_name c) s \<and> \<not> taken (cron_adoption c) s) sg)
    \<and> \<not> list_ex (taken (cron_adoption c)) sg'"
proof (cases "cj_Absent c")
  case True
  let ?rest = "filter (\<lambda>s. \<not> own (cj_name c) s) sg"
  have sg: "splitKeep t = segs_lines sg" "list_all seg_ok sg" "clean_segs sg"
    using t by (auto simp: crontab_segs_iff)
  have rest: "list_all seg_ok ?rest" "clean_segs ?rest" using sg by (auto simp: list_all_iff segs_lines_def)
  note off = cron_adoption_off [OF c(1) True]
  have tab: "fst (cron_table c t) = fst (mergeCrontab t (cj_name c) [])"
    by (simp add: cron_table_unfold off(1) True Let_def)
  define sg' where "sg' = (if list_ex (own (cj_name c)) sg then rtrim_segs ?rest else sg)"
  have "splitKeep (fst (cron_table c t)) = segs_lines sg'"
    unfolding tab mergeCrontab_absent [OF sg] sg'_def
    using sg(1) splitKeep_joinCrontabLines [OF rest(2)] rtrim_lines_segs [OF rest(1)] by simp
  moreover have "list_all seg_ok sg'" using sg(2) rest(1) by (simp add: sg'_def list_all_rtrim)
  moreover have "filter (own (cj_name c)) sg' = []"
    using rtrim_segs_subset [of ?rest] by (auto simp: sg'_def filter_empty_conv list_ex_iff)
  moreover have "rtrim_segs (filter (\<lambda>s. \<not> own (cj_name c) s) sg') = rtrim_segs ?rest"
    by (simp add: sg'_def rtrim_segs_filter)
  ultimately show ?thesis using True off(2) by (auto simp: crontab_segs_iff list_ex_iff)
next
  case False
  have sg: "splitKeep t = segs_lines sg" "list_all seg_ok sg" "clean_segs sg"
    using t by (auto simp: crontab_segs_iff)
  obtain sg1 where sg1: "splitKeep (fst (adoptUnmanaged t (cron_adoption c))) = segs_lines sg1" "list_all seg_ok sg1" "clean_segs sg1"
    "\<not> list_ex (taken (cron_adoption c)) sg1"
    "rtrim_segs (filter (\<lambda>s. \<not> own (cj_name c) s) sg1) =
       rtrim_segs (filter (\<lambda>s. \<not> own (cj_name c) s \<and> \<not> taken (cron_adoption c) s) sg)"
    using adopted_table [OF c(1) False c(2) sg] by blast
  note ok = own_block_ok [OF c(1) False c(2)]
  let ?sg' = "merge_segs (cj_name c) (own_block c) sg1"
  have "fst (cron_table c t) = fst (mergeCrontab (fst (adoptUnmanaged t (cron_adoption c))) (cj_name c) (unlines (seg_lines (own_block c))))"
    by (simp add: cron_table_unfold False Let_def cron_block_unlines)
  then have "splitKeep (fst (cron_table c t)) = segs_lines ?sg'"
    using mergeCrontab_segs [OF sg1(1,2,3) own_block_def ok(1)] ok(2) by simp
  moreover have "list_all seg_ok ?sg'" "\<not> list_ex (taken (cron_adoption c)) ?sg'"
    using merge_segs_subset [of "cj_name c" "own_block c" sg1] sg1(2,4) ok(1) by (auto simp: list_all_iff list_ex_iff)
  ultimately show ?thesis
    using False sg1(5) merge_segs_own [of "cj_name c" "own_block c" sg1] merge_segs_others [of "cj_name c" "own_block c" sg1]
    by (intro exI [of _ ?sg']) (simp add: crontab_segs_iff)
qed

end
