(* ===== verification/CronTable.thy ===== *)
theory CronTable
  imports CronJob
begin

text \<open>
  What one apply of a cron job makes of a crontab: the table on segments, the environment of the job, the
  lines of a corrupt table, a second apply, and the way of a job through a plan.
\<close>

section \<open>What one apply does to the table\<close>

text \<open>
  C31: what an apply makes of a well-formed crontab. Whatever the table holds (several old blocks of the job,
  blocks of other jobs, unmanaged entries), afterwards it has exactly one block of a present job, with exactly
  its environment lines and its entry, and none of an absent one; everything else stands in its order, but for
  the unmanaged entries the job takes over and blank lines at the end of the table.
\<close>

theorem cron_table_spec:
  assumes "validate_cron c = Inr ()" "one_line_env c"
    and "crontab_segs (splitKeep t) = Some sg" "list_all clean_line (splitKeep t)"
  shows "\<exists>sg'. crontab_segs (splitKeep (fst (cron_table c t))) = Some sg'
    \<and> map seg_body (filter (own (cj_name c)) sg') = (if cj_Absent c then [] else [cron_lines c])
    \<and> rtrim_segs (filter (\<lambda>s. \<not> own (cj_name c) s) sg') =
        rtrim_segs (filter (\<lambda>s. \<not> own (cj_name c) s \<and> \<not> taken (cron_adoption c) s) sg)"
  using cron_table_segs [OF assms] by blast

lemma cron_table_settled:
  assumes c: "validate_cron c = Inr ()" "one_line_env c"
    and t: "crontab_segs (splitKeep t) = Some sg"
    and own: "map seg_body (filter (own (cj_name c)) sg) = (if cj_Absent c then [] else [cron_lines c])"
    and taken: "\<not> list_ex (taken (cron_adoption c)) sg"
  shows "cron_table c t = (t, False)"
proof -
  have sg: "splitKeep t = segs_lines sg" "list_all seg_ok sg" using t by (auto simp: crontab_segs_iff)
  show ?thesis
  proof (cases "cj_Absent c")
    case True
    then have "\<not> list_ex (own (cj_name c)) sg" using own by (simp add: list_ex_iff filter_empty_conv)
    then have "mergeCrontab t (cj_name c) [] = (t, False)"
      using strip_none [OF sg(2)] by (simp add: mergeCrontab_def sg(1))
    then show ?thesis using True cron_adoption_off(1) [OF c(1) True] by (simp add: cron_table_unfold Let_def)
  next
    case False
    note ok = own_block_ok [OF c(1) False c(2)]
    have "adoptUnmanaged t (cron_adoption c) = (t, False)"
    proof -
      have "ad_identical (cron_adoption c) \<noteq> None \<Longrightarrow> splitKeep (ad_block (cron_adoption c)) = seg_lines (own_block c)"
        using splitKeep_unlines [OF ok(2)] by (auto simp: cron_adoption_def cron_block_unlines split: if_splits)
      from adoptUnmanaged_segs [OF sg this] taken show ?thesis by simp
    qed
    moreover have "mergeCrontab t (cj_name c) (cron_block c) = (t, False)"
      unfolding cron_block_unlines using merge_settled [OF sg ok(2)] own False by simp
    ultimately show ?thesis using False by (simp add: cron_table_unfold Let_def)
  qed
qed

lemma cron_table_settles:
  assumes "validate_cron c = Inr ()" "one_line_env c"
    and "crontab_segs (splitKeep t) = Some sg" "list_all clean_line (splitKeep t)"
  shows "cron_table c (fst (cron_table c t)) = (fst (cron_table c t), False)"
  using cron_table_segs [OF assms] cron_table_settled [OF assms(1,2)] by blast

text \<open>
  The other lines of any table, a corrupt one included: merging keeps every line that is neither in a closed
  block of the job nor an unclosed begin marker of it.
\<close>

definition other_lines :: "string \<Rightarrow> string \<Rightarrow> string list" where
  "other_lines name t = rtrim_lines (sc_lines (stripNamedBlocks (splitKeep t) (beginMarker name) (endMarker name)))"

function rest_of :: "string list \<Rightarrow> string \<Rightarrow> string \<Rightarrow> string list" where
  "rest_of [] b e = []"
| "rest_of (line # lines) b e =
     (if trim_space line \<noteq> b then line # rest_of lines b e
      else case findBlockEnd lines b e of
        None \<Rightarrow> rest_of lines b e
      | Some j \<Rightarrow> rest_of (drop (Suc j) lines) b e)"
  by pat_completeness auto
termination by (relation "measure (\<lambda>(lines, b, e). length lines)") auto

lemma strip_from_rest_of: "sc_lines (strip_from ls b e s) = sc_lines s @ rest_of ls b e"
proof (induction ls b e s rule: strip_from.induct)
  case (2 line lines b e s)
  show ?case
  proof (cases "trim_space line \<noteq> b")
    case False
    show ?thesis
    proof (cases "findBlockEnd lines b e")
      case None
      with 2(2) [OF False refl None] False show ?thesis by (simp add: strip_from.simps(2) Let_def)
    next
      case (Some j)
      with 2(3) [OF False refl Some] False show ?thesis by (cases "sc_at s") (simp_all add: strip_from.simps(2) Let_def)
    qed
  qed (use 2(1) in \<open>simp add: strip_from.simps(2)\<close>)
qed simp

lemma rest_of_none: "l \<in> set (rest_of ls b e) \<Longrightarrow> l \<in> set ls \<and> trim_space l \<noteq> b"
proof (induction ls b e rule: rest_of.induct)
  case (2 line lines b e)
  show ?case
  proof (cases "trim_space line \<noteq> b")
    case False
    show ?thesis
      using 2 False by (cases "findBlockEnd lines b e") (auto dest: in_set_dropD)
  qed (use 2 in auto)
qed simp

lemma rest_of_id: "\<forall>l \<in> set ls. trim_space l \<noteq> b \<Longrightarrow> rest_of (ls @ ms) b e = ls @ rest_of ms b e"
  by (induction ls) auto

lemma rest_of_block:
  "trim_space l = b \<Longrightarrow> trim_space l' = e \<Longrightarrow> e \<noteq> b \<Longrightarrow> \<forall>l \<in> set body. trim_space l \<noteq> b \<and> trim_space l \<noteq> e
     \<Longrightarrow> rest_of (l # body @ l' # ms) b e = rest_of ms b e"
  using findBlockEnd_body [of body b e l' ms] by simp

lemma other_lines_rest: "other_lines name t = rtrim_lines (rest_of (splitKeep t) (beginMarker name) (endMarker name))"
  by (simp add: other_lines_def stripNamedBlocks_def strip_from_rest_of)

lemma merge_keeps_other_lines:
  assumes "list_all clean_line (splitKeep t)" "list_all clean_line (beginMarker name # body @ [endMarker name])"
    and "\<forall>l \<in> set body. trim_space l \<noteq> beginMarker name \<and> trim_space l \<noteq> endMarker name"
    and "desired = [] \<or> desired = unlines (beginMarker name # body @ [endMarker name])"
  shows "other_lines name (fst (mergeCrontab t name desired)) = other_lines name t"
proof -
  let ?b = "beginMarker name" and ?e = "endMarker name"
  let ?D = "?b # body @ [?e]"
  let ?L = "rest_of (splitKeep t) ?b ?e"
  let ?s = "stripNamedBlocks (splitKeep t) ?b ?e"
  have L: "sc_lines ?s = ?L" by (simp add: stripNamedBlocks_def strip_from_rest_of)
  have no_b: "\<forall>l \<in> set ?L. trim_space l \<noteq> ?b" and clean: "list_all clean_line ?L"
    using rest_of_none [of _ "splitKeep t" ?b ?e] assms(1) by (auto simp: list_all_iff)
  have sub: "\<forall>l \<in> set (rtrim_lines ls). trim_space l \<noteq> ?b" if "\<forall>l \<in> set ls. trim_space l \<noteq> ?b" for ls
    using that rtrim_lines_subset by blast
  have id: "rest_of ls ?b ?e = ls" if "\<forall>l \<in> set ls. trim_space l \<noteq> ?b" for ls
    using rest_of_id [OF that, of "[]" ?e] by simp
  have D: "rest_of (ls @ ?D @ ms) ?b ?e = ls @ rest_of ms ?b ?e" if "\<forall>l \<in> set ls. trim_space l \<noteq> ?b" for ls ms
    using rest_of_id [OF that] rest_of_block [OF trim_space_markers cron_markers_differ [symmetric] assms(3)] by simp
  have joined: "splitKeep (joinCrontabLines ?L) = rtrim_lines ?L" by (rule splitKeep_joinCrontabLines [OF clean])
  have appended: "splitKeep (joinCrontabLines ?L @ unlines ?D) = rtrim_lines ?L @ ?D"
  proof -
    have "joinCrontabLines ?L @ unlines ?D = unlines (rtrim_lines ?L @ ?D)"
      by (simp add: joinCrontabLines_unlines [OF clean_no_NL [OF clean]])
    moreover have "list_all clean_line (rtrim_lines ?L @ ?D)"
      using clean assms(2) rtrim_lines_subset [of ?L] by (auto simp: list_all_iff)
    ultimately show ?thesis using splitKeep_unlines by metis
  qed
  have placed: "splitKeep (joinCrontabLines (take k ?L @ ?D @ drop k ?L)) = take k ?L @ ?D @ rtrim_lines (drop k ?L)" for k
  proof -
    have "list_all clean_line (take k ?L @ ?D @ drop k ?L)"
      using clean assms(2) by (auto simp: list_all_iff dest: in_set_takeD in_set_dropD)
    then have "splitKeep (joinCrontabLines (take k ?L @ ?D @ drop k ?L)) = rtrim_lines ((take k ?L @ ?D) @ drop k ?L)"
      using splitKeep_joinCrontabLines by simp
    moreover have trimmed: "rtrim_lines (take k ?L @ ?D) = take k ?L @ ?D"
      using rtrim_lines_snoc [of "take k ?L @ ?b # body" ?e] by (simp add: endMarker_def)
    have "rtrim_lines ((take k ?L @ ?D) @ drop k ?L) = (take k ?L @ ?D) @ rtrim_lines (drop k ?L)"
      unfolding rtrim_lines_append [of "take k ?L @ ?D"] trimmed by simp
    ultimately show ?thesis by simp
  qed
  have retrim: "rtrim_lines (take k ?L @ rtrim_lines (drop k ?L)) = rtrim_lines ?L" for k
    using rtrim_lines_append [of "take k ?L" "rtrim_lines (drop k ?L)"] rtrim_lines_append [of "take k ?L" "drop k ?L"] by simp
  let ?m = "fst (mergeCrontab t name desired)"
  have "?m = t \<or> ?m = joinCrontabLines ?L \<or> ?m = joinCrontabLines ?L @ unlines ?D
      \<or> (\<exists>k. ?m = joinCrontabLines (take k ?L @ ?D @ drop k ?L))"
  proof (cases "desired = []")
    case True
    then show ?thesis by (simp add: mergeCrontab_def Let_def L)
  next
    case False
    then have d: "desired = unlines ?D" "desired \<noteq> []" using assms(4) by auto
    show ?thesis
      unfolding mergeCrontab_def Let_def L if_not_P [OF d(2)] unfolding d(1) splitKeep_unlines [OF assms(2)]
      by (cases "sc_at ?s") (simp_all split: if_split, blast+)
  qed
  then consider "?m = t" | "?m = joinCrontabLines ?L" | "?m = joinCrontabLines ?L @ unlines ?D"
    | k where "?m = joinCrontabLines (take k ?L @ ?D @ drop k ?L)" by blast
  then show ?thesis
  proof cases
    case 2
    then show ?thesis using joined id [OF sub [OF no_b]] by (simp add: other_lines_rest)
  next
    case 3
    then show ?thesis using appended D [OF sub [OF no_b], of "[]"] by (simp add: other_lines_rest)
  next
    case (4 k)
    have no: "\<forall>l \<in> set (take k ?L). trim_space l \<noteq> ?b" "\<forall>l \<in> set (drop k ?L). trim_space l \<noteq> ?b"
      using no_b by (auto dest: in_set_takeD in_set_dropD)
    have "rest_of (splitKeep ?m) ?b ?e = take k ?L @ rtrim_lines (drop k ?L)"
      unfolding 4 placed D [OF no(1)] id [OF sub [OF no(2)]] ..
    then show ?thesis using retrim [of k] by (simp add: other_lines_rest)
  qed simp
qed

lemma corrupt_table_kept:
  assumes c: "validate_cron c = Inr ()" "one_line_env c"
    and t: "list_all clean_line (splitKeep t)" "crontab_segs (splitKeep t) = None"
  shows "other_lines (cj_name c) (fst (cron_table c t)) = other_lines (cj_name c) t"
proof -
  have "protectedGonfLines (splitKeep t) = None"
    using protected_from_None_iff [of None "splitKeep t"] t(2) by (simp add: protectedGonfLines_def crontab_segs_def)
  then have off: "adoptUnmanaged t (cron_adoption c) = (t, False)" by (simp add: adoptUnmanaged_def Let_def)
  show ?thesis
  proof (cases "cj_Absent c")
    case True
    have "list_all clean_line (beginMarker (cj_name c) # [] @ [endMarker (cj_name c)])"
      using validate_cron_valid(1) [OF c(1)]
      by (auto simp: clean_line_def beginMarker_def endMarker_def beginMarkerPrefix_def endMarkerPrefix_def marker_name_ok_def contains_any_iff)
    from merge_keeps_other_lines [OF t(1) this] True show ?thesis by (simp add: cron_table_unfold off Let_def)
  next
    case False
    note ok = own_block_ok [OF c(1) False c(2)]
    have "\<forall>l \<in> set (cron_lines c). trim_space l \<noteq> beginMarker (cj_name c) \<and> trim_space l \<noteq> endMarker (cj_name c)"
      using block_lines(3) [OF ok(1) [unfolded own_block_def]] by blast
    from merge_keeps_other_lines [OF t(1) ok(2) this] False show ?thesis
      by (simp add: cron_table_unfold off Let_def cron_block_unlines)
  qed
qed

section \<open>The environment of a job\<close>

lemma taken_no_env: "taken a s \<Longrightarrow> blockEnvLines (seg_lines s) = []"
  by (cases s) (auto simp: blockEnvLines_def adoption_match_def split: option.splits)

lemma env_of_untaken: "blockEnvLines (segs_lines (filter (\<lambda>s. \<not> taken a s) sg)) = blockEnvLines (segs_lines sg)"
proof (induction sg)
  case Nil
  show ?case by (simp add: blockEnvLines_def)
next
  case (Cons s sg)
  then show ?case by (simp add: blockEnvLines_append taken_no_env)
qed

text \<open>Where the block of a job belongs: at its first block with the same environment lines, or at the first identical entry.\<close>

definition job_place :: "Cron \<Rightarrow> seg list \<Rightarrow> seg \<Rightarrow> seg list \<Rightarrow> bool" where
  "job_place c pre s post \<longleftrightarrow>
     \<not> list_ex (own (cj_name c)) pre
     \<and> (own (cj_name c) s \<and> blockEnvLines (seg_body s) = blockEnvLines (cron_lines c)
        \<or> identical (cron_adoption c) s \<and> \<not> list_ex (identical (cron_adoption c)) pre
           \<and> \<not> list_ex (own (cj_name c)) post)"

lemma merge_in_place:
  assumes c: "validate_cron c = Inr ()" "\<not> cj_Absent c" "one_line_env c"
    and t: "splitKeep t = segs_lines sg" "list_all seg_ok sg" "clean_segs sg"
    and sg1: "splitKeep (fst (adoptUnmanaged t (cron_adoption c))) = segs_lines (pre @ s # post)"
      "list_all seg_ok (pre @ s # post)" "clean_segs (pre @ s # post)"
    and place: "\<not> list_ex (own (cj_name c)) pre" "own (cj_name c) s" "blockEnvLines (seg_body s) = blockEnvLines (cron_lines c)"
  shows "\<exists>s' post'. crontab_segs (splitKeep (fst (cron_table c t))) = Some (pre @ s' # post')
    \<and> own (cj_name c) s' \<and> seg_body s' = cron_lines c"
proof -
  note ok = own_block_ok [OF c]
  let ?sg' = "merge_segs (cj_name c) (own_block c) (pre @ s # post)"
  obtain b bd e where s: "s = Blk (cj_name c) b bd e" using place(2) by (cases s) auto
  have "fst (cron_table c t) = fst (mergeCrontab (fst (adoptUnmanaged t (cron_adoption c))) (cj_name c) (unlines (seg_lines (own_block c))))"
    by (simp add: cron_table_unfold c(2) Let_def cron_block_unlines)
  then have "splitKeep (fst (cron_table c t)) = segs_lines ?sg'"
    using mergeCrontab_segs [OF sg1 own_block_def ok(1)] ok(2) by simp
  moreover have "list_all seg_ok ?sg'"
    using merge_segs_subset [of "cj_name c" "own_block c" "pre @ s # post"] sg1(2) ok(1) by (auto simp: list_all_iff)
  ultimately have "crontab_segs (splitKeep (fst (cron_table c t))) = Some ?sg'" by (simp add: crontab_segs_iff)
  moreover have "\<exists>s' post'. ?sg' = pre @ s' # post' \<and> own (cj_name c) s' \<and> seg_body s' = cron_lines c"
    using place(3) by (auto simp: s merge_segs_first [OF place(1)] Let_def)
  ultimately show ?thesis by auto
qed

lemma adopted_place:
  assumes "validate_cron c = Inr ()" "\<not> cj_Absent c" "one_line_env c"
    and sg: "splitKeep t = segs_lines (pre @ s # post)" "list_all seg_ok (pre @ s # post)" "clean_segs (pre @ s # post)"
    and place: "job_place c pre s post"
  shows "\<exists>s1 post1. splitKeep (fst (adoptUnmanaged t (cron_adoption c))) =
      segs_lines (filter (\<lambda>s. \<not> taken (cron_adoption c) s) pre @ s1 # post1)
    \<and> list_all seg_ok (filter (\<lambda>s. \<not> taken (cron_adoption c) s) pre @ s1 # post1)
    \<and> clean_segs (filter (\<lambda>s. \<not> taken (cron_adoption c) s) pre @ s1 # post1)
    \<and> own (cj_name c) s1 \<and> blockEnvLines (seg_body s1) = blockEnvLines (cron_lines c)"
proof -
  let ?a = "cron_adoption c"
  let ?sg = "pre @ s # post"
  let ?pre = "filter (\<lambda>s. \<not> taken ?a s) pre"
  let ?post = "filter (\<lambda>s. \<not> taken ?a s) post"
  define placed where "placed = (ad_identical ?a = None \<or> list_ex (own (cj_name c)) ?sg)"
  note adopted = adopted_table [OF assms(1,2,3) sg, folded placed_def]
  show ?thesis
  proof (cases "own (cj_name c) s")
    case True
    then obtain b bd e where s: "s = Blk (cj_name c) b bd e" by (cases s) auto
    have "placed" using True by (simp add: placed_def)
    then have out: "adopt_segs ?a (own_block c) placed ?sg = ?pre @ s # ?post"
      by (simp add: adopt_segs_placed s)
    have "blockEnvLines (seg_body s) = blockEnvLines (cron_lines c)"
      using place by (auto simp: job_place_def identical_def s)
    moreover have "\<exists>post1. (if list_ex (taken ?a) ?sg then rtrim_segs (adopt_segs ?a (own_block c) placed ?sg) else ?sg) = ?pre @ s # post1"
    proof (cases "list_ex (taken ?a) ?sg")
      case True
      then show ?thesis unfolding out by (simp add: s rtrim_segs_block)
    next
      case False
      then have "?pre = pre" by (simp add: list_ex_iff filter_id_conv)
      with False show ?thesis by simp
    qed
    ultimately obtain post1 where
      "(if list_ex (taken ?a) ?sg then rtrim_segs (adopt_segs ?a (own_block c) placed ?sg) else ?sg) = ?pre @ s # post1"
      and env: "blockEnvLines (seg_body s) = blockEnvLines (cron_lines c)" by blast
    then show ?thesis using adopted(1,2,3) [unfolded \<open>_ = ?pre @ s # post1\<close>] True env by blast
  next
    case False
    then have id: "identical ?a s" "list_all (\<lambda>s. \<not> identical ?a s) pre"
      using place by (auto simp: job_place_def list_all_iff list_ex_iff)
    obtain l where s: "s = Plain l" "adoption_match ?a l = matchIdentical"
      using id(1) by (auto simp: identical_def split: seg.splits)
    then have "ad_identical ?a \<noteq> None" by (auto simp: adoption_match_def split: option.splits if_splits)
    moreover have "\<not> list_ex (own (cj_name c)) ?sg" using False place by (auto simp: job_place_def)
    ultimately have "\<not> placed" by (simp add: placed_def)
    then have "adopt_segs ?a (own_block c) placed ?sg = ?pre @ own_block c # ?post"
      using adopt_segs_first [OF id(2,1)] by simp
    moreover have "list_ex (taken ?a) ?sg" using identical_taken [OF id(1)] by simp
    ultimately have "(if list_ex (taken ?a) ?sg then rtrim_segs (adopt_segs ?a (own_block c) placed ?sg) else ?sg) =
        ?pre @ own_block c # rtrim_segs ?post"
      by (simp add: own_block_def rtrim_segs_block)
    note sg1 = adopted(1,2,3) [unfolded this]
    have "own (cj_name c) (own_block c)" "blockEnvLines (seg_body (own_block c)) = blockEnvLines (cron_lines c)" by simp_all
    with sg1 show ?thesis by blast
  qed
qed

text \<open>
  C32: a job keeps the environment it runs with. Where the table already holds its block with the same
  environment lines, or (for a job without WithCronEnv and without a block) an identical unmanaged entry, the
  written block stands at that place: the NAME=value lines above it, those of other jobs' blocks included, are
  the ones that stood above it before, in the same order.
\<close>

theorem cron_keeps_environment:
  assumes "validate_cron c = Inr ()" "\<not> cj_Absent c" "one_line_env c"
    and "crontab_segs (splitKeep t) = Some (pre @ s # post)" "list_all clean_line (splitKeep t)"
    and "job_place c pre s post"
  shows "\<exists>pre' s' post'. crontab_segs (splitKeep (fst (cron_table c t))) = Some (pre' @ s' # post')
    \<and> \<not> list_ex (own (cj_name c)) pre' \<and> own (cj_name c) s' \<and> seg_body s' = cron_lines c
    \<and> blockEnvLines (segs_lines pre') = blockEnvLines (segs_lines pre)"
proof -
  have sg: "splitKeep t = segs_lines (pre @ s # post)" "list_all seg_ok (pre @ s # post)" "clean_segs (pre @ s # post)"
    using assms(4,5) by (auto simp: crontab_segs_iff)
  have no_own: "\<not> list_ex (own (cj_name c)) (filter (\<lambda>s. \<not> taken (cron_adoption c) s) pre)"
    using assms(6) by (auto simp: job_place_def list_ex_iff)
  obtain s1 post1 where sg1: "splitKeep (fst (adoptUnmanaged t (cron_adoption c))) =
        segs_lines (filter (\<lambda>s. \<not> taken (cron_adoption c) s) pre @ s1 # post1)"
      "list_all seg_ok (filter (\<lambda>s. \<not> taken (cron_adoption c) s) pre @ s1 # post1)"
      "clean_segs (filter (\<lambda>s. \<not> taken (cron_adoption c) s) pre @ s1 # post1)"
      "own (cj_name c) s1" "blockEnvLines (seg_body s1) = blockEnvLines (cron_lines c)"
    using adopted_place [OF assms(1-3) sg assms(6)] by blast
  from merge_in_place [OF assms(1-3) sg sg1(1-3) no_own sg1(4,5)]
  obtain s' post' where "crontab_segs (splitKeep (fst (cron_table c t))) = Some (filter (\<lambda>s. \<not> taken (cron_adoption c) s) pre @ s' # post')"
    "own (cj_name c) s'" "seg_body s' = cron_lines c" by blast
  with no_own env_of_untaken [of "cron_adoption c" pre] show ?thesis by blast
qed

section \<open>A second apply\<close>

text \<open>
  What \<open>crontab(1)\<close> does: \<open>-l\<close> prints the user's table or says that there is none, and a write that exits
  with 0 has replaced this table and no other.
\<close>

definition crontab_program :: "('h, 'x) crontab_client \<Rightarrow> (string \<Rightarrow> 'h \<Rightarrow> string) \<Rightarrow> bool" where
  "crontab_program cl tab \<longleftrightarrow>
     (\<forall>u h. cl_read cl (crontabArgs cl u [''-l'']) h = Inr (tab u h, [], 0)
        \<or> tab u h = [] \<and> (\<exists>out err code. cl_read cl (crontabArgs cl u [''-l'']) h = Inr (out, err, code)
            \<and> code \<noteq> 0 \<and> contains (to_lower (out @ err)) ''no crontab''))
     \<and> (\<forall>u content h h' out err. cl_write cl content (crontabArgs cl u [''-'']) h = (h', Inr (out, err, 0))
        \<longrightarrow> tab u h' = content \<and> (\<forall>v. v \<noteq> u \<longrightarrow> tab v h' = tab v h))"

lemma readCrontab_table: "crontab_program cl tab \<Longrightarrow> readCrontab cl c h = Inr (tab (cj_user c) h)"
proof -
  assume "crontab_program cl tab"
  then consider "cl_read cl (crontabArgs cl (cj_user c) [''-l'']) h = Inr (tab (cj_user c) h, [], 0)"
    | out err code where "cl_read cl (crontabArgs cl (cj_user c) [''-l'']) h = Inr (out, err, code)" "code \<noteq> 0"
      "contains (to_lower (out @ err)) ''no crontab''" "tab (cj_user c) h = []"
    unfolding crontab_program_def by blast
  then show ?thesis by cases (simp_all add: readCrontab_def)
qed

lemma writeCrontab_table:
  assumes "crontab_program cl tab" "writeCrontab cl c content h = (h', None)"
  shows "tab (cj_user c) h' = content" "v \<noteq> cj_user c \<Longrightarrow> tab v h' = tab v h"
proof -
  obtain out err where "cl_write cl content (crontabArgs cl (cj_user c) [''-'']) h = (h', Inr (out, err, 0))"
    using assms(2) by (auto simp: writeCrontab_def Let_def split: prod.splits sum.splits if_splits)
  with assms(1) show "tab (cj_user c) h' = content" "v \<noteq> cj_user c \<Longrightarrow> tab v h' = tab v h"
    unfolding crontab_program_def by blast+
qed

lemma cron_apply_table:
  assumes p: "crontab_program cl tab"
    and run: "cron_apply cl c st = (st', None)" "\<not> rs_dryRun st"
  shows "tab (cj_user c) (rs_host st') = fst (cron_table c (tab (cj_user c) (rs_host st)))"
    "v \<noteq> cj_user c \<Longrightarrow> tab v (rs_host st') = tab v (rs_host st)" "validate_cron c = Inr ()" "\<not> rs_dryRun st'"
proof -
  let ?t = "tab (cj_user c) (rs_host st)"
  show "validate_cron c = Inr ()" using run(1) by (auto simp: cron_apply_def split: sum.splits)
  have "cron_reconcile cl c st = (st', None)"
    using run by (auto simp: cron_apply_def split: sum.splits option.splits)
  then consider (idle) "snd (cron_table c ?t) = False" "st' = Note (cron_id c) StatusOK st"
    | (wrote) "snd (cron_table c ?t)" "Mutate (cron_id c) (writeCrontab cl c (fst (cron_table c ?t))) st = (st', None)"
    by (auto simp: cron_reconcile_def readCrontab_table [OF p] split: prod.splits if_splits)
  then have "tab (cj_user c) (rs_host st') = fst (cron_table c ?t) \<and> (v \<noteq> cj_user c \<longrightarrow> tab v (rs_host st') = tab v (rs_host st)) \<and> \<not> rs_dryRun st'"
  proof cases
    case idle
    have "fst (cron_table c ?t) = ?t"
      using idle(1) by (auto simp: cron_table_unfold Let_def adoptUnmanaged_def mergeCrontab_def split: if_splits option.splits prod.splits)
    with idle run(2) show ?thesis by (simp add: Note_def)
  next
    case wrote
    then obtain h where "writeCrontab cl c (fst (cron_table c ?t)) (rs_host st) = (h, None)" "rs_host st' = h" "rs_dryRun st' = rs_dryRun st"
      using run(2) by (auto simp: Mutate_def Note_def split: prod.splits option.splits)
    with writeCrontab_table [OF p this(1)] run(2) show ?thesis by auto
  qed
  then show "tab (cj_user c) (rs_host st') = fst (cron_table c ?t)"
    "v \<noteq> cj_user c \<Longrightarrow> tab v (rs_host st') = tab v (rs_host st)" "\<not> rs_dryRun st'" by auto
qed


section \<open>A job through a plan\<close>

lemma no_space_find: "\<not> starts_space c \<Longrightarrow> find (has_prefix (c # s)) go_spaces = None"
  using go_spaces_nonempty by (auto simp: find_None_iff starts_space_def list_ex_iff has_prefix_iff Cons_eq_append_conv)

lemma fields_from_word:
  "list_all (\<lambda>c. \<not> starts_space c) w \<Longrightarrow> fields_from cur (w @ s) = fields_from (rev w @ cur) s"
  by (induction w arbitrary: cur) (simp_all add: no_space_find)

lemma fields_from_blank: "fields_from cur (SP # s) = (if cur = [] then [] else [rev cur]) @ fields_from [] s"
proof -
  have "find (has_prefix (SP # s)) go_spaces = Some [SP]" by (simp add: go_spaces_def)
  then show ?thesis by simp
qed

lemma Fields_join:
  "\<forall>w \<in> set ws. w \<noteq> [] \<and> list_all (\<lambda>c. \<not> starts_space c) w \<Longrightarrow> Fields (join [SP] ws) = ws"
  unfolding Fields_def
proof (induction "[SP]" ws rule: join.induct)
  case (2 w)
  then show ?case using fields_from_word [of w "[]" "[]"] by simp
next
  case (3 w v ws)
  then have "w \<noteq> []" "fields_from [] (w @ SP # join [SP] (v # ws)) = fields_from (rev w) (SP # join [SP] (v # ws))"
    using fields_from_word [of w "[]"] by simp_all
  with 3 show ?case unfolding fields_from_blank by simp
qed simp

lemma fold_env: "fold apply_cron_option (map WithCronEnv es) c = c\<lparr>cj_env := cj_env c @ es\<rparr>"
  by (induction es arbitrary: c) simp_all

text \<open>
  C34: a valid job travels through a plan unchanged. The op its draft is lowered to gives, on the destination,
  options that rebuild the same job (its dependencies stay with the op): the same user, command, adoption,
  schedule, environment lines, absence and sensitivity.
\<close>

theorem cron_plan_roundtrip:
  assumes "validate_cron c = Inr ()" "cj_misuse c = None" "lo_HandlerFor lo ''cron'' = Some cron_ToOp"
  shows "\<exists>op opts. draftToOp lo elevate task (cron_planDraft c i) = Inr op
    \<and> cron_handler_options op = (Inr opts :: ('x cron_error, cron_option list) result)
    \<and> newCron (op_name op) opts = c\<lparr>cj_DependsOn := []\<rparr> \<and> op_deps op = SortedIDs (cj_DependsOn c)"
proof -
  note v = validate_cron_valid [OF assms(1)]
  have name: "cj_name c \<noteq> []" using v(1) by (simp add: marker_name_ok_def)
  have user: "cj_user c \<noteq> []"
  proof
    assume "cj_user c = []"
    moreover have "trim_space [] = []" by code_simp
    ultimately show False using v(2) by simp
  qed
  have "\<forall>w \<in> set (cj_fields c). w \<noteq> [] \<and> list_all (\<lambda>c. \<not> starts_space c) w"
    using valid_fields_cron [OF v(3)] cron_byte_no_space by (fastforce simp: list_all_iff)
  then have fs: "Fields (join [SP] (cj_fields c)) = cj_fields c" by (rule Fields_join)
  obtain op where op: "draftToOp lo elevate task (cron_planDraft c i) = Inr op"
    "op_name op = cj_name c" "op_absent op = cj_Absent c" "op_command op = cj_command c" "op_deps op = SortedIDs (cj_DependsOn c)"
    "op_sensitive op = cj_Sensitive c" "PayloadOf_Cron op = \<lparr>cr_user = cj_user c, cr_legacy_command = cj_legacy c,
       cr_schedule = join [SP] (cj_fields c), cr_env = cj_env c\<rparr>"
    using assms(3) by (simp add: draftToOp_def cron_planDraft_def cron_ToOp_def draft_field_def PayloadOf_Cron_def
        zero_op_def IsKnownKind_def allKinds_def)
  let ?opts = "(if cj_Absent c then [IsAbsent] else []) @ [WithCronUser (cj_user c)]
    @ (if cj_command c \<noteq> [] then [WithCommand (cj_command c)] else [])
    @ (if cj_legacy c \<noteq> [] then [WithLegacyCommand (cj_legacy c)] else [])
    @ [WithMinute (cj_minute c), WithHour (cj_hour c), WithMonthday (cj_monthday c), WithMonth (cj_month c), WithWeekday (cj_weekday c)]
    @ map WithCronEnv (cj_env c) @ (if cj_Sensitive c then [WithSensitive] else [])"
  have nth: "length (cj_fields c) = 5" "cj_fields c ! 0 = cj_minute c" "cj_fields c ! Suc 0 = cj_hour c" "cj_fields c ! 2 = cj_monthday c"
    "cj_fields c ! 3 = cj_month c" "cj_fields c ! 4 = cj_weekday c"
    by (simp_all add: cj_fields_def)
  have "cron_handler_options op = Inr ?opts"
    using name user fs nth by (simp add: cron_handler_options_def op Let_def)
  moreover have "newCron (op_name op) ?opts = c\<lparr>cj_DependsOn := []\<rparr>"
    using v(2) assms(2) by (cases c) (auto simp: newCron_def op fold_env)
  ultimately show ?thesis using op(1,5) by blast
qed

section \<open>Witnesses, and what validation lets through\<close>

definition sample_job :: Cron where
  "sample_job = newCron ''w'' [WithSchedule ''* * * * *'', WithCommand ''/bin/x'']"

definition sample_tab :: string where
  "sample_tab = unlines [''PATH=/bin'', ''* * * * * /bin/x'', ''* * * * * /bin/y'']"

lemma sample_job_ok: "validate_cron sample_job = Inr ()" "one_line_env sample_job" "\<not> cj_Absent sample_job" "cj_misuse sample_job = None"
  by code_simp+

lemma sample_tab_ok:
  "crontab_segs (splitKeep sample_tab) = Some ([Plain ''PATH=/bin''] @ Plain ''* * * * * /bin/x'' # [Plain ''* * * * * /bin/y''])"
  "list_all clean_line (splitKeep sample_tab)"
  by code_simp+

theorem cron_table_spec_witness:
  "\<exists>sg'. crontab_segs (splitKeep (fst (cron_table sample_job sample_tab))) = Some sg'
    \<and> map seg_body (filter (own (cj_name sample_job)) sg') = [cron_lines sample_job]"
  using cron_table_spec [OF sample_job_ok(1,2) sample_tab_ok] sample_job_ok(3) by auto

theorem cron_keeps_environment_witness:
  "\<exists>pre' s' post'. crontab_segs (splitKeep (fst (cron_table sample_job sample_tab))) = Some (pre' @ s' # post')
    \<and> own ''w'' s' \<and> blockEnvLines (segs_lines pre') = [''PATH=/bin'']"
proof -
  have "job_place sample_job [Plain ''PATH=/bin''] (Plain ''* * * * * /bin/x'') [Plain ''* * * * * /bin/y'']" by code_simp
  moreover have "blockEnvLines (segs_lines [Plain ''PATH=/bin'']) = [''PATH=/bin'']" "cj_name sample_job = ''w''" by code_simp+
  ultimately show ?thesis
    using cron_keeps_environment [OF sample_job_ok(1,3,2) sample_tab_ok] by metis
qed

definition sample_client :: "(string \<Rightarrow> string, unit) crontab_client" where
  "sample_client =
     \<lparr>cl_current = None, cl_lock = \<lambda>u h. None,
      cl_read = \<lambda>args h. (case args of [x, u, y] \<Rightarrow> Inr (h u, [], 0) | _ \<Rightarrow> Inl ()),
      cl_write = \<lambda>content args h. (case args of [x, u, y] \<Rightarrow> (h(u := content), Inr ([], [], 0)) | _ \<Rightarrow> (h, Inl ()))\<rparr>"

definition sample_state :: "(string \<Rightarrow> string) run_state" where
  "sample_state = \<lparr>rs_dryRun = False, rs_notes = [], rs_host = \<lambda>u. sample_tab\<rparr>"


definition cron_lowering :: "(cron_draft, unit cron_error, unit) lowering" where
  "cron_lowering =
     \<lparr>lo_HandlerFor = \<lambda>k. if k = ''cron'' then Some cron_ToOp else None, lo_ReadFile = \<lambda>p. Inl CronMissingName, lo_store = None,
      lo_BlobRefFor = \<lambda>n. Inl CronMissingName, lo_shortHash = \<lambda>s. s, lo_markSensitive = \<lambda>t src op. Inr op\<rparr>"

theorem cron_plan_roundtrip_witness:
  "\<exists>op opts. draftToOp cron_lowering False [] (cron_planDraft sample_job ''Cron[root/w]'') = Inr op
    \<and> cron_handler_options op = (Inr opts :: (unit cron_error, cron_option list) result)
    \<and> newCron (op_name op) opts = sample_job\<lparr>cj_DependsOn := []\<rparr>"
  using cron_plan_roundtrip [OF sample_job_ok(1,4), of cron_lowering False "[]" "''Cron[root/w]''"]
  by (auto simp: cron_lowering_def)

text \<open>
  An environment value is trimmed before it is checked, but written as it is: with a carriage return at its
  end it passes, the written line is read back without it, and every apply finds the block changed.
\<close>

definition job_with_cr :: Cron where
  "job_with_cr = newCron ''w'' [WithCommand ''x'', WithCronEnv (''A=b'' @ [CR])]"

lemma trimmed_env_not_settled:
  "validate_cron job_with_cr = Inr ()" "snd (cron_table job_with_cr (fst (cron_table job_with_cr [])))"
  by code_simp+

text \<open>
  The draft joins the five fields before anything has checked them, and the handler splits the result again:
  two wrong fields can come out as five valid ones, which are not those of the recipe.
\<close>

definition shifted_job :: Cron where
  "shifted_job = newCron ''w'' [WithCommand ''x'', WithMinute [], WithHour ''* *'']"

lemma shifted_fields_accepted:
  "validate_cron shifted_job = Inl (FieldSyntax ''minute'')"
  "bind_res (cron_ToOp (cron_planDraft shifted_job ''i'')) (\<lambda>op. bind_res (cron_handler_options op)
     (\<lambda>opts. Inr (validate_cron (newCron (op_name op) opts), cj_fields (newCron (op_name op) opts)))) =
   (Inr (Inr (), [''*'', ''*'', ''*'', ''*'', ''*'']) :: (unit cron_error, cron_invalid check \<times> string list) result)"
  by code_simp+

end
