(* ===== verification/SecretMatch.thy ===== *)
theory SecretMatch
  imports GoStrings
begin

text \<open>
  Finding the occurrences of a secret's form in a text (\<open>formOccurrences\<close> and the KMP functions of
  \<open>secret/values.go\<close>): a span is a pair of its start and its end. The last section shows that the search
  finds every occurrence, and that the overlap is the longest one.
\<close>

section \<open>The KMP table and search\<close>

text \<open>
  The inner loop of all three KMP functions. The table of a pattern only ever leads to a smaller match
  (\<open>failure_table_less\<close>), so the guard that makes the recursion end is never what ends it.
\<close>

function fall_back :: "string \<Rightarrow> nat list \<Rightarrow> char \<Rightarrow> nat \<Rightarrow> nat" where
  "fall_back form failure c m =
     (if m > 0 \<and> c \<noteq> form ! m then
        (if failure ! (m - 1) < m then fall_back form failure c (failure ! (m - 1)) else 0)
      else m)"
  by pat_completeness auto
termination by (relation "measure (\<lambda>(form, failure, c, m). m)") auto

declare fall_back.simps [simp del]

definition kmp_step :: "string \<Rightarrow> nat list \<Rightarrow> char \<Rightarrow> nat \<Rightarrow> nat" where
  "kmp_step form failure c m =
     (let m' = fall_back form failure c m in if c = form ! m' then m' + 1 else m')"

text \<open>The loop over \<open>i\<close>: the table entries so far, and \<open>k\<close>.\<close>

definition failure_step :: "string \<Rightarrow> nat \<Rightarrow> nat list \<times> nat \<Rightarrow> nat list \<times> nat" where
  "failure_step pat i = (\<lambda>(failure, k). let k' = kmp_step pat failure (pat ! i) k in (failure @ [k'], k'))"

definition kmpFailureFunction :: "string \<Rightarrow> nat list" where
  "kmpFailureFunction pat = (if pat = [] then [] else fst (fold (failure_step pat) [1..<length pat] ([0], 0)))"

fun kmp_scan :: "string \<Rightarrow> nat list \<Rightarrow> nat \<Rightarrow> nat \<Rightarrow> string \<Rightarrow> (nat \<times> nat) list" where
  "kmp_scan form failure i m [] = []"
| "kmp_scan form failure i m (c # s) =
     (let m' = kmp_step form failure c m in
      if m' = length form
      then (i + 1 - length form, i + 1) # kmp_scan form failure (i + 1) (failure ! (m' - 1)) s
      else kmp_scan form failure (i + 1) m' s)"

definition kmpOccurrences :: "string \<Rightarrow> string \<Rightarrow> nat \<Rightarrow> nat list \<Rightarrow> (nat \<times> nat) list" where
  "kmpOccurrences form s first failure = kmp_scan form failure first 0 (drop first s)"

text \<open>The loop over \<open>from\<close>, with the spans found so far.\<close>

function occurrences_from :: "string \<Rightarrow> string \<Rightarrow> nat \<Rightarrow> (nat \<times> nat) list \<Rightarrow> (nat \<times> nat) list" where
  "occurrences_from form s start0 spans =
     (if start0 < length s then
        (case index_str (drop start0 s) form of
           None \<Rightarrow> spans
         | Some i \<Rightarrow>
             (let start = start0 + i in
              if spans \<noteq> [] \<and> start < snd (last spans)
              then spans @ kmpOccurrences form s start (kmpFailureFunction form)
              else occurrences_from form s (start + 1) (spans @ [(start, start + length form)])))
      else spans)"
  by pat_completeness auto
termination by (relation "measure (\<lambda>(form, s, start0, spans). length s - start0)") auto

declare occurrences_from.simps [simp del]

definition formOccurrences :: "string \<Rightarrow> string \<Rightarrow> (nat \<times> nat) list" where
  "formOccurrences form s = occurrences_from form s 0 []"

fun kmp_run :: "string \<Rightarrow> nat list \<Rightarrow> nat \<Rightarrow> bool \<Rightarrow> string \<Rightarrow> nat \<times> bool" where
  "kmp_run pat failure m full [] = (m, full)"
| "kmp_run pat failure m full (c # tail) =
     (let m' = kmp_step pat failure c m in
      if m' = length pat then kmp_run pat failure (failure ! (m' - 1)) (full \<or> tail = []) tail
      else kmp_run pat failure m' full tail)"

definition kmpSuffixMatchLength :: "string \<Rightarrow> string \<Rightarrow> nat list \<Rightarrow> nat" where
  "kmpSuffixMatchLength pat tail failure =
     (case kmp_run pat failure 0 False tail of (m, full) \<Rightarrow> if full then length pat else m)"

definition longestPrefixSuffixOverlap :: "string \<Rightarrow> string \<Rightarrow> nat" where
  "longestPrefixSuffixOverlap form s =
     (let maxK = min (length form - 1) (length s) in
      if maxK = 0 then 0
      else (let pat = take maxK form; tail = drop (length s - maxK) s
            in kmpSuffixMatchLength pat tail (kmpFailureFunction pat)))"

section \<open>Every occurrence is found\<close>

text \<open>The reference: all starts at which the form stands.\<close>

definition occurs_at :: "string \<Rightarrow> string \<Rightarrow> nat \<Rightarrow> bool" where
  "occurs_at form s i \<longleftrightarrow> has_prefix (drop i s) form"

definition occurrences :: "string \<Rightarrow> string \<Rightarrow> (nat \<times> nat) list" where
  "occurrences form s = map (\<lambda>i. (i, i + length form)) (filter (occurs_at form s) [0..<length s])"

text \<open>\<open>overlaps form t k\<close>: the first \<open>k\<close> bytes of the form end the text; \<open>longest_below\<close>: the longest such overlap under a bound.\<close>

definition overlaps :: "string \<Rightarrow> string \<Rightarrow> nat \<Rightarrow> bool" where
  "overlaps form t k \<longleftrightarrow> k \<le> length form \<and> suffix (take k form) t"

definition longest_below :: "string \<Rightarrow> string \<Rightarrow> nat \<Rightarrow> nat \<Rightarrow> bool" where
  "longest_below form t n m \<longleftrightarrow> overlaps form t m \<and> m < n \<and> (\<forall>k. overlaps form t k \<and> k < n \<longrightarrow> k \<le> m)"

definition failure_ok :: "string \<Rightarrow> nat list \<Rightarrow> bool" where
  "failure_ok form failure \<longleftrightarrow> (\<forall>j < length failure. longest_below form (take (Suc j) form) (Suc j) (failure ! j))"

lemma overlaps_0 [simp]: "overlaps form t 0"
  by (simp add: overlaps_def)

lemma overlaps_take: "m \<le> length form \<Longrightarrow> overlaps form t m \<Longrightarrow> k \<le> m \<Longrightarrow> overlaps form t k \<longleftrightarrow> overlaps form (take m form) k"
  unfolding overlaps_def using suffix_length_suffix [of "take k form" t "take m form"] suffix_order.trans [of "take k form" "take m form" t]
  by auto

lemma overlaps_snoc:
  "overlaps form (t @ [c]) (Suc k) \<longleftrightarrow> k < length form \<and> form ! k = c \<and> overlaps form t k"
  unfolding overlaps_def by (auto simp: take_Suc_conv_app_nth Suc_le_eq)

lemma overlaps_length: "overlaps form t k \<Longrightarrow> k \<le> length t"
  unfolding overlaps_def using suffix_length_le by fastforce

lemma failure_ok_less: "failure_ok form failure \<Longrightarrow> 0 < m \<Longrightarrow> m \<le> length failure \<Longrightarrow> failure ! (m - 1) < m"
  by (auto simp: failure_ok_def longest_below_def dest: spec [of _ "m - 1"])

lemma fall_back_overlap:
  assumes "failure_ok form failure" "m \<le> length failure" "length failure \<le> length form"
    and "overlaps form t m" "m < length form" "\<forall>k. overlaps form t k \<and> k < n \<and> form ! k = c \<longrightarrow> k \<le> m"
  shows "overlaps form t (fall_back form failure c m) \<and> fall_back form failure c m \<le> m
    \<and> (\<forall>k. overlaps form t k \<and> k < n \<and> form ! k = c \<longrightarrow> k \<le> fall_back form failure c m)
    \<and> (fall_back form failure c m = 0 \<or> form ! fall_back form failure c m = c)"
  using assms
proof (induction m rule: less_induct)
  case (less m)
  show ?case
  proof (cases "m > 0 \<and> c \<noteq> form ! m")
    case False
    then have "fall_back form failure c m = m" by (subst fall_back.simps) auto
    with False less.prems show ?thesis by auto
  next
    case True
    let ?f = "failure ! (m - 1)"
    have f: "longest_below form (take m form) m ?f"
      using less.prems(1,2) True by (auto simp: failure_ok_def dest!: spec [of _ "m - 1"])
    then have lt: "?f < m" by (simp add: longest_below_def)
    have "overlaps form t ?f"
      using f lt less.prems(4,5) overlaps_take [of m form t ?f] by (simp add: longest_below_def)
    moreover have "\<forall>k. overlaps form t k \<and> k < n \<and> form ! k = c \<longrightarrow> k \<le> ?f"
    proof (intro allI impI)
      fix k assume k: "overlaps form t k \<and> k < n \<and> form ! k = c"
      with less.prems(6) True have "k < m" by (metis le_neq_implies_less)
      with k f less.prems(4,5) overlaps_take [of m form t k] show "k \<le> ?f" by (simp add: longest_below_def)
    qed
    moreover have "fall_back form failure c m = fall_back form failure c ?f"
      using True lt by (subst fall_back.simps) simp
    ultimately show ?thesis using less.IH [OF lt less.prems(1)] lt less.prems(2,3,5) by simp
  qed
qed

text \<open>One step keeps the longest overlap.\<close>

lemma kmp_step_longest:
  assumes "failure_ok form failure" "m \<le> length failure" "length failure \<le> length form"
    and "longest_below form t n m" "n \<le> length form"
  shows "longest_below form (t @ [c]) (Suc n) (kmp_step form failure c m)"
proof -
  let ?m = "fall_back form failure c m"
  have m: "overlaps form t m" "m < n" "\<forall>k. overlaps form t k \<and> k < n \<longrightarrow> k \<le> m"
    using assms(4) by (auto simp: longest_below_def)
  have fb: "overlaps form t ?m" "?m \<le> m" "\<forall>k. overlaps form t k \<and> k < n \<and> form ! k = c \<longrightarrow> k \<le> ?m"
    "?m = 0 \<or> form ! ?m = c"
    using fall_back_overlap [OF assms(1-3) m(1), of n c] m(2,3) assms(5) by auto
  show ?thesis
  proof (cases "c = form ! ?m")
    case True
    then have step: "kmp_step form failure c m = Suc ?m" by (simp add: kmp_step_def)
    have "k \<le> Suc ?m" if "overlaps form (t @ [c]) k" "k < Suc n" for k
      using that fb(3) by (cases k) (auto simp: overlaps_snoc)
    moreover have "overlaps form (t @ [c]) (Suc ?m)" using fb(1,2) m(2) assms(5) True by (auto simp: overlaps_snoc)
    ultimately show ?thesis using fb(2) m(2) by (auto simp: longest_below_def step)
  next
    case False
    then have step: "kmp_step form failure c m = ?m" and "?m = 0" using fb(4) by (auto simp: kmp_step_def)
    have "k \<le> 0" if "overlaps form (t @ [c]) k" "k < Suc n" for k
      using that fb(3) False \<open>?m = 0\<close> by (cases k) (auto simp: overlaps_snoc)
    then show ?thesis using \<open>?m = 0\<close> by (auto simp: longest_below_def step)
  qed
qed

lemma failure_ok_snoc:
  "failure_ok form (failure @ [k]) \<longleftrightarrow>
     failure_ok form failure \<and> longest_below form (take (Suc (length failure)) form) (Suc (length failure)) k"
  by (auto simp: failure_ok_def nth_append less_Suc_eq)

lemma failure_loop:
  assumes "pat \<noteq> []" "n \<le> length pat" "1 \<le> n"
  shows "case fold (failure_step pat) [1..<n] ([0], 0) of (failure, k) \<Rightarrow>
    length failure = n \<and> failure_ok pat failure \<and> k = last failure"
  using assms(3,2)
proof (induction n rule: dec_induct)
  case base
  have "longest_below pat (take (Suc 0) pat) (Suc 0) 0" by (simp add: longest_below_def)
  then show ?case by (simp add: failure_ok_def)
next
  case (step n)
  obtain failure k where fk: "fold (failure_step pat) [1..<n] ([0], 0) = (failure, k)" by fastforce
  with step have IH: "length failure = n" "failure_ok pat failure" "k = last failure" by auto
  then have k: "k = failure ! (n - 1)" using step(1) by (simp add: last_conv_nth flip: length_greater_0_conv)
  then have "longest_below pat (take n pat) n k"
    using IH(1,2) step(1) k by (cases n) (auto simp: failure_ok_def)
  moreover from this have "k \<le> length failure" using IH(1) by (simp add: longest_below_def)
  ultimately have "longest_below pat (take n pat @ [pat ! n]) (Suc n) (kmp_step pat failure (pat ! n) k)"
    using kmp_step_longest [OF IH(2)] IH(1) step(2,4) by simp
  moreover have fold: "fold (failure_step pat) [1..<Suc n] ([0], 0) = failure_step pat n (failure, k)" using step(1) fk by simp
  ultimately show ?case
    unfolding fold using step(4) IH(1,2) by (simp add: failure_step_def Let_def failure_ok_snoc take_Suc_conv_app_nth)
qed

lemma failure_table:
  "form \<noteq> [] \<Longrightarrow> length (kmpFailureFunction form) = length form \<and> failure_ok form (kmpFailureFunction form)"
  using failure_loop [of form "length form"] by (auto simp: kmpFailureFunction_def Suc_le_eq split: prod.splits)

lemma failure_table_less:
  "form \<noteq> [] \<Longrightarrow> 0 < m \<Longrightarrow> m \<le> length form \<Longrightarrow> kmpFailureFunction form ! (m - 1) < m"
  using failure_table failure_ok_less by metis

lemma longest_below_self:
  assumes "longest_below form form (length form) m" "overlaps form t (length form)"
  shows "longest_below form t (length form) m"
  using assms overlaps_take [of "length form" form t] by (auto simp: longest_below_def)

lemma kmp_scan_overlaps:
  assumes "form \<noteq> []" "longest_below form t (length form) m"
  shows "kmp_scan form (kmpFailureFunction form) i m s =
    map (\<lambda>e. (e - length form, e)) (filter (\<lambda>e. overlaps form (t @ take (e - i) s) (length form)) [Suc i..<Suc (i + length s)])"
  using assms(2)
proof (induction s arbitrary: t i m)
  case (Cons c s)
  let ?L = "length form" and ?F = "kmpFailureFunction form"
  let ?m = "kmp_step form ?F c m"
  have step: "longest_below form (t @ [c]) (Suc ?L) ?m"
    using kmp_step_longest [of form ?F m t ?L c] failure_table [OF assms(1)] Cons.prems by (auto simp: longest_below_def)
  have range: "[Suc i..<Suc (i + length (c # s))] = Suc i # [Suc (Suc i)..<Suc (Suc i + length s)]"
    by (simp add: upt_rec)
  have rest: "filter (\<lambda>e. overlaps form (t @ take (e - i) (c # s)) ?L) [Suc (Suc i)..<Suc (Suc i + length s)] =
      filter (\<lambda>e. overlaps form ((t @ [c]) @ take (e - Suc i) s) ?L) [Suc (Suc i)..<Suc (Suc i + length s)]"
    by (rule filter_cong) (auto simp: take_Cons')
  show ?case
  proof (cases "?m = ?L")
    case True
    then have full: "overlaps form (t @ [c]) ?L" using step by (simp add: longest_below_def)
    have "longest_below form form ?L (?F ! (?L - 1))"
      using failure_table [OF assms(1)] assms(1) by (cases ?L) (auto simp: failure_ok_def)
    from Cons.IH [OF longest_below_self [OF this full], of "Suc i"] show ?thesis
      unfolding range filter.simps(2) rest using True full by (simp add: Let_def)
  next
    case False
    then have no: "\<not> overlaps form (t @ [c]) ?L" "longest_below form (t @ [c]) ?L ?m"
      using step by (auto simp: longest_below_def overlaps_def less_Suc_eq)
    from Cons.IH [OF this(2), of "Suc i"] show ?thesis
      unfolding range filter.simps(2) rest using False no(1) by (simp add: Let_def)
  qed
qed simp

text \<open>The occurrences from a position on.\<close>

definition occurrences_ge :: "string \<Rightarrow> string \<Rightarrow> nat \<Rightarrow> (nat \<times> nat) list" where
  "occurrences_ge form s k = map (\<lambda>i. (i, i + length form)) (filter (occurs_at form s) [k..<length s])"

lemma occurs_at_length: "occurs_at form s i \<Longrightarrow> form \<noteq> [] \<Longrightarrow> i + length form \<le> length s"
  unfolding occurs_at_def has_prefix_iff
  by (metis add_leD1 diff_diff_left drop_eq_Nil2 length_append length_drop le_add1 le_add_diff_inverse nat_le_linear append_is_Nil_conv)

lemma overlaps_occurs:
  assumes "form \<noteq> []" "first < e" "e \<le> length s"
  shows "overlaps form (take (e - first) (drop first s)) (length form) \<longleftrightarrow>
    first + length form \<le> e \<and> occurs_at form s (e - length form)"
proof
  assume "overlaps form (take (e - first) (drop first s)) (length form)"
  then obtain u where u: "take (e - first) (drop first s) = u @ form" by (auto simp: overlaps_def suffix_def)
  then have len: "e - first = length u + length form" using assms(2,3) by (metis length_append length_drop length_take min.absorb2 diff_le_mono)
  have "drop first s = u @ form @ drop e s"
    using u assms(2) by (metis append.assoc append_take_drop_id drop_drop le_add_diff_inverse2 less_imp_le)
  then have "drop (length u + first) s = form @ drop e s" by (metis append_eq_conv_conj drop_drop)
  moreover have "length u + first = e - length form" using len assms(2) by simp
  ultimately show "first + length form \<le> e \<and> occurs_at form s (e - length form)"
    using len assms(2) by (simp add: occurs_at_def)
next
  assume occ: "first + length form \<le> e \<and> occurs_at form s (e - length form)"
  then obtain r where r: "drop (e - length form) s = form @ r" by (auto simp: occurs_at_def has_prefix_iff)
  have "take (e - first) (drop first s) = take (e - length form - first) (drop first s) @ take (length form) (drop (e - length form) s)"
  proof -
    have "e - first = (e - length form - first) + length form" "e - length form - first + first = e - length form" using occ by auto
    then show ?thesis by (metis drop_drop take_add)
  qed
  then show "overlaps form (take (e - first) (drop first s)) (length form)"
    by (simp add: overlaps_def suffix_def r)
qed

lemma kmpOccurrences_all:
  assumes "form \<noteq> []" "first \<le> length s"
  shows "kmpOccurrences form s first (kmpFailureFunction form) = occurrences_ge form s first"
proof -
  let ?L = "length form"
  have "longest_below form [] ?L 0"
    using assms(1) by (auto simp: longest_below_def dest: overlaps_length)
  from kmp_scan_overlaps [OF assms(1) this, of first "drop first s"]
  have "kmpOccurrences form s first (kmpFailureFunction form) =
      map (\<lambda>e. (e - ?L, e)) (filter (\<lambda>e. overlaps form (take (e - first) (drop first s)) ?L) [Suc first..<Suc (length s)])"
    using assms(2) by (simp add: kmpOccurrences_def del: upt_Suc)
  also have "filter (\<lambda>e. overlaps form (take (e - first) (drop first s)) ?L) [Suc first..<Suc (length s)] =
      filter (\<lambda>e. first + ?L \<le> e \<and> occurs_at form s (e - ?L)) [Suc first..<Suc (length s)]"
  proof (rule filter_cong [OF refl])
    fix e assume "e \<in> set [Suc first..<Suc (length s)]"
    then show "overlaps form (take (e - first) (drop first s)) ?L \<longleftrightarrow> first + ?L \<le> e \<and> occurs_at form s (e - ?L)"
      by (intro overlaps_occurs [OF assms(1)]) auto
  qed
  also have "filter (\<lambda>e. first + ?L \<le> e \<and> occurs_at form s (e - ?L)) [Suc first..<Suc (length s)] =
      map (\<lambda>i. i + ?L) (filter (occurs_at form s) [first..<length s])"
  proof (rule sorted_distinct_set_unique)
    show "set (filter (\<lambda>e. first + ?L \<le> e \<and> occurs_at form s (e - ?L)) [Suc first..<Suc (length s)]) =
        set (map (\<lambda>i. i + ?L) (filter (occurs_at form s) [first..<length s]))" (is "?A = ?B")
    proof
      show "?A \<subseteq> ?B"
      proof
        fix e assume "e \<in> ?A"
        then have "e - ?L \<in> set (filter (occurs_at form s) [first..<length s])" "e = e - ?L + ?L"
          using assms(1) by (auto simp: less_Suc_eq_le neq_Nil_conv)
        then show "e \<in> ?B" by (metis (no_types, lifting) image_eqI list.set_map)
      qed
      show "?B \<subseteq> ?A"
      proof
        fix e assume "e \<in> ?B"
        then obtain i where "e = i + ?L" "first \<le> i" "occurs_at form s i" by auto
        then show "e \<in> ?A" using occurs_at_length [of form s i] assms(1) by (auto simp: neq_Nil_conv simp del: upt_Suc)
      qed
    qed
  qed (auto simp: sorted_map distinct_map inj_on_def intro: sorted_wrt_mono_rel [OF _ sorted_wrt_filter [OF sorted_upt]] simp del: upt_Suc)
  finally show ?thesis by (simp add: occurrences_ge_def comp_def)
qed

lemma index_str_least: "index_str s p = Some i \<Longrightarrow> j < i \<Longrightarrow> \<not> has_prefix (drop j s) p"
proof (induction s arbitrary: i j)
  case (Cons c s)
  then show ?case by (cases j) (auto split: if_splits)
qed (auto split: if_splits)

lemma index_str_at: "index_str s p = Some i \<Longrightarrow> has_prefix (drop i s) p"
  by (induction s arbitrary: i) (auto split: if_splits)

lemma occurrences_from_all:
  "form \<noteq> [] \<Longrightarrow> occurrences_from form s k spans = spans @ occurrences_ge form s k"
proof (induction form s k spans rule: occurrences_from.induct)
  case (1 form s k spans)
  show ?case
  proof (cases "k < length s")
    case False
    then show ?thesis by (subst occurrences_from.simps) (simp add: occurrences_ge_def)
  next
    case True
    show ?thesis
    proof (cases "index_str (drop k s) form")
      case None
      have "\<not> occurs_at form s i" if "k \<le> i" for i
      proof
        assume "occurs_at form s i"
        then obtain r where "drop i s = form @ r" by (auto simp: occurs_at_def has_prefix_iff)
        then have "drop k s = take (i - k) (drop k s) @ form @ r"
          using that by (metis append_take_drop_id drop_drop le_add_diff_inverse2)
        with index_str_None [OF None] show False by blast
      qed
      then have "occurrences_ge form s k = []" by (auto simp: occurrences_ge_def filter_empty_conv)
      with True None show ?thesis by (subst occurrences_from.simps) simp
    next
      case (Some i)
      let ?start = "k + i"
      have found: "occurs_at form s ?start" "?start < length s"
        using index_str_at [OF Some] occurs_at_length [of form s ?start] 1(2)
        by (auto simp: occurs_at_def add.commute neq_Nil_conv)
      have "filter (occurs_at form s) [k..<?start] = []"
        using index_str_least [OF Some] by (auto simp: filter_empty_conv occurs_at_def le_iff_add add.commute)
      then have split: "occurrences_ge form s k = occurrences_ge form s ?start"
        using found(2) upt_add_eq_append [of k ?start "length s - ?start"] by (simp add: occurrences_ge_def)
      have head: "occurrences_ge form s ?start = (?start, ?start + length form) # occurrences_ge form s (Suc ?start)"
        using found by (simp add: occurrences_ge_def upt_conv_Cons)
      show ?thesis
        using 1(1) [OF True Some refl _ 1(2)] True Some 1(2) found(2) kmpOccurrences_all [OF 1(2), of ?start s]
        by (subst occurrences_from.simps) (auto simp: Let_def split head)
    qed
  qed
qed

theorem formOccurrences_all: "form \<noteq> [] \<Longrightarrow> formOccurrences form s = occurrences form s"
  by (simp add: formOccurrences_def occurrences_from_all occurrences_ge_def occurrences_def)

lemma formOccurrences_iff:
  "form \<noteq> [] \<Longrightarrow> (a, b) \<in> set (formOccurrences form s) \<longleftrightarrow> occurs_at form s a \<and> b = a + length form"
  using occurs_at_length [of form s a] by (auto simp: formOccurrences_all occurrences_def neq_Nil_conv)

section \<open>The longest overlap with the end of a text\<close>

lemma kmp_run_longest:
  assumes "pat \<noteq> []" "longest_below pat t (length pat) m"
    and "kmp_run pat (kmpFailureFunction pat) m full tail = (m', full')"
  shows "longest_below pat (t @ tail) (length pat) m' \<and> (full' \<longleftrightarrow> full \<or> tail \<noteq> [] \<and> overlaps pat (t @ tail) (length pat))"
  using assms(2,3)
proof (induction tail arbitrary: t m full)
  case (Cons c tail)
  let ?L = "length pat" and ?F = "kmpFailureFunction pat"
  let ?m = "kmp_step pat ?F c m"
  have step: "longest_below pat (t @ [c]) (Suc ?L) ?m"
    using kmp_step_longest [of pat ?F m t ?L c] failure_table [OF assms(1)] Cons.prems(1) by (auto simp: longest_below_def)
  show ?case
  proof (cases "?m = ?L")
    case True
    then have over: "overlaps pat (t @ [c]) ?L" using step by (simp add: longest_below_def)
    have "longest_below pat pat ?L (?F ! (?L - 1))"
      using failure_table [OF assms(1)] assms(1) by (cases ?L) (auto simp: failure_ok_def)
    from Cons.IH [OF longest_below_self [OF this over]] Cons.prems(2) True over show ?thesis
      by (cases tail) (simp_all add: Let_def)
  next
    case False
    then have no: "\<not> overlaps pat (t @ [c]) ?L" "longest_below pat (t @ [c]) ?L ?m"
      using step by (auto simp: longest_below_def overlaps_def less_Suc_eq)
    from Cons.IH [OF this(2)] Cons.prems(2) False no(1) show ?thesis by (cases tail) (simp_all add: Let_def)
  qed
qed simp

lemma longest_or_full:
  assumes "longest_below p t n m" "full \<longleftrightarrow> overlaps p t n"
  shows "overlaps p t (if full then n else m) \<and> (if full then n else m) \<le> n
    \<and> (\<forall>k. k \<le> n \<and> overlaps p t k \<longrightarrow> k \<le> (if full then n else m))"
proof (cases full)
  case False
  have "k \<le> m" if "k \<le> n" "overlaps p t k" for k
    using assms False that by (cases "k = n") (auto simp: longest_below_def)
  with assms(1) False show ?thesis by (simp add: longest_below_def)
qed (use assms(2) in simp)

text \<open>The overlap is the longest proper prefix of the form that ends the text.\<close>

theorem longestPrefixSuffixOverlap_longest:
  assumes "form \<noteq> []"
  shows "longest_below form s (length form) (longestPrefixSuffixOverlap form s)"
proof -
  let ?K = "min (length form - 1) (length s)"
  let ?pat = "take ?K form" and ?tail = "drop (length s - ?K) s"
  have bound: "overlaps form s k \<and> k < length form \<longleftrightarrow> k \<le> ?K \<and> overlaps ?pat ?tail k" for k
  proof -
    have "suffix w s \<longleftrightarrow> suffix w ?tail" if "length w \<le> ?K" for w
      using suffix_length_suffix [of w s ?tail] that suffix_drop [of "length s - ?K" s] suffix_order.trans [of w ?tail s] by auto
    from this [of "take k form"] have tail: "suffix (take k form) s \<longleftrightarrow> suffix (take k form) ?tail" if "k \<le> ?K"
      using that by (simp add: min_absorb1)
    have "overlaps ?pat ?tail k \<longleftrightarrow> suffix (take k form) ?tail" if "k \<le> ?K" using that by (simp add: overlaps_def min_absorb1)
    moreover have "overlaps form s k \<longleftrightarrow> suffix (take k form) s" if "k \<le> ?K" using that by (auto simp: overlaps_def)
    moreover have "k \<le> ?K" if "overlaps form s k" "k < length form" using that overlaps_length [OF that(1)] by simp
    moreover have "k < length form" if "k \<le> ?K" using that assms by (cases form) auto
    ultimately show ?thesis using tail by blast
  qed
  show ?thesis
  proof (cases "?K = 0")
    case True
    then have "longestPrefixSuffixOverlap form s = 0" by (simp add: longestPrefixSuffixOverlap_def Let_def)
    moreover have "k \<le> 0" if "overlaps form s k \<and> k < length form" for k using conjunct1 [OF iffD1 [OF bound that]] True by linarith
    ultimately show ?thesis using assms by (simp add: longest_below_def)
  next
    case False
    then have pat: "?pat \<noteq> []" "?tail \<noteq> []" "length ?pat = ?K" using assms by (auto simp: min_def split: if_splits)
    obtain m full where run: "kmp_run ?pat (kmpFailureFunction ?pat) 0 False ?tail = (m, full)" by fastforce
    have "longest_below ?pat [] (length ?pat) 0" using pat(1) by (auto simp: longest_below_def dest: overlaps_length)
    from kmp_run_longest [OF pat(1) this run] pat(2)
    have m: "longest_below ?pat ?tail ?K m" "full \<longleftrightarrow> overlaps ?pat ?tail ?K" using pat(3) by simp_all
    have r: "longestPrefixSuffixOverlap form s = (if full then ?K else m)"
      unfolding longestPrefixSuffixOverlap_def kmpSuffixMatchLength_def Let_def run if_not_P [OF False] pat(3) by simp
    let ?r = "if full then ?K else m"
    from longest_or_full [OF m]
    show ?thesis unfolding r longest_below_def using bound by blast
  qed
qed

section \<open>The bytes a set of forms covers\<close>

text \<open>Byte \<open>i\<close> lies in an occurrence of one of the forms.\<close>

definition covered :: "string list \<Rightarrow> string \<Rightarrow> nat \<Rightarrow> bool" where
  "covered forms s i \<longleftrightarrow> list_ex (\<lambda>f. list_ex (\<lambda>a. occurs_at f s a \<and> i < a + length f) [0..<Suc i]) forms"

lemma covered_iff: "covered forms s i \<longleftrightarrow> (\<exists>f \<in> set forms. \<exists>a. occurs_at f s a \<and> a \<le> i \<and> i < a + length f)"
  by (auto simp: covered_def list_ex_iff less_Suc_eq_le Bex_def simp del: upt_Suc)

lemma covered_mono: "covered forms s i \<Longrightarrow> set forms \<subseteq> set forms' \<Longrightarrow> covered forms' s i"
  unfolding covered_iff by blast

lemma occurs_at_append: "occurs_at f s a \<Longrightarrow> occurs_at f (s @ t) a"
  by (auto simp: occurs_at_def has_prefix_iff drop_append)

lemma covered_append: "covered forms s i \<Longrightarrow> covered forms (s @ t) i"
  unfolding covered_iff using occurs_at_append by blast

lemma occurs_at_take: "a + length f \<le> n \<Longrightarrow> occurs_at f s a \<Longrightarrow> occurs_at f (take n s) a"
  by (auto simp: occurs_at_def has_prefix_take drop_take min_absorb1)

lemma occurs_at_drop: "occurs_at f (drop n s) a \<longleftrightarrow> occurs_at f s (n + a)"
  by (simp add: occurs_at_def add.commute)

lemma occurs_at_append_left: "occurs_at f (s @ t) (length s + a) \<longleftrightarrow> occurs_at f t a"
  by (simp add: occurs_at_def)

lemma occurs_at_nth: "occurs_at f s a \<Longrightarrow> k < length f \<Longrightarrow> s ! (a + k) = f ! k"
  unfolding occurs_at_def has_prefix_take by (metis append_take_drop_id leI length_take min_less_iff_conj not_less nth_append nth_drop nth_take drop_eq_Nil take_Nil add_leD1 length_0_conv nat_le_linear)

end
