(* ===== verification/SecretValues.thy ===== *)
theory SecretValues
  imports SecretMatch "HOL-Library.AList" "HOL-Library.Char_ord" "HOL-Library.List_Lexorder" "HOL-Library.Product_Lexorder"
begin

text \<open>
  The registry of resolved secrets (\<open>Values\<close> in \<open>secret/values.go\<close>): which forms of a secret are tracked,
  which payloads contain one, and redaction. Its map is an association list, sorted whenever it is read (the
  cache of the sorted forms is not modelled). \<open>pr\<close> is \<open>strconv.IsPrint\<close> above Latin-1, a table of the
  Unicode standard. The last section compares redaction with a byte-by-byte reference.
\<close>

section \<open>Escaping\<close>

abbreviation byte :: "char \<Rightarrow> nat" where
  "byte c \<equiv> of_char c"

definition byte_in :: "string \<Rightarrow> nat \<Rightarrow> nat \<Rightarrow> nat \<Rightarrow> bool" where
  "byte_in s k lo hi \<longleftrightarrow> k < length s \<and> lo \<le> byte (s ! k) \<and> byte (s ! k) \<le> hi"

text \<open>\<open>utf8.DecodeRuneInString\<close>: the rune and its width, U+FFFD of width 1 for bytes that are no rune.\<close>

definition decode_rune :: "string \<Rightarrow> nat \<times> nat" where
  "decode_rune s =
     (let b = (\<lambda>k. byte (s ! k)); cont = (\<lambda>k. byte_in s k 0x80 0xBF) in
      if byte_in s 0 0 0x7F then (b 0, 1)
      else if byte_in s 0 0xC2 0xDF \<and> cont 1 then ((b 0 - 0xC0) * 64 + (b 1 - 0x80), 2)
      else if byte_in s 0 0xE0 0xEF \<and> cont 1 \<and> cont 2 \<and> (b 0 = 0xE0 \<longrightarrow> 0xA0 \<le> b 1) \<and> (b 0 = 0xED \<longrightarrow> b 1 \<le> 0x9F)
        then ((b 0 - 0xE0) * 4096 + (b 1 - 0x80) * 64 + (b 2 - 0x80), 3)
      else if byte_in s 0 0xF0 0xF4 \<and> cont 1 \<and> cont 2 \<and> cont 3 \<and> (b 0 = 0xF0 \<longrightarrow> 0x90 \<le> b 1) \<and> (b 0 = 0xF4 \<longrightarrow> b 1 \<le> 0x8F)
        then ((b 0 - 0xF0) * 262144 + (b 1 - 0x80) * 4096 + (b 2 - 0x80) * 64 + (b 3 - 0x80), 4)
      else (0xFFFD, 1))"

definition hex_digits :: "nat \<Rightarrow> nat \<Rightarrow> string" where
  "hex_digits w n = map (\<lambda>k. ''0123456789abcdef'' ! (n div 16 ^ k mod 16)) (rev [0..<w])"

text \<open>One step of \<open>encoding/json\<close>'s string encoder, HTML escaping on: what it writes and the bytes it takes.\<close>

definition json_rune :: "string \<Rightarrow> string \<times> nat" where
  "json_rune s =
     (let c = hd s; b = byte c in
      if b < 0x80 then
        (if c = CHR 0x5C \<or> c = CHR 0x22 then [CHR 0x5C, c]
         else if b = 8 then [CHR 0x5C, CHR ''b''] else if b = 12 then [CHR 0x5C, CHR ''f'']
         else if b = 10 then [CHR 0x5C, CHR ''n''] else if b = 13 then [CHR 0x5C, CHR ''r'']
         else if b = 9 then [CHR 0x5C, CHR ''t'']
         else if b < 0x20 \<or> c \<in> set ''<>&'' then CHR 0x5C # ''u00'' @ hex_digits 2 b
         else [c], 1)
      else case decode_rune s of (r, w) \<Rightarrow>
        (if r = 0xFFFD \<and> w = 1 then CHR 0x5C # ''ufffd''
         else if r = 0x2028 \<or> r = 0x2029 then CHR 0x5C # ''u202'' @ hex_digits 1 r
         else take w s, w))"

definition is_print :: "(nat \<Rightarrow> bool) \<Rightarrow> nat \<Rightarrow> bool" where
  "is_print pr r = (if r \<le> 0xFF then 0x20 \<le> r \<and> r < 0x7F \<or> 0xA1 \<le> r \<and> r \<noteq> 0xAD else pr r)"

text \<open>One step of \<open>strconv.Quote\<close>.\<close>

definition quote_rune :: "(nat \<Rightarrow> bool) \<Rightarrow> string \<Rightarrow> string \<times> nat" where
  "quote_rune pr s =
     (case decode_rune s of (r, w) \<Rightarrow>
        (if r = 0xFFFD \<and> w = 1 then CHR 0x5C # ''x'' @ hex_digits 2 (byte (hd s))
         else if r = 0x22 \<or> r = 0x5C then [CHR 0x5C, hd s]
         else if is_print pr r then take w s
         else if 7 \<le> r \<and> r \<le> 13 then [CHR 0x5C, ''abtnvfr'' ! (r - 7)]
         else if r < 0x20 \<or> r = 0x7F then CHR 0x5C # ''x'' @ hex_digits 2 r
         else if r < 0x10000 then CHR 0x5C # ''u'' @ hex_digits 4 r
         else CHR 0x5C # ''U'' @ hex_digits 8 r, w))"

function escape_runes :: "(string \<Rightarrow> string \<times> nat) \<Rightarrow> string \<Rightarrow> string" where
  "escape_runes f [] = []"
| "escape_runes f (c # s) = fst (f (c # s)) @ escape_runes f (drop (snd (f (c # s)) - 1) s)"
  by pat_completeness auto
termination by (relation "measure (\<lambda>(f, s). length s)") auto

definition jsonEscaped :: "string \<Rightarrow> string" where
  "jsonEscaped form = escape_runes json_rune form"

definition goQuoted :: "(nat \<Rightarrow> bool) \<Rightarrow> string \<Rightarrow> string" where
  "goQuoted pr form = escape_runes (quote_rune pr) form"

section \<open>The registry\<close>

record formMode =
  fm_contained :: bool
  fm_strong :: bool
  fm_redactOnly :: bool

definition merge_mode :: "formMode \<Rightarrow> formMode \<Rightarrow> formMode" where
  "merge_mode m o' =
     \<lparr>fm_contained = (fm_contained m \<or> fm_contained o'), fm_strong = (fm_strong m \<or> fm_strong o'),
      fm_redactOnly = (fm_redactOnly m \<and> fm_redactOnly o')\<rparr>"

type_synonym formEntry = "string \<times> formMode"

record secret_values =
  vl_forms :: "formEntry list"

definition no_values :: secret_values where
  "no_values = \<lparr>vl_forms = []\<rparr>"

definition MinContainedLen :: nat where "MinContainedLen = 4"
definition MinStrongLen :: nat where "MinStrongLen = 8"
definition maxWordLen :: nat where "maxWordLen = 12"

definition word_byte :: "char \<Rightarrow> bool" where
  "word_byte c \<longleftrightarrow> (let b = byte c in (0x61 \<le> b \<and> b \<le> 0x7A) \<or> (0x41 \<le> b \<and> b \<le> 0x5A) \<or> c \<in> set ''-_'')"

definition isStrong :: "string \<Rightarrow> bool" where
  "isStrong trimmed =
     (if length trimmed < MinStrongLen then False
      else if maxWordLen < length trimmed then True
      else list_ex (\<lambda>c. \<not> word_byte c) trimmed)"

definition isPEMArmour :: "string \<Rightarrow> bool" where
  "isPEMArmour line \<longleftrightarrow> has_suffix line ''-----'' \<and> (has_prefix line ''-----BEGIN '' \<or> has_prefix line ''-----END '')"

definition strongLines :: "string \<Rightarrow> string list" where
  "strongLines trimmed =
     (if \<not> contains trimmed [NL] then []
      else filter (\<lambda>line. isStrong line \<and> \<not> isPEMArmour line) (map trim_space (split_on NL trimmed)))"

definition track :: "formMode \<Rightarrow> string \<Rightarrow> formEntry list \<Rightarrow> formEntry list" where
  "track mode f forms =
     AList.update f (case map_of forms f of Some old \<Rightarrow> merge_mode old mode | None \<Rightarrow> mode) forms"

definition addForm :: "(nat \<Rightarrow> bool) \<Rightarrow> formMode \<Rightarrow> string \<Rightarrow> formEntry list \<Rightarrow> formEntry list" where
  "addForm pr mode form forms =
     (if form = [] then forms
      else fold (track mode) [form, jsonEscaped form, goQuoted pr form] forms)"

definition Add :: "(nat \<Rightarrow> bool) \<Rightarrow> string \<Rightarrow> secret_values \<Rightarrow> secret_values" where
  "Add pr data v =
     (if data = [] then v
      else
        (let trimmed = trim_space data;
             mode = \<lparr>fm_contained = (MinContainedLen \<le> length trimmed), fm_strong = isStrong trimmed, fm_redactOnly = False\<rparr>;
             forms = [trimmed, trim_right data [CR, NL]] @ (if fm_contained mode then [] else [data])
         in v\<lparr>vl_forms :=
              fold (addForm pr \<lparr>fm_contained = True, fm_strong = True, fm_redactOnly = True\<rparr>) (strongLines trimmed)
                (fold (addForm pr mode) forms (vl_forms v))\<rparr>))"

definition Reset :: "secret_values \<Rightarrow> secret_values" where
  "Reset v = no_values"

definition Values_Empty :: "secret_values \<Rightarrow> bool" where
  "Values_Empty v \<longleftrightarrow> length (vl_forms v) = 0"

definition snapshot :: "secret_values \<Rightarrow> formEntry list" where
  "snapshot v = sort_key (\<lambda>e. (- int (length (fst e)), fst e)) (vl_forms v)"

definition match_payload :: "secret_values \<Rightarrow> string \<Rightarrow> bool \<Rightarrow> bool" where
  "match_payload v payload strongOnly =
     (payload \<noteq> [] \<and>
      list_ex (\<lambda>(form, m). \<not> (fm_redactOnly m \<or> strongOnly \<and> \<not> fm_strong m) \<and>
         (if fm_contained m then contains payload form else payload = form)) (snapshot v))"

definition Contains :: "secret_values \<Rightarrow> string \<Rightarrow> bool" where
  "Contains v payload = match_payload v payload False"

definition ContainsStrong :: "secret_values \<Rightarrow> string \<Rightarrow> bool" where
  "ContainsStrong v payload = match_payload v payload True"

section \<open>Redaction\<close>

definition Redacted :: string where
  "Redacted = ''[redacted]''"

definition matchSpans :: "secret_values \<Rightarrow> string \<Rightarrow> bool \<Rightarrow> (nat \<times> nat) list \<times> bool" where
  "matchSpans v s strongOnly =
     (let es = filter (\<lambda>(form, m). \<not> (strongOnly \<and> \<not> fm_strong m)) (snapshot v)
      in (concat (map (\<lambda>(form, m). if fm_contained m then formOccurrences form s else []) es),
          list_ex (\<lambda>(form, m). \<not> fm_contained m \<and> s = form) es))"

fun merge_runs :: "nat \<Rightarrow> nat \<Rightarrow> (nat \<times> nat) list \<Rightarrow> (nat \<times> nat) list" where
  "merge_runs start fin [] = [(start, fin)]"
| "merge_runs start fin ((a, b) # spans) =
     (if a \<le> fin then merge_runs start (max fin b) spans
      else (start, fin) # merge_runs a b spans)"

definition mergeSpans :: "(nat \<times> nat) list \<Rightarrow> (nat \<times> nat) list" where
  "mergeSpans spans =
     (case sort_key fst spans of [] \<Rightarrow> [] | (a, b) # rest \<Rightarrow> merge_runs a b rest)"

fun replace_runs :: "string \<Rightarrow> nat \<Rightarrow> (nat \<times> nat) list \<Rightarrow> string" where
  "replace_runs s pos [] = drop pos s"
| "replace_runs s pos ((a, b) # runs) = take (a - pos) (drop pos s) @ Redacted @ replace_runs s b runs"

definition replaceSpans :: "string \<Rightarrow> (nat \<times> nat) list \<Rightarrow> string" where
  "replaceSpans s spans = (let merged = mergeSpans spans in if merged = [] then s else replace_runs s 0 merged)"

definition redact_values :: "secret_values \<Rightarrow> string \<Rightarrow> bool \<Rightarrow> string" where
  "redact_values v s strongOnly =
     (case matchSpans v s strongOnly of (spans, whole) \<Rightarrow> if whole then Redacted else replaceSpans s spans)"

definition Values_Redact :: "secret_values \<Rightarrow> string \<Rightarrow> string" where
  "Values_Redact v s = redact_values v s False"

definition RedactStrong :: "secret_values \<Rightarrow> string \<Rightarrow> string" where
  "RedactStrong v s = redact_values v s True"

section \<open>Runs\<close>

text \<open>Spans that are in order and do not touch.\<close>

definition in_spans :: "(nat \<times> nat) list \<Rightarrow> nat \<Rightarrow> bool" where
  "in_spans spans i \<longleftrightarrow> (\<exists>(a, b) \<in> set spans. a \<le> i \<and> i < b)"

fun separate :: "(nat \<times> nat) list \<Rightarrow> bool" where
  "separate [] \<longleftrightarrow> True"
| "separate ((a, b) # runs) \<longleftrightarrow> a < b \<and> (\<forall>(c, d) \<in> set runs. b < c) \<and> separate runs"

lemma in_spans_iff: "in_spans spans i \<longleftrightarrow> (\<exists>a b. (a, b) \<in> set spans \<and> a \<le> i \<and> i < b)"
  by (auto simp: in_spans_def)

lemma in_spans_simps [simp]:
  "in_spans [] i \<longleftrightarrow> False"
  "in_spans ((a, b) # spans) i \<longleftrightarrow> a \<le> i \<and> i < b \<or> in_spans spans i"
  by (auto simp: in_spans_def)

lemma separate_less: "separate runs \<Longrightarrow> (a, b) \<in> set runs \<Longrightarrow> a < b"
  by (induction runs rule: separate.induct) auto

lemma merge_runs_start: "(c, d) \<in> set (merge_runs a b spans) \<Longrightarrow> sorted (map fst ((a, b) # spans)) \<Longrightarrow> a \<le> c"
proof (induction a b spans rule: merge_runs.induct)
  case (2 start fin a b spans)
  then show ?case by (cases "a \<le> fin") auto
qed simp

lemma merge_runs_ok:
  assumes "sorted (map fst ((a, b) # spans))" "\<forall>(x, y) \<in> set ((a, b) # spans). x < y"
  shows "separate (merge_runs a b spans) \<and> (\<forall>i. in_spans (merge_runs a b spans) i \<longleftrightarrow> in_spans ((a, b) # spans) i)"
  using assms
proof (induction a b spans rule: merge_runs.induct)
  case (2 start fin a b spans)
  show ?case
  proof (cases "a \<le> fin")
    case True
    with 2 have "separate (merge_runs start (max fin b) spans)
        \<and> (\<forall>i. in_spans (merge_runs start (max fin b) spans) i \<longleftrightarrow> in_spans ((start, max fin b) # spans) i)"
      by (intro 2(1)) auto
    with True 2(3) show ?thesis by auto
  next
    case False
    have "fin < c" if "(c, d) \<in> set (merge_runs a b spans)" for c d
      using merge_runs_start [OF that] 2(3) False by fastforce
    with 2 False show ?thesis by fastforce
  qed
qed simp

lemma mergeSpans_ok:
  assumes "\<forall>(x, y) \<in> set spans. x < y"
  shows "separate (mergeSpans spans)" "in_spans (mergeSpans spans) i \<longleftrightarrow> in_spans spans i"
proof -
  have "separate (mergeSpans spans) \<and> (\<forall>i. in_spans (mergeSpans spans) i \<longleftrightarrow> in_spans (sort_key fst spans) i)"
  proof (cases "sort_key fst spans")
    case (Cons ab rest)
    obtain a b where ab: "ab = (a, b)" by (cases ab)
    have "\<forall>(x, y) \<in> set ((a, b) # rest). x < y" "sorted (map fst ((a, b) # rest))"
      using assms sorted_sort_key [of fst spans] set_sort [of fst spans] unfolding Cons ab by auto
    from merge_runs_ok [OF this(2,1)] show ?thesis by (simp add: mergeSpans_def Cons ab)
  qed (simp add: mergeSpans_def)
  then show "separate (mergeSpans spans)" "in_spans (mergeSpans spans) i \<longleftrightarrow> in_spans spans i"
    by (simp_all add: in_spans_def)
qed

section \<open>The reference: hiding byte by byte\<close>

text \<open>Each byte that is not hidden as it is, and one marker for a run of hidden ones.\<close>

fun mask_from :: "bool \<Rightarrow> (nat \<Rightarrow> bool) \<Rightarrow> string \<Rightarrow> string" where
  "mask_from prev h [] = []"
| "mask_from prev h (c # s) =
     (if h 0 then (if prev then [] else Redacted) else [c]) @ mask_from (h 0) (\<lambda>i. h (Suc i)) s"

definition contained_forms :: "secret_values \<Rightarrow> string list" where
  "contained_forms v = map fst (filter (\<lambda>e. fm_contained (snd e)) (vl_forms v))"

definition values_ok :: "secret_values \<Rightarrow> bool" where
  "values_ok v \<longleftrightarrow> [] \<notin> fst ` set (vl_forms v) \<and> distinct (map fst (vl_forms v))"

lemma mask_cong: "(\<And>i. i < length s \<Longrightarrow> h i \<longleftrightarrow> h' i) \<Longrightarrow> mask_from prev h s = mask_from prev h' s"
proof (induction s arbitrary: prev h h')
  case (Cons c s)
  have "mask_from (h' 0) (\<lambda>i. h (Suc i)) s = mask_from (h' 0) (\<lambda>i. h' (Suc i)) s"
    using Cons.prems by (intro Cons.IH) simp
  with Cons.prems [of 0] show ?case by simp
qed simp

lemma mask_raw:
  "(\<And>i. i < length w \<Longrightarrow> \<not> h i) \<Longrightarrow> mask_from prev h (w @ s) = w @ mask_from (prev \<and> w = []) (\<lambda>i. h (length w + i)) s"
proof (induction w arbitrary: prev h)
  case (Cons c w)
  from Cons.IH [of "\<lambda>i. h (Suc i)" False] Cons.prems Cons.prems [of 0] show ?case by force
qed simp

lemma mask_hidden:
  "(\<And>i. i < length w \<Longrightarrow> h i) \<Longrightarrow> w \<noteq> []
     \<Longrightarrow> mask_from prev h (w @ s) = (if prev then [] else Redacted) @ mask_from True (\<lambda>i. h (length w + i)) s"
proof (induction w arbitrary: prev h)
  case (Cons c w)
  show ?case
  proof (cases "w = []")
    case False
    from Cons.IH [of "\<lambda>i. h (Suc i)" True] False Cons.prems(1) Cons.prems(1) [of 0] show ?thesis by force
  qed (use Cons.prems(1) [of 0] in simp)
qed simp

lemma replace_runs_mask:
  assumes "separate runs" "\<forall>(a, b) \<in> set runs. pos \<le> a \<and> b \<le> length s" "prev \<longrightarrow> (\<forall>(a, b) \<in> set runs. pos < a)"
  shows "replace_runs s pos runs = mask_from prev (\<lambda>i. in_spans runs (pos + i)) (drop pos s)"
  using assms
proof (induction s pos runs arbitrary: prev rule: replace_runs.induct)
  case (1 s pos)
  from mask_raw [of "drop pos s" "\<lambda>i. False" prev "[]"] show ?case by simp
next
  case (2 s pos a b runs)
  let ?h = "\<lambda>i. in_spans ((a, b) # runs) (pos + i)"
  let ?w = "take (a - pos) (drop pos s)" and ?u = "take (b - a) (drop a s)"
  have ab: "pos \<le> a" "a < b" "b \<le> length s" using 2(2,3) by auto
  then have len: "length ?w = a - pos" "length ?u = b - a" "?u \<noteq> []" by auto
  have "drop pos s = ?w @ drop a s" using ab(1) by (metis append_take_drop_id drop_drop le_add_diff_inverse2)
  moreover have "drop a s = ?u @ drop b s" using ab(2) by (metis append_take_drop_id drop_drop le_add_diff_inverse2 less_imp_le)
  ultimately have split: "drop pos s = ?w @ ?u @ drop b s" by simp
  have raw: "\<not> ?h i" if "i < length ?w" for i using that 2(2) ab len by (fastforce simp: in_spans_def)
  have hid: "?h (length ?w + i)" if "i < length ?u" for i using that ab len by auto
  have "mask_from prev ?h (drop pos s) = mask_from prev ?h (?w @ ?u @ drop b s)" by (rule arg_cong [OF split])
  also have "\<dots> = ?w @ mask_from (prev \<and> ?w = []) (\<lambda>i. ?h (length ?w + i)) (?u @ drop b s)"
    by (rule mask_raw) (rule raw)
  also have "\<dots> = ?w @ (if prev \<and> ?w = [] then [] else Redacted) @ mask_from True (\<lambda>i. ?h (length ?w + (length ?u + i))) (drop b s)"
    using mask_hidden [of ?u "\<lambda>i. ?h (length ?w + i)", OF hid len(3)] by simp
  also have "mask_from True (\<lambda>i. ?h (length ?w + (length ?u + i))) (drop b s) = mask_from True (\<lambda>i. in_spans runs (b + i)) (drop b s)"
    using ab len by (intro mask_cong) (simp add: add.assoc [symmetric])
  also have "\<dots> = replace_runs s b runs" using 2(2,3) by (intro 2(1) [symmetric]) auto
  finally show ?case using 2(4) ab by (auto simp: len)
qed

lemma snapshot_set [simp]: "set (snapshot v) = set (vl_forms v)"
  by (simp add: snapshot_def)

text \<open>Redaction is the reference, unless the text as a whole is a short secret.\<close>

theorem Redact_mask:
  assumes "values_ok v"
  shows "Values_Redact v s =
    (if \<exists>(form, m) \<in> set (vl_forms v). \<not> fm_contained m \<and> s = form then Redacted
     else mask_from False (covered (contained_forms v) s) s)"
proof -
  obtain spans whole where sw: "matchSpans v s False = (spans, whole)" by fastforce
  have whole: "whole \<longleftrightarrow> (\<exists>(form, m) \<in> set (vl_forms v). \<not> fm_contained m \<and> s = form)"
    using sw by (auto simp: matchSpans_def Let_def list_ex_iff)
  have ne: "f \<noteq> []" if "f \<in> set (contained_forms v)" for f using that assms by (force simp: contained_forms_def values_ok_def)
  have "(a, b) \<in> set spans \<longleftrightarrow> (\<exists>f \<in> set (contained_forms v). (a, b) \<in> set (formOccurrences f s))" for a b
    using sw by (force simp: matchSpans_def Let_def contained_forms_def split: if_splits)
  then have spans: "(a, b) \<in> set spans \<longleftrightarrow> (\<exists>f \<in> set (contained_forms v). occurs_at f s a \<and> b = a + length f)" for a b
    using ne by (simp add: formOccurrences_iff cong: bex_cong)
  have pos: "\<forall>(a, b) \<in> set spans. a < b \<and> b \<le> length s" using spans occurs_at_length [of _ s] ne by fastforce
  have in_cov: "in_spans spans i \<longleftrightarrow> covered (contained_forms v) s i" for i
    unfolding in_spans_iff spans covered_iff by blast
  have runs: "separate (mergeSpans spans)" "in_spans (mergeSpans spans) i \<longleftrightarrow> covered (contained_forms v) s i" for i
    using mergeSpans_ok(1) [of spans] mergeSpans_ok(2) [of spans i] pos in_cov by auto
  have "b \<le> length s" if "(a, b) \<in> set (mergeSpans spans)" for a b
  proof -
    have "a < b" using separate_less [OF runs(1) that] .
    then have "a \<le> b - 1 \<and> b - 1 < b" by simp
    then have "in_spans (mergeSpans spans) (b - 1)" unfolding in_spans_iff using that by blast
    then have "in_spans spans (b - 1)" using runs(2) in_cov by simp
    then obtain c d where "(c, d) \<in> set spans" "b - 1 < d" unfolding in_spans_iff by blast
    then show ?thesis using pos by fastforce
  qed
  then have "replaceSpans s spans = mask_from False (covered (contained_forms v) s) s"
    using replace_runs_mask [OF runs(1), of 0 s False] runs(2) mask_raw [of s "\<lambda>i. False" False "[]"]
    by (auto simp: replaceSpans_def Let_def split: if_splits)
  with sw whole show ?thesis by (simp add: Values_Redact_def redact_values_def)
qed

section \<open>Adding a secret\<close>

text \<open>The mode of a form only gains matching, and a form that is added is tracked with its escapes.\<close>

definition holds_form :: "formEntry list \<Rightarrow> string \<Rightarrow> bool" where
  "holds_form forms f \<longleftrightarrow> (\<exists>m. map_of forms f = Some m \<and> fm_contained m)"

definition forms_ok :: "formEntry list \<Rightarrow> bool" where
  "forms_ok forms \<longleftrightarrow> [] \<notin> fst ` set forms \<and> distinct (map fst forms)"

lemma track_ok: "forms_ok forms \<Longrightarrow> f \<noteq> [] \<Longrightarrow> forms_ok (track mode f forms)"
  by (simp add: forms_ok_def track_def distinct_update dom_update)

lemma track_holds: "holds_form (track mode f forms) g \<longleftrightarrow> holds_form forms g \<or> g = f \<and> fm_contained mode"
  by (auto simp: holds_form_def track_def update_conv' merge_mode_def split: option.splits)

lemma decode_rune_width: "snd (decode_rune s) \<ge> 1"
  by (simp add: decode_rune_def Let_def)

lemma step_nonempty:
  assumes "s \<noteq> []"
  shows "fst (json_rune s) \<noteq> []" "fst (quote_rune pr s) \<noteq> []"
proof -
  obtain r w where "decode_rune s = (r, w)" "1 \<le> w" using decode_rune_width [of s] by (cases "decode_rune s") simp
  with assms show "fst (json_rune s) \<noteq> []" "fst (quote_rune pr s) \<noteq> []"
    by (simp_all add: json_rune_def quote_rune_def Let_def)
qed

lemma escapes_nonempty: "f \<noteq> [] \<Longrightarrow> jsonEscaped f \<noteq> [] \<and> goQuoted pr f \<noteq> []"
  by (cases f) (simp_all add: jsonEscaped_def goQuoted_def step_nonempty)

lemma addForm_ok: "forms_ok forms \<Longrightarrow> forms_ok (addForm pr mode f forms)"
  using escapes_nonempty [of f pr] by (auto simp: addForm_def intro!: track_ok)

lemma addForm_holds:
  "holds_form (addForm pr mode f forms) g \<longleftrightarrow>
     holds_form forms g \<or> fm_contained mode \<and> f \<noteq> [] \<and> g \<in> {f, jsonEscaped f, goQuoted pr f}"
  by (auto simp: addForm_def track_holds)

lemma addForms_ok: "forms_ok forms \<Longrightarrow> forms_ok (fold (addForm pr mode) fs forms)"
  by (induction fs arbitrary: forms) (auto intro: addForm_ok)

lemma addForms_holds:
  "holds_form (fold (addForm pr mode) fs forms) g \<longleftrightarrow>
     holds_form forms g \<or> fm_contained mode \<and> (\<exists>f \<in> set fs. f \<noteq> [] \<and> g \<in> {f, jsonEscaped f, goQuoted pr f})"
  by (induction fs arbitrary: forms) (auto simp: addForm_holds)

lemma values_ok_forms: "values_ok v \<longleftrightarrow> forms_ok (vl_forms v)"
  by (simp add: values_ok_def forms_ok_def)

lemma Add_ok: "values_ok v \<Longrightarrow> values_ok (Add pr data v)"
  by (simp add: Add_def values_ok_forms Let_def addForms_ok addForm_ok)

lemma contained_forms_iff: "values_ok v \<Longrightarrow> f \<in> set (contained_forms v) \<longleftrightarrow> holds_form (vl_forms v) f"
  by (force simp: contained_forms_def holds_form_def values_ok_def)

text \<open>What \<open>Add\<close> makes matched: the secret's own forms, if it is long enough, and its strong lines.\<close>

lemma Add_contained:
  assumes "values_ok v" "data \<noteq> []"
  shows "f \<in> set (contained_forms (Add pr data v)) \<longleftrightarrow>
     f \<in> set (contained_forms v)
     \<or> (\<exists>g. (g \<in> {trim_space data, trim_right data [CR, NL]} \<and> MinContainedLen \<le> length (trim_space data)
             \<or> g \<in> set (strongLines (trim_space data)))
           \<and> g \<noteq> [] \<and> f \<in> {g, jsonEscaped g, goQuoted pr g})"
proof -
  define t where "t = trim_space data"
  define mode where "mode = \<lparr>fm_contained = (MinContainedLen \<le> length t), fm_strong = isStrong t, fm_redactOnly = False\<rparr>"
  define fs where "fs = [t, trim_right data [CR, NL]] @ (if fm_contained mode then [] else [data])"
  have "vl_forms (Add pr data v) = fold (addForm pr \<lparr>fm_contained = True, fm_strong = True, fm_redactOnly = True\<rparr>) (strongLines t)
      (fold (addForm pr mode) fs (vl_forms v))"
    using assms(2) by (simp add: Add_def Let_def t_def mode_def fs_def)
  then have "holds_form (vl_forms (Add pr data v)) f \<longleftrightarrow> holds_form (vl_forms v) f
      \<or> fm_contained mode \<and> (\<exists>g \<in> set fs. g \<noteq> [] \<and> f \<in> {g, jsonEscaped g, goQuoted pr g})
      \<or> (\<exists>g \<in> set (strongLines t). g \<noteq> [] \<and> f \<in> {g, jsonEscaped g, goQuoted pr g})"
    by (simp only: addForms_holds formMode.simps simp_thms disj_assoc)
  moreover have "fm_contained mode \<Longrightarrow> set fs = {t, trim_right data [CR, NL]}" "fm_contained mode \<longleftrightarrow> MinContainedLen \<le> length t"
    by (simp_all add: fs_def mode_def)
  ultimately show ?thesis
    unfolding contained_forms_iff [OF Add_ok [OF assms(1)]] contained_forms_iff [OF assms(1)] t_def [symmetric] by blast
qed

text \<open>The registry of a process: the secrets it has added, in any order.\<close>

definition secret_registry :: "(nat \<Rightarrow> bool) \<Rightarrow> string list \<Rightarrow> secret_values" where
  "secret_registry pr secrets = fold (Add pr) secrets no_values"

lemma secret_registry_ok: "values_ok (secret_registry pr secrets)"
proof -
  have "values_ok v \<Longrightarrow> values_ok (fold (Add pr) secrets v)" for v
    by (induction secrets arbitrary: v) (simp_all add: Add_ok)
  then show ?thesis by (simp add: secret_registry_def no_values_def values_ok_def)
qed

lemma secret_registry_holds:
  assumes "data \<in> set secrets" "MinContainedLen \<le> length (trim_space data)"
    and "f \<in> {trim_space data, jsonEscaped (trim_space data), goQuoted pr (trim_space data)}"
  shows "f \<in> set (contained_forms (secret_registry pr secrets))"
proof -
  have ne: "trim_space data \<noteq> []" using assms(2) by (auto simp: MinContainedLen_def)
  moreover have "trim_space [] = []" by code_simp
  ultimately have data: "data \<noteq> []" by auto
  have grows: "f \<in> set (contained_forms (Add pr d v))" if "values_ok v" "f \<in> set (contained_forms v)" for d v
  proof (cases "d = []")
    case False
    with that show ?thesis by (simp add: Add_contained)
  qed (use that in \<open>simp add: Add_def\<close>)
  have "values_ok v \<Longrightarrow> f \<in> set (contained_forms v) \<Longrightarrow> f \<in> set (contained_forms (fold (Add pr) ds v))" for ds v
    by (induction ds arbitrary: v) (simp_all add: Add_ok grows)
  moreover have "f \<in> set (contained_forms (Add pr data v))" if "values_ok v" for v
    using Add_contained [OF that data] assms(2,3) ne by blast
  ultimately have "values_ok v \<Longrightarrow> data \<in> set ds \<Longrightarrow> f \<in> set (contained_forms (fold (Add pr) ds v))" for ds v
    by (induction ds arbitrary: v) (auto simp: Add_ok)
  then show ?thesis using assms(1) by (simp add: secret_registry_def no_values_def values_ok_def)
qed

end
