(* ===== verification/Relay.thy ===== *)
theory Relay
  imports SecretMatch
begin

text \<open>
  Relaying the output of another process through a redactor (\<open>internal/logger/redact.go\<close>). The redactor is an
  interface: the locale \<open>redactor_laws\<close> states what the relay relies on, and inside it the relay is shown to
  forward no byte of a protected form. The destination is a write function with a state of any type.
\<close>

section \<open>The writer\<close>

record redactor =
  rd_Redact :: "string \<Rightarrow> string"
  rd_FlushPoint :: "string \<Rightarrow> string \<times> int"
  rd_MaxPending :: int

record 'w relay =
  rw_out :: 'w
  rw_red :: "redactor option"
  rw_pending :: string

type_synonym ('w, 'e) sink = "string \<Rightarrow> 'w \<Rightarrow> 'w \<times> 'e option"

definition maxPendingLine :: int where
  "maxPendingLine = 65536"

definition NewRedactingWriter :: "redactor option \<Rightarrow> 'w \<Rightarrow> 'w relay" where
  "NewRedactingWriter current w = \<lparr>rw_out = w, rw_red = current, rw_pending = []\<rparr>"

definition redact_with :: "redactor option \<Rightarrow> string \<Rightarrow> string" where
  "redact_with red s = (case red of None \<Rightarrow> s | Some d \<Rightarrow> rd_Redact d s)"

definition sink_write :: "('w, 'e) sink \<Rightarrow> string \<Rightarrow> 'w relay \<Rightarrow> 'w relay \<times> 'e option" where
  "sink_write wr s r = (case wr s (rw_out r) of (w, e) \<Rightarrow> (r\<lparr>rw_out := w\<rparr>, e))"

definition forward :: "('w, 'e) sink \<Rightarrow> string \<Rightarrow> 'w relay \<Rightarrow> 'w relay \<times> 'e option" where
  "forward wr line r = sink_write wr (redact_with (rw_red r) line) r"

definition pendingLimit :: "'w relay \<Rightarrow> int" where
  "pendingLimit r = (case rw_red r of Some d \<Rightarrow> rd_MaxPending d | None \<Rightarrow> maxPendingLine)"

definition forwardSafePrefix :: "('w, 'e) sink \<Rightarrow> 'w relay \<Rightarrow> 'w relay \<times> 'e option" where
  "forwardSafePrefix wr r =
     (case rw_red r of
        None \<Rightarrow>
          (case forward wr (rw_pending r) r of
             (r', Some e) \<Rightarrow> (r', Some e)
           | (r', None) \<Rightarrow> (r'\<lparr>rw_pending := []\<rparr>, None))
      | Some d \<Rightarrow>
          (case rd_FlushPoint d (rw_pending r) of (out, consumed) \<Rightarrow>
             if consumed \<le> 0 then (r, None)
             else
               (let consumed = min consumed (int (length (rw_pending r))) in
                case sink_write wr out r of
                  (r', Some e) \<Rightarrow> (r', Some e)
                | (r', None) \<Rightarrow> (r'\<lparr>rw_pending := drop (nat consumed) (rw_pending r)\<rparr>, None))))"

text \<open>The loop of \<open>Write\<close> over the completed lines: what is pending gets shorter with each.\<close>

function forward_lines :: "('w, 'e) sink \<Rightarrow> string \<Rightarrow> 'w relay \<Rightarrow> 'w relay \<times> 'e option" where
  "forward_lines wr p r =
     (case index_byte p NL of
        None \<Rightarrow> (r\<lparr>rw_pending := p\<rparr>, None)
      | Some i \<Rightarrow>
          (case forward wr (take (Suc i) p) (r\<lparr>rw_pending := p\<rparr>) of
             (r', Some e) \<Rightarrow> (r', Some e)
           | (r', None) \<Rightarrow> forward_lines wr (drop (Suc i) p) r'))"
  by pat_completeness auto
termination
  by (relation "measure (\<lambda>(wr, p, r). length p)") (auto simp: index_byte_def split: if_splits)

declare forward_lines.simps [simp del]

text \<open>\<open>Write\<close> reports how many bytes it took.\<close>

definition relay_Write :: "('w, 'e) sink \<Rightarrow> string \<Rightarrow> 'w relay \<Rightarrow> 'w relay \<times> nat \<times> 'e option" where
  "relay_Write wr p r =
     (case forward_lines wr (rw_pending r @ p) r of
        (r', Some e) \<Rightarrow> (r', 0, Some e)
      | (r', None) \<Rightarrow>
          (if int (length (rw_pending r')) > pendingLimit r' then
             (case forwardSafePrefix wr r' of
                (r'', Some e) \<Rightarrow> (r'', 0, Some e)
              | (r'', None) \<Rightarrow> (r'', length p, None))
           else (r', length p, None)))"

definition relay_Close :: "('w, 'e) sink \<Rightarrow> 'w relay \<Rightarrow> 'w relay \<times> 'e option" where
  "relay_Close wr r =
     (if rw_pending r = [] then (r, None)
      else (case forward wr (rw_pending r) r of (r', e) \<Rightarrow> (r'\<lparr>rw_pending := []\<rparr>, e)))"

text \<open>
  \<open>io.Copy\<close> of the chunks the pipe delivers, until end of file, a read deadline or a failed write. \<open>relayPipe\<close>
  closes the writer unless the deadline stopped it, and says whether it did.
\<close>

fun copy_chunks :: "('w, 'e) sink \<Rightarrow> string list \<Rightarrow> 'w relay \<Rightarrow> 'w relay \<times> 'e option" where
  "copy_chunks wr [] r = (r, None)"
| "copy_chunks wr (p # ps) r =
     (case relay_Write wr p r of
        (r', n, Some e) \<Rightarrow> (r', Some e)
      | (r', n, None) \<Rightarrow> copy_chunks wr ps r')"

definition relayPipe :: "('w, 'e) sink \<Rightarrow> bool \<Rightarrow> string list \<Rightarrow> 'w relay \<Rightarrow> 'w relay \<times> bool" where
  "relayPipe wr deadline chunks r =
     (case copy_chunks wr chunks r of
        (r', None) \<Rightarrow> if deadline then (r', False) else (fst (relay_Close wr r'), True)
      | (r', Some e) \<Rightarrow> (fst (relay_Close wr r'), True))"

text \<open>\<open>NewRedactedWriter\<close>: whole messages, nothing is kept back.\<close>

definition redacted_Write :: "('w, 'e) sink \<Rightarrow> redactor option \<Rightarrow> string \<Rightarrow> 'w \<Rightarrow> 'w \<times> nat \<times> 'e option" where
  "redacted_Write wr current p w =
     (case wr (redact_with current p) w of
        (w', Some e) \<Rightarrow> (w', 0, Some e)
      | (w', None) \<Rightarrow> (w', length p, None))"

section \<open>Masked text\<close>

text \<open>\<open>masks m h s out\<close>: \<open>out\<close> is \<open>s\<close> with pieces replaced by the marker \<open>m\<close>, every byte at which \<open>h\<close> holds among them.\<close>

inductive masks :: "string \<Rightarrow> (nat \<Rightarrow> bool) \<Rightarrow> string \<Rightarrow> string \<Rightarrow> bool" for m where
  masks_nil: "masks m h [] []"
| masks_raw: "\<not> h 0 \<Longrightarrow> masks m (\<lambda>i. h (Suc i)) s out \<Longrightarrow> masks m h (c # s) (c # out)"
| masks_marker: "w \<noteq> [] \<Longrightarrow> masks m (\<lambda>i. h (length w + i)) s out \<Longrightarrow> masks m h (w @ s) (m @ out)"

lemma masks_append:
  "masks m h s out \<Longrightarrow> masks m (\<lambda>i. h (length s + i)) t out' \<Longrightarrow> masks m h (s @ t) (out @ out')"
proof (induction arbitrary: t out' rule: masks.induct)
  case (masks_raw h s out c)
  then show ?case by (auto intro: masks.masks_raw)
next
  case (masks_marker w h s out)
  then show ?case by (auto simp: add.assoc intro!: masks.masks_marker)
qed simp

lemma masks_mono: "masks m h s out \<Longrightarrow> (\<And>i. i < length s \<Longrightarrow> h' i \<Longrightarrow> h i) \<Longrightarrow> masks m h' s out"
proof (induction arbitrary: h' rule: masks.induct)
  case (masks_raw h s out c)
  then show ?case by (intro masks.masks_raw) auto
next
  case (masks_marker w h s out)
  then show ?case by (intro masks.masks_marker) auto
qed (rule masks_nil)

lemma masks_all: "s \<noteq> [] \<Longrightarrow> masks m h s m"
  using masks_marker [of s m h "[]" "[]"] masks_nil by simp

section \<open>What the relay relies on\<close>

text \<open>
  \<open>forms\<close> are the forms the redactor protects. \<open>flush_covers\<close> and \<open>flush_closed\<close> say what a cut must not do: leave a
  byte of an occurrence in front of it, in the text that stays, without an occurrence that covers it there;
  or cut an occurrence that the text has only begun.
\<close>

definition append_sink :: "(string, unit) sink" where
  "append_sink s w = (w @ s, None)"

lemma nl_stops:
  assumes "occurs_at f (l @ NL # r) a" "NL \<notin> set f" "a \<le> length l"
  shows "a + length f \<le> length l"
proof (rule ccontr)
  assume "\<not> ?thesis"
  then have k: "length l - a < length f" "a + (length l - a) = length l" using assms(3) by auto
  with occurs_at_nth [OF assms(1) k(1)] have "f ! (length l - a) = NL" by simp
  with k(1) assms(2) show False by (metis nth_mem)
qed

lemma occurs_at_begun:
  assumes "occurs_at f (s @ t) a" "length s < a + length f" "a \<le> length s"
  shows "has_prefix f (drop a s)"
proof -
  obtain r where "drop a s @ t = f @ r" using assms(1,3) by (auto simp: occurs_at_def has_prefix_iff)
  then consider us where "drop a s = f @ us" | us where "f = drop a s @ us" by (auto simp: append_eq_append_conv2)
  then show ?thesis
  proof cases
    case 1
    then have "length f \<le> length (drop a s)" by simp
    with assms(2,3) show ?thesis by simp
  qed simp
qed

lemma occurs_at_set: "occurs_at f s a \<Longrightarrow> c \<in> set f \<Longrightarrow> c \<in> set s"
  unfolding occurs_at_def has_prefix_iff by (metis Un_iff in_set_dropD set_append)

locale redactor_laws =
  fixes d :: redactor and marker :: string and forms :: "string list"
  assumes redact_masks: "masks marker (covered forms s) s (rd_Redact d s)"
    and flush_masks: "rd_FlushPoint d s = (out, n) \<Longrightarrow> 0 < n
      \<Longrightarrow> n \<le> int (length s) \<and> masks marker (covered forms s) (take (nat n) s) out"
    and flush_covers: "rd_FlushPoint d s = (out, n) \<Longrightarrow> 0 < n \<Longrightarrow> f \<in> set forms \<Longrightarrow> occurs_at f s a
      \<Longrightarrow> a < nat n \<Longrightarrow> nat n \<le> i \<Longrightarrow> i < a + length f \<Longrightarrow> covered forms (drop (nat n) s) (i - nat n)"
    and flush_closed: "rd_FlushPoint d s = (out, n) \<Longrightarrow> 0 < n \<Longrightarrow> f \<in> set forms
      \<Longrightarrow> a < nat n \<Longrightarrow> has_prefix f (drop a s) \<Longrightarrow> length f \<le> length s - a"
begin

text \<open>The forms without a line break: the relay works line by line, a form with one has its lines tracked instead.\<close>

definition line_forms :: "string list" where
  "line_forms = filter (\<lambda>f. NL \<notin> set f) forms"

text \<open>
  The invariant of a relay of the text \<open>T\<close> after \<open>pre\<close> of it: what was written masks \<open>pre\<close>, and the bytes behind
  \<open>pre\<close> of an occurrence that began in it are covered by occurrences within what is pending.
\<close>

definition tail_safe :: "string \<Rightarrow> string \<Rightarrow> string \<Rightarrow> bool" where
  "tail_safe T pre pend \<longleftrightarrow>
     (\<forall>f a i. f \<in> set line_forms \<longrightarrow> occurs_at f T a \<longrightarrow> a < length pre \<longrightarrow> length pre \<le> i \<longrightarrow> i < a + length f
        \<longrightarrow> covered line_forms pend (i - length pre))"

definition relay_inv :: "string \<Rightarrow> string \<Rightarrow> string \<Rightarrow> string \<Rightarrow> bool" where
  "relay_inv T pre pend out \<longleftrightarrow> masks marker (covered line_forms T) pre out \<and> tail_safe T pre pend"

lemma line_forms_iff [simp]: "f \<in> set line_forms \<longleftrightarrow> f \<in> set forms \<and> NL \<notin> set f"
  by (simp add: line_forms_def)

lemma covered_line: "NL \<notin> set s \<Longrightarrow> covered forms s i \<Longrightarrow> covered line_forms s i"
  unfolding covered_iff using occurs_at_set by fastforce

lemma tail_safeD:
  "relay_inv T pre pend out \<Longrightarrow> f \<in> set line_forms \<Longrightarrow> occurs_at f T a \<Longrightarrow> a < length pre \<Longrightarrow> length pre \<le> i
     \<Longrightarrow> i < a + length f \<Longrightarrow> covered line_forms pend (i - length pre)"
  unfolding relay_inv_def tail_safe_def by blast

lemma inv_start: "relay_inv T [] [] []"
  by (simp add: relay_inv_def tail_safe_def masks_nil)

lemma inv_append: "relay_inv T pre pend out \<Longrightarrow> relay_inv T pre (pend @ p) out"
  using covered_append by (fastforce simp: relay_inv_def tail_safe_def)

lemma line_forms_sub: "set line_forms \<subseteq> set forms"
  by auto

lemma inv_line:
  assumes inv: "relay_inv T pre (l @ NL # pend) out" and T: "T = pre @ (l @ NL # pend) @ rest" and l: "NL \<notin> set l"
  shows "relay_inv T (pre @ l @ [NL]) pend (out @ rd_Redact d (l @ [NL]))"
proof -
  let ?line = "l @ [NL]"
  have take: "?line = take (Suc (length l)) (l @ NL # pend)" by simp
  have whole: "covered forms ?line i" if i: "i < length ?line" and cov: "covered line_forms T (length pre + i)" for i
  proof -
    obtain f a where f: "f \<in> set line_forms" "occurs_at f T a" "a \<le> length pre + i" "length pre + i < a + length f"
      using cov by (auto simp: covered_iff)
    have "covered line_forms (l @ NL # pend @ rest) i"
    proof (cases "a < length pre")
      case True
      with tail_safeD [OF inv f(1,2), of "length pre + i"] f have "covered line_forms (l @ NL # pend) i" by simp
      from covered_append [OF this, of rest] show ?thesis by simp
    next
      case False
      then obtain b where "a = length pre + b" by (auto simp: le_iff_add not_less)
      with f show ?thesis by (auto simp: T occurs_at_append_left covered_iff)
    qed
    then obtain g b where g: "g \<in> set line_forms" "occurs_at g (l @ NL # pend @ rest) b" "b \<le> i" "i < b + length g"
      by (auto simp: covered_iff)
    then have "b + length g \<le> length l" using nl_stops [OF g(2)] i by simp
    then have "occurs_at g (take (Suc (length l)) (l @ NL # pend @ rest)) b" using g(2) by (intro occurs_at_take) auto
    then show ?thesis using g by (auto simp: covered_iff)
  qed
  have "masks marker (\<lambda>i. covered line_forms T (length pre + i)) ?line (rd_Redact d ?line)"
    using masks_mono [OF redact_masks whole] .
  then have "masks marker (covered line_forms T) (pre @ ?line) (out @ rd_Redact d ?line)"
    using inv masks_append by (fastforce simp: relay_inv_def)
  moreover have False
    if "f \<in> set line_forms" "occurs_at f T a" "a < length (pre @ ?line)" "length (pre @ ?line) \<le> i" "i < a + length f" for f a i
    using nl_stops [of f "pre @ l" "pend @ rest" a] that by (auto simp: T)
  ultimately show ?thesis unfolding relay_inv_def tail_safe_def by blast
qed

lemma inv_flush:
  assumes inv: "relay_inv T pre pend out" and T: "T = pre @ pend @ rest" and pend: "NL \<notin> set pend"
    and flush: "rd_FlushPoint d pend = (out', n)" "0 < n"
  shows "relay_inv T (pre @ take (nat n) pend) (drop (nat n) pend) (out @ out')"
proof -
  note law = flush_masks [OF flush]
  have here: "occurs_at f pend (a - length pre)"
    if f: "f \<in> set line_forms" "occurs_at f T a" "length pre \<le> a" "a < length pre + nat n" for f a
  proof -
    obtain b where b: "a = length pre + b" using f(3) by (auto simp: le_iff_add)
    then have occ: "occurs_at f (pend @ rest) b" using f(2) by (simp add: T occurs_at_append_left)
    have "b + length f \<le> length pend"
    proof (rule ccontr)
      assume "\<not> ?thesis"
      then show False
        using occurs_at_begun [OF occ] flush_closed [OF flush, of f b] f(1,4) b law by auto
    qed
    from occurs_at_take [OF this occ] show ?thesis by (simp add: b)
  qed
  have "covered forms pend i" if i: "i < length (take (nat n) pend)" and cov: "covered line_forms T (length pre + i)" for i
  proof -
    obtain f a where f: "f \<in> set line_forms" "occurs_at f T a" "a \<le> length pre + i" "length pre + i < a + length f"
      using cov by (auto simp: covered_iff)
    show ?thesis
    proof (cases "a < length pre")
      case True
      with tail_safeD [OF inv f(1,2), of "length pre + i"] f have "covered line_forms pend i" by simp
      then show ?thesis by (rule covered_mono [OF _ line_forms_sub])
    next
      case False
      then show ?thesis using here [OF f(1,2)] f i by (force simp: covered_iff)
    qed
  qed
  from masks_mono [OF conjunct2 [OF law] this]
  have "masks marker (\<lambda>i. covered line_forms T (length pre + i)) (take (nat n) pend) out'" .
  then have "masks marker (covered line_forms T) (pre @ take (nat n) pend) (out @ out')"
    using inv masks_append by (fastforce simp: relay_inv_def)
  moreover have "covered line_forms (drop (nat n) pend) (i - (length pre + nat n))"
    if f: "f \<in> set line_forms" "occurs_at f T a" "a < length pre + nat n" "length pre + nat n \<le> i" "i < a + length f" for f a i
  proof -
    have "\<exists>g b. g \<in> set line_forms \<and> occurs_at g pend b \<and> b \<le> i - length pre \<and> i - length pre < b + length g"
    proof (cases "a < length pre")
      case True
      from tail_safeD [OF inv f(1,2) this, of i] f have "covered line_forms pend (i - length pre)" by simp
      then show ?thesis by (auto simp: covered_iff)
    next
      case False
      then show ?thesis using here [OF f(1,2)] f by (intro exI [of _ f] exI [of _ "a - length pre"]) auto
    qed
    then obtain g b where g: "g \<in> set line_forms" "occurs_at g pend b" "b \<le> i - length pre" "i - length pre < b + length g" by blast
    show ?thesis
    proof (cases "b < nat n")
      case True
      have "covered forms (drop (nat n) pend) (i - length pre - nat n)"
        by (rule flush_covers [OF flush, of g b]) (use g f True in auto)
      moreover have "NL \<notin> set (drop (nat n) pend)" using pend by (auto dest: in_set_dropD)
      ultimately show ?thesis using covered_line by simp
    next
      case False
      then have "occurs_at g (drop (nat n) pend) (b - nat n)" using g(2) by (simp add: occurs_at_drop)
      then show ?thesis unfolding covered_iff using g False f(4)
        by (intro bexI [of _ g] exI [of _ "b - nat n"]) auto
    qed
  qed
  moreover have "length (pre @ take (nat n) pend) = length pre + nat n" using law by auto
  ultimately show ?thesis unfolding relay_inv_def tail_safe_def by simp
qed

text \<open>\<open>relaying w T S r\<close>: after the first part \<open>S\<close> of the text \<open>T\<close> the writer over the destination \<open>w\<close> is in the state \<open>r\<close>.\<close>

definition relaying :: "string \<Rightarrow> string \<Rightarrow> string \<Rightarrow> string relay \<Rightarrow> bool" where
  "relaying w T S r \<longleftrightarrow> rw_red r = Some d \<and>
     (\<exists>pre out. rw_out r = w @ out \<and> S = pre @ rw_pending r \<and> relay_inv T pre (rw_pending r) out)"

lemma relaying_new: "relaying w T [] (NewRedactingWriter (Some d) w)"
  using inv_start by (simp add: relaying_def NewRedactingWriter_def)

lemma relaying_append: "relaying w T S r \<Longrightarrow> relaying w T (S @ p) (r\<lparr>rw_pending := rw_pending r @ p\<rparr>)"
  unfolding relaying_def using inv_append by fastforce

lemma forward_app [simp]:
  "rw_red r = Some d \<Longrightarrow> forward append_sink line r = (r\<lparr>rw_out := rw_out r @ rd_Redact d line\<rparr>, None)"
  by (simp add: forward_def sink_write_def append_sink_def redact_with_def)

lemma forward_lines_relaying:
  assumes "relaying w T S (r\<lparr>rw_pending := p\<rparr>)" "T = S @ rest"
  shows "\<exists>r'. forward_lines append_sink p r = (r', None) \<and> relaying w T S r' \<and> NL \<notin> set (rw_pending r')"
  using assms
proof (induction p arbitrary: r rule: length_induct)
  case (1 p)
  have red: "rw_red r = Some d" using 1(2) by (simp add: relaying_def)
  show ?case
  proof (cases "index_byte p NL")
    case None
    with 1(2) show ?thesis by (subst forward_lines.simps) (simp add: None index_byte_None_iff [symmetric])
  next
    case (Some i)
    define l where "l = take i p"
    define q where "q = drop (Suc i) p"
    have i: "i < length p" "p ! i = NL" "NL \<notin> set l" using Some by (auto simp: index_byte_Some_iff l_def)
    then have p: "p = l @ NL # q" using id_take_nth_drop [of i p] by (simp add: l_def q_def)
    have line: "take (Suc i) p = l @ [NL]" using i by (simp add: take_Suc_conv_app_nth l_def)
    let ?r = "r\<lparr>rw_pending := p, rw_out := rw_out r @ rd_Redact d (l @ [NL])\<rparr>"
    obtain pre out where inv: "rw_out r = w @ out" "S = pre @ p" "relay_inv T pre p out" using 1(2) by (auto simp: relaying_def)
    from inv_line [OF inv(3) [unfolded p] _ i(3)] inv(2) 1(3)
    have "relay_inv T (pre @ l @ [NL]) q (out @ rd_Redact d (l @ [NL]))" by (simp add: p)
    then have "relaying w T S (?r\<lparr>rw_pending := q\<rparr>)" using inv(1,2) red unfolding relaying_def by (auto simp: p)
    moreover have "length q < length p" using i(1) by (simp add: q_def)
    ultimately obtain r' where r': "forward_lines append_sink q ?r = (r', None)" "relaying w T S r'" "NL \<notin> set (rw_pending r')"
      using 1(1) 1(3) by blast
    have "forward_lines append_sink p r = forward_lines append_sink q ?r"
      using red by (subst forward_lines.simps) (simp add: Some line q_def)
    with r' show ?thesis by auto
  qed
qed

lemma Write_relaying:
  assumes "relaying w T S r" "T = S @ p @ rest"
  shows "\<exists>r'. relay_Write append_sink p r = (r', length p, None) \<and> relaying w T (S @ p) r'"
proof -
  obtain r1 where r1: "forward_lines append_sink (rw_pending r @ p) r = (r1, None)" "relaying w T (S @ p) r1" "NL \<notin> set (rw_pending r1)"
    using forward_lines_relaying [OF relaying_append [OF assms(1)]] assms(2) by (metis append.assoc)
  have red: "rw_red r1 = Some d" using r1(2) by (simp add: relaying_def)
  obtain out' n where flush: "rd_FlushPoint d (rw_pending r1) = (out', n)" by fastforce
  show ?thesis
  proof (cases "int (length (rw_pending r1)) > pendingLimit r1 \<and> 0 < n")
    case True
    obtain pre out where inv: "rw_out r1 = w @ out" "S @ p = pre @ rw_pending r1" "relay_inv T pre (rw_pending r1) out"
      using r1(2) by (auto simp: relaying_def)
    have T: "T = pre @ rw_pending r1 @ rest" using assms(2) inv(2) by (metis append.assoc)
    have n: "min n (int (length (rw_pending r1))) = n" using flush_masks [OF flush] True by simp
    let ?r = "r1\<lparr>rw_out := rw_out r1 @ out', rw_pending := drop (nat n) (rw_pending r1)\<rparr>"
    have "relay_Write append_sink p r = (?r, length p, None)"
      using True by (simp add: relay_Write_def r1(1) forwardSafePrefix_def red flush sink_write_def append_sink_def n)
    moreover have "relaying w T (S @ p) ?r"
      using inv_flush [OF inv(3) T r1(3) flush] True inv(1,2) red unfolding relaying_def
      by (intro conjI exI [of _ "pre @ take (nat n) (rw_pending r1)"] exI [of _ "out @ out'"]) auto
    ultimately show ?thesis by blast
  next
    case False
    then have "relay_Write append_sink p r = (r1, length p, None)"
      by (auto simp: relay_Write_def r1(1) forwardSafePrefix_def red flush)
    with r1(2) show ?thesis by blast
  qed
qed

lemma copy_relaying:
  "relaying w T S r \<Longrightarrow> T = S @ concat ps @ rest
     \<Longrightarrow> \<exists>r'. copy_chunks append_sink ps r = (r', None) \<and> relaying w T (S @ concat ps) r'"
proof (induction ps arbitrary: S r)
  case (Cons p ps)
  obtain r1 where r1: "relay_Write append_sink p r = (r1, length p, None)" "relaying w T (S @ p) r1"
    using Write_relaying [OF Cons.prems(1), of p "concat ps @ rest"] Cons.prems(2) by auto
  from Cons.IH [OF r1(2)] Cons.prems(2) r1(1) show ?case by simp
qed simp

text \<open>
  The relay of a text in any chunks forwards it with every byte of a protected form masked; where a deadline stops
  it, what it forwarded is the first part of the text, masked as the whole text requires.
\<close>

theorem relay_masks:
  assumes "relayPipe append_sink deadline ps (NewRedactingWriter (Some d) w) = (r, ended)"
  shows "ended \<longleftrightarrow> \<not> deadline"
    and "\<exists>pre out. rw_out r = w @ out \<and> pre @ rw_pending r = concat ps \<and> (ended \<longrightarrow> rw_pending r = [])
      \<and> masks marker (covered line_forms (concat ps)) pre out"
proof -
  let ?T = "concat ps"
  obtain r1 where r1: "copy_chunks append_sink ps (NewRedactingWriter (Some d) w) = (r1, None)" "relaying w ?T ?T r1"
    using copy_relaying [OF relaying_new, where ps = ps and T = "concat ps" and rest = "[]" and w = w] by auto
  then obtain pre out where inv: "rw_red r1 = Some d" "rw_out r1 = w @ out" "?T = pre @ rw_pending r1"
    "relay_inv ?T pre (rw_pending r1) out" by (auto simp: relaying_def)
  show "ended \<longleftrightarrow> \<not> deadline" using assms by (simp add: relayPipe_def r1(1) split: if_splits)
  show "\<exists>pre out. rw_out r = w @ out \<and> pre @ rw_pending r = concat ps \<and> (ended \<longrightarrow> rw_pending r = [])
      \<and> masks marker (covered line_forms (concat ps)) pre out"
  proof (cases "deadline \<or> rw_pending r1 = []")
    case True
    then have "r = r1" "ended \<longrightarrow> rw_pending r1 = []" using assms by (auto simp: relayPipe_def r1(1) relay_Close_def split: if_splits)
    then show ?thesis using inv by (auto simp: relay_inv_def)
  next
    case False
    let ?q = "rw_pending r1"
    have r: "r = r1\<lparr>rw_out := rw_out r1 @ rd_Redact d ?q, rw_pending := []\<rparr>"
      using assms False inv(1) by (simp add: relayPipe_def r1(1) relay_Close_def)
    have "covered forms ?q i" if cov: "covered line_forms ?T (length pre + i)" for i
    proof -
      obtain f a where f: "f \<in> set line_forms" "occurs_at f ?T a" "a \<le> length pre + i" "length pre + i < a + length f"
        using cov by (auto simp: covered_iff)
      show ?thesis
      proof (cases "a < length pre")
        case True
        with tail_safeD [OF inv(4) f(1,2), of "length pre + i"] f have "covered line_forms ?q i" by simp
        then show ?thesis by (rule covered_mono [OF _ line_forms_sub])
      next
        case False
        then obtain b where "a = length pre + b" by (auto simp: le_iff_add not_less)
        with f show ?thesis by (auto simp: inv(3) occurs_at_append_left covered_iff)
      qed
    qed
    from masks_mono [OF redact_masks [of ?q] this]
    have "masks marker (\<lambda>i. covered line_forms ?T (length pre + i)) ?q (rd_Redact d ?q)" by simp
    then have "masks marker (covered line_forms ?T) ?T (out @ rd_Redact d ?q)"
      using inv(4) masks_append [of marker "covered line_forms ?T" pre out ?q] inv(3) by (simp add: relay_inv_def)
    then show ?thesis using inv(2) by (intro exI [of _ ?T] exI [of _ "out @ rd_Redact d ?q"]) (simp add: r)
  qed
qed

end

end
