(* ===== verification/SecretFlush.thy ===== *)
theory SecretFlush
  imports SecretValues Relay
begin

text \<open>
  Where a relay may cut an unterminated line (\<open>FlushPoint\<close> and the functions under it in \<open>secret/values.go\<close>).
  The spans are kept sorted by start; \<open>slices.BinarySearchFunc\<close> is then the number of spans that start before
  the point. The last section shows the laws of \<open>redactor_laws\<close> for the registry.
\<close>

section \<open>Cuts\<close>

definition MaxSplitGuard :: nat where
  "MaxSplitGuard = 65536"

definition flushStallCap :: nat where
  "flushStallCap = 4 * MaxSplitGuard"

function mergeByStart :: "(nat \<times> nat) list \<Rightarrow> (nat \<times> nat) list \<Rightarrow> (nat \<times> nat) list" where
  "mergeByStart a b =
     (if a \<noteq> [] \<and> b \<noteq> [] then
        (if fst (hd b) < fst (hd a) then hd b # mergeByStart a (tl b) else hd a # mergeByStart (tl a) b)
      else a @ b)"
  by pat_completeness auto
termination by (relation "measure (\<lambda>(a, b). length a + length b)") auto

declare mergeByStart.simps [simp del]

fun merge_pairs :: "(nat \<times> nat) list list \<Rightarrow> (nat \<times> nat) list list" where
  "merge_pairs (a # b # occs) = mergeByStart a b # merge_pairs occs"
| "merge_pairs occs = occs"

lemma merge_pairs_length: "length (merge_pairs occs) \<le> length occs"
  by (induction occs rule: merge_pairs.induct) auto

function merge_lists :: "(nat \<times> nat) list list \<Rightarrow> (nat \<times> nat) list" where
  "merge_lists occs =
     (if length occs > 1 then merge_lists (merge_pairs occs)
      else (case occs of [] \<Rightarrow> [] | l # ls \<Rightarrow> l))"
  by pat_completeness auto
termination
proof (relation "measure length")
  fix occs :: "(nat \<times> nat) list list" assume "length occs > 1"
  then obtain a b ls where "occs = a # b # ls" by (cases occs; cases "tl occs") auto
  then show "(merge_pairs occs, occs) \<in> measure length" using merge_pairs_length [of ls] by simp
qed simp

declare merge_lists.simps [simp del]

definition protectedSpans :: "secret_values \<Rightarrow> string \<Rightarrow> (nat \<times> nat) list" where
  "protectedSpans v s =
     merge_lists (filter (\<lambda>occ. occ \<noteq> [])
       (map (\<lambda>e. formOccurrences (fst e) s)
         (filter (\<lambda>e. fm_contained (snd e) \<and> length (fst e) \<le> MaxSplitGuard) (snapshot v))))"

text \<open>The loop of \<open>protectedCrossing\<close>: \<open>Inl\<close> where it returns in the middle, else \<open>frontier\<close> and \<open>snap\<close> at its end.\<close>

fun crossing_scan :: "nat \<Rightarrow> nat \<Rightarrow> nat \<Rightarrow> (nat \<times> nat) list \<Rightarrow> nat + nat \<times> nat" where
  "crossing_scan pt frontier snap [] = Inr (frontier, snap)"
| "crossing_scan pt frontier snap ((a, b) # spans) =
     (if frontier > pt then Inr (frontier, snap)
      else if a \<ge> frontier \<and> a \<ge> pt then Inl pt
      else crossing_scan pt (max frontier b) (if a \<ge> frontier then a else snap) spans)"

definition protectedCrossing :: "(nat \<times> nat) list \<Rightarrow> nat \<Rightarrow> nat \<times> bool" where
  "protectedCrossing spans pt =
     (case crossing_scan pt 0 0 spans of
        Inl snap \<Rightarrow> (snap, False)
      | Inr (frontier, snap) \<Rightarrow> if frontier \<le> pt then (pt, False) else (snap, True))"

definition longestKeepBackForForcedFlush :: "secret_values \<Rightarrow> string \<Rightarrow> nat" where
  "longestKeepBackForForcedFlush v s =
     fold (\<lambda>e kMax. if length (fst e) > MaxSplitGuard then kMax
                    else (let k = longestPrefixSuffixOverlap (fst e) s in if k > kMax then k else kMax))
       (snapshot v) 0"

definition starts_before :: "(nat \<times> nat) list \<Rightarrow> nat \<Rightarrow> nat" where
  "starts_before spans c = length (takeWhile (\<lambda>sp. fst sp < c) spans)"

fun reach_scan :: "nat \<Rightarrow> nat \<Rightarrow> nat \<Rightarrow> nat \<Rightarrow> (nat \<times> nat) list \<Rightarrow> nat \<times> nat" where
  "reach_scan c longest need start [] = (need, start)"
| "reach_scan c longest need start ((a, b) # spans) =
     (if int a > int c - int longest then
        (if b > need then reach_scan c longest b a spans else reach_scan c longest need start spans)
      else (need, start))"

definition straddlerReach :: "(nat \<times> nat) list \<Rightarrow> nat \<Rightarrow> nat \<Rightarrow> nat \<times> nat" where
  "straddlerReach spans c longest = reach_scan c longest c c (rev (take (starts_before spans c) spans))"

fun cover_scan :: "nat \<Rightarrow> nat \<Rightarrow> (nat \<times> nat) list \<Rightarrow> nat" where
  "cover_scan need frontier [] = frontier"
| "cover_scan need frontier ((a, b) # spans) =
     (if a \<le> frontier \<and> frontier < need then cover_scan need (max frontier b) spans else frontier)"

definition coverFrom :: "(nat \<times> nat) list \<Rightarrow> nat \<Rightarrow> nat \<Rightarrow> nat" where
  "coverFrom spans c need = cover_scan need c (drop (starts_before spans c) spans)"

lemma reach_scan_from:
  "reach_scan c longest need start spans = (need', start')
     \<Longrightarrow> need' = need \<and> start' = start \<or> need < need' \<and> (start', need') \<in> set spans"
  by (induction spans arbitrary: need start) (fastforce split: if_splits)+

lemma starts_before_less: "(a, b) \<in> set (take (starts_before spans c) spans) \<Longrightarrow> a < c"
  unfolding starts_before_def takeWhile_eq_take [symmetric] by (auto dest: set_takeWhileD)

lemma straddlerReach_from:
  "straddlerReach spans c longest = (need, start) \<Longrightarrow> c < need \<Longrightarrow> (start, need) \<in> set spans \<and> start < c"
  using reach_scan_from [of c longest c c _ need start] starts_before_less
  by (fastforce simp: straddlerReach_def dest: in_set_takeD)

function retreat :: "(nat \<times> nat) list \<Rightarrow> nat \<Rightarrow> nat \<Rightarrow> nat" where
  "retreat spans longest c =
     (case straddlerReach spans c longest of (need, start) \<Rightarrow>
        if need \<le> c \<or> coverFrom spans c need \<ge> need then c else retreat spans longest start)"
  by pat_completeness auto
termination by (relation "measure (\<lambda>(spans, longest, c). c)") (auto simp: not_le dest!: straddlerReach_from [OF sym])

declare retreat.simps [simp del]

definition resolveForcedFlushCut :: "secret_values \<Rightarrow> string \<Rightarrow> (nat \<times> nat) list \<Rightarrow> nat" where
  "resolveForcedFlushCut v s spans =
     (let longest = fold (\<lambda>sp m. max m (snd sp - fst sp)) spans 0
      in retreat spans longest (length s - longestKeepBackForForcedFlush v s))"

definition escapeHatchFlush :: "secret_values \<Rightarrow> string \<Rightarrow> nat \<Rightarrow> string \<times> nat" where
  "escapeHatchFlush v s pt =
     (let spans = protectedSpans v s in
      case protectedCrossing spans pt of (snap, crossed) \<Rightarrow>
        if snap = 0 \<and> crossed \<and> length s < flushStallCap then ([], 0)
        else
          (let cut' = (if snap > 0 then snap else if crossed then resolveForcedFlushCut v s spans else pt)
           in if cut' = 0 then ([], 0) else (Redacted, cut')))"

definition longest_guarded :: "secret_values \<Rightarrow> nat" where
  "longest_guarded v =
     fold (\<lambda>e longest. if length (fst e) \<le> MaxSplitGuard then max longest (length (fst e)) else longest) (snapshot v) 0"

definition FlushPoint :: "secret_values \<Rightarrow> string \<Rightarrow> string \<times> nat" where
  "FlushPoint v s =
     (let pt = length s - (longest_guarded v - 1) in
      if pt = 0 then ([], 0)
      else
        (case find (\<lambda>(a, b). \<not> (a \<ge> pt \<or> pt \<ge> b)) (mergeSpans (fst (matchSpans v s False))) of
           Some (a, b) \<Rightarrow>
             if a = 0 \<and> length s > MaxSplitGuard then escapeHatchFlush v s pt
             else if a = 0 then ([], 0) else (Values_Redact v (take a s), a)
         | None \<Rightarrow> (Values_Redact v (take pt s), pt)))"

definition MaxPending :: nat where
  "MaxPending = MaxSplitGuard"

definition values_redactor :: "secret_values \<Rightarrow> redactor" where
  "values_redactor v =
     \<lparr>rd_Redact = Values_Redact v, rd_FlushPoint = (\<lambda>s. map_prod id int (FlushPoint v s)), rd_MaxPending = int MaxPending\<rparr>"

section \<open>The protected occurrences\<close>

definition protected_forms :: "secret_values \<Rightarrow> string list" where
  "protected_forms v = filter (\<lambda>f. length f \<le> MaxSplitGuard) (contained_forms v)"

lemma mergeByStart_cons:
  "mergeByStart (x # as) (y # bs) = (if fst y < fst x then y # mergeByStart (x # as) bs else x # mergeByStart as (y # bs))"
  by (subst mergeByStart.simps) simp

lemma mergeByStart_nil [simp]: "mergeByStart [] b = b" "mergeByStart a [] = a"
  by (subst mergeByStart.simps, simp)+

lemma mergeByStart_set [simp]: "set (mergeByStart a b) = set a \<union> set b"
proof (induction a b rule: mergeByStart.induct)
  case (1 a b)
  show ?case
  proof (cases a; cases b)
    fix x as y bs assume "a = x # as" "b = y # bs"
    with 1 show ?thesis by (cases "fst y < fst x") (auto simp: mergeByStart_cons)
  qed simp_all
qed

lemma mergeByStart_sorted: "sorted (map fst a) \<Longrightarrow> sorted (map fst b) \<Longrightarrow> sorted (map fst (mergeByStart a b))"
proof (induction a b rule: mergeByStart.induct)
  case (1 a b)
  show ?case
  proof (cases a; cases b)
    fix x as y bs assume "a = x # as" "b = y # bs"
    with 1 show ?thesis by (cases "fst y < fst x") (fastforce simp: mergeByStart_cons)+
  qed (use 1(3,4) in simp_all)
qed

lemma merge_pairs_set: "(\<Union>l \<in> set (merge_pairs occs). set l) = (\<Union>l \<in> set occs. set l)"
  by (induction occs rule: merge_pairs.induct) auto

lemma merge_pairs_sorted: "\<forall>l \<in> set occs. sorted (map fst l) \<Longrightarrow> \<forall>l \<in> set (merge_pairs occs). sorted (map fst l)"
  by (induction occs rule: merge_pairs.induct) (auto simp: mergeByStart_sorted)

lemma merge_lists_set: "set (merge_lists occs) = (\<Union>l \<in> set occs. set l)"
proof (induction occs rule: merge_lists.induct)
  case (1 occs)
  show ?case
  proof (cases "length occs > 1")
    case True
    with 1 show ?thesis by (subst merge_lists.simps) (simp add: merge_pairs_set)
  next
    case False
    then show ?thesis by (subst merge_lists.simps) (cases occs; auto)
  qed
qed

lemma merge_lists_sorted: "\<forall>l \<in> set occs. sorted (map fst l) \<Longrightarrow> sorted (map fst (merge_lists occs))"
proof (induction occs rule: merge_lists.induct)
  case (1 occs)
  show ?case
  proof (cases "length occs > 1")
    case True
    with 1 merge_pairs_sorted show ?thesis by (subst merge_lists.simps) auto
  next
    case False
    with 1(2) show ?thesis by (subst merge_lists.simps) (cases occs; auto)
  qed
qed

lemma contained_nonempty: "values_ok v \<Longrightarrow> f \<in> set (contained_forms v) \<Longrightarrow> f \<noteq> []"
  by (force simp: contained_forms_def values_ok_def)

lemma formOccurrences_sorted: "form \<noteq> [] \<Longrightarrow> sorted (map fst (formOccurrences form s))"
  by (simp add: formOccurrences_all occurrences_def comp_def sorted_wrt_filter)

lemma protectedSpans_iff:
  assumes "values_ok v"
  shows "(a, b) \<in> set (protectedSpans v s) \<longleftrightarrow> (\<exists>f \<in> set (protected_forms v). occurs_at f s a \<and> b = a + length f)"
proof -
  have "(a, b) \<in> set (protectedSpans v s) \<longleftrightarrow> (\<exists>f \<in> set (protected_forms v). (a, b) \<in> set (formOccurrences f s))"
    by (force simp: protectedSpans_def merge_lists_set protected_forms_def contained_forms_def)
  also have "\<dots> \<longleftrightarrow> (\<exists>f \<in> set (protected_forms v). occurs_at f s a \<and> b = a + length f)"
    using contained_nonempty [OF assms] by (auto simp: protected_forms_def formOccurrences_iff)
  finally show ?thesis .
qed

lemma protectedSpans_sorted: "values_ok v \<Longrightarrow> sorted (map fst (protectedSpans v s))"
  unfolding protectedSpans_def using contained_nonempty [of v]
  by (intro merge_lists_sorted) (force simp: contained_forms_def intro!: formOccurrences_sorted)

section \<open>Cuts that split nothing\<close>

definition splits_none :: "(nat \<times> nat) list \<Rightarrow> nat \<Rightarrow> bool" where
  "splits_none spans p \<longleftrightarrow> (\<forall>(a, b) \<in> set spans. \<not> (a < p \<and> p < b))"

definition scan_ok :: "(nat \<times> nat) list \<Rightarrow> nat \<Rightarrow> nat + nat \<times> nat \<Rightarrow> bool" where
  "scan_ok spans pt res \<longleftrightarrow> (case res of
      Inl p \<Rightarrow> p = pt \<and> splits_none spans pt
    | Inr (f, p) \<Rightarrow> p \<le> pt \<and> splits_none spans p \<and> (f \<le> pt \<longrightarrow> splits_none spans pt))"

lemma crossing_scan_ok:
  assumes "all_spans = pre @ spans" "sorted (map fst all_spans)" "\<forall>(a, b) \<in> set pre. b \<le> frontier"
    and "splits_none all_spans snap" "snap \<le> pt"
  shows "scan_ok all_spans pt (crossing_scan pt frontier snap spans)"
  using assms
proof (induction spans arbitrary: pre frontier snap)
  case Nil
  then show ?case by (fastforce simp: splits_none_def scan_ok_def)
next
  case (Cons sp spans)
  obtain a b where sp: "sp = (a, b)" by (cases sp)
  have later: "a \<le> c" if "(c, d) \<in> set spans" for c d using Cons.prems(1,2) that by (fastforce simp: sp sorted_append)
  have gap: "splits_none all_spans p" if "frontier \<le> p" "p \<le> a" for p
    using that Cons.prems(1,3) later by (fastforce simp: splits_none_def sp)
  show ?case
  proof (cases "frontier > pt \<or> a \<ge> frontier \<and> a \<ge> pt")
    case True
    with Cons.prems gap [of pt] show ?thesis by (auto simp: sp scan_ok_def)
  next
    case False
    let ?snap = "if a \<ge> frontier then a else snap"
    have "splits_none all_spans ?snap" "?snap \<le> pt" using Cons.prems(4,5) gap [of a] False by auto
    moreover have "\<forall>(c, d) \<in> set (pre @ [sp]). d \<le> max frontier b" using Cons.prems(3) by (auto simp: sp)
    ultimately have "scan_ok all_spans pt (crossing_scan pt (max frontier b) ?snap spans)"
      using Cons.prems(1,2) by (intro Cons.IH) auto
    moreover have "crossing_scan pt frontier snap (sp # spans) = crossing_scan pt (max frontier b) ?snap spans"
      using False by (auto simp: sp)
    ultimately show ?thesis by simp
  qed
qed

lemma protectedCrossing_ok:
  assumes "sorted (map fst spans)" "protectedCrossing spans pt = (snap, crossed)"
  shows "snap \<le> pt" "splits_none spans snap" "\<not> crossed \<Longrightarrow> snap = pt"
proof -
  have "splits_none spans 0" by (simp add: splits_none_def)
  then have "scan_ok spans pt (crossing_scan pt 0 0 spans)"
    using crossing_scan_ok [of spans "[]" spans 0 0 pt] assms(1) by simp
  then show "snap \<le> pt" "splits_none spans snap" "\<not> crossed \<Longrightarrow> snap = pt"
    using assms(2) by (auto simp: protectedCrossing_def scan_ok_def split: sum.splits prod.splits if_splits)
qed

section \<open>The forced cut\<close>

lemma keep_back_max:
  "\<forall>e \<in> set es. fst e \<noteq> [] \<Longrightarrow>
     (let k = fold (\<lambda>e kMax. if length (fst e) > MaxSplitGuard then kMax
          else (let k = longestPrefixSuffixOverlap (fst e) s in if k > kMax then k else kMax)) es k0
      in k0 \<le> k \<and> (k < MaxSplitGuard \<or> k = k0) \<and> (k \<le> length s \<or> k = k0)
       \<and> (\<forall>e \<in> set es. length (fst e) \<le> MaxSplitGuard \<longrightarrow> longestPrefixSuffixOverlap (fst e) s \<le> k))"
proof (induction es arbitrary: k0)
  case (Cons e es)
  have "longest_below (fst e) s (length (fst e)) (longestPrefixSuffixOverlap (fst e) s)"
    using longestPrefixSuffixOverlap_longest Cons.prems by simp
  then have e: "longestPrefixSuffixOverlap (fst e) s < length (fst e)" "longestPrefixSuffixOverlap (fst e) s \<le> length s"
    by (auto simp: longest_below_def dest: overlaps_length)
  let ?k = "if length (fst e) > MaxSplitGuard then k0 else max k0 (longestPrefixSuffixOverlap (fst e) s)"
  have step: "(if length (fst e) > MaxSplitGuard then k0
      else (let k = longestPrefixSuffixOverlap (fst e) s in if k > k0 then k else k0)) = ?k" by (simp add: Let_def max_def)
  from Cons.IH [of ?k] Cons.prems e show ?case unfolding fold_simps(2) step Let_def by (auto simp: max_def split: if_splits)
qed simp

lemma keep_back:
  assumes "values_ok v"
  shows "longestKeepBackForForcedFlush v s < MaxSplitGuard" "longestKeepBackForForcedFlush v s \<le> length s"
    "f \<in> set (protected_forms v) \<Longrightarrow> longestPrefixSuffixOverlap f s \<le> longestKeepBackForForcedFlush v s"
proof -
  have "\<forall>e \<in> set (snapshot v). fst e \<noteq> []" using assms by (force simp: values_ok_def)
  from keep_back_max [OF this, of s 0]
  show "longestKeepBackForForcedFlush v s < MaxSplitGuard" "longestKeepBackForForcedFlush v s \<le> length s"
    "f \<in> set (protected_forms v) \<Longrightarrow> longestPrefixSuffixOverlap f s \<le> longestKeepBackForForcedFlush v s"
    by (auto simp: longestKeepBackForForcedFlush_def Let_def MaxSplitGuard_def protected_forms_def contained_forms_def)
qed

lemma reach_scan_max:
  "reach_scan c longest need start spans = (need', start') \<Longrightarrow> sorted (map fst (rev spans))
     \<Longrightarrow> need \<le> need' \<and> (\<forall>a b. (a, b) \<in> set spans \<longrightarrow> c < a + longest \<longrightarrow> b \<le> need')"
proof (induction spans arbitrary: need start)
  case (Cons sp spans)
  obtain a b where sp: "sp = (a, b)" by (cases sp)
  have earlier: "c' \<le> a" if "(c', e) \<in> set spans" for c' e using Cons.prems(2) that by (fastforce simp: sp sorted_append)
  show ?case
  proof (cases "int a > int c - int longest")
    case True
    have "sorted (map fst (rev spans))" using Cons.prems(2) by (simp add: sorted_append)
    note IH = Cons.IH [OF _ this]
    show ?thesis
    proof (cases "b > need")
      case more: True
      then have "reach_scan c longest b a spans = (need', start')" using Cons.prems(1) True by (simp add: sp)
      from IH [OF this] more show ?thesis by (auto simp: sp)
    next
      case False
      then have "reach_scan c longest need start spans = (need', start')" using Cons.prems(1) True by (simp add: sp)
      from IH [OF this] False show ?thesis by (auto simp: sp)
    qed
  next
    case False
    then have "\<not> c < x + longest" if "(x, y) \<in> set (sp # spans)" for x y using that earlier [of x y] by (auto simp: sp)
    moreover have "need' = need" using Cons.prems(1) False by (simp add: sp)
    ultimately show ?thesis by blast
  qed
qed simp

lemma in_starts_before:
  assumes "sorted (map fst spans)"
  shows "(a, b) \<in> set (take (starts_before spans c) spans) \<longleftrightarrow> (a, b) \<in> set spans \<and> a < c"
    and "(a, b) \<in> set (drop (starts_before spans c) spans) \<longleftrightarrow> (a, b) \<in> set spans \<and> c \<le> a"
proof -
  have later: "c \<le> x" if "(x, y) \<in> set (dropWhile (\<lambda>sp. fst sp < c) spans)" for x y
    using assms that by (induction spans) (fastforce split: if_splits)+
  have "(a, b) \<in> set spans \<longleftrightarrow> (a, b) \<in> set (takeWhile (\<lambda>sp. fst sp < c) spans) \<or> (a, b) \<in> set (dropWhile (\<lambda>sp. fst sp < c) spans)"
    by (metis Un_iff set_append takeWhile_dropWhile_id)
  moreover have "(a, b) \<in> set (takeWhile (\<lambda>sp. fst sp < c) spans) \<Longrightarrow> a < c" by (auto dest: set_takeWhileD)
  ultimately show "(a, b) \<in> set (take (starts_before spans c) spans) \<longleftrightarrow> (a, b) \<in> set spans \<and> a < c"
    "(a, b) \<in> set (drop (starts_before spans c) spans) \<longleftrightarrow> (a, b) \<in> set spans \<and> c \<le> a"
    using later [of a b] by (auto simp: starts_before_def takeWhile_eq_take [symmetric] dropWhile_eq_drop [symmetric])
qed

lemma straddlerReach_max:
  assumes "sorted (map fst spans)" "\<forall>(a, b) \<in> set spans. b \<le> a + longest"
    and "straddlerReach spans c longest = (need, start)" "(a, b) \<in> set spans" "a < c" "c < b"
  shows "b \<le> need"
proof -
  have "sorted (map fst (take (starts_before spans c) spans))" using assms(1) by (simp add: take_map [symmetric])
  with reach_scan_max [OF assms(3) [unfolded straddlerReach_def]] in_starts_before(1) [OF assms(1)] assms(2,4-6)
  show ?thesis by fastforce
qed

lemma cover_scan_covers: "frontier \<le> i \<Longrightarrow> i < cover_scan need frontier spans \<Longrightarrow> in_spans spans i"
proof (induction need frontier spans rule: cover_scan.induct)
  case (2 need frontier a b spans)
  then show ?case by (cases "i < b") (auto split: if_splits)
qed simp

lemma cover_scan_reaches:
  "(a, b) \<in> set spans \<Longrightarrow> sorted (map fst spans) \<Longrightarrow> a \<le> frontier
     \<Longrightarrow> b \<le> cover_scan need frontier spans \<or> need \<le> cover_scan need frontier spans"
proof (induction need frontier spans rule: cover_scan.induct)
  case (2 need frontier x y spans)
  have mono: "f \<le> cover_scan need f spans" for f
    by (induction need f spans rule: cover_scan.induct) auto
  have x: "x \<le> frontier" using 2(2,3,4) by auto
  show ?case
  proof (cases "frontier < need")
    case True
    show ?thesis
    proof (cases "(a, b) = (x, y)")
      case True
      with x \<open>frontier < need\<close> mono [of "max frontier y"] show ?thesis by auto
    next
      case False
      with 2 x True show ?thesis by auto
    qed
  qed (use x in auto)
qed simp

lemma coverFrom_covers:
  assumes "sorted (map fst spans)" "c \<le> i" "i < coverFrom spans c need"
  shows "\<exists>(a, b) \<in> set spans. c \<le> a \<and> a \<le> i \<and> i < b"
proof -
  have "in_spans (drop (starts_before spans c) spans) i" using cover_scan_covers assms(2,3) by (simp add: coverFrom_def)
  then show ?thesis using in_starts_before(2) [OF assms(1)] unfolding in_spans_iff by blast
qed

lemma coverFrom_reaches:
  assumes "sorted (map fst spans)" "(c, e) \<in> set spans" "coverFrom spans c need < need"
  shows "e \<le> coverFrom spans c need"
proof -
  have "sorted (map fst (drop (starts_before spans c) spans))" using assms(1) by (simp add: drop_map [symmetric])
  moreover have "(c, e) \<in> set (drop (starts_before spans c) spans)" using in_starts_before(2) [OF assms(1)] assms(2) by simp
  ultimately show ?thesis using cover_scan_reaches [of c e _ c need] assms(3) by (fastforce simp: coverFrom_def)
qed

text \<open>The search stops at a cut whose straddlers are covered behind it, inside an occurrence that contains its start.\<close>

lemma retreat_leak_free:
  assumes "sorted (map fst spans)" "\<forall>(a, b) \<in> set spans. b \<le> a + longest"
    and "(a, b) \<in> set spans" "a < retreat spans longest c" "retreat spans longest c \<le> i" "i < b"
  shows "\<exists>(x, y) \<in> set spans. retreat spans longest c \<le> x \<and> x \<le> i \<and> i < y"
  using assms
proof (induction spans longest c rule: retreat.induct)
  case (1 spans longest c)
  obtain need start where reach: "straddlerReach spans c longest = (need, start)" by fastforce
  show ?case
  proof (cases "need \<le> c \<or> coverFrom spans c need \<ge> need")
    case True
    then have c: "retreat spans longest c = c" by (subst retreat.simps) (simp add: reach)
    have "b \<le> need" using straddlerReach_max [OF 1(2,3) reach 1(4)] 1(5-7) c by simp
    with True 1(6,7) c have "i < coverFrom spans c need" by auto
    with coverFrom_covers [OF 1(2)] 1(6) show ?thesis unfolding c by blast
  next
    case False
    then have c: "retreat spans longest c = retreat spans longest start" by (subst retreat.simps) (simp add: reach)
    show ?thesis using 1(1) [OF reach [symmetric] False 1(2-4)] 1(5-7) unfolding c by blast
  qed
qed

lemma retreat_bound:
  assumes "sorted (map fst spans)" "\<forall>(a, b) \<in> set spans. b \<le> a + longest"
    and "c = c0 \<or> c \<le> c0 \<and> (\<exists>e. (c, e) \<in> set spans \<and> c0 < e)"
  shows "retreat spans longest c \<le> c0 \<and> c0 \<le> retreat spans longest c + longest"
  using assms
proof (induction spans longest c rule: retreat.induct)
  case (1 spans longest c)
  obtain need start where reach: "straddlerReach spans c longest = (need, start)" by fastforce
  show ?case
  proof (cases "need \<le> c \<or> coverFrom spans c need \<ge> need")
    case True
    then have c: "retreat spans longest c = c" by (subst retreat.simps) (simp add: reach)
    show ?thesis unfolding c using 1(3,4) by fastforce
  next
    case False
    then have c: "retreat spans longest c = retreat spans longest start" by (subst retreat.simps) (simp add: reach)
    have start: "(start, need) \<in> set spans" "start < c" using straddlerReach_from [OF reach] False by auto
    have "c0 < need"
      using 1(4) False coverFrom_reaches [OF 1(2), of c _ need] by fastforce
    then have "start \<le> c0 \<and> (\<exists>e. (start, e) \<in> set spans \<and> c0 < e)" using start 1(4) by auto
    then show ?thesis using 1(1) [OF reach [symmetric] False 1(2,3)] unfolding c by blast
  qed
qed

lemma fold_max_le: "fold (\<lambda>x m. max m (g x)) xs m0 \<le> n \<longleftrightarrow> m0 \<le> n \<and> (\<forall>x \<in> set xs. g x \<le> n)" for n :: nat
  by (induction xs arbitrary: m0) auto

lemma resolve_bound:
  assumes "values_ok v" "spans = protectedSpans v s" "c = resolveForcedFlushCut v s spans"
  shows "c \<le> length s - longestKeepBackForForcedFlush v s"
    "length s - longestKeepBackForForcedFlush v s \<le> c + MaxSplitGuard"
    "(a, b) \<in> set spans \<Longrightarrow> a < c \<Longrightarrow> c \<le> i \<Longrightarrow> i < b \<Longrightarrow> \<exists>(x, y) \<in> set spans. c \<le> x \<and> x \<le> i \<and> i < y"
proof -
  let ?longest = "fold (\<lambda>sp m. max m (snd sp - fst sp)) spans 0"
  let ?c0 = "length s - longestKeepBackForForcedFlush v s"
  have sorted: "sorted (map fst spans)" using protectedSpans_sorted [OF assms(1)] assms(2) by simp
  have len: "\<forall>(a, b) \<in> set spans. b \<le> a + ?longest"
    using fold_max_le [of "\<lambda>sp. snd sp - fst sp" spans 0 ?longest] by fastforce
  have "b \<le> a + MaxSplitGuard" if "(a, b) \<in> set spans" for a b
    using that protectedSpans_iff [OF assms(1), of a b s] assms(2) by (auto simp: protected_forms_def)
  then have long: "?longest \<le> MaxSplitGuard"
    by (fastforce simp: fold_max_le)
  have c: "c = retreat spans ?longest ?c0" using assms(3) by (simp add: resolveForcedFlushCut_def Let_def)
  have bound: "c \<le> ?c0 \<and> ?c0 \<le> c + ?longest" unfolding c by (rule retreat_bound [OF sorted len]) simp
  then show "c \<le> ?c0" "?c0 \<le> c + MaxSplitGuard" using long by auto
  show "\<exists>(x, y) \<in> set spans. c \<le> x \<and> x \<le> i \<and> i < y" if "(a, b) \<in> set spans" "a < c" "c \<le> i" "i < b"
    using retreat_leak_free [OF sorted len that(1), of ?c0 i] that(2-4) unfolding c by simp
qed

section \<open>The laws of a cut\<close>

text \<open>A point no merged run crosses splits no occurrence.\<close>

lemma separate_disjoint:
  "separate runs \<Longrightarrow> (a, b) \<in> set runs \<Longrightarrow> (x, y) \<in> set runs \<Longrightarrow> (a, b) = (x, y) \<or> b < x \<or> y < a"
  by (induction runs rule: separate.induct) fastforce+

lemma separate_joins:
  assumes "separate runs" "in_spans runs (n - 1)" "in_spans runs n" "0 < n"
  shows "\<exists>(a, b) \<in> set runs. a < n \<and> n < b"
proof -
  obtain a b x y where ab: "(a, b) \<in> set runs" "a \<le> n - 1" "n - 1 < b" and xy: "(x, y) \<in> set runs" "x \<le> n" "n < y"
    using assms(2,3) unfolding in_spans_iff by blast
  from separate_disjoint [OF assms(1) ab(1) xy(1)] ab xy assms(4) have "a < n \<and> n < b" by auto
  with ab(1) show ?thesis by blast
qed

lemma contained_spans:
  assumes "values_ok v" "spans = fst (matchSpans v s False)"
  shows "(a, b) \<in> set spans \<longleftrightarrow> (\<exists>f \<in> set (contained_forms v). occurs_at f s a \<and> b = a + length f)"
proof -
  have "(a, b) \<in> set spans \<longleftrightarrow> (\<exists>f \<in> set (contained_forms v). (a, b) \<in> set (formOccurrences f s))"
    using assms(2) by (force simp: matchSpans_def Let_def contained_forms_def split: if_splits)
  then show ?thesis using contained_nonempty [OF assms(1)] by (simp add: formOccurrences_iff cong: bex_cong)
qed

lemma uncrossed_splits_none:
  assumes ok: "values_ok v" and runs: "runs = mergeSpans (fst (matchSpans v s False))"
    and none: "\<And>a b. (a, b) \<in> set runs \<Longrightarrow> \<not> (a < n \<and> n < b)"
    and f: "f \<in> set (contained_forms v)" "occurs_at f s a" "a < n"
  shows "a + length f \<le> n"
proof (rule ccontr)
  let ?spans = "fst (matchSpans v s False)"
  assume "\<not> ?thesis"
  moreover have "(a, a + length f) \<in> set ?spans" using contained_spans [OF ok refl] f(1,2) by blast
  ultimately have "in_spans ?spans (n - 1)" "in_spans ?spans n" unfolding in_spans_iff using f(3) by fastforce+
  moreover have pos: "\<forall>(x, y) \<in> set ?spans. x < y"
    using contained_spans [OF ok refl] contained_nonempty [OF ok] by fastforce
  ultimately have "in_spans runs (n - 1)" "in_spans runs n" "separate runs" using mergeSpans_ok [OF pos] runs by simp_all
  from separate_joins [OF this(3,1,2)] none f(3) show False by fastforce
qed

lemma longest_guarded_max: "f \<in> set (protected_forms v) \<Longrightarrow> length f \<le> longest_guarded v"
proof -
  have "k0 \<le> fold (\<lambda>e longest. if length (fst e) \<le> MaxSplitGuard then max longest (length (fst e)) else longest) es k0
      \<and> (\<forall>e \<in> set es. length (fst e) \<le> MaxSplitGuard \<longrightarrow> length (fst e) \<le>
          fold (\<lambda>e longest. if length (fst e) \<le> MaxSplitGuard then max longest (length (fst e)) else longest) es k0)"
    for es :: "formEntry list" and k0
  proof (induction es arbitrary: k0)
    case (Cons e es)
    from Cons [of "if length (fst e) \<le> MaxSplitGuard then max k0 (length (fst e)) else k0"] show ?case by auto
  qed simp
  from this [of 0 "snapshot v"] show "f \<in> set (protected_forms v) \<Longrightarrow> length f \<le> longest_guarded v"
    by (auto simp: longest_guarded_def protected_forms_def contained_forms_def)
qed

text \<open>The three kinds of cut.\<close>

lemma FlushPoint_cases:
  assumes ok: "values_ok v" and flush: "FlushPoint v s = (out, n)" "0 < n"
  shows "(n \<le> length s - (longest_guarded v - 1) \<and> out = Values_Redact v (take n s)
      \<and> (\<forall>f a. f \<in> set (contained_forms v) \<longrightarrow> occurs_at f s a \<longrightarrow> a < n \<longrightarrow> a + length f \<le> n))
    \<or> (n \<le> length s - (longest_guarded v - 1) \<and> out = Redacted \<and> splits_none (protectedSpans v s) n)
    \<or> (n = resolveForcedFlushCut v s (protectedSpans v s) \<and> out = Redacted)"
proof -
  let ?pt = "length s - (longest_guarded v - 1)"
  let ?spans = "fst (matchSpans v s False)"
  have pos: "\<forall>(x, y) \<in> set ?spans. x < y"
    using contained_spans [OF ok refl] contained_nonempty [OF ok] by fastforce
  have pt: "?pt \<noteq> 0" using flush by (auto simp: FlushPoint_def Let_def split: if_splits)
  show ?thesis
  proof (cases "find (\<lambda>(a, b). \<not> (a \<ge> ?pt \<or> ?pt \<ge> b)) (mergeSpans ?spans)")
    case None
    then have n: "n = ?pt" "out = Values_Redact v (take n s)" using flush pt by (auto simp: FlushPoint_def Let_def)
    have "\<not> (a < n \<and> n < b)" if "(a, b) \<in> set (mergeSpans ?spans)" for a b
      using None that n(1) by (fastforce simp: find_None_iff)
    with uncrossed_splits_none [OF ok refl] n show ?thesis by blast
  next
    case (Some ab)
    obtain a b where ab: "ab = (a, b)" by (cases ab)
    have run: "(a, b) \<in> set (mergeSpans ?spans)" "a < ?pt" "?pt < b"
      using Some by (auto simp: ab find_Some_iff) (metis nth_mem)
    show ?thesis
    proof (cases "a = 0")
      case False
      then have n: "n = a" "out = Values_Redact v (take n s)" using flush pt Some by (auto simp: FlushPoint_def Let_def ab)
      have "\<not> (x < n \<and> n < y)" if "(x, y) \<in> set (mergeSpans ?spans)" for x y
        using separate_disjoint [OF mergeSpans_ok(1) [OF pos] run(1) that] run n(1) by auto
      with uncrossed_splits_none [OF ok refl] n run(2) show ?thesis by (meson less_imp_le)
    next
      case True
      then have "escapeHatchFlush v s ?pt = (out, n)"
        using flush pt Some by (auto simp: FlushPoint_def Let_def ab split: if_splits)
      moreover obtain snap crossed where sc: "protectedCrossing (protectedSpans v s) ?pt = (snap, crossed)" by fastforce
      moreover note crossing = protectedCrossing_ok [OF protectedSpans_sorted [OF ok] sc]
      ultimately have "out = Redacted" "n = snap \<or> n = resolveForcedFlushCut v s (protectedSpans v s)"
        using flush(2) by (auto simp: escapeHatchFlush_def Let_def split: if_splits)
      with crossing show ?thesis by blast
    qed
  qed
qed

lemma FlushPoint_bound: "values_ok v \<Longrightarrow> FlushPoint v s = (out, n) \<Longrightarrow> n \<le> length s"
  using FlushPoint_cases [of v s out n] resolve_bound(1) [of v "protectedSpans v s" s] by (cases n) fastforce+

lemma masks_mask:
  "masks Redacted h s (mask_from False h s) \<and> (w \<noteq> [] \<longrightarrow> masks Redacted h' (w @ s) (Redacted @ mask_from True (\<lambda>i. h' (length w + i)) s))"
proof (induction s arbitrary: h h' w)
  case Nil
  show ?case using masks_nil [of Redacted] masks_marker [of w Redacted h' "[]" "[]"] by simp
next
  case (Cons c s)
  have False: "masks Redacted h (c # s) (mask_from False h (c # s))" for h
  proof (cases "h 0")
    case True
    then show ?thesis using Cons.IH [of _ "[c]" h] by simp
  next
    case False
    then show ?thesis using Cons.IH by (auto intro: masks_raw)
  qed
  have "masks Redacted h' (w @ c # s) (Redacted @ mask_from True (\<lambda>i. h' (length w + i)) (c # s))" if "w \<noteq> []"
  proof (cases "h' (length w)")
    case True
    then show ?thesis using Cons.IH [of _ "w @ [c]" h'] by simp
  next
    case no: False
    then have "mask_from True (\<lambda>i. h' (length w + i)) (c # s) = mask_from False (\<lambda>i. h' (length w + i)) (c # s)" by simp
    then show ?thesis using masks_marker [OF that] False by metis
  qed
  with False show ?case by blast
qed

lemma Redact_masks:
  assumes "values_ok v"
  shows "masks Redacted (covered (contained_forms v) s) s (Values_Redact v s)"
proof (cases "\<exists>(form, m) \<in> set (vl_forms v). \<not> fm_contained m \<and> s = form")
  case True
  then have "s \<noteq> []" using assms by (force simp: values_ok_def)
  with True show ?thesis by (simp add: Redact_mask [OF assms] masks_all)
next
  case False
  then show ?thesis unfolding Redact_mask [OF assms] using masks_mask by auto
qed

lemma protected_contained: "set (protected_forms v) \<subseteq> set (contained_forms v)"
  by (auto simp: protected_forms_def)

lemma FlushPoint_masks:
  assumes ok: "values_ok v" and flush: "FlushPoint v s = (out, n)" "0 < n"
  shows "masks Redacted (covered (protected_forms v) s) (take n s) out"
proof -
  have ne: "take n s \<noteq> []"
  proof
    assume "take n s = []"
    with FlushPoint_bound [OF ok flush(1)] flush(2) show False by simp
  qed
  show ?thesis
  proof (cases "out = Redacted")
    case True
    then show ?thesis using masks_all [OF ne] by simp
  next
    case False
    then have n: "out = Values_Redact v (take n s)"
      "\<And>f a. f \<in> set (contained_forms v) \<Longrightarrow> occurs_at f s a \<Longrightarrow> a < n \<Longrightarrow> a + length f \<le> n"
      using FlushPoint_cases [OF assms] by auto
    have "covered (contained_forms v) (take n s) i" if "i < length (take n s)" "covered (protected_forms v) s i" for i
      using that n(2) occurs_at_take protected_contained unfolding covered_iff by fastforce
    from masks_mono [OF Redact_masks [OF ok] this] show ?thesis by (simp add: n(1))
  qed
qed

lemma FlushPoint_covers:
  assumes ok: "values_ok v" and flush: "FlushPoint v s = (out, n)" "0 < n"
    and f: "f \<in> set (protected_forms v)" "occurs_at f s a" "a < n" "n \<le> i" "i < a + length f"
  shows "covered (protected_forms v) (drop n s) (i - n)"
proof -
  have span: "(a, a + length f) \<in> set (protectedSpans v s)" using protectedSpans_iff [OF ok] f(1,2) by blast
  from FlushPoint_cases [OF ok flush] consider "a + length f \<le> n" | "splits_none (protectedSpans v s) n"
    | "n = resolveForcedFlushCut v s (protectedSpans v s)"
    using f(1-3) protected_contained by blast
  then show ?thesis
  proof cases
    case 2
    with span f(3-5) show ?thesis by (fastforce simp: splits_none_def)
  next
    case 3
    from resolve_bound(3) [OF ok refl 3 span f(3-5)]
    obtain x y where xy: "(x, y) \<in> set (protectedSpans v s)" "n \<le> x" "x \<le> i" "i < y" by blast
    then obtain g where g: "g \<in> set (protected_forms v)" "occurs_at g s x" "y = x + length g"
      using protectedSpans_iff [OF ok] by blast
    then have "occurs_at g (drop n s) (x - n)" using xy(2) by (simp add: occurs_at_drop)
    then show ?thesis unfolding covered_iff using g xy by (intro bexI [of _ g] exI [of _ "x - n"]) auto
  qed (use f in simp)
qed

lemma FlushPoint_closed:
  assumes ok: "values_ok v" and flush: "FlushPoint v s = (out, n)" "0 < n"
    and f: "f \<in> set (protected_forms v)" "a < n" "has_prefix f (drop a s)"
  shows "length f \<le> length s - a"
proof -
  from FlushPoint_cases [OF ok flush] consider "n \<le> length s - (longest_guarded v - 1)"
    | "n = resolveForcedFlushCut v s (protectedSpans v s)" by blast
  then show ?thesis
  proof cases
    case 1
    with longest_guarded_max [OF f(1)] f(2) show ?thesis by simp
  next
    case 2
    show ?thesis
    proof (rule ccontr)
      let ?k = "length s - a"
      assume "\<not> ?thesis"
      then have short: "?k < length f" by simp
      have "drop a s = take ?k f" using f(3) by (auto simp: has_prefix_take)
      then have "overlaps f s ?k" using short suffix_drop [of a s] by (simp add: overlaps_def)
      moreover have "f \<noteq> []" using short by auto
      ultimately have "?k \<le> longestPrefixSuffixOverlap f s"
        using longestPrefixSuffixOverlap_longest short by (auto simp: longest_below_def)
      also have "\<dots> \<le> longestKeepBackForForcedFlush v s" by (rule keep_back(3) [OF ok f(1)])
      finally have "length s - longestKeepBackForForcedFlush v s \<le> a" by simp
      with resolve_bound(1) [OF ok refl 2] f(2) show False by simp
    qed
  qed
qed

end
