(* ===== verification/SecretRelay.thy ===== *)
theory SecretRelay
  imports SecretFlush
begin

text \<open>
  The registry of secrets as the redactor of a relay: \<open>redactor_laws\<close> holds for every registry a process can
  build, so the relay never forwards a byte of a secret, and it never stops forwarding.
\<close>

interpretation vr: redactor_laws "values_redactor (secret_registry pr secrets)" Redacted "protected_forms (secret_registry pr secrets)"
  for pr secrets
proof
  let ?v = "secret_registry pr secrets"
  fix s
  have "covered (contained_forms ?v) s i" if "covered (protected_forms ?v) s i" for i
    using covered_mono [OF that protected_contained] .
  from masks_mono [OF Redact_masks [OF secret_registry_ok] this]
  show "masks Redacted (covered (protected_forms ?v) s) s (rd_Redact (values_redactor ?v) s)"
    by (simp add: values_redactor_def)
  fix out n
  assume "rd_FlushPoint (values_redactor ?v) s = (out, n)" "0 < n"
  then have flush: "FlushPoint ?v s = (out, nat n)" "0 < nat n"
    by (cases "FlushPoint ?v s"; simp add: values_redactor_def)+
  show "n \<le> int (length s) \<and> masks Redacted (covered (protected_forms ?v) s) (take (nat n) s) out"
    using FlushPoint_bound [OF secret_registry_ok flush(1)] FlushPoint_masks [OF secret_registry_ok flush] by simp
  fix f a
  assume f: "f \<in> set (protected_forms ?v)" "a < nat n"
  show "length f \<le> length s - a" if "has_prefix f (drop a s)"
    by (rule FlushPoint_closed [OF secret_registry_ok flush f that])
  show "covered (protected_forms ?v) (drop (nat n) s) (i - nat n)" if "occurs_at f s a" "nat n \<le> i" "i < a + length f" for i
    using FlushPoint_covers [OF secret_registry_ok flush f(1) that(1) f(2) that(2,3)] .
qed

text \<open>
  C11: relayed output never shows a secret. A secret of four bytes or more that was added to the registry, as it is
  (trimmed) or escaped as in JSON or as by %q, on one line and no longer than the guard: wherever it occurs in what
  a process writes, in whatever chunks it arrives, each of its bytes is replaced before it reaches the destination,
  forced flushes in the middle of a line included.
\<close>

theorem secret_never_relayed:
  assumes "data \<in> set secrets" "MinContainedLen \<le> length (trim_space data)"
    and "f \<in> {trim_space data, jsonEscaped (trim_space data), goQuoted pr (trim_space data)}"
    and "NL \<notin> set f" "length f \<le> MaxSplitGuard"
  shows "\<exists>out. rw_out (fst (relayPipe append_sink False chunks
      (NewRedactingWriter (Some (values_redactor (secret_registry pr secrets))) w))) = w @ out
    \<and> masks Redacted (covered [f] (concat chunks)) (concat chunks) out"
proof -
  obtain r ended where run: "relayPipe append_sink False chunks
      (NewRedactingWriter (Some (values_redactor (secret_registry pr secrets))) w) = (r, ended)" by fastforce
  have "f \<in> set (protected_forms (secret_registry pr secrets))"
    using secret_registry_holds [OF assms(1-3)] assms(5) by (simp add: protected_forms_def)
  then have f: "set [f] \<subseteq> set (vr.line_forms pr secrets)" using assms(4) by simp
  obtain pre out where "rw_out r = w @ out" "pre @ rw_pending r = concat chunks" "rw_pending r = []"
    "masks Redacted (covered (vr.line_forms pr secrets) (concat chunks)) pre out"
    using vr.relay_masks [OF run] by blast
  with masks_mono [of Redacted _ pre out, OF _ covered_mono [OF _ f]] run show ?thesis by force
qed

text \<open>
  C17: redaction is exact. What it prints is the text with every byte that lies in an occurrence of a matched form
  hidden and every other byte as it was, one marker for each maximal run of hidden bytes; only a text that as a
  whole is a short secret is replaced as a whole.
\<close>

theorem redaction_exact:
  "Values_Redact (secret_registry pr secrets) s =
    (if list_ex (\<lambda>(form, m). \<not> fm_contained m \<and> s = form) (vl_forms (secret_registry pr secrets)) then Redacted
     else mask_from False (covered (contained_forms (secret_registry pr secrets)) s) s)"
  using Redact_mask [OF secret_registry_ok, of pr secrets s] by (simp add: list_ex_iff)

text \<open>
  C18: the search for a form finds exactly its occurrences, overlapping ones included, in order, whether it stays
  with \<open>strings.Index\<close> or switches to the Knuth-Morris-Pratt automaton in the middle of the text.
\<close>

theorem search_finds_every_occurrence:
  assumes "form \<noteq> []"
  shows "formOccurrences form s = occurrences form s"
  by (rule formOccurrences_all [OF assms])

lemma longest_guarded_bound: "longest_guarded v \<le> MaxSplitGuard"
proof -
  have "fold (\<lambda>e longest. if length (fst e) \<le> MaxSplitGuard then max longest (length (fst e)) else longest) es k \<le> MaxSplitGuard"
    if "k \<le> MaxSplitGuard" for k and es :: "formEntry list"
    using that by (induction es arbitrary: k) auto
  then show ?thesis by (simp add: longest_guarded_def)
qed

lemma FlushPoint_positive:
  assumes ok: "values_ok v" and cap: "flushStallCap \<le> length s"
  shows "0 < snd (FlushPoint v s)"
proof -
  let ?pt = "length s - (longest_guarded v - 1)"
  have len: "4 * MaxSplitGuard \<le> length s" "0 < MaxSplitGuard" using cap by (simp_all add: flushStallCap_def MaxSplitGuard_def)
  then have pt: "?pt \<noteq> 0" using longest_guarded_bound [of v] by linarith
  have escape: "0 < snd (escapeHatchFlush v s ?pt)"
  proof -
    obtain snap crossed where sc: "protectedCrossing (protectedSpans v s) ?pt = (snap, crossed)" by fastforce
    have "0 < resolveForcedFlushCut v s (protectedSpans v s)"
      using resolve_bound(2) [OF ok refl refl, of s] keep_back(1) [OF ok, of s] len by linarith
    moreover have "\<not> crossed \<Longrightarrow> snap = ?pt"
      using protectedCrossing_ok(3) [OF protectedSpans_sorted [OF ok] sc] .
    ultimately show ?thesis unfolding escapeHatchFlush_def Let_def sc using pt cap by auto
  qed
  show ?thesis
  proof (cases "find (\<lambda>(a, b). \<not> (a \<ge> ?pt \<or> ?pt \<ge> b)) (mergeSpans (fst (matchSpans v s False)))")
    case None
    then show ?thesis using pt by (simp add: FlushPoint_def Let_def)
  next
    case (Some ab)
    moreover have "MaxSplitGuard < length s" using len by linarith
    ultimately show ?thesis using pt escape by (cases ab) (auto simp: FlushPoint_def Let_def)
  qed
qed

text \<open>
  C12: a relay never stalls for good. Once an unterminated line has reached the cap, a flush takes something of it;
  and where it had to cut through an occurrence, less than twice the guard stays behind.
\<close>

theorem flush_progress:
  assumes "flushStallCap \<le> length s" "FlushPoint (secret_registry pr secrets) s = (out, n)"
  shows "0 < n \<and> n \<le> length s
    \<and> (splits_none (protectedSpans (secret_registry pr secrets) s) n \<or> length s - n < 2 * MaxSplitGuard)"
proof -
  let ?v = "secret_registry pr secrets"
  have n: "0 < n" using FlushPoint_positive [OF secret_registry_ok assms(1), of pr secrets] assms(2) by simp
  from FlushPoint_cases [OF secret_registry_ok assms(2) n] show ?thesis
  proof (elim disjE conjE)
    assume "n \<le> length s - (longest_guarded ?v - 1)"
      and none: "\<forall>f a. f \<in> set (contained_forms ?v) \<longrightarrow> occurs_at f s a \<longrightarrow> a < n \<longrightarrow> a + length f \<le> n"
    moreover have "splits_none (protectedSpans ?v s) n"
      using none protectedSpans_iff [OF secret_registry_ok] protected_contained by (fastforce simp: splits_none_def)
    ultimately show ?thesis using n by simp
  next
    assume "n = resolveForcedFlushCut ?v s (protectedSpans ?v s)"
    from resolve_bound(1,2) [OF secret_registry_ok refl this] keep_back(1,2) [OF secret_registry_ok, of pr secrets s]
    show ?thesis using n by linarith
  qed (use n in auto)
qed

section \<open>Witnesses\<close>

definition sample_secret :: string where
  "sample_secret = ''hunter22!''"

theorem secret_never_relayed_witness:
  "\<exists>out. rw_out (fst (relayPipe append_sink False [''my hun'', ''ter22! ok'']
      (NewRedactingWriter (Some (values_redactor (secret_registry (\<lambda>r. False) [sample_secret]))) []))) = out
    \<and> masks Redacted (covered [sample_secret] ''my hunter22! ok'') ''my hunter22! ok'' out"
proof -
  have "trim_space sample_secret = sample_secret" "MinContainedLen \<le> length sample_secret" "NL \<notin> set sample_secret"
    by code_simp+
  moreover have "length sample_secret \<le> MaxSplitGuard" by (simp add: sample_secret_def MaxSplitGuard_def)
  ultimately show ?thesis
    using secret_never_relayed [of sample_secret "[sample_secret]" sample_secret "\<lambda>r. False" "[''my hun'', ''ter22! ok'']" "[]"]
    by simp
qed

theorem search_finds_every_occurrence_witness:
  "formOccurrences ''aa'' ''baaab'' = [(1, 3), (2, 4)]"
proof -
  have "occurrences ''aa'' ''baaab'' = [(1, 3), (2, 4)]" by code_simp
  with search_finds_every_occurrence [of "''aa''" "''baaab''"] show ?thesis by simp
qed

theorem flush_progress_witness:
  "0 < snd (FlushPoint (secret_registry (\<lambda>r. False) [sample_secret]) (replicate flushStallCap (CHR ''x'')))"
  using flush_progress [of "replicate flushStallCap (CHR ''x'')" "\<lambda>r. False" "[sample_secret]"] by (simp add: prod_eq_iff)

end
