(* ===== verification/FileTree.thy ===== *)
theory FileTree
  imports PathToken "HOL-Library.AList"
begin

text \<open>
  A file system, as far as unpacking a pushed archive uses it: directories, regular files, symbolic links and
  other nodes (FIFOs, sockets) under physical absolute paths (lists of components), path resolution that follows links, and the
  functions of Go's \<open>os\<close> the extraction calls. Permissions, full disks and races are not part of it.
\<close>

section \<open>Nodes and resolution\<close>

datatype node = FDir | FReg string | FLink string | FOther

datatype errno = ENOENT | ENOTDIR | ELOOP | EEXIST | EISDIR | ENOTEMPTY | ENXIO

type_synonym path = "string list"

record host_fs =
  hf_nodes :: "(path \<times> node) list"
  hf_cwd :: path

definition node_at :: "host_fs \<Rightarrow> path \<Rightarrow> node option" where
  "node_at fs p = (if p = [] then Some FDir else map_of (hf_nodes fs) p)"

definition path_comps :: "string \<Rightarrow> path" where
  "path_comps s = filter (\<lambda>c. c \<noteq> []) (split_on SLASH s)"

definition start_of :: "host_fs \<Rightarrow> string \<Rightarrow> path" where
  "start_of fs s = (if rooted_path s then [] else hf_cwd fs)"

text \<open>
  The physical path that components name from a directory, links followed (\<open>n\<close> of them at most, 40 on Linux),
  the last one included.
\<close>

function walk :: "host_fs \<Rightarrow> nat \<Rightarrow> path \<Rightarrow> path \<Rightarrow> (errno, path) result" where
  "walk fs n dir [] = Inr dir"
| "walk fs n dir (c # cs) =
     (if c = [] \<or> c = ''.'' then walk fs n dir cs
      else if c = ''..'' then walk fs n (butlast dir) cs
      else case node_at fs (dir @ [c]) of
        None \<Rightarrow> Inl ENOENT
      | Some FDir \<Rightarrow> walk fs n (dir @ [c]) cs
      | Some (FLink t) \<Rightarrow>
          (case n of 0 \<Rightarrow> Inl ELOOP
           | Suc m \<Rightarrow> walk fs m (if rooted_path t then [] else dir) (path_comps t @ cs))
      | Some _ \<Rightarrow> if cs = [] then Inr (dir @ [c]) else Inl ENOTDIR)"
  by pat_completeness auto
termination by (relation "measures [\<lambda>(fs, n, dir, cs). n, \<lambda>(fs, n, dir, cs). length cs]") auto

declare walk.simps [simp del]

definition maxLinks :: nat where
  "maxLinks = 40"

text \<open>The physical path of a name itself: only the directories before its last component are followed.\<close>

definition locate :: "host_fs \<Rightarrow> path \<Rightarrow> path \<Rightarrow> (errno, path) result" where
  "locate fs dir cs =
     (if cs = [] \<or> last cs = ''.'' \<or> last cs = ''..'' then walk fs maxLinks dir cs
      else bind_res (walk fs maxLinks dir (butlast cs)) (\<lambda>d.
        if node_at fs d = Some FDir then Inr (d @ [last cs]) else Inl ENOTDIR))"

section \<open>System calls\<close>

definition node_result :: "host_fs \<Rightarrow> path \<Rightarrow> (errno, node) result" where
  "node_result fs p = (case node_at fs p of None \<Rightarrow> Inl ENOENT | Some nd \<Rightarrow> Inr nd)"

definition sys_Lstat :: "host_fs \<Rightarrow> path \<Rightarrow> path \<Rightarrow> (errno, node) result" where
  "sys_Lstat fs dir cs = bind_res (locate fs dir cs) (node_result fs)"

definition sys_Stat :: "host_fs \<Rightarrow> path \<Rightarrow> path \<Rightarrow> (errno, node) result" where
  "sys_Stat fs dir cs = bind_res (walk fs maxLinks dir cs) (node_result fs)"

definition put_node :: "path \<Rightarrow> node \<Rightarrow> host_fs \<Rightarrow> host_fs" where
  "put_node p nd fs = fs\<lparr>hf_nodes := AList.update p nd (hf_nodes fs)\<rparr>"

definition drop_node :: "path \<Rightarrow> host_fs \<Rightarrow> host_fs" where
  "drop_node p fs = fs\<lparr>hf_nodes := AList.delete p (hf_nodes fs)\<rparr>"

definition sys_Mkdir :: "path \<Rightarrow> path \<Rightarrow> host_fs \<Rightarrow> host_fs \<times> errno option" where
  "sys_Mkdir dir cs fs =
     (case locate fs dir cs of
        Inl e \<Rightarrow> (fs, Some e)
      | Inr p \<Rightarrow> if node_at fs p \<noteq> None then (fs, Some EEXIST) else (put_node p FDir fs, None))"

definition has_children :: "host_fs \<Rightarrow> path \<Rightarrow> bool" where
  "has_children fs p \<longleftrightarrow> list_ex (\<lambda>(q, nd). q \<noteq> [] \<and> butlast q = p) (hf_nodes fs)"

definition sys_Remove :: "path \<Rightarrow> path \<Rightarrow> host_fs \<Rightarrow> host_fs \<times> errno option" where
  "sys_Remove dir cs fs =
     (case locate fs dir cs of
        Inl e \<Rightarrow> (fs, Some e)
      | Inr p \<Rightarrow>
          (case node_at fs p of
             None \<Rightarrow> (fs, Some ENOENT)
           | Some nd \<Rightarrow> if nd = FDir \<and> has_children fs p then (fs, Some ENOTEMPTY) else (drop_node p fs, None)))"

definition sys_Symlink :: "string \<Rightarrow> path \<Rightarrow> path \<Rightarrow> host_fs \<Rightarrow> host_fs \<times> errno option" where
  "sys_Symlink linkname dir cs fs =
     (case locate fs dir cs of
        Inl e \<Rightarrow> (fs, Some e)
      | Inr p \<Rightarrow> if node_at fs p \<noteq> None then (fs, Some EEXIST) else (put_node p (FLink linkname) fs, None))"

text \<open>\<open>OpenFile\<close> for writing with \<open>O_CREATE|O_TRUNC|O_NONBLOCK|O_NOFOLLOW\<close>: the file it opened, emptied.\<close>

definition sys_OpenTrunc :: "path \<Rightarrow> path \<Rightarrow> host_fs \<Rightarrow> host_fs \<times> (errno, path) result" where
  "sys_OpenTrunc dir cs fs =
     (case locate fs dir cs of
        Inl e \<Rightarrow> (fs, Inl e)
      | Inr p \<Rightarrow>
          (case node_at fs p of
             Some FDir \<Rightarrow> (fs, Inl EISDIR)
           | Some (FLink t) \<Rightarrow> (fs, Inl ELOOP)
           | Some FOther \<Rightarrow> (fs, Inl ENXIO)
           | _ \<Rightarrow> (put_node p (FReg []) fs, Inr p)))"

text \<open>\<open>os.MkdirAll\<close>: from the whole path up to the first directory there is, then down again.\<close>

function sys_MkdirAll :: "path \<Rightarrow> path \<Rightarrow> host_fs \<Rightarrow> host_fs \<times> errno option" where
  "sys_MkdirAll dir cs fs =
     (case sys_Stat fs dir cs of
        Inr nd \<Rightarrow> if nd = FDir then (fs, None) else (fs, Some ENOTDIR)
      | Inl e \<Rightarrow>
          (case (if length cs > 1 then sys_MkdirAll dir (butlast cs) fs else (fs, None)) of
             (fs', Some e) \<Rightarrow> (fs', Some e)
           | (fs', None) \<Rightarrow>
               (case sys_Mkdir dir cs fs' of
                  (fs'', None) \<Rightarrow> (fs'', None)
                | (fs'', Some e) \<Rightarrow> if sys_Lstat fs'' dir cs = Inr FDir then (fs'', None) else (fs'', Some e))))"
  by pat_completeness auto
termination by (relation "measure (\<lambda>(dir, cs, fs). length cs)") auto

declare sys_MkdirAll.simps [simp del]

lemma node_at_put [simp]: "p \<noteq> [] \<Longrightarrow> node_at (put_node p nd fs) q = (if q = p then Some nd else node_at fs q)"
  by (auto simp: node_at_def put_node_def update_conv')

lemma node_at_drop [simp]: "p \<noteq> [] \<Longrightarrow> node_at (drop_node p fs) q = (if q = p then None else node_at fs q)"
  by (auto simp: node_at_def drop_node_def delete_conv')

lemma put_drop_cwd [simp]: "hf_cwd (put_node p nd fs) = hf_cwd fs" "hf_cwd (drop_node p fs) = hf_cwd fs"
  by (simp_all add: put_node_def drop_node_def)

section \<open>Paths without links\<close>

text \<open>No link at any proper prefix of \<open>p\<close>, so that resolving its directory leads where it says.\<close>

definition link_free :: "host_fs \<Rightarrow> path \<Rightarrow> bool" where
  "link_free fs p \<longleftrightarrow> (\<forall>k < length p. \<forall>t. node_at fs (take k p) \<noteq> Some (FLink t))"

definition plain_comps :: "path \<Rightarrow> bool" where
  "plain_comps p \<longleftrightarrow> (\<forall>c \<in> set p. proper_comp c)"

lemma plain_comp: "proper_comp c \<Longrightarrow> c \<noteq> [] \<and> c \<noteq> ''.'' \<and> c \<noteq> ''..''"
  by (simp add: proper_comp_def)

lemma walk_plain:
  assumes "walk fs n dir cs = Inr r" "plain_comps cs"
    and "\<And>k t. 0 < k \<Longrightarrow> k \<le> length cs \<Longrightarrow> node_at fs (dir @ take k cs) \<noteq> Some (FLink t)"
  shows "r = dir @ cs"
  using assms
proof (induction cs arbitrary: dir)
  case Nil
  then show ?case by (simp add: walk.simps)
next
  case (Cons c cs)
  have c: "c \<noteq> []" "c \<noteq> ''.''" "c \<noteq> ''..''" using plain_comp [of c] Cons.prems(2) by (auto simp: plain_comps_def)
  have no_link: "node_at fs (dir @ [c]) \<noteq> Some (FLink t)" for t using Cons.prems(3) [of 1 t] by simp
  have rest: "r = (dir @ [c]) @ cs" if "walk fs n (dir @ [c]) cs = Inr r"
  proof (rule Cons.IH [OF that])
    show "plain_comps cs" using Cons.prems(2) by (simp add: plain_comps_def)
    show "node_at fs ((dir @ [c]) @ take k cs) \<noteq> Some (FLink t)" if "0 < k" "k \<le> length cs" for k t
      using Cons.prems(3) [of "Suc k" t] that by simp
  qed
  show ?case
  proof (cases "node_at fs (dir @ [c])")
    case None
    with Cons.prems(1) c show ?thesis by (simp add: walk.simps)
  next
    case (Some nd)
    with Cons.prems(1) c no_link rest show ?thesis
      by (cases nd) (auto simp: walk.simps(2) split: if_splits)
  qed
qed

lemma locate_plain:
  assumes "locate fs [] p = Inr r" "plain_comps p" "p \<noteq> []" "link_free fs p"
  shows "r = p"
proof -
  have l: "last p \<noteq> ''.''" "last p \<noteq> ''..''" using assms(2,3) plain_comp [of "last p"] by (auto simp: plain_comps_def)
  obtain d where d: "walk fs maxLinks [] (butlast p) = Inr d" "r = d @ [last p]"
    using assms(1,3) l by (auto simp: locate_def res_simps split: if_splits)
  have "d = [] @ butlast p"
  proof (rule walk_plain [OF d(1)])
    show "plain_comps (butlast p)" using assms(2) by (auto simp: plain_comps_def dest: in_set_butlastD)
    show "node_at fs ([] @ take k (butlast p)) \<noteq> Some (FLink t)" if "0 < k" "k \<le> length (butlast p)" for k t
      using assms(3,4) that by (auto simp: link_free_def take_butlast)
  qed
  with d(2) assms(3) show ?thesis by simp
qed

text \<open>A tree: every node but the root lies in a directory.\<close>

definition tree_ok :: "host_fs \<Rightarrow> bool" where
  "tree_ok fs \<longleftrightarrow> (\<forall>p nd. p \<noteq> [] \<longrightarrow> node_at fs p = Some nd \<longrightarrow> node_at fs (butlast p) = Some FDir)"

lemma locate_parent:
  assumes "locate fs [] p = Inr p" "plain_comps p" "p \<noteq> []"
  shows "node_at fs (butlast p) = Some FDir"
proof -
  have l: "last p \<noteq> ''.''" "last p \<noteq> ''..''" using assms(2,3) plain_comp [of "last p"] by (auto simp: plain_comps_def)
  with assms(1,3) obtain d where d: "node_at fs d = Some FDir" "d @ [last p] = p"
    by (auto simp: locate_def res_simps split: if_splits)
  from d(2) have "butlast p = d" by (metis butlast_snoc)
  with d(1) show ?thesis by simp
qed

lemma tree_parent: "tree_ok fs \<Longrightarrow> node_at fs p = Some nd \<Longrightarrow> p \<noteq> [] \<Longrightarrow> node_at fs (butlast p) = Some FDir"
  by (simp add: tree_ok_def)

lemma tree_dirs: "tree_ok fs \<Longrightarrow> node_at fs p = Some nd \<Longrightarrow> k < length p \<Longrightarrow> node_at fs (take k p) = Some FDir"
proof (induction p arbitrary: nd rule: rev_induct)
  case (snoc c p)
  have up: "node_at fs p = Some FDir" using tree_parent [OF snoc.prems(1,2)] by simp
  show ?case
  proof (cases "k = length p")
    case False
    with snoc.IH [OF snoc.prems(1) up] snoc.prems(3) show ?thesis by simp
  qed (use up in simp)
qed simp

lemma walk_dirs:
  "plain_comps cs \<Longrightarrow> (\<And>k. k \<le> length cs \<Longrightarrow> node_at fs (dir @ take k cs) = Some FDir) \<Longrightarrow> walk fs n dir cs = Inr (dir @ cs)"
proof (induction cs arbitrary: dir)
  case Nil
  then show ?case by (simp add: walk.simps)
next
  case (Cons c cs)
  have c: "c \<noteq> []" "c \<noteq> ''.''" "c \<noteq> ''..''" using plain_comp [of c] Cons.prems(1) by (auto simp: plain_comps_def)
  have "node_at fs ((dir @ [c]) @ take k cs) = Some FDir" if "k \<le> length cs" for k using Cons.prems(2) [of "Suc k"] that by simp
  then have "walk fs n (dir @ [c]) cs = Inr ((dir @ [c]) @ cs)"
    using Cons.prems(1) by (intro Cons.IH) (simp_all add: plain_comps_def)
  moreover have "node_at fs (dir @ [c]) = Some FDir" using Cons.prems(2) [of 1] by simp
  ultimately show ?case using c by (simp add: walk.simps(2))
qed

lemma plain_butlast: "plain_comps p \<Longrightarrow> plain_comps (butlast p)"
  by (auto simp: plain_comps_def dest: in_set_butlastD)

lemma Lstat_exists:
  assumes "tree_ok fs" "node_at fs p = Some nd" "plain_comps p" "p \<noteq> []"
  shows "sys_Lstat fs [] p = Inr nd"
proof -
  have dirs: "node_at fs (take k (butlast p)) = Some FDir" if "k \<le> length (butlast p)" for k
    using tree_dirs [OF assms(1,2), of k] assms(4) that by (cases p rule: rev_cases) auto
  have "walk fs maxLinks [] (butlast p) = Inr ([] @ butlast p)"
    by (rule walk_dirs [OF plain_butlast [OF assms(3)]]) (simp add: dirs)
  moreover have "node_at fs (butlast p) = Some FDir" using dirs [of "length (butlast p)"] by simp
  moreover have "last p \<noteq> ''.''" "last p \<noteq> ''..''" using assms(3,4) plain_comp [of "last p"] by (auto simp: plain_comps_def)
  ultimately show ?thesis using assms(2,4) by (simp add: sys_Lstat_def locate_def node_result_def)
qed

lemma tree_put:
  assumes "tree_ok fs" "p \<noteq> []" "node_at fs (butlast p) = Some FDir" "node_at fs p \<noteq> Some FDir"
  shows "tree_ok (put_node p nd fs)"
proof -
  have "butlast q \<noteq> p" if "q \<noteq> []" "node_at fs q = Some nd'" for q nd' using assms(1,4) that unfolding tree_ok_def by auto
  moreover have "butlast p \<noteq> p" using assms(2) by (metis append_butlast_last_id not_Cons_self2 self_append_conv)
  ultimately show ?thesis using assms(1-3) unfolding tree_ok_def by (auto split: if_splits)
qed

lemma child_listed: "node_at fs q = Some nd \<Longrightarrow> q \<noteq> [] \<Longrightarrow> has_children fs (butlast q)"
  by (auto simp: has_children_def list_ex_iff node_at_def dest!: map_of_SomeD intro!: bexI [of _ "(q, nd)"])

lemma tree_drop:
  assumes "tree_ok fs" "p \<noteq> []" "\<not> (node_at fs p = Some FDir \<and> has_children fs p)"
  shows "tree_ok (drop_node p fs)"
  unfolding tree_ok_def
proof (intro allI impI)
  fix q nd assume q: "q \<noteq> []" "node_at (drop_node p fs) q = Some nd"
  then have at: "node_at fs q = Some nd" using assms(2) by (simp split: if_splits)
  then have up: "node_at fs (butlast q) = Some FDir" using tree_parent [OF assms(1) _ q(1)] by simp
  moreover have "butlast q \<noteq> p" using child_listed [OF at q(1)] up assms(3) by auto
  ultimately show "node_at (drop_node p fs) (butlast q) = Some FDir" using assms(2) by simp
qed

end
