(* ===== verification/PushBlobs.thy ===== *)
theory PushBlobs
  imports FileTree
begin

text \<open>
  Unpacking the blobs section of a pushed plan below the plan directory (\<open>readBlobsGzipTarCapped\<close> and the
  functions under it in \<open>plan/pushwire.go\<close>). The archive is the list of entries \<open>archive/tar\<close> reads from it;
  it comes over the wire, so nothing is assumed of its names, types, link targets and sizes.
\<close>

section \<open>Where an entry goes\<close>

text \<open>\<open>filepath.Join\<close> of two elements and \<open>filepath.Rel\<close>, on Unix.\<close>

definition filepath_Join :: "string \<Rightarrow> string \<Rightarrow> string" where
  "filepath_Join a b =
     (if a = [] \<and> b = [] then []
      else path_clean (join [SLASH] (filter (\<lambda>e. e \<noteq> []) [a, b])))"

definition rel_elems :: "string \<Rightarrow> string list" where
  "rel_elems s = (if s = [] then [] else if s = [SLASH] then [[]] else split_on SLASH s)"

fun drop_common :: "string list \<Rightarrow> string list \<Rightarrow> string list \<times> string list" where
  "drop_common (b # bs) (t # ts) = (if b = t then drop_common bs ts else (b # bs, t # ts))"
| "drop_common bs ts = (bs, ts)"

definition filepath_Rel :: "string \<Rightarrow> string \<Rightarrow> string option" where
  "filepath_Rel basepath targpath =
     (let b = path_clean basepath; targ = path_clean targpath in
      if targ = b then Some ''.''
      else
        (let base = (if b = ''.'' then [] else b) in
         if rooted_path base \<noteq> rooted_path targ then None
         else (case drop_common (rel_elems base) (rel_elems targ) of (bs, ts) \<Rightarrow>
                 if bs \<noteq> [] \<and> ts \<noteq> [] \<and> hd bs = ''..'' then None
                 else Some (join [SLASH] (map (\<lambda>e. ''..'') bs @ ts)))))"

datatype push_error =
    ZipSlip string
  | UnderSymlink string
  | StatFailed string errno
  | ClearFailed string errno
  | SymlinkFailed string errno
  | SysError errno
  | PushBlobsTooLarge
  | ShortEntry
  | RelFailed
  | TarBroken

definition tarTarget :: "string \<Rightarrow> string \<Rightarrow> (push_error, string option) result" where
  "tarTarget planDir name =
     (let clean = path_clean name in
      if clean = ''.'' \<or> clean = [] then Inr None
      else if rooted_path clean \<or> has_prefix clean ''../'' \<or> clean = ''..'' then Inl (ZipSlip name)
      else
        (let target = filepath_Join planDir clean in
         case filepath_Rel planDir target of
           None \<Rightarrow> Inl (ZipSlip name)
         | Some rel \<Rightarrow> if has_prefix rel ''..'' then Inl (ZipSlip name) else Inr (Some target)))"

section \<open>Unpacking an entry\<close>

definition os_Lstat :: "host_fs \<Rightarrow> string \<Rightarrow> (errno, node) result" where
  "os_Lstat fs p = sys_Lstat fs (start_of fs p) (path_comps p)"

definition os_MkdirAll :: "string \<Rightarrow> host_fs \<Rightarrow> host_fs \<times> errno option" where
  "os_MkdirAll p fs = sys_MkdirAll (start_of fs p) (path_comps p) fs"

definition os_Remove :: "string \<Rightarrow> host_fs \<Rightarrow> host_fs \<times> errno option" where
  "os_Remove p fs = sys_Remove (start_of fs p) (path_comps p) fs"

definition os_Symlink :: "string \<Rightarrow> string \<Rightarrow> host_fs \<Rightarrow> host_fs \<times> errno option" where
  "os_Symlink linkname p fs = sys_Symlink linkname (start_of fs p) (path_comps p) fs"

definition os_OpenTrunc :: "string \<Rightarrow> host_fs \<Rightarrow> host_fs \<times> (errno, path) result" where
  "os_OpenTrunc p fs = sys_OpenTrunc (start_of fs p) (path_comps p) fs"

fun ancestors_ok :: "host_fs \<Rightarrow> string \<Rightarrow> string list \<Rightarrow> (push_error, unit) result" where
  "ancestors_ok fs cur [] = Inr ()"
| "ancestors_ok fs cur (part # parts) =
     (let cur' = filepath_Join cur part in
      case os_Lstat fs cur' of
        Inl ENOENT \<Rightarrow> ancestors_ok fs cur' parts
      | Inl e \<Rightarrow> Inl (StatFailed cur' e)
      | Inr (FLink t) \<Rightarrow> Inl (UnderSymlink cur')
      | Inr nd \<Rightarrow> ancestors_ok fs cur' parts)"

definition ensureNoAncestorSymlink :: "host_fs \<Rightarrow> string \<Rightarrow> string \<Rightarrow> (push_error, unit) result" where
  "ensureNoAncestorSymlink fs planDir target =
     (case filepath_Rel planDir target of
        None \<Rightarrow> Inl RelFailed
      | Some rel \<Rightarrow> ancestors_ok fs planDir (butlast (split_on SLASH rel)))"

datatype typeflag = TypeReg | TypeDir | TypeSymlink | TypeOther

record tar_header =
  th_Name :: string
  th_Typeflag :: typeflag
  th_Linkname :: string
  th_Size :: nat

definition extractTarSymlink :: "string \<Rightarrow> string \<Rightarrow> host_fs \<Rightarrow> host_fs \<times> push_error option" where
  "extractTarSymlink target linkname fs =
     (case os_MkdirAll (path_dir target) fs of
        (fs, Some e) \<Rightarrow> (fs, Some (SysError e))
      | (fs, None) \<Rightarrow>
          (case os_Remove target fs of
             (fs, e) \<Rightarrow>
               if e \<noteq> None \<and> e \<noteq> Some ENOENT then (fs, Some (ClearFailed target (the e)))
               else
                 (case os_Symlink linkname target fs of
                    (fs, Some e) \<Rightarrow> (fs, Some (SymlinkFailed target e))
                  | (fs, None) \<Rightarrow> (fs, None))))"

text \<open>\<open>data\<close> is what the archive holds for the entry; \<open>io.CopyN\<close> copies the declared size or fails.\<close>

definition extractTarFile :: "string \<Rightarrow> string \<Rightarrow> nat \<Rightarrow> int \<Rightarrow> host_fs \<times> int \<Rightarrow> (host_fs \<times> int) \<times> push_error option" where
  "extractTarFile target data sz limit = (\<lambda>(fs, written).
     (let remaining = limit - written in
      if int sz > remaining then ((fs, written), Some PushBlobsTooLarge)
      else
        (case os_MkdirAll (path_dir target) fs of
           (fs, Some e) \<Rightarrow> ((fs, written), Some (SysError e))
         | (fs, None) \<Rightarrow>
             (case os_OpenTrunc target fs of
                (fs, Inl e) \<Rightarrow> ((fs, written), Some (SysError e))
              | (fs, Inr p) \<Rightarrow>
                  (let content = take sz data in
                   ((put_node p (FReg content) fs, written + int (length content)),
                    if length content < sz then Some ShortEntry else None))))))"

definition extractTarHeader :: "string \<Rightarrow> tar_header \<Rightarrow> string \<Rightarrow> int \<Rightarrow> host_fs \<times> int \<Rightarrow> (host_fs \<times> int) \<times> push_error option" where
  "extractTarHeader planDir hdr data limit = (\<lambda>(fs, written).
     (case tarTarget planDir (th_Name hdr) of
        Inl e \<Rightarrow> ((fs, written), Some e)
      | Inr None \<Rightarrow> ((fs, written), None)
      | Inr (Some target) \<Rightarrow>
          (case ensureNoAncestorSymlink fs planDir target of
             Inl e \<Rightarrow> ((fs, written), Some e)
           | Inr _ \<Rightarrow>
               if th_Typeflag hdr = TypeDir \<or> has_suffix (th_Name hdr) [SLASH]
               then (case os_MkdirAll target fs of (fs, e) \<Rightarrow> ((fs, written), map_option SysError e))
               else if th_Typeflag hdr = TypeSymlink
               then (case extractTarSymlink target (th_Linkname hdr) fs of (fs, e) \<Rightarrow> ((fs, written), e))
               else extractTarFile target data (th_Size hdr) limit (fs, written))))"

text \<open>The loop over the archive: \<open>None\<close> stands for an entry \<open>archive/tar\<close> cannot read.\<close>

fun extract_entries :: "string \<Rightarrow> int \<Rightarrow> (tar_header \<times> string) option list \<Rightarrow> host_fs \<times> int \<Rightarrow> (host_fs \<times> int) \<times> push_error option" where
  "extract_entries planDir limit [] st = (st, None)"
| "extract_entries planDir limit (None # es) st = (st, Some TarBroken)"
| "extract_entries planDir limit (Some (hdr, data) # es) st =
     (case extractTarHeader planDir hdr data limit st of
        (st', Some e) \<Rightarrow> (st', Some e)
      | (st', None) \<Rightarrow> extract_entries planDir limit es st')"

definition readBlobsGzipTarCapped :: "(tar_header \<times> string) option list \<Rightarrow> string \<Rightarrow> int \<Rightarrow> host_fs \<Rightarrow> (host_fs \<times> int) \<times> push_error option" where
  "readBlobsGzipTarCapped entries planDir limit fs = extract_entries planDir limit entries (fs, 0)"

definition MaxExtractedPushBlobs :: int where
  "MaxExtractedPushBlobs = 1073741824"

definition readBlobsGzipTar :: "(tar_header \<times> string) option list \<Rightarrow> string \<Rightarrow> host_fs \<Rightarrow> (host_fs \<times> int) \<times> push_error option" where
  "readBlobsGzipTar entries planDir fs = readBlobsGzipTarCapped entries planDir MaxExtractedPushBlobs fs"

section \<open>Targets stay below the plan directory\<close>

lemma plain_sep_free: "plain_comps cs \<Longrightarrow> c \<in> set cs \<Longrightarrow> SLASH \<notin> set c \<and> c \<noteq> []"
  by (auto simp: plain_comps_def proper_comp_def)

lemma split_abs: "plain_comps cs \<Longrightarrow> cs \<noteq> [] \<Longrightarrow> split_on SLASH (abs_path cs) = [] # cs"
  using split_on_join [of cs SLASH] plain_sep_free [of cs] by (simp add: abs_path_def)

lemma path_comps_abs: "plain_comps cs \<Longrightarrow> path_comps (abs_path cs) = cs"
proof (cases "cs = []")
  case True
  have "path_comps [SLASH] = []" by code_simp
  with True show ?thesis by (simp add: abs_path_def)
next
  case False
  assume "plain_comps cs"
  with False split_abs [of cs] plain_sep_free [of cs] show ?thesis by (simp add: path_comps_def filter_id_conv)
qed

lemma split_on_mid: "split_on c (u @ c # v) = split_on c u @ split_on c v"
  by (induction u) (auto split: list.split)

lemma foldl_clean_skip: "foldl (clean_step r) out ws = foldl (clean_step r) out (filter (\<lambda>w. w \<noteq> []) ws)"
  by (induction ws arbitrary: out) (simp_all add: clean_step.simps)

lemma clean_comps_path_comps: "clean_comps s = rev (foldl (clean_step (rooted_path s)) [] (path_comps s))"
  unfolding clean_comps_def path_comps_def by (rule arg_cong [OF foldl_clean_skip])

lemma path_clean_comps: "rooted_path s \<Longrightarrow> path_comps s = cs \<Longrightarrow> plain_comps cs \<Longrightarrow> path_clean s = abs_path cs"
  using foldl_clean_proper [of cs True "[]"] by (simp add: path_clean_def clean_comps_path_comps plain_comps_def) (simp add: abs_path_def)

lemma start_abs [simp]: "start_of fs (abs_path cs) = []"
  by (simp add: start_of_def abs_path_def rooted_path_def)

lemma rel_elems_abs: "plain_comps cs \<Longrightarrow> rel_elems (abs_path cs) = [] # cs"
proof (cases "cs = []")
  case False
  assume cs: "plain_comps cs"
  from False obtain c ds where c: "cs = c # ds" by (cases cs) auto
  then have "c \<noteq> []" using plain_sep_free [OF cs] by simp
  then have "abs_path cs \<noteq> [SLASH]" using c by (cases ds) (auto simp: abs_path_def)
  then show ?thesis using split_abs [OF cs False] by (simp add: rel_elems_def abs_path_def)
qed (simp add: rel_elems_def abs_path_def)

lemma drop_common_prefix: "drop_common xs (xs @ ys) = ([], ys)"
  by (induction xs) (cases ys; simp)+

lemma clean_abs: "plain_comps cs \<Longrightarrow> path_clean (abs_path cs) = abs_path cs"
  by (rule path_clean_abs) (simp add: plain_comps_def)

lemma abs_path_inj: "plain_comps cs \<Longrightarrow> plain_comps ds \<Longrightarrow> abs_path cs = abs_path ds \<Longrightarrow> cs = ds"
  by (metis path_comps_abs)

lemma Rel_below:
  assumes "plain_comps pl" "plain_comps cs" "cs \<noteq> []"
  shows "filepath_Rel (abs_path pl) (abs_path (pl @ cs)) = Some (join [SLASH] cs)"
proof -
  have p: "plain_comps (pl @ cs)" using assms(1,2) by (auto simp: plain_comps_def)
  have ne: "abs_path (pl @ cs) \<noteq> abs_path pl" using abs_path_inj [OF p assms(1)] assms(3) by auto
  have r: "rooted_path (abs_path pl)" "rooted_path (abs_path (pl @ cs))" "abs_path pl \<noteq> ''.''"
    by (auto simp: rooted_path_def abs_path_def)
  have "drop_common ([] # pl) ([] # pl @ cs) = ([], cs)" using drop_common_prefix [of "[] # pl" cs] by simp
  then show ?thesis
    using r ne by (simp add: filepath_Rel_def Let_def clean_abs [OF assms(1)] clean_abs [OF p] rel_elems_abs [OF assms(1)] rel_elems_abs [OF p])
qed

text \<open>A relative clean path that does not go up has proper components only.\<close>

lemma clean_relative_comps:
  assumes "\<not> rooted_path s"
  shows "\<exists>k cs. clean_comps s = replicate k ''..'' @ cs \<and> plain_comps cs"
proof -
  have "\<exists>k cs. foldl (clean_step False) (rev (replicate j ''..'' @ ds)) ws = rev (replicate k ''..'' @ cs) \<and> plain_comps cs"
    if "plain_comps ds" "\<forall>w \<in> set ws. SLASH \<notin> set w" for j ds ws
    using that
  proof (induction ws arbitrary: j ds)
    case (Cons w ws)
    have "\<exists>k cs. clean_step False (rev (replicate j ''..'' @ ds)) w = rev (replicate k ''..'' @ cs) \<and> plain_comps cs"
    proof (cases "w = ''..''")
      case True
      show ?thesis
      proof (cases ds rule: rev_cases)
        case Nil
        then show ?thesis using True
          by (intro exI [of _ "Suc j"] exI [of _ "[]"]) (cases j; simp add: clean_step.simps plain_comps_def replicate_append_same)
      next
        case (snoc es d)
        then have "d \<noteq> ''..''" "plain_comps es" using Cons.prems(1) by (auto simp: plain_comps_def proper_comp_def)
        with snoc True show ?thesis by (intro exI [of _ j] exI [of _ es]) (simp add: clean_step.simps)
      qed
    next
      case False
      show ?thesis
      proof (cases "w = [] \<or> w = ''.''")
        case True
        then show ?thesis using Cons.prems(1) by (intro exI [of _ j] exI [of _ ds]) (auto simp: clean_step.simps)
      next
        case no: False
        then have "plain_comps (ds @ [w])" using False Cons.prems by (auto simp: plain_comps_def proper_comp_def)
        with no False show ?thesis by (intro exI [of _ j] exI [of _ "ds @ [w]"]) (simp add: clean_step.simps)
      qed
    qed
    then obtain k cs where "clean_step False (rev (replicate j ''..'' @ ds)) w = rev (replicate k ''..'' @ cs)" "plain_comps cs" by blast
    with Cons.IH [of cs k] Cons.prems(2) show ?case by simp
  qed (metis foldl_Nil)
  from this [of "[]" "split_on SLASH s" 0] split_on_sep_free [of SLASH s] assms
  show ?thesis by (simp add: clean_comps_def plain_comps_def) (metis rev_rev_ident rev_append rev_replicate)
qed

lemma tarTarget_below:
  assumes pl: "plain_comps pl" and target: "tarTarget (abs_path pl) name = Inr (Some target)"
  shows "\<exists>cs. cs \<noteq> [] \<and> plain_comps cs \<and> target = abs_path (pl @ cs)"
proof -
  let ?clean = "path_clean name"
  have c: "?clean \<noteq> ''.''" "\<not> rooted_path ?clean" "\<not> has_prefix ?clean ''../''" "?clean \<noteq> ''..''"
    "target = filepath_Join (abs_path pl) ?clean"
    using target by (auto simp: tarTarget_def Let_def split: if_splits option.splits)
  have rel: "\<not> rooted_path name" using c(2) by (auto simp: path_clean_def Let_def rooted_path_def split: if_splits)
  then obtain k cs where comps: "clean_comps name = replicate k ''..'' @ cs" "plain_comps cs" using clean_relative_comps by blast
  have clean: "?clean = join [SLASH] (replicate k ''..'' @ cs)" "replicate k ''..'' @ cs \<noteq> []"
    using c(1) rel comps(1) by (auto simp: path_clean_def Let_def split: if_splits)
  have k: "k = 0"
  proof (cases k)
    case (Suc j)
    then show ?thesis
      using c(3,4) clean(1) by (cases "replicate j ''..'' @ cs") auto
  qed simp
  then have cs: "cs \<noteq> []" "?clean = join [SLASH] cs" using clean by simp_all
  have "join [SLASH] cs \<noteq> []" using c(2) cs path_clean_nonempty [of name] by simp
  then have "filter (\<lambda>e. e \<noteq> []) [abs_path pl, ?clean] = [abs_path pl, join [SLASH] cs]" using cs(2) by (simp add: abs_path_def)
  then have "target = path_clean (abs_path pl @ SLASH # join [SLASH] cs)"
    using c(5) by (simp add: filepath_Join_def abs_path_def)
  also have "\<dots> = abs_path (pl @ cs)"
  proof -
    have p: "plain_comps (pl @ cs)" using pl comps(2) by (auto simp: plain_comps_def)
    have "path_comps (abs_path pl @ SLASH # join [SLASH] cs) = path_comps (abs_path pl) @ path_comps (join [SLASH] cs)"
      by (simp add: path_comps_def split_on_mid)
    moreover have "path_comps (join [SLASH] cs) = cs"
      using split_on_join [of cs SLASH] plain_sep_free [OF comps(2)] cs(1) by (simp add: path_comps_def filter_id_conv)
    ultimately have "path_comps (abs_path pl @ SLASH # join [SLASH] cs) = pl @ cs" by (simp add: path_comps_abs [OF pl])
    moreover have "rooted_path (abs_path pl @ SLASH # join [SLASH] cs)" by (simp add: rooted_path_def abs_path_def)
    ultimately show ?thesis using path_clean_comps p by blast
  qed
  finally show ?thesis using cs(1) comps(2) by blast
qed

section \<open>Nothing outside the plan directory changes\<close>

text \<open>\<open>pl\<close> is the physical path of the plan directory.\<close>

definition below :: "path \<Rightarrow> path \<Rightarrow> bool" where
  "below pl p \<longleftrightarrow> length pl < length p \<and> take (length pl) p = pl"

definition dirs_to :: "host_fs \<Rightarrow> path \<Rightarrow> bool" where
  "dirs_to fs pl \<longleftrightarrow> plain_comps pl \<and> (\<forall>k \<le> length pl. node_at fs (take k pl) = Some FDir)"

definition kept_outside :: "path \<Rightarrow> host_fs \<Rightarrow> host_fs \<Rightarrow> bool" where
  "kept_outside pl fs fs' \<longleftrightarrow> hf_cwd fs' = hf_cwd fs \<and> (\<forall>p. \<not> below pl p \<longrightarrow> node_at fs' p = node_at fs p)"

lemma below_append [simp]: "below pl (pl @ cs) \<longleftrightarrow> cs \<noteq> []"
  by (simp add: below_def)

lemma below_nonempty: "below pl p \<Longrightarrow> p \<noteq> []"
  by (auto simp: below_def)

lemma kept_outside_refl [simp]: "kept_outside pl fs fs"
  by (simp add: kept_outside_def)

lemma kept_outside_trans: "kept_outside pl fs fs' \<Longrightarrow> kept_outside pl fs' fs'' \<Longrightarrow> kept_outside pl fs fs''"
  by (simp add: kept_outside_def)

lemma kept_outside_put: "below pl p \<Longrightarrow> kept_outside pl fs (put_node p nd fs)"
  using below_nonempty by (auto simp: kept_outside_def)

lemma kept_outside_drop: "below pl p \<Longrightarrow> kept_outside pl fs (drop_node p fs)"
  using below_nonempty by (auto simp: kept_outside_def)

lemma kept_outside_dirs: "kept_outside pl fs fs' \<Longrightarrow> dirs_to fs pl \<Longrightarrow> dirs_to fs' pl"
  by (auto simp: kept_outside_def dirs_to_def below_def)

text \<open>Where only directories are added, a path without links stays one. \<open>n\<close> bounds their depth.\<close>

definition only_dirs_added :: "nat \<Rightarrow> host_fs \<Rightarrow> host_fs \<Rightarrow> bool" where
  "only_dirs_added n fs fs' \<longleftrightarrow> (\<forall>p. node_at fs' p = node_at fs p \<or> node_at fs' p = Some FDir \<and> length p \<le> n)"

lemma only_dirs_refl [simp]: "only_dirs_added n fs fs"
  by (simp add: only_dirs_added_def)

lemma only_dirs_trans: "only_dirs_added m fs fs' \<Longrightarrow> only_dirs_added n fs' fs'' \<Longrightarrow> m \<le> n \<Longrightarrow> only_dirs_added n fs fs''"
  unfolding only_dirs_added_def by (metis order_trans)

lemma only_dirs_mono: "only_dirs_added m fs fs' \<Longrightarrow> m \<le> n \<Longrightarrow> only_dirs_added n fs fs'"
  using only_dirs_trans [of m fs fs' n fs'] by simp

lemma only_dirs_link_free: "only_dirs_added n fs fs' \<Longrightarrow> link_free fs p \<Longrightarrow> link_free fs' p"
  unfolding only_dirs_added_def link_free_def by (metis node.distinct(3) option.inject)

lemma Stat_plan: "dirs_to fs pl \<Longrightarrow> sys_Stat fs [] pl = Inr FDir"
proof -
  assume pl: "dirs_to fs pl"
  then have "walk fs maxLinks [] pl = Inr pl" using walk_dirs [of pl fs "[]"] by (simp add: dirs_to_def)
  moreover have "node_at fs pl = Some FDir" using pl unfolding dirs_to_def by (metis order_refl take_all)
  ultimately show ?thesis by (simp add: sys_Stat_def node_result_def)
qed

lemma link_free_butlast: "link_free fs p \<Longrightarrow> link_free fs (butlast p)"
  by (auto simp: link_free_def take_butlast)

lemma Mkdir_below:
  assumes "plain_comps (pl @ cs)" "cs \<noteq> []" "link_free fs (pl @ cs)" "sys_Mkdir [] (pl @ cs) fs = (fs', e)" "tree_ok fs"
  shows "kept_outside pl fs fs' \<and> only_dirs_added (length (pl @ cs)) fs fs' \<and> tree_ok fs'"
proof (cases "locate fs [] (pl @ cs)")
  case (Inr p)
  with locate_plain [OF Inr assms(1) _ assms(3)] assms(2) have p: "p = pl @ cs" by simp
  with locate_parent [OF _ assms(1)] Inr assms(2) have "node_at fs (butlast (pl @ cs)) = Some FDir" by simp
  with p Inr assms(2,4,5) tree_put [of fs "pl @ cs" FDir] show ?thesis
    by (auto simp: sys_Mkdir_def kept_outside_put only_dirs_added_def split: if_splits)
qed (use assms(4,5) in \<open>simp add: sys_Mkdir_def only_dirs_added_def\<close>)

lemma MkdirAll_below:
  assumes "dirs_to fs pl" "plain_comps (pl @ cs)" "link_free fs (pl @ cs)" "sys_MkdirAll [] (pl @ cs) fs = (fs', e)" "tree_ok fs"
  shows "kept_outside pl fs fs' \<and> only_dirs_added (length (pl @ cs)) fs fs' \<and> tree_ok fs'"
  using assms
proof (induction cs arbitrary: fs' e rule: rev_induct)
  case Nil
  then show ?case by (subst (asm) sys_MkdirAll.simps) (simp add: Stat_plan)
next
  case (snoc c cs)
  let ?p = "pl @ cs @ [c]" and ?q = "pl @ cs"
  have rest: "plain_comps (pl @ cs)" "link_free fs (pl @ cs)"
    using plain_butlast [OF snoc.prems(2)] link_free_butlast [OF snoc.prems(3)] by (simp_all add: butlast_append)
  show ?case
  proof (cases "sys_Stat fs [] ?p")
    case (Inr nd)
    with snoc.prems(4,5) show ?thesis by (subst (asm) sys_MkdirAll.simps) (simp add: only_dirs_added_def split: if_splits)
  next
    case (Inl e0)
    obtain fs1 e1 where up: "(if length ?p > 1 then sys_MkdirAll [] (butlast ?p) fs else (fs, None)) = (fs1, e1)" by fastforce
    have up_ok: "kept_outside pl fs fs1 \<and> only_dirs_added (length ?q) fs fs1 \<and> tree_ok fs1"
    proof (cases "length ?p > 1")
      case True
      with up have "sys_MkdirAll [] (pl @ cs) fs = (fs1, e1)" by (simp add: butlast_append)
      from snoc.IH [OF snoc.prems(1) rest this snoc.prems(5)] show ?thesis .
    qed (use up snoc.prems(5) in \<open>simp add: only_dirs_added_def\<close>)
    show ?thesis
    proof (cases e1)
      case (Some e')
      with snoc.prems(4) Inl up up_ok only_dirs_mono [of "length ?q" fs fs1 "length ?p"] show ?thesis by (subst (asm) sys_MkdirAll.simps) simp
    next
      case None
      obtain fs2 e2 where mk: "sys_Mkdir [] ?p fs1 = (fs2, e2)" by fastforce
      have "kept_outside pl fs1 fs2 \<and> only_dirs_added (length ?p) fs1 fs2 \<and> tree_ok fs2"
        using Mkdir_below [OF snoc.prems(2) _ _ mk] only_dirs_link_free [OF _ snoc.prems(3), of "length ?q" fs1] up_ok by simp
      with up_ok have "kept_outside pl fs fs2 \<and> only_dirs_added (length ?p) fs fs2 \<and> tree_ok fs2"
        using kept_outside_trans only_dirs_trans [of "length ?q" fs fs1 "length ?p" fs2] by auto
      moreover have "fs' = fs2"
        using snoc.prems(4) Inl up None mk by (subst (asm) sys_MkdirAll.simps) (simp split: option.splits if_splits)
      ultimately show ?thesis by simp
    qed
  qed
qed

section \<open>Unpacking stays inside\<close>

lemma Join_abs:
  assumes "plain_comps (q @ [c])"
  shows "filepath_Join (abs_path q) c = abs_path (q @ [c])"
proof -
  have pq: "plain_comps q" and c: "c \<noteq> []" "SLASH \<notin> set c" using assms by (auto simp: plain_comps_def proper_comp_def)
  have "path_comps (abs_path q @ SLASH # c) = q @ [c]"
    using path_comps_abs [OF pq] c by (simp add: path_comps_def split_on_mid split_on_noop)
  then have "path_clean (abs_path q @ SLASH # c) = abs_path (q @ [c])"
    using path_clean_comps assms by (simp add: rooted_path_def abs_path_def)
  then show ?thesis using c(1) by (simp add: filepath_Join_def abs_path_def)
qed

lemma path_dir_abs:
  assumes "plain_comps p" "p \<noteq> []"
  shows "path_dir (abs_path p) = abs_path (butlast p)"
proof -
  obtain ds c where p: "p = ds @ [c]" using assms(2) by (cases p rule: rev_cases) auto
  have c: "SLASH \<notin> set c" and ds: "plain_comps ds" using assms(1) by (auto simp: p plain_comps_def proper_comp_def)
  obtain u where u: "abs_path p = u @ SLASH # c" "path_comps (u @ [SLASH]) = ds" "rooted_path (u @ [SLASH])"
  proof (cases "ds = []")
    case True
    have "path_comps [SLASH] = []" "rooted_path [SLASH]" by code_simp+
    with that [of "[]"] True show ?thesis by (simp add: p abs_path_def)
  next
    case False
    have "path_comps (abs_path ds @ [SLASH]) = ds" using path_comps_abs [OF ds] by (simp add: path_comps_def split_on_mid)
    with that [of "abs_path ds"] False show ?thesis by (simp add: p abs_path_def join_append rooted_path_def)
  qed
  have "dropWhile (\<lambda>x. x \<noteq> SLASH) (rev c @ SLASH # rev u) = SLASH # rev u"
    using c by (subst dropWhile_append2) auto
  then have "path_dir (abs_path p) = path_clean (u @ [SLASH])" by (simp only: path_dir_def u(1)) simp
  then show ?thesis using path_clean_comps [OF u(3,2) ds] by (simp add: p)
qed

lemma ancestors_no_link:
  "ancestors_ok fs (abs_path q) ds = Inr () \<Longrightarrow> plain_comps (q @ ds) \<Longrightarrow> tree_ok fs
     \<Longrightarrow> 0 < k \<Longrightarrow> k \<le> length ds \<Longrightarrow> node_at fs (q @ take k ds) \<noteq> Some (FLink t)"
proof (induction ds arbitrary: q k)
  case (Cons d ds)
  have q: "plain_comps (q @ [d])" "plain_comps ((q @ [d]) @ ds)" using Cons.prems(2) by (auto simp: plain_comps_def)
  have lstat: "os_Lstat fs (abs_path (q @ [d])) = sys_Lstat fs [] (q @ [d])"
    by (simp add: os_Lstat_def path_comps_abs [OF q(1)])
  have here: "node_at fs (q @ [d]) \<noteq> Some (FLink t)" for t
  proof
    assume "node_at fs (q @ [d]) = Some (FLink t)"
    from Lstat_exists [OF Cons.prems(3) this q(1)] Cons.prems(1) show False by (simp add: Join_abs [OF q(1)] lstat)
  qed
  have rest: "ancestors_ok fs (abs_path (q @ [d])) ds = Inr ()"
    using Cons.prems(1) by (auto simp: Join_abs [OF q(1)] Let_def split: sum.splits errno.splits node.splits)
  show ?case
  proof (cases k)
    case (Suc j)
    show ?thesis
    proof (cases "j = 0")
      case False
      with Cons.IH [OF rest q(2) Cons.prems(3), of j] Cons.prems(5) Suc show ?thesis by simp
    qed (use here Suc in simp)
  qed (use Cons.prems(4) in simp)
qed simp

lemma checked_link_free:
  assumes "dirs_to fs pl" "tree_ok fs" "plain_comps (pl @ cs)" "cs \<noteq> []"
    and "ensureNoAncestorSymlink fs (abs_path pl) (abs_path (pl @ cs)) = Inr ()"
  shows "link_free fs (pl @ cs)"
proof -
  have pl: "plain_comps pl" "plain_comps cs" using assms(3) by (auto simp: plain_comps_def)
  have split: "split_on SLASH (join [SLASH] cs) = cs" using split_on_join [of cs SLASH] plain_sep_free [OF pl(2)] assms(4) by simp
  have anc: "ancestors_ok fs (abs_path pl) (butlast cs) = Inr ()"
    using assms(5) by (simp add: ensureNoAncestorSymlink_def Rel_below [OF pl assms(4)] split)
  have plain: "plain_comps (pl @ butlast cs)" using plain_butlast [OF assms(3)] assms(4) by (simp add: butlast_append)
  show ?thesis unfolding link_free_def
  proof (intro allI impI)
    fix k t assume k: "k < length (pl @ cs)"
    show "node_at fs (take k (pl @ cs)) \<noteq> Some (FLink t)"
    proof (cases "k \<le> length pl")
      case True
      with assms(1) show ?thesis by (simp add: dirs_to_def)
    next
      case False
      then show ?thesis
        using ancestors_no_link [OF anc plain assms(2), of "k - length pl" t] k by (simp add: take_butlast)
    qed
  qed
qed

lemma dir_below:
  assumes "dirs_to fs pl" "plain_comps (pl @ cs)" "cs \<noteq> []" "link_free fs (pl @ cs)" "tree_ok fs"
    and "os_MkdirAll (path_dir (abs_path (pl @ cs))) fs = (fs', e)"
  shows "kept_outside pl fs fs' \<and> tree_ok fs' \<and> link_free fs' (pl @ cs) \<and> only_dirs_added (length (butlast (pl @ cs))) fs fs'"
proof -
  have p: "plain_comps (butlast (pl @ cs))" by (rule plain_butlast [OF assms(2)])
  have "sys_MkdirAll [] (pl @ butlast cs) fs = (fs', e)"
    using assms(3,6) path_comps_abs [OF p] by (simp add: os_MkdirAll_def path_dir_abs [OF assms(2)] butlast_append)
  from MkdirAll_below [OF assms(1) _ _ this assms(5)] p link_free_butlast [OF assms(4)] assms(3)
  have "kept_outside pl fs fs'" "tree_ok fs'" "only_dirs_added (length (butlast (pl @ cs))) fs fs'" by (simp_all add: butlast_append)
  with only_dirs_link_free [OF this(3) assms(4)] show ?thesis by simp
qed

lemma symlink_below:
  assumes "dirs_to fs pl" "plain_comps (pl @ cs)" "cs \<noteq> []" "link_free fs (pl @ cs)" "tree_ok fs"
    and "extractTarSymlink (abs_path (pl @ cs)) linkname fs = (fs', e)"
  shows "kept_outside pl fs fs' \<and> tree_ok fs'"
proof -
  let ?p = "pl @ cs"
  have start: "start_of fs (abs_path ?p) = []" "path_comps (abs_path ?p) = ?p" for fs by (simp_all add: path_comps_abs [OF assms(2)])
  obtain fs1 e1 where mk: "os_MkdirAll (path_dir (abs_path ?p)) fs = (fs1, e1)" by fastforce
  note m = dir_below [OF assms(1-5) mk]
  obtain fs2 e2 where rm: "os_Remove (abs_path ?p) fs1 = (fs2, e2)" by fastforce
  have r: "kept_outside pl fs1 fs2 \<and> tree_ok fs2 \<and> link_free fs2 ?p"
  proof (cases "locate fs1 [] ?p")
    case (Inr q)
    with locate_plain [OF Inr assms(2)] m assms(3) have "q = ?p" by simp
    with Inr rm m assms(3) tree_drop [of fs1 ?p] kept_outside_drop [of pl ?p fs1] show ?thesis
      by (auto simp: os_Remove_def start sys_Remove_def link_free_def split: option.splits if_splits)
  qed (use rm m in \<open>simp add: os_Remove_def start sys_Remove_def\<close>)
  obtain fs3 e3 where ln: "os_Symlink linkname (abs_path ?p) fs2 = (fs3, e3)" by fastforce
  have l: "kept_outside pl fs2 fs3 \<and> tree_ok fs3"
  proof (cases "locate fs2 [] ?p")
    case (Inr q)
    with locate_plain [OF Inr assms(2)] r assms(3) have q: "q = ?p" by simp
    with locate_parent [OF _ assms(2)] Inr assms(3) have "node_at fs2 (butlast ?p) = Some FDir" by simp
    with q Inr ln r assms(3) tree_put [of fs2 ?p] kept_outside_put [of pl ?p fs2] show ?thesis
      by (auto simp: os_Symlink_def start sys_Symlink_def split: if_splits)
  qed (use ln r in \<open>simp add: os_Symlink_def start sys_Symlink_def\<close>)
  have "fs' \<in> {fs1, fs2, fs3}" using assms(6) by (auto simp: extractTarSymlink_def mk rm ln split: option.splits if_splits)
  with m r l kept_outside_trans show ?thesis by blast
qed

lemma file_below:
  assumes "dirs_to fs pl" "plain_comps (pl @ cs)" "cs \<noteq> []" "link_free fs (pl @ cs)" "tree_ok fs" "w \<le> limit"
    and "extractTarFile (abs_path (pl @ cs)) data sz limit (fs, w) = ((fs', w'), e)"
  shows "kept_outside pl fs fs' \<and> tree_ok fs' \<and> w \<le> w' \<and> w' \<le> limit"
proof (cases "int sz > limit - w")
  case True
  with assms(5-7) show ?thesis by (simp add: extractTarFile_def)
next
  case False
  let ?p = "pl @ cs"
  have start: "start_of fs (abs_path ?p) = []" "path_comps (abs_path ?p) = ?p" for fs by (simp_all add: path_comps_abs [OF assms(2)])
  obtain fs1 e1 where mk: "os_MkdirAll (path_dir (abs_path ?p)) fs = (fs1, e1)" by fastforce
  note m = dir_below [OF assms(1-5) mk]
  show ?thesis
  proof (cases e1)
    case (Some a)
    with False assms(6,7) mk m show ?thesis by (simp add: extractTarFile_def)
  next
    case None
    show ?thesis
    proof (cases "locate fs1 [] ?p")
      case (Inl a)
      with False None assms(6,7) mk m show ?thesis by (simp add: extractTarFile_def os_OpenTrunc_def start sys_OpenTrunc_def)
    next
      case (Inr q)
      with locate_plain [OF Inr assms(2)] m assms(3) have q: "q = ?p" by simp
      with locate_parent [OF _ assms(2)] Inr assms(3) have up: "node_at fs1 (butlast ?p) = Some FDir" by simp
      have put: "kept_outside pl fs (put_node ?p nd fs1)" "node_at fs1 ?p \<noteq> Some FDir \<Longrightarrow> tree_ok (put_node ?p nd fs1)" for nd
        using m kept_outside_trans kept_outside_put [of pl ?p fs1] tree_put [of fs1 ?p] up assms(3) by auto
      have twice: "put_node ?p a (put_node ?p b fs1) = put_node ?p a fs1" for a b by (simp add: put_node_def)
      from q Inr False None assms(6,7) mk m put show ?thesis
        by (auto simp: extractTarFile_def os_OpenTrunc_def start sys_OpenTrunc_def Let_def twice split: option.splits node.splits)
    qed
  qed
qed

lemma header_below:
  assumes "dirs_to fs pl" "tree_ok fs" "w \<le> limit"
    and "extractTarHeader (abs_path pl) hdr data limit (fs, w) = ((fs', w'), e)"
  shows "kept_outside pl fs fs' \<and> tree_ok fs' \<and> w \<le> w' \<and> w' \<le> limit"
proof (cases "tarTarget (abs_path pl) (th_Name hdr)")
  case (Inl a)
  with assms(2-4) show ?thesis by (simp add: extractTarHeader_def)
next
  case (Inr t)
  show ?thesis
  proof (cases t)
    case None
    with Inr assms(2-4) show ?thesis by (simp add: extractTarHeader_def)
  next
    case (Some target)
    have pl: "plain_comps pl" using assms(1) by (simp add: dirs_to_def)
    from tarTarget_below [OF pl] Inr Some obtain cs where
      cs: "cs \<noteq> []" "plain_comps cs" "target = abs_path (pl @ cs)" by blast
    have p: "plain_comps (pl @ cs)" using pl cs(2) by (auto simp: plain_comps_def)
    show ?thesis
    proof (cases "ensureNoAncestorSymlink fs (abs_path pl) target")
      case (Inl a)
      with assms(2-4) Inr Some show ?thesis by (simp add: extractTarHeader_def)
    next
      case ok: (Inr u)
      have lf: "link_free fs (pl @ cs)" using checked_link_free [OF assms(1,2) p cs(1)] ok cs(3) by simp
      obtain fs1 e1 where mk: "os_MkdirAll target fs = (fs1, e1)" by fastforce
      obtain fs2 e2 where ln: "extractTarSymlink target (th_Linkname hdr) fs = (fs2, e2)" by fastforce
      have d: "kept_outside pl fs fs1 \<and> tree_ok fs1"
        using MkdirAll_below [OF assms(1) p lf _ assms(2)] mk cs(3) path_comps_abs [OF p] by (simp add: os_MkdirAll_def)
      have l: "kept_outside pl fs fs2 \<and> tree_ok fs2" using symlink_below [OF assms(1) p cs(1) lf assms(2)] ln cs(3) by simp
      show ?thesis
        using assms(3,4) Inr Some ok mk ln d l file_below [OF assms(1) p cs(1) lf assms(2,3)] cs(3)
        by (auto simp: extractTarHeader_def split: if_splits)
    qed
  qed
qed

lemma entries_below:
  assumes "extract_entries (abs_path pl) limit es (fs, w) = ((fs', w'), e)" "dirs_to fs pl" "tree_ok fs" "w \<le> limit"
  shows "kept_outside pl fs fs' \<and> tree_ok fs' \<and> w \<le> w' \<and> w' \<le> limit"
  using assms
proof (induction es arbitrary: fs w)
  case (Cons x es)
  show ?case
  proof (cases x)
    case None
    with Cons.prems show ?thesis by simp
  next
    case (Some y)
    obtain hdr data where y: "y = (hdr, data)" by fastforce
    obtain fs1 w1 e1 where h: "extractTarHeader (abs_path pl) hdr data limit (fs, w) = ((fs1, w1), e1)" by (metis prod.exhaust)
    note b = header_below [OF Cons.prems(2-4) h]
    show ?thesis
    proof (cases e1)
      case None
      from b have "dirs_to fs1 pl" using kept_outside_dirs Cons.prems(2) by blast
      with Cons.IH [of fs1 w1] Cons.prems(1) Some y h None b kept_outside_trans show ?thesis by fastforce
    qed (use Cons.prems(1) Some y h b in simp)
  qed
qed simp

section \<open>Entries that can be unpacked are\<close>

text \<open>Below the plan directory, the proper prefixes of \<open>cs\<close> are directories or not there yet.\<close>

definition room_for :: "host_fs \<Rightarrow> path \<Rightarrow> path \<Rightarrow> bool" where
  "room_for fs pl cs \<longleftrightarrow> (\<forall>k < length cs. node_at fs (pl @ take k cs) \<in> {None, Some FDir})"

lemma room_link_free:
  assumes "dirs_to fs pl" "room_for fs pl cs"
  shows "link_free fs (pl @ cs)"
  unfolding link_free_def
proof (intro allI impI)
  fix k t assume k: "k < length (pl @ cs)"
  show "node_at fs (take k (pl @ cs)) \<noteq> Some (FLink t)"
  proof (cases "k \<le> length pl")
    case True
    with assms(1) show ?thesis by (simp add: dirs_to_def)
  next
    case False
    with k assms(2) have "node_at fs (pl @ take (k - length pl) cs) \<in> {None, Some FDir}" by (simp add: room_for_def)
    with False show ?thesis by auto
  qed
qed

lemma dir_reached:
  assumes "tree_ok fs" "plain_comps p" "node_at fs p = Some FDir"
  shows "walk fs n [] p = Inr p"
proof -
  have "node_at fs ([] @ take k p) = Some FDir" if "k \<le> length p" for k
    using tree_dirs [OF assms(1,3), of k] assms(3) that by (cases "k = length p") auto
  from walk_dirs [OF assms(2) this] show ?thesis by simp
qed

lemma locate_below_dir:
  assumes "tree_ok fs" "plain_comps p" "p \<noteq> []" "node_at fs (butlast p) = Some FDir"
  shows "locate fs [] p = Inr p"
proof -
  have "last p \<noteq> ''.''" "last p \<noteq> ''..''" using assms(2,3) plain_comp [of "last p"] by (auto simp: plain_comps_def)
  with dir_reached [OF assms(1) plain_butlast [OF assms(2)] assms(4)] assms(3,4) show ?thesis by (simp add: locate_def)
qed

lemma Stat_missing:
  assumes "plain_comps p" "link_free fs p" "node_at fs p = None"
  shows "\<exists>e. sys_Stat fs [] p = Inl e"
proof (cases "walk fs maxLinks [] p")
  case (Inr r)
  have "node_at fs ([] @ take k p) \<noteq> Some (FLink t)" if "k \<le> length p" for k t
    using assms(2,3) that by (cases "k = length p") (auto simp: link_free_def)
  with walk_plain [OF Inr assms(1)] have "r = p" by simp
  with Inr assms(3) show ?thesis by (simp add: sys_Stat_def node_result_def)
qed (simp add: sys_Stat_def)

lemma Mkdir_in_dir:
  assumes "tree_ok fs" "plain_comps p" "p \<noteq> []" "node_at fs (butlast p) = Some FDir" "node_at fs p \<in> {None, Some FDir}"
    and "sys_Mkdir [] p fs = (fs', e)"
  shows "node_at fs' p = Some FDir \<and> (e = None \<or> sys_Lstat fs' [] p = Inr FDir)"
  using assms locate_below_dir [OF assms(1-4)] Lstat_exists [OF assms(1) _ assms(2,3)]
  by (auto simp: sys_Mkdir_def split: if_splits)

lemma MkdirAll_makes:
  assumes "dirs_to fs pl" "tree_ok fs" "plain_comps (pl @ cs)" "room_for fs pl cs" "node_at fs (pl @ cs) \<in> {None, Some FDir}"
  shows "\<exists>fs'. sys_MkdirAll [] (pl @ cs) fs = (fs', None) \<and> node_at fs' (pl @ cs) = Some FDir"
  using assms
proof (induction cs rule: rev_induct)
  case Nil
  then have "node_at fs pl = Some FDir" unfolding dirs_to_def by (metis order_refl take_all)
  with Nil show ?case by (subst sys_MkdirAll.simps) (simp add: Stat_plan)
next
  case (snoc c cs)
  let ?p = "pl @ cs @ [c]"
  show ?case
  proof (cases "node_at fs ?p = Some FDir")
    case True
    with dir_reached [OF snoc.prems(2,3)] show ?thesis
      by (subst sys_MkdirAll.simps) (simp add: sys_Stat_def node_result_def)
  next
    case False
    have plain: "plain_comps (pl @ cs)" using plain_butlast [OF snoc.prems(3)] by (simp add: butlast_append)
    have room: "room_for fs pl cs" "node_at fs (pl @ cs) \<in> {None, Some FDir}"
      using snoc.prems(4) by (auto simp: room_for_def less_Suc_eq)
    have lf: "link_free fs ?p" using room_link_free [OF snoc.prems(1,4)] by simp
    from Stat_missing [OF _ lf] snoc.prems(3,5) False obtain e0 where st: "sys_Stat fs [] ?p = Inl e0" by auto
    from snoc.IH [OF snoc.prems(1,2) plain room] obtain fs1 where
      up: "sys_MkdirAll [] (pl @ cs) fs = (fs1, None)" "node_at fs1 (pl @ cs) = Some FDir" by blast
    have b: "only_dirs_added (length (pl @ cs)) fs fs1" "tree_ok fs1"
      using MkdirAll_below [OF snoc.prems(1) plain room_link_free [OF snoc.prems(1) room(1)] up(1) snoc.prems(2)] by auto
    then have at: "node_at fs1 ?p \<in> {None, Some FDir}" using snoc.prems(5) unfolding only_dirs_added_def by (metis append_assoc insert_iff)
    have first: "(if 1 < length ?p then sys_MkdirAll [] (butlast ?p) fs else (fs, None)) = (fs1, None)"
    proof (cases "1 < length ?p")
      case True
      with up(1) show ?thesis by (simp add: butlast_append)
    next
      case False
      then have "pl @ cs = []" by simp
      with up(1) snoc.prems(1) show ?thesis by (simp add: sys_MkdirAll.simps Stat_plan)
    qed
    obtain fs2 e2 where mk: "sys_Mkdir [] ?p fs1 = (fs2, e2)" by fastforce
    from Mkdir_in_dir [OF b(2) _ _ _ at mk] snoc.prems(3) up(2)
    have m: "node_at fs2 ?p = Some FDir \<and> (e2 = None \<or> sys_Lstat fs2 [] ?p = Inr FDir)" by (simp add: butlast_append)
    show ?thesis
      by (subst sys_MkdirAll.simps) (use st first mk m in \<open>auto simp del: butlast_append split: option.splits\<close>)
  qed
qed

lemma walk_missing:
  "plain_comps cs \<Longrightarrow> (\<And>k. 0 < k \<Longrightarrow> k < length cs \<Longrightarrow> node_at fs (dir @ take k cs) \<in> {None, Some FDir})
     \<Longrightarrow> node_at fs (dir @ cs) = None \<Longrightarrow> cs \<noteq> [] \<Longrightarrow> walk fs n dir cs = Inl ENOENT"
proof (induction cs arbitrary: dir)
  case (Cons c cs)
  have c: "c \<noteq> []" "c \<noteq> ''.''" "c \<noteq> ''..''" using plain_comp [of c] Cons.prems(1) by (auto simp: plain_comps_def)
  show ?case
  proof (cases "node_at fs (dir @ [c])")
    case None
    with c show ?thesis by (simp add: walk.simps(2))
  next
    case (Some nd)
    with Cons.prems(3) have "cs \<noteq> []" by auto
    with Some Cons.prems(2) [of 1] have "nd = FDir" by simp
    moreover have "walk fs n (dir @ [c]) cs = Inl ENOENT"
      using Cons.prems \<open>cs \<noteq> []\<close> Cons.prems(2) [of "Suc k" for k] by (intro Cons.IH) (auto simp: plain_comps_def)
    ultimately show ?thesis using c Some by (simp add: walk.simps(2))
  qed
qed simp

lemma Lstat_missing:
  assumes "tree_ok fs" "plain_comps p" "p \<noteq> []" "node_at fs p = None"
    and "\<And>k. k < length p \<Longrightarrow> node_at fs (take k p) \<in> {None, Some FDir}"
  shows "sys_Lstat fs [] p = Inl ENOENT"
proof -
  have l: "last p \<noteq> ''.''" "last p \<noteq> ''..''" using assms(2,3) plain_comp [of "last p"] by (auto simp: plain_comps_def)
  have b: "node_at fs (butlast p) \<in> {None, Some FDir}" using assms(3) assms(5) [of "length p - 1"] by (simp add: butlast_conv_take)
  show ?thesis
  proof (cases "node_at fs (butlast p)")
    case None
    then have "butlast p \<noteq> []" by (auto simp: node_at_def)
    moreover have "node_at fs ([] @ take k (butlast p)) \<in> {None, Some FDir}" if "k < length (butlast p)" for k
      using assms(5) [of k] that by (simp add: take_butlast)
    ultimately have "walk fs maxLinks [] (butlast p) = Inl ENOENT"
      using None by (intro walk_missing [OF plain_butlast [OF assms(2)]]) simp_all
    with l assms(3) show ?thesis by (simp add: sys_Lstat_def locate_def)
  next
    case (Some nd)
    with b have "node_at fs (butlast p) = Some FDir" by simp
    from locate_below_dir [OF assms(1-3) this] assms(4) show ?thesis by (simp add: sys_Lstat_def node_result_def)
  qed
qed

lemma ancestors_pass:
  "tree_ok fs \<Longrightarrow> plain_comps (q @ ds) \<Longrightarrow> (\<And>k. k \<le> length (q @ ds) \<Longrightarrow> node_at fs (take k (q @ ds)) \<in> {None, Some FDir})
     \<Longrightarrow> ancestors_ok fs (abs_path q) ds = Inr ()"
proof (induction ds arbitrary: q)
  case (Cons d ds)
  have q: "plain_comps (q @ [d])" "plain_comps ((q @ [d]) @ ds)" using Cons.prems(2) by (auto simp: plain_comps_def)
  have lstat: "os_Lstat fs (abs_path (q @ [d])) = sys_Lstat fs [] (q @ [d])"
    by (simp add: os_Lstat_def path_comps_abs [OF q(1)])
  have pre: "node_at fs (take k (q @ [d])) \<in> {None, Some FDir}" if "k \<le> length (q @ [d])" for k
  proof -
    have "take k (q @ d # ds) = take k (q @ [d])" using that by (cases "k \<le> length q") (auto simp: le_Suc_eq)
    with Cons.prems(3) [of k] that show ?thesis by simp
  qed
  have here: "os_Lstat fs (abs_path (q @ [d])) \<in> {Inl ENOENT, Inr FDir}"
  proof (cases "node_at fs (q @ [d])")
    case None
    have "sys_Lstat fs [] (q @ [d]) = Inl ENOENT" by (rule Lstat_missing [OF Cons.prems(1) q(1) _ None pre]) simp_all
    then show ?thesis by (simp add: lstat)
  next
    case (Some nd)
    with pre [of "length (q @ [d])"] have "nd = FDir" by simp
    with Lstat_exists [OF Cons.prems(1) Some q(1)] show ?thesis by (simp add: lstat)
  qed
  have "ancestors_ok fs (abs_path (q @ [d])) ds = Inr ()"
    using Cons.prems(3) by (intro Cons.IH [OF Cons.prems(1) q(2)]) simp
  with here show ?case by (auto simp: Join_abs [OF q(1)] Let_def)
qed simp

lemma check_passes:
  assumes "dirs_to fs pl" "tree_ok fs" "plain_comps (pl @ cs)" "cs \<noteq> []" "room_for fs pl cs"
  shows "ensureNoAncestorSymlink fs (abs_path pl) (abs_path (pl @ cs)) = Inr ()"
proof -
  have pl: "plain_comps pl" "plain_comps cs" using assms(3) by (auto simp: plain_comps_def)
  have split: "split_on SLASH (join [SLASH] cs) = cs" using split_on_join [of cs SLASH] plain_sep_free [OF pl(2)] assms(4) by simp
  have plain: "plain_comps (pl @ butlast cs)" using plain_butlast [OF assms(3)] assms(4) by (simp add: butlast_append)
  have "node_at fs (take k (pl @ butlast cs)) \<in> {None, Some FDir}" if "k \<le> length (pl @ butlast cs)" for k
  proof (cases "k \<le> length pl")
    case True
    with assms(1) show ?thesis by (simp add: dirs_to_def)
  next
    case False
    with that assms(4,5) have "node_at fs (pl @ take (k - length pl) cs) \<in> {None, Some FDir}"
      unfolding room_for_def by (cases cs rule: rev_cases) auto
    moreover have "take (k - length pl) (butlast cs) = take (k - length pl) cs" using that assms(4) by (cases cs rule: rev_cases) auto
    ultimately show ?thesis using False by simp
  qed
  from ancestors_pass [OF assms(2) plain this] show ?thesis
    by (simp add: ensureNoAncestorSymlink_def Rel_below [OF pl assms(4)] split)
qed

lemma rel_name:
  assumes "plain_comps cs" "cs \<noteq> []"
  shows "path_clean (join [SLASH] cs) = join [SLASH] cs" "join [SLASH] cs \<notin> {[], ''.'', ''..''}"
    "\<not> rooted_path (join [SLASH] cs)" "\<not> has_suffix (join [SLASH] cs) [SLASH]"
    "has_prefix (join [SLASH] cs) ''..'' \<Longrightarrow> has_prefix (hd cs) ''..''"
proof -
  let ?n = "join [SLASH] cs"
  have split: "split_on SLASH ?n = cs" using split_on_join [of cs SLASH] plain_sep_free [OF assms(1)] assms(2) by simp
  have special: "split_on SLASH [] = [[]]" "split_on SLASH ''.'' = [''.'']" "split_on SLASH ''..'' = [''..'']" by code_simp+
  have "\<not> plain_comps [[]]" "\<not> plain_comps [''.'']" "\<not> plain_comps [''..'']" by code_simp+
  with split special assms(1) show n: "?n \<notin> {[], ''.'', ''..''}" by fastforce
  show r: "\<not> rooted_path ?n"
  proof
    assume "rooted_path ?n"
    then obtain t where "?n = [] @ SLASH # t" by (auto simp: rooted_path_def has_prefix_iff)
    then have "cs = split_on SLASH [] @ split_on SLASH t" using split split_on_mid [of SLASH "[]" t] by simp
    then have "[] \<in> set cs" using special(1) by simp
    with plain_sep_free [OF assms(1)] show False by blast
  qed
  show "\<not> has_suffix ?n [SLASH]"
  proof
    assume "has_suffix ?n [SLASH]"
    then obtain t where "?n = t @ SLASH # []" by (auto simp: has_suffix_iff)
    then have "cs = split_on SLASH t @ split_on SLASH []" using split split_on_mid [of SLASH t "[]"] by simp
    then have "[] \<in> set cs" using special(1) by simp
    with plain_sep_free [OF assms(1)] show False by blast
  qed
  have "path_comps ?n = cs" using split plain_sep_free [OF assms(1)] by (simp add: path_comps_def filter_id_conv)
  then have "clean_comps ?n = cs"
    using foldl_clean_proper [of cs "rooted_path ?n" "[]"] assms(1) by (simp add: clean_comps_path_comps plain_comps_def)
  then show "path_clean ?n = ?n" using r assms(2) by (simp add: path_clean_def Let_def)
  show "has_prefix (hd cs) ''..''" if "has_prefix ?n ''..''"
  proof (cases cs)
    case (Cons c ds)
    have c: "SLASH \<notin> set c" "c \<noteq> []" using plain_sep_free [OF assms(1)] Cons by auto
    obtain t where t: "?n = c @ t" "t = [] \<or> hd t = SLASH" using Cons by (cases ds) auto
    obtain x xs where x: "c = x # xs" using c(2) by (cases c) auto
    show ?thesis
    proof (cases xs)
      case Nil
      with that t x show ?thesis by (cases t) auto
    next
      case (Cons y ys)
      with that t x \<open>cs = c # ds\<close> show ?thesis by simp
    qed
  qed (use assms(2) in simp)
qed

lemma tarTarget_accepts:
  assumes "plain_comps pl" "plain_comps cs" "cs \<noteq> []" "\<not> has_prefix (hd cs) ''..''"
  shows "tarTarget (abs_path pl) (join [SLASH] cs) = Inr (Some (abs_path (pl @ cs)))"
proof -
  let ?n = "join [SLASH] cs"
  note n = rel_name [OF assms(2,3)]
  have up: "\<not> has_prefix ?n ''..''" using n(5) assms(4) by blast
  then have up': "\<not> has_prefix ?n ''../''" by (auto simp: has_prefix_iff)
  have p: "plain_comps (pl @ cs)" using assms(1,2) by (auto simp: plain_comps_def)
  have "path_comps (abs_path pl @ SLASH # ?n) = path_comps (abs_path pl) @ path_comps ?n" by (simp add: path_comps_def split_on_mid)
  moreover have "path_comps ?n = cs"
    using split_on_join [of cs SLASH] plain_sep_free [OF assms(2)] assms(3) by (simp add: path_comps_def filter_id_conv)
  ultimately have "path_clean (abs_path pl @ SLASH # ?n) = abs_path (pl @ cs)"
    using path_comps_abs [OF assms(1)] path_clean_comps [OF _ _ p] by (simp add: rooted_path_def abs_path_def)
  then have "filepath_Join (abs_path pl) ?n = abs_path (pl @ cs)" using n(2) by (simp add: filepath_Join_def abs_path_def)
  with n(1-3) up up' Rel_below [OF assms(1-3)] show ?thesis by (simp add: tarTarget_def Let_def)
qed

lemma file_written:
  assumes "dirs_to fs pl" "tree_ok fs" "plain_comps (pl @ cs)" "cs \<noteq> []" "room_for fs pl cs"
    and "node_at fs (pl @ cs) = None \<or> node_at fs (pl @ cs) = Some (FReg old)"
    and "sz \<le> length data" "int sz \<le> limit - w"
  shows "\<exists>fs'. extractTarFile (abs_path (pl @ cs)) data sz limit (fs, w) = ((fs', w + int sz), None)
           \<and> node_at fs' (pl @ cs) = Some (FReg (take sz data))"
proof -
  let ?p = "pl @ cs" and ?q = "butlast (pl @ cs)"
  have q: "?q = pl @ butlast cs" using assms(4) by (simp add: butlast_append)
  have plain: "plain_comps (pl @ butlast cs)" using plain_butlast [OF assms(3)] q by simp
  have room: "room_for fs pl (butlast cs)" "node_at fs (pl @ butlast cs) \<in> {None, Some FDir}"
    using assms(4,5) by (cases cs rule: rev_cases; auto simp: room_for_def less_Suc_eq)+
  from MkdirAll_makes [OF assms(1,2) plain room] obtain fs1 where
    mk: "sys_MkdirAll [] ?q fs = (fs1, None)" "node_at fs1 ?q = Some FDir" using q by auto
  have b: "only_dirs_added (length ?q) fs fs1" "tree_ok fs1"
    using MkdirAll_below [OF assms(1) plain room_link_free [OF assms(1) room(1)] _ assms(2), of fs1 None] mk(1) q by auto
  have at: "node_at fs1 ?p \<in> {None, Some (FReg old)}"
    using b(1) [unfolded only_dirs_added_def, rule_format, of ?p] assms(4,6) by (cases cs) auto
  have ne: "?p \<noteq> []" using assms(4) by simp
  have "os_MkdirAll (path_dir (abs_path ?p)) fs = (fs1, None)"
    using mk(1) path_comps_abs [OF plain_butlast [OF assms(3)]] by (simp add: os_MkdirAll_def path_dir_abs [OF assms(3) ne])
  moreover have "os_OpenTrunc (abs_path ?p) fs1 = (put_node ?p (FReg []) fs1, Inr ?p)"
    using locate_below_dir [OF b(2) assms(3) ne mk(2)] at
    by (auto simp: os_OpenTrunc_def sys_OpenTrunc_def path_comps_abs [OF assms(3)])
  ultimately show ?thesis using assms(4,7,8) by (simp add: extractTarFile_def Let_def)
qed

section \<open>Properties\<close>

text \<open>
  C13: No archive that arrives with a push, however it is made, changes anything outside the plan directory: whatever
  its entries name, whatever links it plants first and wherever it stops, every path that does not lie strictly
  below the plan directory holds after the extraction what it held before, and the bytes written stay within the limit.
\<close>

theorem extraction_contained:
  assumes "dirs_to fs pl" "tree_ok fs" "0 \<le> limit"
    and "readBlobsGzipTarCapped entries (abs_path pl) limit fs = ((fs', w), e)"
  shows "(\<forall>p. \<not> below pl p \<longrightarrow> node_at fs' p = node_at fs p) \<and> w \<le> limit"
  using entries_below [OF _ assms(1-3)] assms(4) by (simp add: readBlobsGzipTarCapped_def kept_outside_def)

text \<open>
  C15: The checks do not refuse honest archives: a regular file with a plain relative name whose parents are
  directories or missing, and whose target is missing or a regular file, is written with its content, its parents
  made, and its size counted, as long as it fits the remaining budget.
\<close>

theorem plain_file_extracted:
  assumes "dirs_to fs pl" "tree_ok fs" "plain_comps cs" "cs \<noteq> []" "\<not> has_prefix (hd cs) ''..''" "room_for fs pl cs"
    and "node_at fs (pl @ cs) = None \<or> node_at fs (pl @ cs) = Some (FReg old)"
    and "th_Name hdr = join [SLASH] cs" "th_Typeflag hdr = TypeReg"
    and "th_Size hdr \<le> length data" "w + int (th_Size hdr) \<le> limit"
  shows "\<exists>fs'. extractTarHeader (abs_path pl) hdr data limit (fs, w) = ((fs', w + int (th_Size hdr)), None)
           \<and> node_at fs' (pl @ cs) = Some (FReg (take (th_Size hdr) data))"
proof -
  have pl: "plain_comps pl" using assms(1) by (simp add: dirs_to_def)
  have p: "plain_comps (pl @ cs)" using pl assms(3) by (auto simp: plain_comps_def)
  from file_written [OF assms(1,2) p assms(4,6,7,10), of limit w] assms(11)
  show ?thesis
    using tarTarget_accepts [OF pl assms(3-5)] check_passes [OF assms(1,2) p assms(4,6)] rel_name(4) [OF assms(3,4)] assms(8,9)
    by (simp add: extractTarHeader_def)
qed

definition host_tree :: host_fs where
  "host_tree = \<lparr>hf_nodes = [([''etc''], FDir), ([''tmp''], FDir), ([''tmp'', ''plan''], FDir), ([''etc'', ''passwd''], FReg ''root'')], hf_cwd = []\<rparr>"

lemma host_tree_ok: "tree_ok host_tree" "dirs_to host_tree [''tmp'', ''plan'']"
proof -
  have "node_at host_tree (butlast p) = Some FDir" if "p \<noteq> []" "node_at host_tree p = Some nd" for p nd
    using that by (auto simp: node_at_def host_tree_def split: if_splits)
  then show "tree_ok host_tree" by (simp add: tree_ok_def)
  show "dirs_to host_tree [''tmp'', ''plan'']"
    by (auto simp: dirs_to_def node_at_def host_tree_def plain_comps_def proper_comp_def le_Suc_eq numeral_2_eq_2)
qed

text \<open>A link to \<open>/etc\<close> planted as \<open>blobs\<close>, then a file through it: refused, and \<open>/etc\<close> is what it was.\<close>

definition planted :: "(tar_header \<times> string) option list" where
  "planted =
     [Some (\<lparr>th_Name = ''blobs'', th_Typeflag = TypeSymlink, th_Linkname = ''/etc'', th_Size = 0\<rparr>, []),
      Some (\<lparr>th_Name = ''blobs/passwd'', th_Typeflag = TypeReg, th_Linkname = [], th_Size = 1\<rparr>, ''x'')]"

lemma planted_run:
  "readBlobsGzipTarCapped planted (abs_path [''tmp'', ''plan'']) 9 host_tree =
     ((put_node [''tmp'', ''plan'', ''blobs''] (FLink ''/etc'') host_tree, 0), Some (UnderSymlink ''/tmp/plan/blobs''))"
  by code_simp

theorem extraction_contained_witness:
  "node_at (fst (fst (readBlobsGzipTarCapped planted (abs_path [''tmp'', ''plan'']) 9 host_tree))) [''etc'', ''passwd'']
     = Some (FReg ''root'')"
proof -
  have "\<not> below [''tmp'', ''plan''] [''etc'', ''passwd'']" by code_simp
  moreover have "node_at host_tree [''etc'', ''passwd''] = Some (FReg ''root'')" by code_simp
  ultimately show ?thesis using extraction_contained [OF host_tree_ok(2,1) _ planted_run] by (simp add: planted_run)
qed

theorem plain_file_extracted_witness:
  "\<exists>fs'. extractTarHeader (abs_path [''tmp'', ''plan'']) \<lparr>th_Name = ''blobs/a'', th_Typeflag = TypeReg, th_Linkname = [], th_Size = 2\<rparr>
            ''hi'' 9 (host_tree, 3) = ((fs', 5), None)
          \<and> node_at fs' [''tmp'', ''plan'', ''blobs'', ''a''] = Some (FReg ''hi'')"
proof -
  have "room_for host_tree [''tmp'', ''plan''] [''blobs'', ''a'']"
    by (auto simp: room_for_def node_at_def host_tree_def less_Suc_eq numeral_2_eq_2)
  moreover have "node_at host_tree [''tmp'', ''plan'', ''blobs'', ''a''] = None" by code_simp
  moreover have "plain_comps [''blobs'', ''a'']" by code_simp
  ultimately show ?thesis
    using plain_file_extracted [OF host_tree_ok(2,1), of "[''blobs'', ''a'']" "[]"
        "\<lparr>th_Name = ''blobs/a'', th_Typeflag = TypeReg, th_Linkname = [], th_Size = 2\<rparr>" "''hi''" 3 9] by simp
qed

end
