(* ===== verification/PushFrame.thy ===== *)
theory PushFrame
  imports PushBlobs SecretValues PlanCodec
begin

text \<open>
  The frame of a push (\<open>plan/pushwire.go\<close>, \<open>plan/pushwire_key.go\<close>): magic line, key line, blobs section, plan
  section. The stream is the list of its bytes not read yet. \<open>stream_lib\<close> is what \<open>compress/gzip\<close>,
  \<open>archive/tar\<close> and \<open>encoding/json\<close> make of bytes; nothing is assumed of it unless a theorem says so.
\<close>

section \<open>Reading a frame\<close>

text \<open>
  \<open>sl_blobs\<close>: the entries the tar reader finds in the gzip stream at the head of the bytes, and what it left unread;
  \<open>None\<close> when no gzip stream starts there. \<open>sl_gunzip\<close>: the chunks a gzip reader delivers, and whether it ends
  with \<open>io.EOF\<close>. \<open>sl_lines\<close>: the lines of a JSONL text.
\<close>

record stream_lib =
  sl_blobs :: "string \<Rightarrow> ((tar_header \<times> string) option list \<times> string) option"
  sl_gunzip :: "string \<Rightarrow> (string list \<times> bool) option"
  sl_lines :: "string \<Rightarrow> wire_line list"

datatype frame_error =
    EmptyStream
  | MagicUnread
  | BadMagic string
  | ErrPushKeyNotAccepted
  | ErrPushKeyLine
  | BlobsLineUnread
  | NoPlanDir
  | BlobsGzip
  | BlobsFailed push_error
  | BadBlobsLine string
  | MarkerUnread
  | BadMarker string
  | GunzipFailed
  | ErrPushPlanTooLarge
  | BadPlan codec_error

record push_payload =
  pp_Ops :: "Op list"
  pp_PlanDir :: string
  pp_Key :: "string option"

definition pushMagic :: string where "pushMagic = ''GONF-PUSH/1''"
definition pushMagicV2 :: string where "pushMagicV2 = ''GONF-PUSH/2''"
definition pushKeyPrefix :: string where "pushKeyPrefix = ''key ''"
definition maxPushKeyLine :: nat where "maxPushKeyLine = 512"
definition MaxDecompressedPushPlan :: int where "MaxDecompressedPushPlan = 67108864"

text \<open>\<open>bufio.Reader.ReadString\<close> at a newline: the line with its newline, and the bytes behind it.\<close>

definition read_line :: "string \<Rightarrow> (string \<times> string) option" where
  "read_line s = (case index_byte s NL of None \<Rightarrow> None | Some i \<Rightarrow> Some (take (Suc i) s, drop (Suc i) s))"

text \<open>\<open>unicode.IsSpace\<close> or \<open>unicode.IsControl\<close>.\<close>

definition isKeyLineBreaker :: "nat \<Rightarrow> bool" where
  "isKeyLineBreaker r \<longleftrightarrow>
     r \<in> {0x20, 0x85, 0xA0, 0x1680, 0x2028, 0x2029, 0x202F, 0x205F, 0x3000} \<or> 0x2000 \<le> r \<and> r \<le> 0x200A
       \<or> r < 0x20 \<or> 0x7F \<le> r \<and> r \<le> 0x9F"

function rune_values :: "string \<Rightarrow> nat list" where
  "rune_values [] = []"
| "rune_values (c # s) = fst (decode_rune (c # s)) # rune_values (drop (snd (decode_rune (c # s)) - 1) s)"
  by pat_completeness auto
termination by (relation "measure length") auto

definition NewPushKey :: "string \<Rightarrow> (frame_error, string) result" where
  "NewPushKey l =
     (if l = [] \<or> length l > maxPushKeyLine \<or> list_ex isKeyLineBreaker (rune_values l) then Inl ErrPushKeyLine else Inr l)"

text \<open>
  \<open>ReadSlice\<close> fails on a line that does not fit its buffer of 4096 bytes; such a line is longer than
  \<open>maxPushKeyLine\<close>, and every failure is \<open>ErrPushKeyLine\<close>.
\<close>

definition readPushKeyLine :: "string \<Rightarrow> (frame_error, string \<times> string) result" where
  "readPushKeyLine s =
     (case index_byte s NL of
        None \<Rightarrow> Inl ErrPushKeyLine
      | Some i \<Rightarrow>
          if Suc i > maxPushKeyLine then Inl ErrPushKeyLine
          else if \<not> has_prefix (take i s) pushKeyPrefix then Inl ErrPushKeyLine
          else bind_res (NewPushKey (trim_prefix (take i s) pushKeyPrefix)) (\<lambda>k. Inr (k, drop (Suc i) s)))"

definition readPushHeader :: "bool \<Rightarrow> string \<Rightarrow> (frame_error, string option \<times> string) result" where
  "readPushHeader acceptKey s =
     (case read_line s of
        None \<Rightarrow> Inl MagicUnread
      | Some (l, s') \<Rightarrow>
          if trim_space l = pushMagic then Inr (None, s')
          else if trim_space l = pushMagicV2 then
            (if \<not> acceptKey then Inl ErrPushKeyNotAccepted
             else bind_res (readPushKeyLine s') (\<lambda>(k, s''). Inr (Some k, s'')))
          else Inl (BadMagic (trim_space l)))"

text \<open>The plan directory of the payload and the rest of the stream.\<close>

definition readPushBlobsPhase :: "stream_lib \<Rightarrow> string \<Rightarrow> string \<Rightarrow> host_fs \<Rightarrow> host_fs \<times> (frame_error, string \<times> string) result" where
  "readPushBlobsPhase lib planDir s fs =
     (case read_line s of
        None \<Rightarrow> (fs, Inl BlobsLineUnread)
      | Some (l, s') \<Rightarrow>
          if trim_space l = ''blobs 0'' then (fs, Inr ([], s'))
          else if trim_space l = ''blobs 1'' then
            (if planDir = [] then (fs, Inl NoPlanDir)
             else (case sl_blobs lib s' of
                None \<Rightarrow> (fs, Inl BlobsGzip)
              | Some (entries, s'') \<Rightarrow>
                  (case readBlobsGzipTar entries planDir fs of
                     ((fs', _), Some e) \<Rightarrow> (fs', Inl (BlobsFailed e))
                   | ((fs', _), None) \<Rightarrow> (fs', Inr (planDir, s'')))))
          else (fs, Inl (BadBlobsLine (trim_space l))))"

fun readCapped :: "int \<Rightarrow> int \<Rightarrow> string \<Rightarrow> string list \<Rightarrow> bool \<Rightarrow> (frame_error, string) result" where
  "readCapped limit sofar buf [] ends = (if ends then Inr buf else Inl GunzipFailed)"
| "readCapped limit sofar buf (chunk # chunks) ends =
     (let sofar' = sofar + int (length chunk) in
      if length chunk > 0 \<and> sofar' > limit then Inl ErrPushPlanTooLarge
      else readCapped limit sofar' (buf @ chunk) chunks ends)"

definition maybeGunzip :: "stream_lib \<Rightarrow> string \<Rightarrow> int \<Rightarrow> (frame_error, string) result" where
  "maybeGunzip lib raw limit =
     (if length raw < 2 \<or> raw ! 0 \<noteq> CHR 0x1F \<or> raw ! 1 \<noteq> CHR 0x8B then Inr raw
      else (case sl_gunzip lib raw of
        None \<Rightarrow> Inl GunzipFailed
      | Some (chunks, ends) \<Rightarrow> readCapped limit 0 [] chunks ends))"

definition decode_bytes :: "stream_lib \<Rightarrow> string \<Rightarrow> (frame_error, Op list) result" where
  "decode_bytes lib raw = map_err BadPlan (DecodePlan (sl_lines lib raw))"

definition readPushPlanSection :: "stream_lib \<Rightarrow> int \<Rightarrow> string \<Rightarrow> (frame_error, Op list) result" where
  "readPushPlanSection lib maxPlan s =
     (case read_line s of
        None \<Rightarrow> Inl MarkerUnread
      | Some (l, s') \<Rightarrow>
          if trim_space l \<noteq> ''plan'' then Inl (BadMarker (trim_space l))
          else bind_res (maybeGunzip lib s' maxPlan) (decode_bytes lib))"

definition decodeBareJSONL :: "stream_lib \<Rightarrow> string \<Rightarrow> (frame_error, push_payload) result" where
  "decodeBareJSONL lib s = bind_res (decode_bytes lib s) (\<lambda>ops. Inr \<lparr>pp_Ops = ops, pp_PlanDir = [], pp_Key = None\<rparr>)"

definition decodePush :: "stream_lib \<Rightarrow> int \<Rightarrow> string \<Rightarrow> bool \<Rightarrow> string \<Rightarrow> host_fs \<Rightarrow> host_fs \<times> (frame_error, push_payload) result" where
  "decodePush lib maxPlan planDir acceptKey s fs =
     (if s = [] then (fs, Inl EmptyStream)
      else if hd s = CHR ''{'' \<or> hd s = NL then (fs, decodeBareJSONL lib s)
      else (case readPushHeader acceptKey s of
        Inl e \<Rightarrow> (fs, Inl e)
      | Inr (key, s1) \<Rightarrow>
          (case readPushBlobsPhase lib planDir s1 fs of
             (fs', Inl e) \<Rightarrow> (fs', Inl e)
           | (fs', Inr (dir, s2)) \<Rightarrow>
               (fs', bind_res (readPushPlanSection lib maxPlan s2) (\<lambda>ops.
                  Inr \<lparr>pp_Ops = ops, pp_PlanDir = dir, pp_Key = key\<rparr>)))))"

definition DecodePush :: "stream_lib \<Rightarrow> string \<Rightarrow> string \<Rightarrow> host_fs \<Rightarrow> host_fs \<times> (frame_error, push_payload) result" where
  "DecodePush lib planDir s fs = decodePush lib MaxDecompressedPushPlan planDir False s fs"

definition DecodePushWithKey :: "stream_lib \<Rightarrow> string \<Rightarrow> string \<Rightarrow> host_fs \<Rightarrow> host_fs \<times> (frame_error, push_payload) result" where
  "DecodePushWithKey lib planDir s fs = decodePush lib MaxDecompressedPushPlan planDir True s fs"

section \<open>Looking at a frame before it is read\<close>

text \<open>\<open>bytes.SplitN\<close> at one byte.\<close>

fun split_n :: "nat \<Rightarrow> char \<Rightarrow> string \<Rightarrow> string list" where
  "split_n 0 c s = []"
| "split_n (Suc 0) c s = [s]"
| "split_n (Suc (Suc n)) c s =
     (case index_byte s c of None \<Rightarrow> [s] | Some i \<Rightarrow> take i s # split_n (Suc n) c (drop (Suc i) s))"

definition PushHasBlobs :: "string \<Rightarrow> bool" where
  "PushHasBlobs s \<longleftrightarrow>
     (if s = [] \<or> hd s = CHR ''{'' \<or> hd s = NL then False
      else
        (let ls = split_n 4 NL s; blobsIdx = (if trim_space (ls ! 0) = pushMagicV2 then 2 else 1) in
         if length ls \<le> blobsIdx then False else trim_space (ls ! blobsIdx) = ''blobs 1''))"

definition PushIsKeyed :: "string \<Rightarrow> bool" where
  "PushIsKeyed s \<longleftrightarrow> (case cut s NL of (l, _, found) \<Rightarrow> found \<and> trim_space l = pushMagicV2)"

section \<open>Writing a frame\<close>

text \<open>
  \<open>gz\<close> and \<open>print\<close> are the gzip and the JSON writer; a store with blobs is the bytes \<open>writeBlobsGzipTar\<close>
  makes of it. The result is what was written, and the error that ended the writing.
\<close>

definition writePushBlobs :: "string option \<Rightarrow> string" where
  "writePushBlobs mem = (case mem of None \<Rightarrow> ''blobs 0'' @ [NL] | Some sec \<Rightarrow> ''blobs 1'' @ [NL] @ sec)"

definition encodePushFrame :: "(string \<Rightarrow> string) \<Rightarrow> (wire_line list \<Rightarrow> string) \<Rightarrow> string \<Rightarrow> string \<Rightarrow> Op list \<Rightarrow> string option \<Rightarrow> string \<times> frame_error option" where
  "encodePushFrame gz print magic keyLine ops mem =
     (let out = magic @ [NL] @ (if keyLine \<noteq> [] then pushKeyPrefix @ keyLine @ [NL] else []) @ writePushBlobs mem @ ''plan'' @ [NL] in
      case EncodePlan ops of
        Inl e \<Rightarrow> (out, Some (BadPlan e))
      | Inr doc \<Rightarrow> (out @ gz (print doc), None))"

definition EncodePush :: "(string \<Rightarrow> string) \<Rightarrow> (wire_line list \<Rightarrow> string) \<Rightarrow> Op list \<Rightarrow> string option \<Rightarrow> string \<times> frame_error option" where
  "EncodePush gz print ops mem = encodePushFrame gz print pushMagic [] ops mem"

definition EncodePushWithKey :: "(string \<Rightarrow> string) \<Rightarrow> (wire_line list \<Rightarrow> string) \<Rightarrow> Op list \<Rightarrow> string option \<Rightarrow> string \<Rightarrow> string \<times> frame_error option" where
  "EncodePushWithKey gz print ops mem key =
     (if key = [] then ([], Some ErrPushKeyLine) else encodePushFrame gz print pushMagicV2 key ops mem)"

section \<open>Lines\<close>

lemma strip_newline:
  "strip_front go_spaces (s @ [NL]) = (if strip_front go_spaces s = [] then [] else strip_front go_spaces s @ [NL])"
proof (induction "length s" arbitrary: s rule: less_induct)
  case less
  show ?case
  proof (cases "s = []")
    case True
    have "strip_front go_spaces [NL] = []" "strip_front go_spaces [] = []" by code_simp+
    with True show ?thesis by simp
  next
    case False
    let ?P = "\<lambda>s w. w \<noteq> [] \<and> has_prefix s w"
    have single: "w = [NL]" if "w \<in> set go_spaces" "last w = NL" for w using that by (auto simp: go_spaces_def)
    have "?P (s @ [NL]) w = ?P s w" if "w \<in> set go_spaces" for w
    proof -
      have "has_prefix s w" if "s @ [NL] = w @ t" for t
      proof (cases t rule: rev_cases)
        case Nil
        with that single [OF \<open>w \<in> set go_spaces\<close>] have "w = [NL]" by (metis append_Nil2 last_snoc)
        with that Nil False show ?thesis by simp
      next
        case (snoc u x)
        with that show ?thesis by (simp add: has_prefix_iff)
      qed
      then show ?thesis by (auto simp: has_prefix_iff)
    qed
    then have same: "find (?P (s @ [NL])) go_spaces = find (?P s) go_spaces" by (intro find_cong) auto
    show ?thesis
    proof (cases "find (?P s) go_spaces")
      case None
      with same False show ?thesis by (simp add: strip_front.simps [of go_spaces])
    next
      case (Some w)
      then have w: "w \<noteq> []" "has_prefix s w" by (auto simp: find_Some_iff)
      then have len: "length w \<le> length s" by (auto simp: has_prefix_iff)
      have "length (drop (length w) s) < length s" using w(1) False by simp
      from less [OF this] show ?thesis
        using Some same len by (simp add: strip_front.simps [of go_spaces s] strip_front.simps [of go_spaces "s @ [NL]"])
    qed
  qed
qed

lemma trim_space_newline [simp]: "trim_space (s @ [NL]) = trim_space s"
proof -
  have "strip_front (map rev go_spaces) (NL # s') = strip_front (map rev go_spaces) s'" for s'
    by (subst strip_front.simps) (simp add: go_spaces_def)
  moreover have "trim_space [] = []" by code_simp
  ultimately show ?thesis by (simp add: trim_space_def strip_newline)
qed

lemma trim_space_keeps_front:
  assumes "\<And>w. w \<in> set go_spaces \<Longrightarrow> hd w \<noteq> c"
  shows "trim_space (c # s) = [] \<or> hd (trim_space (c # s)) = c"
proof -
  have "strip_front go_spaces (c # s) = c # s"
    by (rule strip_front_stop) (use assms in \<open>fastforce simp: neq_Nil_conv\<close>)
  then have t: "trim_space (c # s) = rev (strip_front (map rev go_spaces) (rev (c # s)))" by (simp only: trim_space_def)
  obtain u where "rev (c # s) = u @ strip_front (map rev go_spaces) (rev (c # s))" using strip_front_suffix by blast
  then have "c # s = trim_space (c # s) @ rev u" unfolding t by (metis rev_append rev_rev_ident)
  then obtain v where "c # s = trim_space (c # s) @ v" by blast
  then show ?thesis by (metis append_Cons hd_Cons_tl list.sel(1))
qed

lemma read_line_iff: "read_line s = Some (l, s') \<longleftrightarrow> (\<exists>k. l = k @ [NL] \<and> s = k @ NL # s' \<and> NL \<notin> set k)"
proof -
  have "read_line (k @ NL # s') = Some (k @ [NL], s')" if "NL \<notin> set k" for k
    using index_byte_append_mid [OF that, of s'] by (simp add: read_line_def)
  moreover have "\<exists>k. l = k @ [NL] \<and> s = k @ NL # s' \<and> NL \<notin> set k" if "read_line s = Some (l, s')"
  proof -
    from that obtain i where i: "index_byte s NL = Some i" "l = take (Suc i) s" "s' = drop (Suc i) s"
      by (auto simp: read_line_def split: option.splits)
    then have "i < length s" "s ! i = NL" "NL \<notin> set (take i s)" by (simp_all add: index_byte_Some_iff)
    with i(2,3) show ?thesis using id_take_nth_drop [of i s] by (intro exI [of _ "take i s"]) (simp add: take_Suc_conv_app_nth)
  qed
  ultimately show ?thesis by blast
qed

lemma read_line_mid [simp]: "NL \<notin> set k \<Longrightarrow> read_line (k @ NL # s) = Some (k @ [NL], s)"
  by (auto simp: read_line_iff)

section \<open>What the decoder may touch\<close>

lemma split_n_line:
  assumes "NL \<notin> set k"
  shows "split_n 4 NL (k @ NL # s) = k # split_n 3 NL s" "split_n 3 NL (k @ NL # s) = k # split_n 2 NL s"
    "split_n 2 NL (k @ NL # s) = k # split_n 1 NL s"
  using index_byte_append_mid [OF assms] by (simp_all add: numeral_eq_Suc)

lemma header_line:
  assumes "readPushHeader acceptKey s = Inr (key, s1)"
  shows "\<exists>k s'. s = k @ NL # s' \<and> NL \<notin> set k \<and>
           (trim_space k = pushMagic \<and> key = None \<and> s1 = s'
              \<or> trim_space k = pushMagicV2 \<and> acceptKey \<and> (\<exists>k2. NL \<notin> set k2 \<and> s' = k2 @ NL # s1))"
proof -
  from assms obtain l s' where l: "read_line s = Some (l, s')" by (auto simp: readPushHeader_def split: option.splits)
  then obtain k where k: "l = k @ [NL]" "s = k @ NL # s'" "NL \<notin> set k" by (auto simp: read_line_iff)
  have "\<exists>k2. NL \<notin> set k2 \<and> s' = k2 @ NL # s1" if key: "readPushKeyLine s' = Inr (x, s1)" for x
  proof -
    from key obtain i where i: "index_byte s' NL = Some i" "s1 = drop (Suc i) s'"
      by (auto simp: readPushKeyLine_def res_simps split: option.splits if_splits)
    then have "read_line s' = Some (take (Suc i) s', s1)" by (simp add: read_line_def)
    then show ?thesis by (auto simp: read_line_iff)
  qed
  moreover have "pushMagic \<noteq> pushMagicV2" by code_simp
  ultimately have "trim_space k = pushMagic \<and> key = None \<and> s1 = s'
      \<or> trim_space k = pushMagicV2 \<and> acceptKey \<and> (\<exists>k2. NL \<notin> set k2 \<and> s' = k2 @ NL # s1)"
    using assms l k(1) by (auto simp: readPushHeader_def res_simps split: if_splits)
  with k(2,3) show ?thesis by blast
qed

lemma blobs_phase_kept:
  assumes "readPushBlobsPhase lib planDir s fs = (fs', r)" "fs' \<noteq> fs"
  shows "\<exists>k s'. s = k @ NL # s' \<and> NL \<notin> set k \<and> trim_space k = ''blobs 1''"
proof -
  from assms obtain l s' where l: "read_line s = Some (l, s')" by (auto simp: readPushBlobsPhase_def split: option.splits)
  then obtain k where k: "l = k @ [NL]" "s = k @ NL # s'" "NL \<notin> set k" by (auto simp: read_line_iff)
  with assms l have "trim_space k = ''blobs 1''" by (auto simp: readPushBlobsPhase_def split: if_splits)
  with k show ?thesis by blast
qed

lemma decode_touches:
  assumes "fst (decodePush lib maxPlan planDir acceptKey s fs) \<noteq> fs"
  shows "PushHasBlobs s"
proof -
  from assms have s: "s \<noteq> []" "\<not> (hd s = CHR ''{'' \<or> hd s = NL)" by (auto simp: decodePush_def)
  from assms s obtain key s1 where h: "readPushHeader acceptKey s = Inr (key, s1)"
    by (auto simp: decodePush_def split: sum.splits)
  obtain fs' r where b: "readPushBlobsPhase lib planDir s1 fs = (fs', r)" by fastforce
  with assms s h have "fs' \<noteq> fs" by (auto simp: decodePush_def split: sum.splits)
  from blobs_phase_kept [OF b this] obtain k1 s2 where k1: "s1 = k1 @ NL # s2" "NL \<notin> set k1" "trim_space k1 = ''blobs 1''" by blast
  from header_line [OF h] obtain k s' where k: "s = k @ NL # s'" "NL \<notin> set k" and
    cases: "trim_space k = pushMagic \<and> s1 = s' \<or> trim_space k = pushMagicV2 \<and> (\<exists>k2. NL \<notin> set k2 \<and> s' = k2 @ NL # s1)" by blast
  from cases show ?thesis
  proof (elim disjE conjE exE)
    assume m: "trim_space k = pushMagic" "s1 = s'"
    then have "s = k @ NL # k1 @ NL # s2" using k(1) k1(1) by simp
    then have "split_n 4 NL s = k # k1 # split_n 2 NL s2" using k(2) k1(2) by (simp add: split_n_line)
    with m(1) s k1(3) show ?thesis by (simp add: PushHasBlobs_def pushMagic_def pushMagicV2_def)
  next
    fix k2 assume m: "trim_space k = pushMagicV2" "NL \<notin> set k2" "s' = k2 @ NL # s1"
    then have "s = k @ NL # k2 @ NL # k1 @ NL # s2" using k(1) k1(1) by simp
    then have "split_n 4 NL s = k # k2 # k1 # split_n 1 NL s2" using k(2) k1(2) m(2) by (simp add: split_n_line)
    with m(1) s k1(3) show ?thesis by (simp add: PushHasBlobs_def)
  qed
qed

lemma keyed_refused:
  assumes "PushIsKeyed s"
  shows "decodePush lib maxPlan planDir False s fs = (fs, Inl ErrPushKeyNotAccepted)"
proof -
  from assms obtain i where i: "index_byte s NL = Some i" "trim_space (take i s) = pushMagicV2"
    by (auto simp: PushIsKeyed_def cut_def split: option.splits)
  then have at: "read_line s = Some (take i s @ [NL], drop (Suc i) s)"
    using index_byte_Some_iff [of s NL i] by (simp add: read_line_def take_Suc_conv_app_nth)
  have "trim_space [] \<noteq> pushMagicV2" by code_simp
  with i(2) obtain c t where c: "take i s = c # t" by (cases "take i s") auto
  then have s: "s \<noteq> []" "hd s = c" by (cases s; cases i; simp)+
  have "c \<noteq> NL" using i(1) c index_byte_Some_iff [of s NL i] by auto
  moreover have "c \<noteq> CHR ''{''"
  proof
    assume "c = CHR ''{''"
    moreover have "hd w \<noteq> CHR ''{''" if "w \<in> set go_spaces" for w using that by (auto simp: go_spaces_def)
    ultimately show False using trim_space_keeps_front [of c t] i(2) c by (auto simp: pushMagicV2_def)
  qed
  ultimately show ?thesis
    using s at i(2) by (simp add: decodePush_def readPushHeader_def pushMagic_def pushMagicV2_def)
qed

section \<open>What was pushed arrives\<close>

lemma readCapped_whole:
  "sofar + int (length (concat chunks)) \<le> limit \<Longrightarrow> readCapped limit sofar buf chunks True = Inr (buf @ concat chunks)"
  by (induction chunks arbitrary: sofar buf) (auto simp: Let_def)

lemma readCapped_bounded:
  "readCapped limit sofar buf chunks ends = Inr out \<Longrightarrow> sofar = int (length buf) \<Longrightarrow> 0 \<le> limit \<Longrightarrow> sofar \<le> limit
     \<Longrightarrow> out = buf @ concat chunks \<and> int (length out) \<le> limit"
proof (induction chunks arbitrary: sofar buf)
  case (Cons c cs)
  have "readCapped limit (sofar + int (length c)) (buf @ c) cs ends = Inr out" "sofar + int (length c) \<le> limit"
    using Cons.prems by (auto simp: Let_def split: if_splits)
  from Cons.IH [OF this(1)] this(2) Cons.prems(2,3) show ?case by auto
qed (simp split: if_splits)

text \<open>The blobs section unpacks: its reader finds the entries and reads it to its end, and the entries extract.\<close>

definition blobs_arrive :: "stream_lib \<Rightarrow> string option \<Rightarrow> string \<Rightarrow> host_fs \<Rightarrow> host_fs \<Rightarrow> bool" where
  "blobs_arrive lib mem dir fs fs' \<longleftrightarrow>
     (case mem of
        None \<Rightarrow> fs' = fs
      | Some sec \<Rightarrow> dir \<noteq> [] \<and>
          (\<exists>entries w. (\<forall>s. sl_blobs lib (sec @ s) = Some (entries, s)) \<and> readBlobsGzipTar entries dir fs = ((fs', w), None)))"

lemma blobs_phase_arrives:
  assumes "blobs_arrive lib mem dir fs fs'"
  shows "readPushBlobsPhase lib dir (writePushBlobs mem @ s) fs = (fs', Inr (if mem = None then [] else dir, s))"
proof -
  have t: "trim_space ''blobs 0'' = ''blobs 0''" "trim_space ''blobs 1'' = ''blobs 1''" by code_simp+
  have l: "read_line (''blobs 0'' @ NL # u) = Some (''blobs 0'' @ [NL], u)" "read_line (''blobs 1'' @ NL # u) = Some (''blobs 1'' @ [NL], u)" for u
    by (intro read_line_mid; simp)+
  show ?thesis
    using assms l t trim_space_newline [of "''blobs 0''"] trim_space_newline [of "''blobs 1''"]
    by (cases mem) (auto simp: blobs_arrive_def readPushBlobsPhase_def writePushBlobs_def)
qed

lemma plan_section_arrives:
  assumes "take 2 z = [CHR 0x1F, CHR 0x8B]" "sl_gunzip lib z = Some (chunks, True)"
    and "concat chunks = text" "int (length text) \<le> maxPlan" "sl_lines lib text = doc" "DecodePlan doc = Inr ops"
  shows "readPushPlanSection lib maxPlan (''plan'' @ NL # z) = Inr ops"
proof -
  have t: "trim_space ''plan'' = ''plan''" by code_simp
  have l: "read_line (''plan'' @ NL # u) = Some (''plan'' @ [NL], u)" for u by (intro read_line_mid) simp
  obtain y where "z = CHR 0x1F # CHR 0x8B # y"
    using assms(1) by (cases "z"; cases "tl z") auto
  then have "maybeGunzip lib z maxPlan = Inr text"
    using assms(2-4) readCapped_whole [of 0 chunks maxPlan "[]"] by (simp add: maybeGunzip_def)
  then show ?thesis
    using l [of "z"] t trim_space_newline [of "''plan''"] assms(5,6) by (simp add: readPushPlanSection_def decode_bytes_def)
qed

lemma decode_rune_ascii: "byte_in s 0 0 0x7F \<Longrightarrow> decode_rune s = (byte (s ! 0), 1)"
  by (simp add: decode_rune_def Let_def)

lemma decode_rune_tail:
  assumes "0 < k" "k < snd (decode_rune s)" "k < length s"
  shows "0x80 \<le> byte (s ! k)"
proof -
  have "k = 1 \<or> k = 2 \<or> k = 3" using assms(1,2) by (auto simp: decode_rune_def Let_def split: if_splits)
  then show ?thesis
    using assms(2,3) by (elim disjE) (simp_all add: decode_rune_def Let_def byte_in_def split: if_splits)
qed

lemma ascii_is_rune: "c \<in> set s \<Longrightarrow> byte c \<le> 0x7F \<Longrightarrow> byte c \<in> set (rune_values s)"
proof (induction s rule: rune_values.induct)
  case (2 d s)
  let ?w = "snd (decode_rune (d # s)) - 1"
  show ?case
  proof (cases "c \<in> set (drop ?w s)")
    case False
    with 2 obtain k where k: "k < length (d # s)" "(d # s) ! k = c" "k < snd (decode_rune (d # s))"
    proof -
      from \<open>c \<in> set (d # s)\<close> False consider "c = d" | "c \<in> set (take ?w s)"
        by (metis Un_iff append_take_drop_id set_ConsD set_append)
      then show ?thesis
      proof cases
        case 1
        then show ?thesis using that [of 0] decode_rune_width [of "d # s"] by simp
      next
        case 2
        then obtain j where "j < ?w" "j < length s" "s ! j = c" by (auto simp: in_set_conv_nth)
        then show ?thesis using that [of "Suc j"] by simp
      qed
    qed
    with 2(3) decode_rune_tail [of k "d # s"] have "k = 0" by (cases k) auto
    with k(2) 2(3) have "decode_rune (d # s) = (byte c, 1)" using decode_rune_ascii [of "d # s"] by (simp add: byte_in_def)
    then show ?thesis by simp
  qed (use 2 in simp)
qed simp

lemma push_key_line: "NewPushKey key = Inr k \<Longrightarrow> k = key \<and> key \<noteq> [] \<and> NL \<notin> set key"
proof -
  assume key: "NewPushKey key = Inr k"
  have "isKeyLineBreaker (byte NL)" "byte NL \<le> 0x7F" by (simp_all add: isKeyLineBreaker_def)
  then have "list_ex isKeyLineBreaker (rune_values key)" if "NL \<in> set key"
    using ascii_is_rune [OF that] unfolding list_ex_iff by blast
  with key show ?thesis by (auto simp: NewPushKey_def split: if_splits)
qed

lemma key_line_read:
  assumes "NewPushKey key = Inr k" "length key \<le> 507"
  shows "readPushKeyLine (pushKeyPrefix @ key @ NL # s) = Inr (key, s)"
proof -
  have "NL \<notin> set (pushKeyPrefix @ key)" using push_key_line [OF assms(1)] by (simp add: pushKeyPrefix_def)
  from index_byte_append_mid [OF this, of s] assms push_key_line [OF assms(1)] show ?thesis
    by (auto simp: readPushKeyLine_def maxPushKeyLine_def pushKeyPrefix_def trim_prefix_def)
qed

text \<open>
  The limit counts the prefix and the newline here, but not in \<open>NewPushKey\<close>: a key of 508 to 512 bytes is
  accepted when a frame is written and refused when it is read.
\<close>

lemma long_key_unreadable:
  assumes "NewPushKey key = Inr k" "507 < length key"
  shows "readPushKeyLine (pushKeyPrefix @ key @ NL # s) = Inl ErrPushKeyLine"
proof -
  have "NL \<notin> set (pushKeyPrefix @ key)" using push_key_line [OF assms(1)] by (simp add: pushKeyPrefix_def)
  from index_byte_append_mid [OF this, of s] assms(2) show ?thesis
    by (simp add: readPushKeyLine_def maxPushKeyLine_def pushKeyPrefix_def)
qed

text \<open>
  Nothing drains the gzip stream of the blobs section after the last tar entry. What its reader leaves unread is
  taken for the plan marker, and the push fails.
\<close>

lemma unread_tail_refused:
  assumes "sl_blobs lib (sec @ s) = Some (entries, c # tail @ s)" "s = ''plan'' @ NL # z" "NL \<notin> set (c # tail)"
    and "\<And>w. w \<in> set go_spaces \<Longrightarrow> hd w \<noteq> c" "c \<noteq> CHR ''p''" "dir \<noteq> []"
    and "readBlobsGzipTar entries dir fs = ((fs', w), None)"
  shows "\<exists>s'. readPushBlobsPhase lib dir (''blobs 1'' @ NL # sec @ s) fs = (fs', Inr (dir, s'))
           \<and> (\<exists>m. readPushPlanSection lib maxPlan s' = Inl (BadMarker m))"
proof -
  have t: "trim_space ''blobs 1'' = ''blobs 1''" by code_simp
  have l: "read_line (''blobs 1'' @ NL # u) = Some (''blobs 1'' @ [NL], u)" for u by (intro read_line_mid) simp
  have "read_line ((c # tail @ ''plan'') @ NL # z) = Some ((c # tail @ ''plan'') @ [NL], z)"
    using assms(3) by (intro read_line_mid) auto
  moreover have "trim_space (c # tail @ ''plan'') \<noteq> ''plan''"
    using trim_space_keeps_front [of c "tail @ ''plan''"] assms(4,5) by auto
  ultimately have "\<exists>m. readPushPlanSection lib maxPlan (c # tail @ s) = Inl (BadMarker m)"
    using trim_space_newline [of "c # tail @ ''plan''"] assms(2) by (simp add: readPushPlanSection_def)
  then show ?thesis
    using assms(1,6,7) t l [of "sec @ s"] trim_space_newline [of "''blobs 1''"] by (simp add: readPushBlobsPhase_def)
qed

section \<open>Properties\<close>

text \<open>
  C14: A push stream touches the plan directory only when it says so up front: unless \<open>PushHasBlobs\<close> reports a blobs
  section, the decoder changes nothing on disk, whatever the stream holds, so a caller that made no directory needs
  none; and every stream that \<open>PushIsKeyed\<close> recognises is refused, untouched, by a decoder that cannot honour a key.
\<close>

theorem decode_touches_only_announced:
  "(\<not> PushHasBlobs s \<longrightarrow> fst (decodePush lib maxPlan planDir acceptKey s fs) = fs)
     \<and> (PushIsKeyed s \<longrightarrow> decodePush lib maxPlan planDir False s fs = (fs, Inl ErrPushKeyNotAccepted))"
  using decode_touches keyed_refused by blast


section \<open>Witnesses\<close>

text \<open>A library whose gzip streams are a marker before the bytes and which knows the text of one document.\<close>

definition toy_gz :: "string \<Rightarrow> string" where
  "toy_gz s = [CHR 0x1F, CHR 0x8B] @ s"

definition toy_entries :: "(tar_header \<times> string) option list" where
  "toy_entries = [Some (\<lparr>th_Name = ''blobs/a'', th_Typeflag = TypeReg, th_Linkname = [], th_Size = 2\<rparr>, ''hi'')]"

definition toy_lib :: "wire_line list \<Rightarrow> stream_lib" where
  "toy_lib doc =
     \<lparr>sl_blobs = (\<lambda>s. if has_prefix s ''tar!'' then Some (toy_entries, drop 4 s) else None),
      sl_gunzip = (\<lambda>s. Some ([drop 2 s], True)), sl_lines = (\<lambda>s. doc)\<rparr>"

lemma toy_run:
  "snd (readBlobsGzipTar toy_entries (abs_path [''tmp'', ''plan'']) host_tree) = None
     \<and> node_at (fst (fst (readBlobsGzipTar toy_entries (abs_path [''tmp'', ''plan'']) host_tree))) [''tmp'', ''plan'', ''blobs'', ''a''] = Some (FReg ''hi'')"
  by code_simp

lemma toy_blobs: "\<exists>fs'. blobs_arrive (toy_lib doc) (Some ''tar!'') (abs_path [''tmp'', ''plan'']) host_tree fs'
    \<and> node_at fs' [''tmp'', ''plan'', ''blobs'', ''a''] = Some (FReg ''hi'')"
proof -
  obtain fs' w e where run: "readBlobsGzipTar toy_entries (abs_path [''tmp'', ''plan'']) host_tree = ((fs', w), e)" by (metis prod.exhaust)
  have e: "e = None" using toy_run by (simp add: run)
  have "abs_path [''tmp'', ''plan''] \<noteq> []" by code_simp
  moreover have "\<forall>s. sl_blobs (toy_lib doc) (''tar!'' @ s) = Some (toy_entries, s)" by (simp add: toy_lib_def)
  ultimately have "blobs_arrive (toy_lib doc) (Some ''tar!'') (abs_path [''tmp'', ''plan'']) host_tree fs'"
    using run e unfolding blobs_arrive_def option.case by blast
  then show ?thesis using toy_run unfolding run by auto
qed

lemma encode_whole:
  "EncodePlan ops = Inr doc \<Longrightarrow> key \<noteq> [] \<Longrightarrow>
     EncodePushWithKey gz print ops mem key = (fst (EncodePushWithKey gz print ops mem key), None)"
  by (simp add: EncodePushWithKey_def encodePushFrame_def Let_def)


text \<open>A frame without blobs, and a keyed one that stops behind its magic line.\<close>

theorem decode_touches_only_announced_witness:
  "fst (decodePush (toy_lib []) 9 ''/tmp'' True (''GONF-PUSH/1'' @ NL # ''blobs 0'' @ [NL]) host_tree) = host_tree
     \<and> decodePush (toy_lib []) 9 ''/tmp'' False (''GONF-PUSH/2'' @ [NL]) host_tree = (host_tree, Inl ErrPushKeyNotAccepted)"
proof -
  have "\<not> PushHasBlobs (''GONF-PUSH/1'' @ NL # ''blobs 0'' @ [NL])" "PushIsKeyed (''GONF-PUSH/2'' @ [NL])" by code_simp+
  then show ?thesis using decode_touches_only_announced by blast
qed

end
