(* ===== verification/Spec2Isabelle.thy ===== *)
theory Spec2Isabelle
  imports PlanSplit PlanApply PlanCodec ApplyChunks DryRun BlockEdit Reloads RecordNeeds ApiApply CronTable SecretRelay PushFrame
begin

text \<open>
  gonf is a configuration management tool: a Go program declares resources (files, commands,
  services, ...), the declarations become a plan (a JSONL document of ops), and the plan is applied on
  the local host or pushed to others. This library models the parts of the Go code that decide what
  happens and in which order, and proves what they promise. Every theory is a translation of the
  files its own head names; the paths below are relative to \<open>src/\<close>.

  How the program works. Recording (\<open>api/\<close>) turns declarations into ops. An op has a kind, the fields
  all kinds share and a payload of its kind; on the wire it is one flat JSON object. A recorded plan
  declares the least schema version its features need. Before it is applied it is ordered, cut into
  chunks of equal privilege, and checked; a process without privilege re-executes itself for the
  elevated chunks. Applying walks a chunk's lines, evaluates \<open>when\<close> conditions, expands destination
  paths and calls the handler of each op's kind. A handler probes the host, acts when something has
  to change, and notes the outcome; change gates of later resources read these notes.

  The shared theories.
  \<^item> \<open>Prelude\<close>: results with an error side (a Go call returns \<open>Inr\<close> a value or \<open>Inl\<close> an error),
    loops that stop at the first error, first positions, order in a list, indexes by key.
  \<^item> \<open>GoStrings\<close>, \<open>GoFormat\<close>: the functions of Go's \<open>strings\<close>, \<open>path\<close> and \<open>strconv\<close> that the code
    calls, over byte strings, with their laws.
  \<^item> \<open>Kahn\<close>: Kahn's topological sort over any ready queue. The queue is the locale \<open>ready_queue\<close>,
    interpreted on the sorted slice of \<open>plan/apply.go\<close> (\<open>PlanSort\<close>) and on the binary-heap order of
    \<open>api/apply_order.go\<close> (\<open>DepGraph\<close>). Its fuel is the number of nodes, one per emitted node;
    \<open>kahn_drains\<close> shows that it is enough.
  \<^item> \<open>Reach\<close>: the breadth-first search of \<open>plan/pathdeps.go\<close>, complete and sound; fuel one round per
    node.

  The plan.
  \<^item> \<open>PlanTypes\<close> (\<open>plan/types.go\<close>, \<open>plan/configset.go\<close>, \<open>plan/op_payload.go\<close>, \<open>plan/sensitive.go\<close>,
    \<open>internal/platform/platform.go\<close>): kinds, ops, payloads, schema versions; the declared version is
    the least that covers the plan.
  \<^item> \<open>PlanWire\<close> (\<open>plan/wire.go\<close>, \<open>plan/op_payload.go\<close>): the flat wire record, both directions, and the
    check that no field of another kind is set; both round trips.
  \<^item> \<open>PlanCodec\<close> (\<open>plan/codec.go\<close>): the document, header check and blank lines included. JSON text is
    \<open>encoding/json\<close>'s: a line is the record of its fields.
  \<^item> \<open>PlanSplit\<close> (\<open>plan/split.go\<close>, \<open>plan/require.go\<close>, \<open>plan/negated_os.go\<close>,
    \<open>plan/service_enable_only.go\<close>): privilege chunks, requirement stubs and the whole-plan checks.
    Splitting keeps the ops and their order, keeps \<open>when\<close> blocks whole and never puts an elevated op
    into an unprivileged chunk; each check refuses exactly what it names.
  \<^item> \<open>PathDeps\<close> (\<open>plan/pathdeps.go\<close>): edges from an op to the ops that create the nearest directory
    above it; they never close a cycle.
  \<^item> \<open>PlanSort\<close> (\<open>sortedApplyOrder\<close> and below in \<open>plan/apply.go\<close>): dependencies first, only between
    control ops, stable, refused exactly for later dependencies and cycles.
  \<^item> \<open>PlanApply\<close> (the rest of \<open>plan/apply.go\<close>, \<open>internal/sealeddir\<close>): predicates, the walk over the
    lines and the pre-flight. Resource handlers and \<open>os.Stat\<close> are parameters.
  \<^item> \<open>PathToken\<close> (\<open>internal/pathtoken\<close>): expansion of \<open>${HOME}\<close>.

  Applying from a recipe.
  \<^item> \<open>DepGraph\<close>, \<open>ApplyOrder\<close> (\<open>api/apply_order.go\<close>), \<open>ApplyLevels\<close> (\<open>api/apply_levels.go\<close>),
    \<open>ApplyConflicts\<close> (\<open>api/apply_conflicts.go\<close>): the order that needs few privilege chunks: the
    dependency graph, Tarjan's components, levels, the change watches that can stay inside one chunk
    and those that cannot. The order is a permutation with dependencies first, is refused exactly for
    a cycle that it names, and always passes the pre-flight of \<open>PlanSplit\<close>. Tarjan's recursion and the
    searches carry fuel bounded by the number of nodes or states.
  \<^item> \<open>ApplyChunks\<close> (\<open>api/apply_chunks.go\<close>, \<open>api/resource.go\<close>, \<open>api/preflight.go\<close>): the chunk loop and the
    re-exec argv; the in-process engine never sees an elevated op.
  \<^item> \<open>Packager\<close> (\<open>api/packager.go\<close>, \<open>blobName\<close> in \<open>api/plan.go\<close>): a draft becomes the op of its kind's
    handler; file and directory sources travel inline or as blobs, and no two resources share a blob.
  \<^item> \<open>ApiApply\<close> (\<open>Apply\<close> in \<open>api/resource.go\<close>): the whole apply, from the registered resources to the
    chunks; it applies each exactly once, and never after a recording that failed.
  \<^item> \<open>ShellWords\<close> (\<open>internal/shellwords\<close>, \<open>internal/privilege\<close>): splitting and quoting command lines.

  Recording a plan.
  \<^item> \<open>Graphs\<close>: acyclic relations under the edges an operation adds.
  \<^item> \<open>Repository\<close> (\<open>resource/repository.go\<close>, \<open>amend.go\<close>, \<open>multi.go\<close>, \<open>internal/declerr\<close>): the resources one
    scope of a recipe registers, their drafts, when contexts, amendments of what is registered and the
    sticky first declaration error. \<open>recipe_step\<close> is the step relation of a recipe; its invariant is
    well-formedness and freedom from dependency cycles.
  \<^item> \<open>Reloads\<close> (\<open>resource/systemd/daemon_reload.go\<close>, \<open>merge.go\<close>, \<open>join.go\<close>): declaring daemon reloads, one
    per bus and scope; every declaration is a sequence of recipe steps.
  \<^item> \<open>Tasks\<close> (\<open>api/task.go\<close>, \<open>task_alias.go\<close>, \<open>task_needs.go\<close>, \<open>aggregate.go\<close>, \<open>destination_guard.go\<close>):
    the task registry, aliases, Needs and the members of aggregates.
  \<^item> \<open>Recording\<close> (\<open>plan/record.go\<close>, \<open>api/plan.go\<close>, \<open>when_hostname.go\<close>, \<open>when_path.go\<close>): the recorded ops
    and the session. The functions that call each other while task bodies run are one function over
    jobs, which terminates because every nested task leaves one name fewer off the stack. \<open>RecordOps\<close>
    shows what it appends, \<open>RecordNeeds\<close> in which order bodies run.

  Resources on a host.
  \<^item> \<open>Report\<close> (\<open>resource/report.go\<close>, \<open>mutate.go\<close>, \<open>converge.go\<close>, \<open>embed/embed.go\<close>): the outcome log, the
    two helpers every mutation goes through, change gates.
  \<^item> \<open>Services\<close> (\<open>resource/service/\<close>, \<open>resource/systemd/client.go\<close>): the four service managers over a
    command runner, WithFlags, the verb policy; one apply settles a service.
  \<^item> \<open>DryRun\<close> (\<open>resource/cmd/cmd.go\<close>, \<open>resource/systemd/daemon_reload.go\<close>): commands and daemon
    reloads, and what a dry run promises: it changes nothing and predicts the real run.
  \<^item> \<open>RcLex\<close>, \<open>RcConf\<close> (\<open>resource/service/rcconf_lex.go\<close>, \<open>rcconf.go\<close>, \<open>netbsd_flags.go\<close>): an sh lexer and
    the rewriting of one variable in rc.conf. Lexing returns on every text (\<open>lexRc_total\<close>: the fuel,
    one round per byte left, never runs out); flags that were set read back.
  \<^item> \<open>LineEdit\<close>, \<open>BlockEdit\<close> (\<open>resource/file/lineedit.go\<close>, \<open>blockedit.go\<close>): edits of single lines and
    managed blocks. The locale \<open>line_editor\<close> is the contract of an edit that owns some lines; keyed,
    removed and added lines interpret it, and \<open>two_editors\<close> composes them. One pass converges.
  \<^item> \<open>CronFields\<close>, \<open>Crontab\<close>, \<open>CronJob\<close> (\<open>resource/cron/\<close>): schedules, block markers, adoption of unmanaged
    entries, merging a job's block into a crontab, the options and validation of a job, its draft and its
    handler. The crontab program is a parameter (\<open>crontab_client\<close>); what is relied on is
    \<open>crontab_program\<close>: it prints the table of a user and replaces it.
  \<^item> \<open>CrontabSegs\<close>: a well-formed table as a list of blocks and plain lines, on which the merge is a filter
    and an insertion; \<open>CronTable\<close>: what one apply makes of the table, the environment of a job, settling.

  Secrets.
  \<^item> \<open>SecretMatch\<close>, \<open>SecretValues\<close> (\<open>secret/values.go\<close>): the forms of a secret that are tracked, the
    Knuth-Morris-Pratt search for them, which payloads contain one, redaction. The search finds every
    occurrence, and redaction is a byte-by-byte reference.
  \<^item> \<open>Relay\<close> (\<open>internal/logger/redact.go\<close>): forwarding another process's output line by line through a
    redactor. The redactor is the locale \<open>redactor_laws\<close>; inside it no byte of a protected form gets out.
  \<^item> \<open>SecretFlush\<close> (\<open>FlushPoint\<close> in \<open>secret/values.go\<close>): where an overlong line may be cut. A cut splits no
    protected occurrence, or leaves each byte of a split one under an occurrence behind it. The search for
    that cut ends because it moves to an earlier start each time.
  \<^item> \<open>SecretRelay\<close>: \<open>redactor_laws\<close> interpreted on every registry a process can build.

  Pushing a plan.
  \<^item> \<open>FileTree\<close>: a file system with symbolic links, path resolution and the functions of \<open>os\<close> the
    extraction calls. Resolution follows 40 links at most, as Linux does, and ends because each link
    followed is counted and otherwise the path gets shorter.
  \<^item> \<open>PushBlobs\<close> (the extraction in \<open>plan/pushwire.go\<close>): unpacking an archive nobody vouches for. The plan
    directory is given by its physical path. Nothing outside it changes; honest files arrive.
  \<^item> \<open>PushFrame\<close> (the rest of \<open>plan/pushwire.go\<close>, \<open>plan/pushwire_key.go\<close>): the frame around plan, key and
    blobs, what the two look-ahead functions say of it, and its round trip.

  Not modelled. Text of error messages and log lines (errors are constructors that carry the facts the
  message prints), I/O errors of the modelled file reads and writes, concurrency (the code holds
  mutexes around single-goroutine state), encryption and signing (\<open>plan/seal/\<close> calls age and ed25519),
  the command line and SSH transport (\<open>internal/cli/\<close>, \<open>internal/remote/\<close>: processes, flags and
  terminals), the reading of secret stores, packages, users, templates and the remaining resource kinds.
  PROJECT.json lists every part with its reason.
\<close>

end
